(* ===== verification/Rpc_Prelude.thy ===== *)
theory Rpc_Prelude
  imports Main "HOL-Library.Word"
begin

text \<open>
  Shared ground of the development: the C++ integer types as machine words, the result type
  of code that can abort, the little-endian view of an integer in memory (the source takes
  \<open>(char *) &val\<close> on x86-64), and the generic lemmas the component theories use.
\<close>

unbundle bit_operations_syntax

section \<open>Automation collections\<close>

named_theorems res_simps \<open>equations for the abort-or-value monad\<close>
named_theorems le_simps \<open>little-endian byte representation of integers\<close>

section \<open>Types\<close>

type_synonym byte = "8 word"
type_synonym i8 = "8 word"
type_synonym i16 = "16 word"
type_synonym i32 = "32 word"
type_synonym i64 = "64 word"
type_synonym addr = nat

text \<open>
  Ways in which the code stops instead of returning: a failed \<open>verify\<close> aborts in every build,
  a failed \<open>assert\<close> aborts in the debug build; the other values stand for undefined behaviour
  the model refuses to give a meaning to, a thread that waits for itself, and a fuel bound that ran out.
\<close>

datatype err =
    VerifyFailed | AssertFailed | NullDeref | OutOfBounds | UseAfterFree | BadAlloc | IntOverflow
  | DivByZero | Deadlock | OutOfFuel

type_synonym 'a res = "err + 'a"

definition rbind :: "'a res \<Rightarrow> ('a \<Rightarrow> 'b res) \<Rightarrow> 'b res" where
  "rbind m f = (case m of Inl e \<Rightarrow> Inl e | Inr x \<Rightarrow> f x)"

definition verify :: "bool \<Rightarrow> unit res" where
  "verify b = (if b then Inr () else Inl VerifyFailed)"

definition assertion :: "bool \<Rightarrow> unit res" where
  "assertion b = (if b then Inr () else Inl AssertFailed)"

lemma rbind_Inl [simp, res_simps]: "rbind (Inl e) f = Inl e"
  by (simp add: rbind_def)

lemma rbind_Inr [simp, res_simps]: "rbind (Inr x) f = f x"
  by (simp add: rbind_def)

lemma rbind_eq_Inr_iff [res_simps]: "rbind m f = Inr y \<longleftrightarrow> (\<exists>x. m = Inr x \<and> f x = Inr y)"
  by (cases m) auto

lemma rbind_assoc: "rbind (rbind m f) g = rbind m (\<lambda>x. rbind (f x) g)"
  by (cases m) auto

lemma rbind_cong [fundef_cong]:
  "m = m' \<Longrightarrow> (\<And>x. m' = Inr x \<Longrightarrow> f x = f' x) \<Longrightarrow> rbind m f = rbind m' f'"
  by (cases m') auto

lemma verify_True [simp]: "verify True = Inr ()"
  by (simp add: verify_def)

lemma verify_False [simp]: "verify False = Inl VerifyFailed"
  by (simp add: verify_def)

lemma assertion_True [simp]: "assertion True = Inr ()"
  by (simp add: assertion_def)

lemma assertion_False [simp]: "assertion False = Inl AssertFailed"
  by (simp add: assertion_def)

lemma verify_eq_Inr_iff [simp, res_simps]: "verify b = Inr u \<longleftrightarrow> b"
  by (simp add: verify_def)

lemma assertion_eq_Inr_iff [simp, res_simps]: "assertion b = Inr u \<longleftrightarrow> b"
  by (simp add: assertion_def)

section \<open>Little-endian memory representation\<close>

text \<open>\<open>byte_at w k\<close> is \<open>((char *) &w)[k]\<close>; \<open>from_le\<close> reads an integer back from its bytes.\<close>

definition byte_at :: "'a::len word \<Rightarrow> nat \<Rightarrow> byte" where
  "byte_at w k = ucast (drop_bit (8 * k) w)"

definition to_le :: "nat \<Rightarrow> 'a::len word \<Rightarrow> byte list" where
  "to_le n w = map (byte_at w) [0..<n]"

fun from_le :: "byte list \<Rightarrow> 'a::len word" where
  "from_le [] = 0"
| "from_le (b # bs) = ucast b OR push_bit 8 (from_le bs)"

lemma bit_byte_at [le_simps]:
  "bit (byte_at w k) n \<longleftrightarrow> n < 8 \<and> bit (w :: 'a::len word) (8 * k + n)"
  by (auto simp: byte_at_def bit_simps bit_imp_le_length)

lemma length_to_le [simp]: "length (to_le n w) = n"
  by (simp add: to_le_def)

lemma nth_to_le [simp]: "k < n \<Longrightarrow> to_le n w ! k = byte_at w k"
  by (simp add: to_le_def)

lemma to_le_eq_Nil_iff [simp]: "to_le n w = [] \<longleftrightarrow> n = 0"
  by (simp add: to_le_def)

lemma bit_from_le:
  "bit (from_le bs :: 'a::len word) n \<longleftrightarrow>
     n < LENGTH('a) \<and> n div 8 < length bs \<and> bit (bs ! (n div 8)) (n mod 8)"
proof (induction bs arbitrary: n)
  case Nil
  then show ?case by simp
next
  case (Cons b bs)
  show ?case
  proof (cases "n < 8")
    case True
    then show ?thesis by (auto simp: bit_simps)
  next
    case False
    then obtain k where k: "n = k + 8" by (metis add.commute le_Suc_ex not_less)
    have high: "\<not> bit b (k + 8)" using bit_imp_le_length [of b "k + 8"] by auto
    have "(k + 8) div 8 = Suc (k div 8)" "(k + 8) mod 8 = k mod 8" by auto
    then show ?thesis using high Cons.IH [of k] by (auto simp: k bit_simps)
  qed
qed

lemma from_le_to_le [simp]:
  assumes "LENGTH('a::len) \<le> 8 * k"
  shows "from_le (to_le k w) = (w :: 'a word)"
proof (rule bit_word_eqI)
  fix n assume n: "n < LENGTH('a)"
  with assms have "n div 8 < k" by (simp add: less_mult_imp_div_less mult.commute)
  with n show "bit (from_le (to_le k w) :: 'a word) n \<longleftrightarrow> bit w n"
    by (simp add: bit_from_le bit_byte_at)
qed

lemma to_le_from_le:
  assumes "length bs = k" and "8 * k \<le> LENGTH('a::len)"
  shows "to_le k (from_le bs :: 'a word) = bs"
proof (rule nth_equalityI)
  show "length (to_le k (from_le bs :: 'a word)) = length bs" using assms by simp
next
  fix i assume "i < length (to_le k (from_le bs :: 'a word))"
  then have i: "i < k" by simp
  show "to_le k (from_le bs :: 'a word) ! i = bs ! i"
  proof (rule bit_word_eqI)
    fix n assume n: "n < LENGTH(8)"
    have "8 * i + n < 8 * k" using i n by simp
    with assms have "8 * i + n < LENGTH('a)" by simp
    with i n assms show "bit (to_le k (from_le bs :: 'a word) ! i) n \<longleftrightarrow> bit (bs ! i) n"
      by (simp add: bit_byte_at bit_from_le)
  qed
qed

section \<open>Signed ranges as bits\<close>

text \<open>
  An integer in \<open>[-2^k, 2^k)\<close> has all its bits from \<open>k\<close> on equal to its sign bit: what a
  truncated, sign-extended encoding relies on.
\<close>

lemma sint_range_sign_bits:
  fixes v :: "'a::len word"
  assumes "- (2 ^ k) \<le> sint v" and "sint v < 2 ^ k" and "k \<le> n" and "n < LENGTH('a)"
  shows "bit v n \<longleftrightarrow> sint v < 0"
proof -
  have st: "signed_take_bit k (sint v) = sint v"
    using assms(1,2) by (simp add: signed_take_bit_int_eq_self)
  have "bit (sint v) n \<longleftrightarrow> bit (signed_take_bit k (sint v)) n" by (simp add: st)
  also have "\<dots> \<longleftrightarrow> bit (sint v) k" using assms(3) by (simp add: bit_signed_take_bit_iff)
  also have "\<dots> \<longleftrightarrow> sint v < 0"
    using signed_take_bit_negative_iff [of k "sint v"] by (simp add: st)
  finally have "bit (sint v) n \<longleftrightarrow> sint v < 0" .
  moreover have "bit (sint v) n \<longleftrightarrow> bit v n"
    using assms(4) by (auto simp: bit_sint_iff)
  ultimately show ?thesis by blast
qed

section \<open>Sums over a list\<close>

lemma sum_list_update_add:
  fixes f :: "'a \<Rightarrow> 'b::comm_monoid_add"
  assumes "i < length xs"
  shows "f (xs ! i) + sum_list (map f (xs[i := y])) = f y + sum_list (map f xs)"
proof -
  have u: "xs[i := y] = take i xs @ y # drop (Suc i) xs" using assms by (rule upd_conv_take_nth_drop)
  have x: "xs = take i xs @ xs ! i # drop (Suc i) xs" using assms by (rule id_take_nth_drop)
  have "sum_list (map f xs) = sum_list (map f (take i xs @ xs ! i # drop (Suc i) xs))" using x by simp
  with u show ?thesis by (simp add: algebra_simps)
qed

end
