(* ===== verification/Chunk_Heap.thy ===== *)
theory Chunk_Heap
  imports Rpc_Prelude "HOL-Library.Multiset"
begin

text \<open>
  The reference-counted byte arrays of \<open>rpc/buffer.h\<close> (\<open>raw_bytes\<close>, with \<open>RefCounted\<close> of
  \<open>base/basetypes.h\<close>), the \<open>chunk\<close> windows into them, and the two system calls a chunk makes.
  Arrays live in an explicit heap, because \<open>Marshal::read_from_marshal\<close> lets two buffers share
  one. A fresh array is not initialised: its bytes are the field \<open>garbage\<close> of the heap, about
  which nothing is assumed. An array is a function from indices to bytes with a size; that no
  access leaves the array is a theorem, not a property of the representation.
\<close>

section \<open>Reference-counted arrays\<close>

record raw_bytes =
  ptr :: "nat \<Rightarrow> byte"
  raw_size :: nat
  refcnt :: int

record heap =
  cells :: "addr \<Rightarrow> raw_bytes option"
  brk :: addr
  garbage :: "addr \<Rightarrow> nat \<Rightarrow> byte"

definition min_size :: nat where
  "min_size = 8192"

text \<open>Reading an object that was deleted is the error \<open>UseAfterFree\<close>.\<close>

definition deref :: "heap \<Rightarrow> addr \<Rightarrow> raw_bytes res" where
  "deref h a = (case cells h a of None \<Rightarrow> Inl UseAfterFree | Some r \<Rightarrow> Inr r)"

definition put_cell :: "addr \<Rightarrow> raw_bytes \<Rightarrow> heap \<Rightarrow> heap" where
  "put_cell a r h = h\<lparr>cells := (cells h)(a \<mapsto> r)\<rparr>"

definition memcpy_in :: "nat \<Rightarrow> byte list \<Rightarrow> (nat \<Rightarrow> byte) \<Rightarrow> (nat \<Rightarrow> byte)" where
  "memcpy_in off p f = (\<lambda>i. if off \<le> i \<and> i < off + length p then p ! (i - off) else f i)"

definition memcpy_out :: "(nat \<Rightarrow> byte) \<Rightarrow> nat \<Rightarrow> nat \<Rightarrow> byte list" where
  "memcpy_out f off n = map f [off..<off + n]"

definition raw_new :: "nat \<Rightarrow> heap \<Rightarrow> addr \<times> heap" where
  "raw_new sz h = (let a = brk h in
     (a, (put_cell a \<lparr>ptr = garbage h a, raw_size = max sz min_size, refcnt = 1\<rparr> h)
           \<lparr>brk := Suc a\<rparr>))"

definition raw_new_copy :: "byte list \<Rightarrow> heap \<Rightarrow> addr \<times> heap" where
  "raw_new_copy p h = (let a = brk h in
     (a, (put_cell a \<lparr>ptr = memcpy_in 0 p (garbage h a), raw_size = max (length p) min_size,
                      refcnt = 1\<rparr> h)
           \<lparr>brk := Suc a\<rparr>))"

definition ref_copy :: "addr \<Rightarrow> heap \<Rightarrow> heap res" where
  "ref_copy a h = rbind (deref h a) (\<lambda>r. Inr (put_cell a (r\<lparr>refcnt := refcnt r + 1\<rparr>) h))"

definition release :: "addr \<Rightarrow> heap \<Rightarrow> heap res" where
  "release a h = rbind (deref h a) (\<lambda>r.
     let n = refcnt r - 1 in
     rbind (verify (0 \<le> n)) (\<lambda>_.
       Inr (if n = 0 then h\<lparr>cells := (cells h)(a := None)\<rparr>
            else put_cell a (r\<lparr>refcnt := n\<rparr>) h)))"

section \<open>System calls\<close>

text \<open>
  A descriptor in non-blocking mode. \<open>rx\<close> is what will arrive, in order; \<open>rd_sched\<close> is what the
  kernel answers to the successive calls: \<open>k \<le> 0\<close> is returned as it is (end of file or error),
  \<open>k > 0\<close> hands over at most \<open>k\<close> bytes; with nothing left the call fails with \<open>-1\<close>, as
  \<open>EAGAIN\<close> does. \<open>tx\<close> collects what was written; \<open>wr_sched\<close> bounds each write in the same way.
\<close>

record in_fd =
  rx :: "byte list"
  rd_sched :: "int list"

record out_fd =
  tx :: "byte list"
  wr_sched :: "int list"

definition sys_read :: "in_fd \<Rightarrow> nat \<Rightarrow> int \<times> byte list \<times> in_fd" where
  "sys_read fd n = (case rd_sched fd of
       [] \<Rightarrow> (- 1, [], fd)
     | k # ks \<Rightarrow>
         if k \<le> 0 then (k, [], fd\<lparr>rd_sched := ks\<rparr>)
         else let got = take (min n (nat k)) (rx fd) in
           if got = [] then (- 1, [], fd\<lparr>rd_sched := ks\<rparr>)
           else (int (length got), got, fd\<lparr>rd_sched := ks, rx := drop (length got) (rx fd)\<rparr>))"

definition sys_write :: "out_fd \<Rightarrow> byte list \<Rightarrow> int \<times> out_fd" where
  "sys_write fd p = (case wr_sched fd of
       [] \<Rightarrow> (- 1, fd)
     | k # ks \<Rightarrow>
         if k \<le> 0 then (k, fd\<lparr>wr_sched := ks\<rparr>)
         else let put = take (nat k) p in
           (int (length put), fd\<lparr>wr_sched := ks, tx := tx fd @ put\<rparr>))"

section \<open>Chunks\<close>

text \<open>
  The field \<open>next\<close> of a chunk is the order of the chunks in the list that owns them.
\<close>

record chunk =
  data :: addr
  read_idx :: nat
  write_idx :: nat

text \<open>The two assertions at the head of every member function, and the array they look at.\<close>

definition chunk_chk :: "heap \<Rightarrow> chunk \<Rightarrow> raw_bytes res" where
  "chunk_chk h c = rbind (deref h (data c)) (\<lambda>r.
     rbind (assertion (write_idx c \<le> raw_size r)) (\<lambda>_.
     rbind (assertion (read_idx c \<le> write_idx c)) (\<lambda>_. Inr r)))"

definition chunk_new :: "heap \<Rightarrow> chunk \<times> heap" where
  "chunk_new h = (let (a, h') = raw_new min_size h in
     (\<lparr>data = a, read_idx = 0, write_idx = 0\<rparr>, h'))"

definition chunk_new_copy :: "byte list \<Rightarrow> heap \<Rightarrow> chunk \<times> heap" where
  "chunk_new_copy p h = (let (a, h') = raw_new_copy p h in
     (\<lparr>data = a, read_idx = 0, write_idx = length p\<rparr>, h'))"

definition chunk_delete :: "chunk \<Rightarrow> heap \<Rightarrow> heap res" where
  "chunk_delete c h = release (data c) h"

definition shared_copy :: "chunk \<Rightarrow> heap \<Rightarrow> (chunk \<times> heap) res" where
  "shared_copy c h = rbind (ref_copy (data c) h) (\<lambda>h'.
     let c' = \<lparr>data = data c, read_idx = read_idx c, write_idx = write_idx c\<rparr> in
     rbind (chunk_chk h' c') (\<lambda>_. Inr (c', h')))"

definition chunk_content_size :: "heap \<Rightarrow> chunk \<Rightarrow> nat res" where
  "chunk_content_size h c = rbind (chunk_chk h c) (\<lambda>_. Inr (write_idx c - read_idx c))"

text \<open>\<open>chunk::set_bookmark\<close> returns the address of the byte it reserves: array and index.\<close>

definition chunk_set_bookmark :: "heap \<Rightarrow> chunk \<Rightarrow> ((addr \<times> nat) \<times> chunk) res" where
  "chunk_set_bookmark h c = rbind (chunk_chk h c) (\<lambda>_.
     let p = (data c, write_idx c); c' = c\<lparr>write_idx := write_idx c + 1\<rparr> in
     rbind (chunk_chk h c') (\<lambda>_. Inr (p, c')))"

definition chunk_write :: "heap \<Rightarrow> chunk \<Rightarrow> byte list \<Rightarrow> (nat \<times> chunk \<times> heap) res" where
  "chunk_write h c p = rbind (chunk_chk h c) (\<lambda>r.
     let n_write = min (length p) (raw_size r - write_idx c);
         h' = (if n_write > 0
               then put_cell (data c) (r\<lparr>ptr := memcpy_in (write_idx c) (take n_write p) (ptr r)\<rparr>) h
               else h);
         c' = c\<lparr>write_idx := write_idx c + n_write\<rparr> in
     rbind (chunk_chk h' c') (\<lambda>_. Inr (n_write, c', h')))"

text \<open>The bytes a read copies to its destination are the first component of its result.\<close>

definition chunk_read :: "heap \<Rightarrow> chunk \<Rightarrow> nat \<Rightarrow> (byte list \<times> chunk) res" where
  "chunk_read h c n = rbind (chunk_chk h c) (\<lambda>r.
     let n_read = min n (write_idx c - read_idx c);
         out = memcpy_out (ptr r) (read_idx c) n_read;
         c' = c\<lparr>read_idx := read_idx c + n_read\<rparr> in
     rbind (chunk_chk h c') (\<lambda>_. Inr (out, c')))"

definition chunk_peek :: "heap \<Rightarrow> chunk \<Rightarrow> nat \<Rightarrow> byte list res" where
  "chunk_peek h c n = rbind (chunk_chk h c) (\<lambda>r.
     let n_peek = min n (write_idx c - read_idx c) in
     Inr (memcpy_out (ptr r) (read_idx c) n_peek))"

definition chunk_discard :: "heap \<Rightarrow> chunk \<Rightarrow> nat \<Rightarrow> (nat \<times> chunk) res" where
  "chunk_discard h c n = rbind (chunk_chk h c) (\<lambda>_.
     let n_discard = min n (write_idx c - read_idx c);
         c' = c\<lparr>read_idx := read_idx c + n_discard\<rparr> in
     rbind (chunk_chk h c') (\<lambda>_. Inr (n_discard, c')))"

definition fully_written :: "heap \<Rightarrow> chunk \<Rightarrow> bool res" where
  "fully_written h c = rbind (chunk_chk h c) (\<lambda>r. Inr (write_idx c = raw_size r))"

definition fully_read :: "heap \<Rightarrow> chunk \<Rightarrow> bool res" where
  "fully_read h c = rbind (chunk_chk h c) (\<lambda>r. Inr (read_idx c = raw_size r))"

definition chunk_write_to_fd :: "heap \<Rightarrow> chunk \<Rightarrow> out_fd \<Rightarrow> (int \<times> chunk \<times> out_fd) res" where
  "chunk_write_to_fd h c fd = rbind (deref h (data c)) (\<lambda>r.
     rbind (assertion (write_idx c \<le> raw_size r)) (\<lambda>_.
     let (cnt, fd') = sys_write fd (memcpy_out (ptr r) (read_idx c) (write_idx c - read_idx c));
         c' = (if cnt > 0 then c\<lparr>read_idx := read_idx c + nat cnt\<rparr> else c) in
     rbind (assertion (write_idx c' \<le> raw_size r)) (\<lambda>_. Inr (cnt, c', fd'))))"

definition chunk_read_from_fd ::
  "heap \<Rightarrow> chunk \<Rightarrow> in_fd \<Rightarrow> (int \<times> chunk \<times> heap \<times> in_fd) res" where
  "chunk_read_from_fd h c fd = rbind (chunk_chk h c) (\<lambda>r.
     let (cnt, c', h', fd') =
       (if write_idx c < raw_size r then
          let (cnt, got, fd') = sys_read fd (raw_size r - write_idx c);
              h' = put_cell (data c) (r\<lparr>ptr := memcpy_in (write_idx c) got (ptr r)\<rparr>) h in
          (cnt, if cnt > 0 then c\<lparr>write_idx := write_idx c + nat cnt\<rparr> else c, h', fd')
        else (0, c, h, fd)) in
     rbind (chunk_chk h' c') (\<lambda>_. Inr (cnt, c', h', fd')))"

section \<open>Well-formed windows\<close>

named_theorems chunk_simps \<open>what each chunk operation does on a well-formed chunk\<close>

text \<open>
  \<open>open_chunk\<close> is what the assertions check; \<open>wf_chunk\<close> adds that the chunk still has room to be
  read (a chunk that is read to the end of its array is deleted by its owner).
\<close>

definition open_chunk :: "heap \<Rightarrow> chunk \<Rightarrow> bool" where
  "open_chunk h c \<longleftrightarrow> (\<exists>r. cells h (data c) = Some r \<and>
     read_idx c \<le> write_idx c \<and> write_idx c \<le> raw_size r)"

definition cap :: "heap \<Rightarrow> chunk \<Rightarrow> nat" where
  "cap h c = (case cells h (data c) of None \<Rightarrow> 0 | Some r \<Rightarrow> raw_size r)"

definition wf_chunk :: "heap \<Rightarrow> chunk \<Rightarrow> bool" where
  "wf_chunk h c \<longleftrightarrow> open_chunk h c \<and> read_idx c < cap h c"

definition chunk_bytes :: "heap \<Rightarrow> chunk \<Rightarrow> byte list" where
  "chunk_bytes h c = (case cells h (data c) of None \<Rightarrow> []
     | Some r \<Rightarrow> map (ptr r) [read_idx c..<write_idx c])"

definition adv :: "nat \<Rightarrow> chunk \<Rightarrow> chunk" where
  "adv k c = c\<lparr>read_idx := read_idx c + k\<rparr>"

lemma open_chunkE:
  assumes "open_chunk h c"
  obtains r where "cells h (data c) = Some r" "read_idx c \<le> write_idx c" "write_idx c \<le> raw_size r"
  using assms by (auto simp: open_chunk_def)

lemma wf_imp_open: "wf_chunk h c \<Longrightarrow> open_chunk h c"
  by (simp add: wf_chunk_def)

lemma chunk_chk_open:
  "open_chunk h c \<Longrightarrow> chunk_chk h c = Inr (the (cells h (data c)))"
  by (auto simp: open_chunk_def chunk_chk_def deref_def)

lemma length_chunk_bytes [simp]:
  "open_chunk h c \<Longrightarrow> length (chunk_bytes h c) = write_idx c - read_idx c"
  by (auto simp: open_chunk_def chunk_bytes_def)

lemma adv_simps [simp]:
  "data (adv k c) = data c" "write_idx (adv k c) = write_idx c"
  "read_idx (adv k c) = read_idx c + k" "cap h (adv k c) = cap h c" "adv 0 c = c"
  by (simp_all add: adv_def cap_def)

lemma open_chunk_adv: "open_chunk h c \<Longrightarrow> k \<le> write_idx c - read_idx c \<Longrightarrow> open_chunk h (adv k c)"
  by (auto simp: open_chunk_def)

lemma chunk_bytes_adv: "chunk_bytes h (adv k c) = drop k (chunk_bytes h c)"
  by (auto simp: chunk_bytes_def drop_map split: option.split)

lemma write_idx_le_cap: "open_chunk h c \<Longrightarrow> write_idx c \<le> cap h c"
  by (auto simp: open_chunk_def cap_def)

lemma memcpy_out_eq:
  assumes "cells h (data c) = Some r" "read_idx c \<le> write_idx c"
  shows "memcpy_out (ptr r) (read_idx c) (min n (write_idx c - read_idx c)) = take n (chunk_bytes h c)"
  using assms by (simp add: memcpy_out_def chunk_bytes_def take_map min_def)

lemma chunk_content_size_open [chunk_simps]:
  "open_chunk h c \<Longrightarrow> chunk_content_size h c = Inr (length (chunk_bytes h c))"
  by (simp add: chunk_content_size_def chunk_chk_open)

lemma chunk_read_open [chunk_simps]:
  assumes "open_chunk h c"
  shows "chunk_read h c n = Inr (take n (chunk_bytes h c), adv (min n (length (chunk_bytes h c))) c)"
proof -
  obtain r where r: "cells h (data c) = Some r" "read_idx c \<le> write_idx c"
    using assms by (rule open_chunkE)
  have "chunk_chk h (adv (min n (write_idx c - read_idx c)) c) = Inr r"
    using assms r by (subst chunk_chk_open) (auto intro: open_chunk_adv)
  then show ?thesis
    using assms r memcpy_out_eq [OF r, of n]
    by (simp add: chunk_read_def chunk_chk_open adv_def Let_def)
qed

lemma chunk_peek_open [chunk_simps]:
  assumes "open_chunk h c"
  shows "chunk_peek h c n = Inr (take n (chunk_bytes h c))"
proof -
  obtain r where r: "cells h (data c) = Some r" "read_idx c \<le> write_idx c"
    using assms by (rule open_chunkE)
  then show ?thesis
    using assms memcpy_out_eq [OF r, of n] by (simp add: chunk_peek_def chunk_chk_open Let_def)
qed

lemma chunk_discard_open [chunk_simps]:
  assumes "open_chunk h c"
  shows "chunk_discard h c n
    = Inr (min n (length (chunk_bytes h c)), adv (min n (length (chunk_bytes h c))) c)"
proof -
  have "open_chunk h (adv (min n (write_idx c - read_idx c)) c)"
    using assms by (auto intro: open_chunk_adv)
  then show ?thesis
    using assms by (simp add: chunk_discard_def chunk_chk_open adv_def [symmetric] Let_def)
qed

lemma fully_written_open [chunk_simps]:
  "open_chunk h c \<Longrightarrow> fully_written h c = Inr (write_idx c = cap h c)"
  by (auto simp: fully_written_def chunk_chk_open cap_def open_chunk_def)

lemma fully_read_open [chunk_simps]:
  "open_chunk h c \<Longrightarrow> fully_read h c = Inr (read_idx c = cap h c)"
  by (auto simp: fully_read_def chunk_chk_open cap_def open_chunk_def)

section \<open>What an operation may change of a heap\<close>

text \<open>
  \<open>keeps h h' c\<close>: the array of \<open>c\<close> is still there with its size, and its bytes below the write
  index of \<open>c\<close> are the same; then \<open>c\<close> means the same in both heaps.
\<close>

definition keeps :: "heap \<Rightarrow> heap \<Rightarrow> chunk \<Rightarrow> bool" where
  "keeps h h' c \<longleftrightarrow> (\<exists>r r'. cells h (data c) = Some r \<and> cells h' (data c) = Some r' \<and>
     raw_size r' = raw_size r \<and> (\<forall>i < write_idx c. ptr r' i = ptr r i))"

lemma keeps_trans: "keeps h1 h2 c \<Longrightarrow> keeps h2 h3 c \<Longrightarrow> keeps h1 h3 c"
  by (auto simp: keeps_def)

lemma keeps_refl: "open_chunk h c \<Longrightarrow> keeps h h c"
  by (auto simp: keeps_def open_chunk_def)

lemma keeps_view:
  assumes "keeps h h' c"
  shows "open_chunk h' c = open_chunk h c" "cap h' c = cap h c"
    "chunk_bytes h' c = chunk_bytes h c" "wf_chunk h' c = wf_chunk h c"
  using assms by (auto simp: keeps_def open_chunk_def cap_def chunk_bytes_def wf_chunk_def)

lemma keeps_adv [simp]: "keeps h h' (adv k c) = keeps h h' c"
  by (simp add: keeps_def)

text \<open>
  The heap agrees with the references held: every live array has as many owners as its count
  says, at least one, and no owner refers to a deleted array.
\<close>

definition heap_ok :: "heap \<Rightarrow> addr multiset \<Rightarrow> bool" where
  "heap_ok h R \<longleftrightarrow> (\<forall>a. case cells h a of
       None \<Rightarrow> count R a = 0
     | Some r \<Rightarrow> 0 < count R a \<and> refcnt r = int (count R a) \<and> min_size \<le> raw_size r)
     \<and> (\<forall>a \<ge> brk h. cells h a = None)"

lemma heap_ok_live: "heap_ok h R \<Longrightarrow> a \<in># R \<Longrightarrow> \<exists>r. cells h a = Some r"
  unfolding heap_ok_def by (metis (mono_tags, lifting) count_eq_zero_iff not_Some_eq option.simps(4))

lemma heap_ok_cell:
  "heap_ok h R \<Longrightarrow> cells h a = Some r \<Longrightarrow>
     a \<in># R \<and> refcnt r = int (count R a) \<and> min_size \<le> raw_size r \<and> a < brk h"
  unfolding heap_ok_def
  by (metis (mono_tags, lifting) count_greater_zero_iff not_le_imp_less option.distinct(1)
      option.simps(5))

lemma heap_ok_fresh: "heap_ok h R \<Longrightarrow> cells h (brk h) = None \<and> brk h \<notin># R"
  using heap_ok_live by (fastforce simp: heap_ok_def)

text \<open>With no owner left there is no array left: nothing leaks.\<close>

lemma heap_ok_empty: "heap_ok h {#} \<Longrightarrow> cells h = Map.empty"
  by (auto simp: heap_ok_def fun_eq_iff split: option.splits)

section \<open>Heap operations keep the heap consistent\<close>

lemma count_mem_pos [simp]: "a \<in># R \<Longrightarrow> 0 < count R a"
  by simp

lemma heap_okI:
  assumes "\<And>a r. cells h a = Some r \<Longrightarrow>
      a \<in># R \<and> refcnt r = int (count R a) \<and> min_size \<le> raw_size r \<and> a < brk h"
    and "\<And>a. a \<in># R \<Longrightarrow> \<exists>r. cells h a = Some r"
  shows "heap_ok h R"
  unfolding heap_ok_def
proof (intro conjI allI impI)
  fix a
  show "case cells h a of None \<Rightarrow> count R a = 0
     | Some r \<Rightarrow> 0 < count R a \<and> refcnt r = int (count R a) \<and> min_size \<le> raw_size r"
    using assms(1) [of a] assms(2) [of a]
    by (cases "cells h a") (auto simp: count_eq_zero_iff)
next
  fix a assume "brk h \<le> a"
  then show "cells h a = None" using assms(1) [of a] by (cases "cells h a") auto
qed

lemma put_new_ok:
  assumes ok: "heap_ok h R" and r: "refcnt r = 1" "min_size \<le> raw_size r"
    and h': "h' = (put_cell (brk h) r h)\<lparr>brk := Suc (brk h)\<rparr>"
  shows "heap_ok h' (add_mset (brk h) R)"
    and "data c \<in># R \<Longrightarrow> keeps h h' c"
proof -
  have fresh: "cells h (brk h) = None" "brk h \<notin># R" using heap_ok_fresh [OF ok] by auto
  show "heap_ok h' (add_mset (brk h) R)"
    using heap_ok_cell [OF ok] heap_ok_live [OF ok] fresh r
    by (intro heap_okI) (fastforce simp: h' put_cell_def not_in_iff less_Suc_eq split: if_splits)+
  show "keeps h h' c" if "data c \<in># R"
    using heap_ok_live [OF ok that] that fresh by (auto simp: keeps_def h' put_cell_def)
qed

lemma chunk_new_ok:
  assumes "heap_ok h R" and "chunk_new h = (c, h')"
  shows "heap_ok h' (add_mset (data c) R)" "data c \<notin># R" "wf_chunk h' c" "chunk_bytes h' c = []"
    "write_idx c = 0" "cap h' c = min_size" "\<And>d. data d \<in># R \<Longrightarrow> keeps h h' d"
proof -
  let ?r = "\<lparr>ptr = garbage h (brk h), raw_size = min_size, refcnt = 1\<rparr>"
  have c: "c = \<lparr>data = brk h, read_idx = 0, write_idx = 0\<rparr>"
    and h': "h' = (put_cell (brk h) ?r h)\<lparr>brk := Suc (brk h)\<rparr>"
    using assms(2) by (auto simp: chunk_new_def raw_new_def Let_def)
  note new = put_new_ok [OF assms(1) _ _ h']
  show "heap_ok h' (add_mset (data c) R)" using new(1) by (simp add: c)
  show "data c \<notin># R" using heap_ok_fresh [OF assms(1)] by (simp add: c)
  have cell: "cells h' (data c) = Some ?r" by (simp add: c h' put_cell_def)
  then show "wf_chunk h' c" "chunk_bytes h' c = []" "cap h' c = min_size"
    by (simp_all add: wf_chunk_def open_chunk_def chunk_bytes_def cap_def, simp_all add: c min_size_def)
  show "write_idx c = 0" by (simp add: c)
  show "keeps h h' d" if "data d \<in># R" for d using new(2) that by simp
qed

lemma memcpy_in_window:
  "map (memcpy_in off p f) [off..<off + length p] = p"
  by (rule nth_equalityI) (simp_all add: memcpy_in_def)

lemma chunk_new_copy_ok:
  assumes "heap_ok h R" and "chunk_new_copy p h = (c, h')"
  shows "heap_ok h' (add_mset (data c) R)" "data c \<notin># R" "wf_chunk h' c" "chunk_bytes h' c = p"
    "write_idx c = length p" "cap h' c = max (length p) min_size"
    "\<And>d. data d \<in># R \<Longrightarrow> keeps h h' d"
proof -
  let ?r = "\<lparr>ptr = memcpy_in 0 p (garbage h (brk h)), raw_size = max (length p) min_size, refcnt = 1\<rparr>"
  have c: "c = \<lparr>data = brk h, read_idx = 0, write_idx = length p\<rparr>"
    and h': "h' = (put_cell (brk h) ?r h)\<lparr>brk := Suc (brk h)\<rparr>"
    using assms(2) by (auto simp: chunk_new_copy_def raw_new_copy_def Let_def)
  note new = put_new_ok [OF assms(1) _ _ h']
  show "heap_ok h' (add_mset (data c) R)" using new(1) by (simp add: c)
  show "data c \<notin># R" using heap_ok_fresh [OF assms(1)] by (simp add: c)
  have cell: "cells h' (data c) = Some ?r" by (simp add: c h' put_cell_def)
  then show "wf_chunk h' c" "chunk_bytes h' c = p" "cap h' c = max (length p) min_size"
    using memcpy_in_window [of 0 p]
    by (simp_all add: wf_chunk_def open_chunk_def chunk_bytes_def cap_def,
        simp_all add: c min_size_def less_max_iff_disj)
  show "write_idx c = length p" by (simp add: c)
  show "keeps h h' d" if "data d \<in># R" for d using new(2) that by simp
qed

lemma release_ok:
  assumes ok: "heap_ok h (add_mset a R)"
  shows "\<exists>h'. release a h = Inr h' \<and> heap_ok h' R \<and> (\<forall>c. data c \<in># R \<longrightarrow> keeps h h' c)"
proof -
  obtain r where r: "cells h a = Some r" using heap_ok_live [OF ok, of a] by auto
  have rc: "refcnt r = 1 + int (count R a)" using heap_ok_cell [OF ok r] by simp
  let ?h' = "if refcnt r - 1 = 0 then h\<lparr>cells := (cells h)(a := None)\<rparr>
             else put_cell a (r\<lparr>refcnt := refcnt r - 1\<rparr>) h"
  have "release a h = Inr ?h'" using rc by (simp add: release_def deref_def r Let_def)
  moreover have "heap_ok ?h' R"
    using heap_ok_cell [OF ok] heap_ok_live [OF ok] r rc
    by (intro heap_okI) (fastforce simp: put_cell_def not_in_iff split: if_splits)+
  moreover have "keeps h ?h' c" if "data c \<in># R" for c
    using heap_ok_live [OF ok, of "data c"] that r rc
    by (auto simp: keeps_def put_cell_def not_in_iff)
  ultimately show ?thesis by blast
qed

lemma ref_copy_ok:
  assumes ok: "heap_ok h R" and a: "a \<in># R"
  shows "\<exists>h'. ref_copy a h = Inr h' \<and> heap_ok h' (add_mset a R) \<and> (\<forall>c. data c \<in># R \<longrightarrow> keeps h h' c)"
proof -
  obtain r where r: "cells h a = Some r" using heap_ok_live [OF ok a] by auto
  let ?h' = "put_cell a (r\<lparr>refcnt := refcnt r + 1\<rparr>) h"
  have "ref_copy a h = Inr ?h'" by (simp add: ref_copy_def deref_def r)
  moreover have "heap_ok ?h' (add_mset a R)"
    using heap_ok_cell [OF ok] heap_ok_live [OF ok] r
    by (intro heap_okI) (fastforce simp: put_cell_def split: if_splits)+
  moreover have "keeps h ?h' c" if "data c \<in># R" for c
    using heap_ok_live [OF ok that] r by (auto simp: keeps_def put_cell_def)
  ultimately show ?thesis by blast
qed

text \<open>Overwriting bytes from index \<open>off\<close> on is invisible to a window that ends at or before it.\<close>

lemma put_bytes_heap_ok:
  assumes ok: "heap_ok h R" and r: "cells h a = Some r"
    and h': "h' = put_cell a (r\<lparr>ptr := memcpy_in off p (ptr r)\<rparr>) h"
  shows "heap_ok h' R"
    and "data c \<in># R \<Longrightarrow> data c \<noteq> a \<or> write_idx c \<le> off \<Longrightarrow> keeps h h' c"
proof -
  show "heap_ok h' R"
    using heap_ok_cell [OF ok] heap_ok_live [OF ok] r
    by (intro heap_okI) (fastforce simp: h' put_cell_def split: if_splits)+
  show "keeps h h' c" if "data c \<in># R" "data c \<noteq> a \<or> write_idx c \<le> off"
    using heap_ok_live [OF ok that(1)] that(2) r
    by (auto simp: keeps_def h' put_cell_def memcpy_in_def)
qed

section \<open>Chunk operations that write\<close>

definition ext :: "nat \<Rightarrow> chunk \<Rightarrow> chunk" where
  "ext k c = c\<lparr>write_idx := write_idx c + k\<rparr>"

lemma ext_simps [simp]:
  "data (ext k c) = data c" "read_idx (ext k c) = read_idx c"
  "write_idx (ext k c) = write_idx c + k" "cap h (ext k c) = cap h c" "ext 0 c = c"
  by (simp_all add: ext_def cap_def)

lemma map_memcpy_in_append:
  assumes "k \<le> off"
  shows "map (memcpy_in off p f) [k..<off + length p] = map f [k..<off] @ p"
proof -
  have "[k..<off + length p] = [k..<off] @ [off..<off + length p]"
    using assms by (rule upt_add_eq_append)
  moreover have "map (memcpy_in off p f) [k..<off] = map f [k..<off]"
    by (simp add: memcpy_in_def)
  ultimately show ?thesis by (simp add: memcpy_in_window)
qed

text \<open>Storing bytes right after a window and moving its write index appends them to it.\<close>

lemma put_bytes_ext:
  assumes ok: "heap_ok h R" and c: "open_chunk h c" "data c \<in># R"
    and p: "length p \<le> cap h c - write_idx c"
    and h': "h' = put_cell (data c)
        ((the (cells h (data c)))\<lparr>ptr := memcpy_in (write_idx c) p (ptr (the (cells h (data c))))\<rparr>) h"
  shows "heap_ok h' R" "open_chunk h' (ext (length p) c)" "cap h' c = cap h c"
    "chunk_bytes h' (ext (length p) c) = chunk_bytes h c @ p"
    "\<And>d. data d \<in># R \<Longrightarrow> data d \<noteq> data c \<or> write_idx d \<le> write_idx c \<Longrightarrow> keeps h h' d"
proof -
  obtain r where r: "cells h (data c) = Some r" "read_idx c \<le> write_idx c" "write_idx c \<le> raw_size r"
    using c(1) by (rule open_chunkE)
  have h'': "h' = put_cell (data c) (r\<lparr>ptr := memcpy_in (write_idx c) p (ptr r)\<rparr>) h"
    using h' r by simp
  note put = put_bytes_heap_ok [OF ok r(1) h'']
  show "heap_ok h' R" by (rule put(1))
  show "cap h' c = cap h c" "open_chunk h' (ext (length p) c)"
    using p r by (auto simp: cap_def open_chunk_def h'' put_cell_def)
  show "chunk_bytes h' (ext (length p) c) = chunk_bytes h c @ p"
    using r by (simp add: chunk_bytes_def h'' put_cell_def map_memcpy_in_append)
  show "keeps h h' d" if "data d \<in># R" "data d \<noteq> data c \<or> write_idx d \<le> write_idx c" for d
    using put(2) that by blast
qed

lemma chunk_write_ok:
  assumes ok: "heap_ok h R" and c: "open_chunk h c" "data c \<in># R"
    and n: "n = min (length p) (cap h c - write_idx c)"
  shows "\<exists>h'. chunk_write h c p = Inr (n, ext n c, h') \<and> heap_ok h' R
    \<and> open_chunk h' (ext n c) \<and> cap h' c = cap h c
    \<and> chunk_bytes h' (ext n c) = chunk_bytes h c @ take n p
    \<and> (\<forall>d. data d \<in># R \<and> (data d \<noteq> data c \<or> write_idx d \<le> write_idx c) \<longrightarrow> keeps h h' d)"
proof (cases "n = 0")
  case True
  have "\<forall>d. data d \<in># R \<longrightarrow> keeps h h d"
    using heap_ok_live [OF ok] by (force simp: keeps_def)
  moreover have "raw_size (the (cells h (data c))) = cap h c"
    using c by (auto simp: cap_def elim!: open_chunkE)
  then have "chunk_write h c p = Inr (n, ext n c, h)"
    using True c n by (auto simp: chunk_write_def chunk_chk_open Let_def min_def split: if_splits)
  ultimately show ?thesis using True c ok by auto
next
  case False
  let ?r = "the (cells h (data c))"
  let ?h' = "put_cell (data c) (?r\<lparr>ptr := memcpy_in (write_idx c) (take n p) (ptr ?r)\<rparr>) h"
  have len: "length (take n p) = n" using n by simp
  have "raw_size ?r = cap h c" using c by (auto simp: cap_def elim!: open_chunkE)
  moreover have p: "length (take n p) \<le> cap h c - write_idx c" using n by simp
  note put = put_bytes_ext [OF ok c p refl, unfolded len]
  ultimately have "chunk_write h c p = Inr (n, ext n c, ?h')"
    using False c n put(2) by (simp add: chunk_write_def chunk_chk_open Let_def ext_def [symmetric])
  with put show ?thesis by blast
qed

lemma sys_read_cases:
  assumes "sys_read fd n = (cnt, got, fd')" "0 < n"
  shows "cnt > 0 \<and> length got = nat cnt \<and> length got \<le> n \<and> rx fd = got @ rx fd'
     \<or> cnt \<le> 0 \<and> got = [] \<and> rx fd' = rx fd"
proof (cases "rd_sched fd")
  case Nil
  with assms show ?thesis by (auto simp: sys_read_def)
next
  case (Cons k ks)
  define g where "g = take (min n (nat k)) (rx fd)"
  have "length g \<le> n" by (simp add: g_def)
  moreover have "rx fd = g @ drop (length g) (rx fd)"
    unfolding g_def by (metis append_eq_conv_conj append_take_drop_id)
  moreover have "sys_read fd n = (if k \<le> 0 then (k, [], fd\<lparr>rd_sched := ks\<rparr>)
      else if g = [] then (- 1, [], fd\<lparr>rd_sched := ks\<rparr>)
      else (int (length g), g, fd\<lparr>rd_sched := ks, rx := drop (length g) (rx fd)\<rparr>))"
    by (simp only: sys_read_def Cons list.case Let_def g_def [symmetric])
  ultimately show ?thesis using assms(1) by (auto split: if_splits)
qed

lemma sys_write_cases:
  assumes "sys_write fd p = (cnt, fd')" "p \<noteq> []"
  shows "cnt > 0 \<and> nat cnt \<le> length p \<and> tx fd' = tx fd @ take (nat cnt) p
     \<or> cnt \<le> 0 \<and> tx fd' = tx fd"
    "wr_sched fd = x # xs \<Longrightarrow> 0 < x \<Longrightarrow> 0 < cnt \<and> wr_sched fd' = xs"
  using assms by (auto simp: sys_write_def Let_def min_def split: list.splits if_splits)

lemma chunk_read_from_fd_ok:
  assumes ok: "heap_ok h R" and c: "open_chunk h c" "data c \<in># R" "write_idx c < cap h c"
  shows "\<exists>cnt got h' fd'. chunk_read_from_fd h c fd = Inr (cnt, ext (length got) c, h', fd')
    \<and> (cnt > 0 \<and> got \<noteq> [] \<and> int (length got) = cnt \<or> cnt \<le> 0 \<and> got = [])
    \<and> length got \<le> cap h c - write_idx c \<and> rx fd = got @ rx fd' \<and> heap_ok h' R
    \<and> open_chunk h' (ext (length got) c) \<and> cap h' c = cap h c
    \<and> chunk_bytes h' (ext (length got) c) = chunk_bytes h c @ got
    \<and> (\<forall>d. data d \<in># R \<and> (data d \<noteq> data c \<or> write_idx d \<le> write_idx c) \<longrightarrow> keeps h h' d)"
proof -
  let ?r = "the (cells h (data c))"
  have cap: "raw_size ?r = cap h c" using c by (auto simp: cap_def elim!: open_chunkE)
  obtain cnt got fd' where sys: "sys_read fd (cap h c - write_idx c) = (cnt, got, fd')"
    by (metis prod_cases3)
  have got: "cnt > 0 \<and> length got = nat cnt \<and> length got \<le> cap h c - write_idx c \<and> rx fd = got @ rx fd'
     \<or> cnt \<le> 0 \<and> got = [] \<and> rx fd' = rx fd"
    using sys_read_cases [OF sys] c(3) by simp
  then have len: "length got \<le> cap h c - write_idx c" by auto
  let ?h' = "put_cell (data c) (?r\<lparr>ptr := memcpy_in (write_idx c) got (ptr ?r)\<rparr>) h"
  note put = put_bytes_ext [OF ok c(1,2) len refl]
  have "chunk_read_from_fd h c fd = Inr (cnt, ext (length got) c, ?h', fd')"
    using c got put(2)
    by (auto simp: chunk_read_from_fd_def chunk_chk_open Let_def cap sys ext_def)
  then show ?thesis using put got len by fastforce
qed

lemma chunk_write_to_fd_ok:
  assumes c: "open_chunk h c" and ne: "chunk_bytes h c \<noteq> []"
  shows "\<exists>cnt fd'. chunk_write_to_fd h c fd = Inr (cnt, adv (nat cnt) c, fd')
    \<and> nat cnt \<le> length (chunk_bytes h c) \<and> tx fd' = tx fd @ take (nat cnt) (chunk_bytes h c)
    \<and> (\<forall>x xs. wr_sched fd = x # xs \<and> 0 < x \<longrightarrow> 0 < cnt \<and> wr_sched fd' = xs)"
proof -
  obtain r where r: "cells h (data c) = Some r" "read_idx c \<le> write_idx c" "write_idx c \<le> raw_size r"
    using c by (rule open_chunkE)
  have out: "memcpy_out (ptr r) (read_idx c) (write_idx c - read_idx c) = chunk_bytes h c"
    using memcpy_out_eq [OF r(1,2), of "write_idx c - read_idx c"] c by simp
  obtain cnt fd' where sys: "sys_write fd (chunk_bytes h c) = (cnt, fd')" by fastforce
  show ?thesis
    using sys_write_cases [OF sys ne] r
    by (auto simp: chunk_write_to_fd_def deref_def out sys adv_def)
qed

end
