(* ===== verification/Marshal_Buffer.thy ===== *)
theory Marshal_Buffer
  imports Chunk_Heap
begin

text \<open>
  The class \<open>Marshal\<close> of \<open>rpc/marshal.h\<close> and \<open>rpc/marshal.cc\<close>: a queue of bytes kept in a
  chain of chunks. The chain from \<open>head_\<close> along \<open>next\<close> is the list \<open>chunks\<close>, its last element
  is \<open>*tail_\<close>, and the empty list stands for two null pointers, so the assertion
  \<open>tail_ == nullptr || tail_->next == nullptr\<close> holds by the representation; every other
  \<open>assert\<close> and \<open>verify\<close> of the code is a branch of the model. \<open>write_cnt\<close> keeps its 32 bits.
\<close>

section \<open>Definitions\<close>

record marshal =
  chunks :: "chunk list"
  write_cnt :: i32
  content_size :: nat

record bookmark =
  bm_size :: nat
  bm_ptr :: "(addr \<times> nat) list"

definition Marshal_new :: marshal where
  "Marshal_new = \<lparr>chunks = [], write_cnt = 0, content_size = 0\<rparr>"

fun delete_chain :: "chunk list \<Rightarrow> heap \<Rightarrow> heap res" where
  "delete_chain [] h = Inr h"
| "delete_chain (chnk # next) h = rbind (chunk_delete chnk h) (delete_chain next)"

definition Marshal_delete :: "marshal \<Rightarrow> heap \<Rightarrow> heap res" where
  "Marshal_delete m h = delete_chain (chunks m) h"

fun size_slow_loop :: "heap \<Rightarrow> chunk list \<Rightarrow> nat \<Rightarrow> nat res" where
  "size_slow_loop h [] sz = Inr sz"
| "size_slow_loop h (chnk # next) sz =
     rbind (chunk_content_size h chnk) (\<lambda>n. size_slow_loop h next (sz + n))"

definition content_size_slow :: "heap \<Rightarrow> marshal \<Rightarrow> nat res" where
  "content_size_slow h m = size_slow_loop h (chunks m) 0"

text \<open>\<open>assert(content_size_ == content_size_slow())\<close>\<close>

definition chk_size :: "heap \<Rightarrow> marshal \<Rightarrow> unit res" where
  "chk_size h m = rbind (content_size_slow h m) (\<lambda>sz. assertion (content_size m = sz))"

definition Marshal_empty :: "heap \<Rightarrow> marshal \<Rightarrow> bool res" where
  "Marshal_empty h m = rbind (chk_size h m) (\<lambda>_. Inr (content_size m = 0))"

definition Marshal_content_size :: "heap \<Rightarrow> marshal \<Rightarrow> nat res" where
  "Marshal_content_size h m = rbind (chk_size h m) (\<lambda>_. Inr (content_size m))"

text \<open>\<open>assert(empty() || (head_ != nullptr && !head_->fully_read()))\<close>\<close>

definition chk_head :: "heap \<Rightarrow> marshal \<Rightarrow> unit res" where
  "chk_head h m = rbind (Marshal_empty h m) (\<lambda>e.
     if e then Inr ()
     else case chunks m of
         [] \<Rightarrow> Inl AssertFailed
       | head # _ \<Rightarrow> rbind (fully_read h head) (\<lambda>fr. assertion (\<not> fr)))"

definition Marshal_write :: "heap \<Rightarrow> marshal \<Rightarrow> byte list \<Rightarrow> (nat \<times> marshal \<times> heap) res" where
  "Marshal_write h m p = (let n = length p in
     rbind
       (if chunks m = [] then
          let (c, h1) = chunk_new_copy p h in Inr ([c], h1)
        else rbind (fully_written h (last (chunks m))) (\<lambda>fw.
          if fw then
            let (c, h1) = chunk_new_copy p h in Inr (chunks m @ [c], h1)
          else
            rbind (chunk_write h (last (chunks m)) p) (\<lambda>(n_write, tail, h1).
            rbind (assertion (0 < n_write)) (\<lambda>_.
              let cs = butlast (chunks m) @ [tail] in
              if n_write < n then
                let (c, h2) = chunk_new_copy (drop n_write p) h1 in Inr (cs @ [c], h2)
              else Inr (cs, h1)))))
       (\<lambda>(cs, h').
          let m' = m\<lparr>chunks := cs, write_cnt := write_cnt m + of_nat n,
                      content_size := content_size m + n\<rparr> in
          rbind (chk_size h' m') (\<lambda>_. Inr (n, m', h'))))"

text \<open>
  The head chunk after something was consumed from it: deleted when it was read to the end of
  its array, kept otherwise.
\<close>

definition drop_if_read :: "heap \<Rightarrow> chunk \<Rightarrow> chunk list \<Rightarrow> (chunk list \<times> heap) res" where
  "drop_if_read h head next = rbind (fully_read h head) (\<lambda>fr.
     if fr then rbind (chunk_delete head h) (\<lambda>h'. Inr (next, h')) else Inr (head # next, h))"

text \<open>The loop of \<open>Marshal::read\<close>; \<open>n\<close> is what is still wanted (\<open>n - n_read\<close> of the code).\<close>

function read_loop :: "heap \<Rightarrow> chunk list \<Rightarrow> nat \<Rightarrow> (byte list \<times> chunk list \<times> heap) res" where
  "read_loop h cs n =
     (if n = 0 then Inr ([], cs, h)
      else case cs of
          [] \<Rightarrow> Inr ([], cs, h)
        | head # next \<Rightarrow>
            rbind (chunk_content_size h head) (\<lambda>sz.
            if sz = 0 then Inr ([], cs, h)
            else
              rbind (chunk_read h head n) (\<lambda>(out, head').
              rbind (drop_if_read h head' next) (\<lambda>(cs', h').
              if out = [] then Inr ([], cs', h')
              else rbind (read_loop h' cs' (n - length out)) (\<lambda>(rest, cs'', h'').
                     Inr (out @ rest, cs'', h''))))))"
  by pat_completeness auto
termination
  by (relation "measure (\<lambda>(h, cs, n). n)") auto

declare read_loop.simps [simp del]

definition Marshal_read :: "heap \<Rightarrow> marshal \<Rightarrow> nat \<Rightarrow> (byte list \<times> marshal \<times> heap) res" where
  "Marshal_read h m n =
     rbind (chk_head h m) (\<lambda>_.
     rbind (read_loop h (chunks m) n) (\<lambda>(out, cs, h').
     rbind (assertion (length out \<le> content_size m)) (\<lambda>_.
       let m' = m\<lparr>chunks := cs, content_size := content_size m - length out\<rparr> in
       rbind (chk_size h' m') (\<lambda>_.
       rbind (assertion (length out \<le> n)) (\<lambda>_.
       rbind (chk_head h' m') (\<lambda>_. Inr (out, m', h')))))))"

fun peek_loop :: "heap \<Rightarrow> chunk list \<Rightarrow> nat \<Rightarrow> byte list res" where
  "peek_loop h [] n = Inr []"
| "peek_loop h (chnk # next) n =
     (if n = 0 then Inr []
      else rbind (chunk_peek h chnk n) (\<lambda>out.
        if out = [] then Inr []
        else rbind (peek_loop h next (n - length out)) (\<lambda>rest. Inr (out @ rest))))"

definition Marshal_peek :: "heap \<Rightarrow> marshal \<Rightarrow> nat \<Rightarrow> byte list res" where
  "Marshal_peek h m n =
     rbind (chk_head h m) (\<lambda>_.
     rbind (peek_loop h (chunks m) n) (\<lambda>out.
     rbind (assertion (length out \<le> n)) (\<lambda>_.
     rbind (chk_head h m) (\<lambda>_. Inr out))))"

text \<open>A tail chunk that can take a byte: the first statement of the loops that fill chunks.\<close>

definition ensure_tail :: "heap \<Rightarrow> chunk list \<Rightarrow> (chunk list \<times> heap) res" where
  "ensure_tail h cs =
     (if cs = [] then let (c, h') = chunk_new h in Inr ([c], h')
      else rbind (fully_written h (last cs)) (\<lambda>fw.
        if fw then let (c, h') = chunk_new h in Inr (cs @ [c], h') else Inr (cs, h)))"

text \<open>A successful read consumes an answer of the kernel: the loop ends when the answers do.\<close>

lemma sys_read_sched:
  "sys_read fd n = (cnt, got, fd') \<Longrightarrow> 0 < cnt \<Longrightarrow> length (rd_sched fd') < length (rd_sched fd)"
  by (auto simp: sys_read_def Let_def split: list.splits if_splits)

lemma chunk_read_from_fd_sched:
  assumes "chunk_read_from_fd h c fd = Inr (cnt, c', h', fd')" and "0 < cnt"
  shows "length (rd_sched fd') < length (rd_sched fd)"
proof -
  obtain r where r: "chunk_chk h c = Inr r"
    using assms(1) by (cases "chunk_chk h c") (simp_all add: chunk_read_from_fd_def)
  obtain k got fd1 where sys: "sys_read fd (raw_size r - write_idx c) = (k, got, fd1)"
    by (metis prod_cases3)
  have "k = cnt \<and> fd1 = fd'"
    using assms unfolding chunk_read_from_fd_def r sys
    by (cases "write_idx c < raw_size r") (auto simp: sys rbind_eq_Inr_iff)
  with sys assms(2) show ?thesis using sys_read_sched by blast
qed

function fill_loop :: "heap \<Rightarrow> chunk list \<Rightarrow> in_fd \<Rightarrow> (nat \<times> chunk list \<times> heap \<times> in_fd) res" where
  "fill_loop h cs fd =
     rbind (ensure_tail h cs) (\<lambda>(cs1, h1).
     rbind (chunk_read_from_fd h1 (last cs1) fd) (\<lambda>(r, tail, h2, fd').
       let cs2 = butlast cs1 @ [tail] in
       if r \<le> 0 then Inr (0, cs2, h2, fd')
       else rbind (fill_loop h2 cs2 fd') (\<lambda>(n, cs3, h3, fd''). Inr (nat r + n, cs3, h3, fd''))))"
  by pat_completeness auto
termination
  by (relation "measure (\<lambda>(h, cs, fd). length (rd_sched fd))") (auto dest: chunk_read_from_fd_sched)

declare fill_loop.simps [simp del]

definition Marshal_read_from_fd ::
  "heap \<Rightarrow> marshal \<Rightarrow> in_fd \<Rightarrow> (nat \<times> marshal \<times> heap \<times> in_fd) res" where
  "Marshal_read_from_fd h m fd =
     rbind (chk_head h m) (\<lambda>_.
     rbind (fill_loop h (chunks m) fd) (\<lambda>(n_bytes, cs, h', fd').
       let m' = m\<lparr>chunks := cs, write_cnt := write_cnt m + of_nat n_bytes,
                   content_size := content_size m + n_bytes\<rparr> in
       rbind (chk_size h' m') (\<lambda>_.
       rbind (chk_head h' m') (\<lambda>_. Inr (n_bytes, m', h', fd')))))"

text \<open>
  The pointer-copying loop of \<open>read_from_marshal\<close>: \<open>tcs\<close> is the chain of the receiving object,
  \<open>mcs\<close> the chain of the other one, \<open>need\<close> is \<open>n - n_fetch\<close>.
\<close>

function share_loop ::
  "heap \<Rightarrow> chunk list \<Rightarrow> chunk list \<Rightarrow> nat \<Rightarrow> (nat \<times> chunk list \<times> chunk list \<times> heap) res" where
  "share_loop h tcs mcs need =
     (if need = 0 then Inr (0, tcs, mcs, h)
      else case mcs of
          [] \<Rightarrow> Inl NullDeref
        | mhead # mnext \<Rightarrow>
            rbind (shared_copy mhead h) (\<lambda>(chnk, h1).
            rbind (chunk_content_size h1 chnk) (\<lambda>sz.
              let chnk1 = (if sz > need then chnk\<lparr>write_idx := write_idx chnk - (sz - need)\<rparr>
                           else chnk) in
              rbind (chunk_content_size h1 chnk1) (\<lambda>cnt.
              rbind (assertion (0 < cnt)) (\<lambda>_.
              rbind (chunk_discard h1 mhead cnt) (\<lambda>(d, mhead').
              rbind (verify (d = cnt)) (\<lambda>_.
              rbind (drop_if_read h1 mhead' mnext) (\<lambda>(mcs', h2).
              rbind (share_loop h2 (tcs @ [chnk1]) mcs' (need - cnt)) (\<lambda>(f, tcs', mcs'', h3).
                Inr (cnt + f, tcs', mcs'', h3))))))))))"
  by pat_completeness auto
termination
  by (relation "measure (\<lambda>(h, tcs, mcs, need). need)") auto

declare share_loop.simps [simp del]

lemma fully_written_False:
  "fully_written h c = Inr False \<Longrightarrow> 0 < cap h c - write_idx c"
  by (auto simp: fully_written_def chunk_chk_def deref_def cap_def rbind_eq_Inr_iff
      split: option.splits)

function read_from_marshal ::
  "heap \<Rightarrow> marshal \<Rightarrow> marshal \<Rightarrow> nat \<Rightarrow> (nat \<times> marshal \<times> marshal \<times> heap) res" where
  "read_from_marshal h t m n =
     rbind (Marshal_content_size h m) (\<lambda>msz.
     rbind (assertion (n \<le> msz)) (\<lambda>_.
     rbind (if chunks t = [] then Inr True else fully_written h (last (chunks t))) (\<lambda>by_pointer.
     rbind
       (if by_pointer then
          rbind (share_loop h (chunks t) (chunks m) n) (\<lambda>(n_fetch, tcs, mcs, h').
            let t' = t\<lparr>chunks := tcs, write_cnt := write_cnt t + of_nat n_fetch,
                        content_size := content_size t + n_fetch\<rparr> in
            rbind (verify (n_fetch \<le> content_size m)) (\<lambda>_.
              Inr (n_fetch, t', m\<lparr>chunks := mcs, content_size := content_size m - n_fetch\<rparr>, h')))
        else
          (let copy_n = min (cap h (last (chunks t)) - write_idx (last (chunks t))) n in
           rbind (Marshal_read h m copy_n) (\<lambda>(buf, m1, h1).
           rbind (verify (length buf = copy_n)) (\<lambda>_.
           rbind (Marshal_write h1 t buf) (\<lambda>(w, t1, h2).
           rbind (verify (w = length buf)) (\<lambda>_.
             let leftover = n - copy_n in
             if 0 < leftover then
               (if chunks t1 = [] then Inl NullDeref
                else
                  rbind (fully_written h2 (last (chunks t1))) (\<lambda>fw.
                  rbind (verify fw) (\<lambda>_.
                  rbind (read_from_marshal h2 t1 m1 leftover) (\<lambda>(f, t2, m2, h3).
                    Inr (length buf + f, t2, m2, h3)))))
             else Inr (length buf, t1, m1, h2)))))))
       (\<lambda>(n_fetch, t', m', h').
          rbind (assertion (n_fetch = n)) (\<lambda>_.
          rbind (chk_size h' t') (\<lambda>_. Inr (n_fetch, t', m', h')))))))"
  by pat_completeness auto
termination
  by (relation "measure (\<lambda>(h, t, m, n). n)") (auto split: if_splits dest: fully_written_False)

declare read_from_marshal.simps [simp del]

lemma chunk_write_to_fd_sched:
  assumes "chunk_write_to_fd h c fd = Inr (cnt, c', fd')" and "0 < cnt"
  shows "length (wr_sched fd') < length (wr_sched fd)"
  using assms
  by (auto simp: chunk_write_to_fd_def sys_write_def rbind_eq_Inr_iff Let_def
      split: prod.splits list.splits if_splits)

function Marshal_write_to_fd ::
  "heap \<Rightarrow> marshal \<Rightarrow> out_fd \<Rightarrow> (nat \<times> marshal \<times> heap \<times> out_fd) res" where
  "Marshal_write_to_fd h m fd =
     rbind (Marshal_empty h m) (\<lambda>e.
       if e then rbind (chk_size h m) (\<lambda>_. Inr (0, m, h, fd))
       else case chunks m of
           [] \<Rightarrow> Inl NullDeref
         | head # next \<Rightarrow>
             rbind (chunk_write_to_fd h head fd) (\<lambda>(cnt, head', fd').
             rbind (drop_if_read h head' next) (\<lambda>(cs, h').
               if cnt \<le> 0 then
                 rbind (chk_size h' (m\<lparr>chunks := cs\<rparr>)) (\<lambda>_. Inr (0, m\<lparr>chunks := cs\<rparr>, h', fd'))
               else
                 rbind (assertion (nat cnt \<le> content_size m)) (\<lambda>_.
                 rbind (Marshal_write_to_fd h'
                          (m\<lparr>chunks := cs, content_size := content_size m - nat cnt\<rparr>) fd')
                   (\<lambda>(n_write, m', h'', fd''). Inr (nat cnt + n_write, m', h'', fd''))))))"
  by pat_completeness auto
termination
  by (relation "measure (\<lambda>(h, m, fd). length (wr_sched fd))") (auto dest: chunk_write_to_fd_sched)

declare Marshal_write_to_fd.simps [simp del]

fun bookmark_loop ::
  "heap \<Rightarrow> chunk list \<Rightarrow> nat \<Rightarrow> ((addr \<times> nat) list \<times> chunk list \<times> heap) res" where
  "bookmark_loop h cs 0 = Inr ([], cs, h)"
| "bookmark_loop h cs (Suc n) =
     rbind (ensure_tail h cs) (\<lambda>(cs1, h1).
     rbind (chunk_set_bookmark h1 (last cs1)) (\<lambda>(p, tail).
     rbind (bookmark_loop h1 (butlast cs1 @ [tail]) n) (\<lambda>(ps, cs2, h2). Inr (p # ps, cs2, h2))))"

definition set_bookmark :: "heap \<Rightarrow> marshal \<Rightarrow> nat \<Rightarrow> (bookmark \<times> marshal \<times> heap) res" where
  "set_bookmark h m n =
     rbind (verify (write_cnt m = 0)) (\<lambda>_.
     rbind (bookmark_loop h (chunks m) n) (\<lambda>(ps, cs, h').
       let m' = m\<lparr>chunks := cs, content_size := content_size m + n\<rparr> in
       rbind (chk_size h' m') (\<lambda>_. Inr (\<lparr>bm_size = n, bm_ptr = ps\<rparr>, m', h'))))"

fun store_at :: "heap \<Rightarrow> (addr \<times> nat) list \<Rightarrow> byte list \<Rightarrow> heap res" where
  "store_at h [] pc = Inr h"
| "store_at h (q # qs) [] = Inl OutOfBounds"
| "store_at h ((a, i) # qs) (b # pc) =
     rbind (deref h a) (\<lambda>r. store_at (put_cell a (r\<lparr>ptr := (ptr r)(i := b)\<rparr>) h) qs pc)"

definition write_bookmark :: "heap \<Rightarrow> bookmark \<Rightarrow> byte list \<Rightarrow> heap res" where
  "write_bookmark h bm pc = store_at h (take (bm_size bm) (bm_ptr bm)) pc"

definition get_and_reset_write_cnt :: "marshal \<Rightarrow> i32 \<times> marshal" where
  "get_and_reset_write_cnt m = (write_cnt m, m\<lparr>write_cnt := 0\<rparr>)"

end
