(* ===== verification/Marshal_Correct.thy ===== *)
theory Marshal_Correct
  imports Marshal_Buffer "HOL-Library.Sublist"
begin

text \<open>
  Correctness of the chunk chain. A buffer stands for the bytes in its windows, in order. The
  invariant of a chain: windows are inside live arrays, every chunk but the last is filled to
  the end of its array, no chunk was read to the end, and no array occurs twice. A world is a
  heap with all the buffers that own parts of it; every operation is shown to run without a
  failed assertion, to have its effect on its own buffer and none on the others.
\<close>

section \<open>Chains and what they stand for\<close>

definition cbytes :: "heap \<Rightarrow> chunk list \<Rightarrow> byte list" where
  "cbytes h cs = concat (map (chunk_bytes h) cs)"

definition clocs :: "chunk list \<Rightarrow> (addr \<times> nat) list" where
  "clocs cs = concat (map (\<lambda>c. map (Pair (data c)) [read_idx c..<write_idx c]) cs)"

definition crefs :: "chunk list \<Rightarrow> addr multiset" where
  "crefs cs = mset (map data cs)"

definition wf_chunks :: "heap \<Rightarrow> chunk list \<Rightarrow> bool" where
  "wf_chunks h cs \<longleftrightarrow> (\<forall>c \<in> set cs. wf_chunk h c)
     \<and> (\<forall>c \<in> set (butlast cs). write_idx c = cap h c) \<and> distinct (map data cs)"

text \<open>\<open>clear_of cs d\<close>: nothing that is stored behind the last chunk of \<open>cs\<close> is visible through \<open>d\<close>.\<close>

definition clear_of :: "chunk list \<Rightarrow> chunk \<Rightarrow> bool" where
  "clear_of cs d \<longleftrightarrow> (cs \<noteq> [] \<longrightarrow> data d \<noteq> data (last cs) \<or> write_idx d \<le> write_idx (last cs))"

lemma cbytes_simps [simp]:
  "cbytes h [] = []" "cbytes h (c # cs) = chunk_bytes h c @ cbytes h cs"
  "cbytes h (cs @ ds) = cbytes h cs @ cbytes h ds"
  by (simp_all add: cbytes_def)

lemma clocs_simps [simp]:
  "clocs [] = []" "clocs (c # cs) = map (Pair (data c)) [read_idx c..<write_idx c] @ clocs cs"
  "clocs (cs @ ds) = clocs cs @ clocs ds"
  by (simp_all add: clocs_def)

lemma crefs_simps [simp]:
  "crefs [] = {#}" "crefs (c # cs) = add_mset (data c) (crefs cs)"
  "crefs (cs @ ds) = crefs cs + crefs ds"
  by (simp_all add: crefs_def)

lemma set_mset_crefs [simp]: "set_mset (crefs cs) = data ` set cs"
  by (simp add: crefs_def)

lemma clear_of_Nil [simp]: "clear_of [] d"
  by (simp add: clear_of_def)

lemma clear_of_snoc [simp]:
  "clear_of (cs @ [c]) d \<longleftrightarrow> data d \<noteq> data c \<or> write_idx d \<le> write_idx c"
  by (simp add: clear_of_def)

lemma wf_chunks_Nil [simp]: "wf_chunks h []"
  by (simp add: wf_chunks_def)

lemma wf_chunks_Cons:
  "wf_chunks h (c # cs) \<longleftrightarrow> wf_chunk h c \<and> (cs \<noteq> [] \<longrightarrow> write_idx c = cap h c)
     \<and> data c \<notin> data ` set cs \<and> wf_chunks h cs"
  by (auto simp: wf_chunks_def)

lemma wf_chunks_snoc:
  "wf_chunks h (cs @ [c]) \<longleftrightarrow> (\<forall>d \<in> set cs. wf_chunk h d \<and> write_idx d = cap h d)
     \<and> distinct (map data cs) \<and> data c \<notin> data ` set cs \<and> wf_chunk h c"
  by (auto simp: wf_chunks_def)

lemma wf_chunks_open: "wf_chunks h cs \<Longrightarrow> c \<in> set cs \<Longrightarrow> open_chunk h c"
  by (auto simp: wf_chunks_def wf_chunk_def)

lemma wf_full_bytes: "wf_chunk h c \<Longrightarrow> write_idx c = cap h c \<Longrightarrow> chunk_bytes h c \<noteq> []"
proof
  assume c: "wf_chunk h c" "write_idx c = cap h c" and e: "chunk_bytes h c = []"
  then have "length (chunk_bytes h c) = write_idx c - read_idx c"
    using length_chunk_bytes wf_imp_open by blast
  with c e show False by (simp add: wf_chunk_def)
qed

lemma keeps_chain:
  assumes "\<forall>c \<in> set cs. keeps h h' c"
  shows "cbytes h' cs = cbytes h cs" "wf_chunks h' cs = wf_chunks h cs"
proof -
  show "cbytes h' cs = cbytes h cs"
    using assms by (induction cs) (auto simp: keeps_view)
  have "\<forall>c \<in> set cs. wf_chunk h' c = wf_chunk h c \<and> cap h' c = cap h c"
    using assms by (auto simp: keeps_view)
  moreover have "set (butlast cs) \<subseteq> set cs" by (auto dest: in_set_butlastD)
  ultimately show "wf_chunks h' cs = wf_chunks h cs"
    unfolding wf_chunks_def by (metis (no_types, lifting) subset_iff)
qed

lemma length_clocs: "wf_chunks h cs \<Longrightarrow> length (clocs cs) = length (cbytes h cs)"
  by (induction cs) (auto simp: wf_chunks_Cons wf_chunk_def)

section \<open>The checks of the debug build\<close>

lemma size_slow_loop_open:
  "\<forall>c \<in> set cs. open_chunk h c \<Longrightarrow> size_slow_loop h cs k = Inr (k + length (cbytes h cs))"
  by (induction cs arbitrary: k) (auto simp: chunk_content_size_open)

definition bytes :: "heap \<Rightarrow> marshal \<Rightarrow> byte list" where
  "bytes h m = cbytes h (chunks m)"

definition locs :: "marshal \<Rightarrow> (addr \<times> nat) list" where
  "locs m = clocs (chunks m)"

definition wf_marshal :: "heap \<Rightarrow> marshal \<Rightarrow> bool" where
  "wf_marshal h m \<longleftrightarrow> wf_chunks h (chunks m) \<and> content_size m = length (bytes h m)"

lemma chk_size_wf [simp]: "wf_marshal h m \<Longrightarrow> chk_size h m = Inr ()"
  using size_slow_loop_open [of "chunks m" h 0]
  by (auto simp: chk_size_def content_size_slow_def wf_marshal_def bytes_def wf_chunks_open)

lemma Marshal_empty_wf [simp]: "wf_marshal h m \<Longrightarrow> Marshal_empty h m = Inr (bytes h m = [])"
  by (simp add: Marshal_empty_def) (simp add: wf_marshal_def)

lemma Marshal_content_size_wf [simp]:
  "wf_marshal h m \<Longrightarrow> Marshal_content_size h m = Inr (length (bytes h m))"
  by (simp add: Marshal_content_size_def) (simp add: wf_marshal_def)

lemma chk_head_wf [simp]: "wf_marshal h m \<Longrightarrow> chk_head h m = Inr ()"
proof -
  assume wf: "wf_marshal h m"
  show ?thesis
  proof (cases "chunks m")
    case Nil
    then show ?thesis using wf by (simp add: chk_head_def bytes_def)
  next
    case (Cons c cs)
    then have "wf_chunk h c" using wf by (simp add: wf_marshal_def wf_chunks_Cons)
    then show ?thesis using wf Cons
      by (auto simp: chk_head_def fully_read_open wf_chunk_def)
  qed
qed

section \<open>Growing and shrinking a chain\<close>

text \<open>
  \<open>R\<close> collects the references held outside the chain; a window \<open>d\<close> on an array of \<open>R\<close> that the
  chain cannot write into keeps its meaning.
\<close>

definition grows ::
  "heap \<Rightarrow> chunk list \<Rightarrow> addr multiset \<Rightarrow> heap \<Rightarrow> chunk list \<Rightarrow> byte list \<Rightarrow> bool" where
  "grows h cs R h' cs' p \<longleftrightarrow> heap_ok h' (crefs cs' + R) \<and> wf_chunks h' cs'
     \<and> cbytes h' cs' = cbytes h cs @ p \<and> prefix (clocs cs) (clocs cs')
     \<and> (\<forall>d. data d \<in># R \<and> clear_of cs d \<longrightarrow> keeps h h' d \<and> clear_of cs' d)
     \<and> (\<forall>a \<in> data ` set cs'. a \<in># R \<longrightarrow> a \<in> data ` set cs)"

text \<open>Who cannot write under the one chain cannot write under the other.\<close>

definition within :: "chunk list \<Rightarrow> chunk list \<Rightarrow> bool" where
  "within cs' cs \<longleftrightarrow> (\<forall>ms. (\<forall>d \<in> set cs. clear_of ms d) \<longrightarrow> (\<forall>d \<in> set cs'. clear_of ms d))"

lemma within_refl [simp]: "within cs cs"
  by (simp add: within_def)

lemma within_trans: "within cs2 cs1 \<Longrightarrow> within cs1 cs \<Longrightarrow> within cs2 cs"
  by (simp add: within_def)

definition shrinks ::
  "heap \<Rightarrow> chunk list \<Rightarrow> addr multiset \<Rightarrow> heap \<Rightarrow> chunk list \<Rightarrow> nat \<Rightarrow> bool" where
  "shrinks h cs R h' cs' k \<longleftrightarrow> heap_ok h' (crefs cs' + R) \<and> wf_chunks h' cs'
     \<and> cbytes h' cs' = drop k (cbytes h cs) \<and> clocs cs' = drop k (clocs cs)
     \<and> (\<forall>d. data d \<in># R \<longrightarrow> keeps h h' d) \<and> (\<forall>d. clear_of cs d \<longrightarrow> clear_of cs' d)
     \<and> data ` set cs' \<subseteq> data ` set cs
     \<and> within cs' cs"

lemma grows_refl:
  assumes "heap_ok h (crefs cs + R)" "wf_chunks h cs"
  shows "grows h cs R h cs []"
  using assms heap_ok_live [OF assms(1)] by (force simp: grows_def keeps_def)

lemma grows_trans:
  assumes "grows h cs R h1 cs1 p" "grows h1 cs1 R h2 cs2 q"
  shows "grows h cs R h2 cs2 (p @ q)"
  using assms by (auto simp: grows_def intro: keeps_trans prefix_order.trans)

lemma shrinks_refl:
  assumes "heap_ok h (crefs cs + R)" "wf_chunks h cs"
  shows "shrinks h cs R h cs 0"
  using assms heap_ok_live [OF assms(1)] by (force simp: shrinks_def keeps_def)

lemma shrinks_trans:
  assumes "shrinks h cs R h1 cs1 j" "shrinks h1 cs1 R h2 cs2 k"
  shows "shrinks h cs R h2 cs2 (j + k)"
proof -
  have k: "data d \<in># R \<longrightarrow> keeps h h1 d" "data d \<in># R \<longrightarrow> keeps h1 h2 d" for d
    using assms unfolding shrinks_def by simp_all
  have w: "within cs1 cs" "within cs2 cs1" "data ` set cs1 \<subseteq> data ` set cs" "data ` set cs2 \<subseteq> data ` set cs1"
    using assms unfolding shrinks_def by simp_all
  have "keeps h h2 d" if "data d \<in># R" for d using k that keeps_trans by blast
  moreover note within_trans [OF w(2,1)] subset_trans [OF w(4,3)]
  ultimately show ?thesis using assms unfolding shrinks_def by (simp add: add.commute)
qed

text \<open>A new chunk behind a chain whose last chunk is full.\<close>

lemma grows_new_chunk:
  assumes ok: "heap_ok h (crefs cs + R)" and wf: "wf_chunks h cs"
    and full: "cs \<noteq> [] \<Longrightarrow> write_idx (last cs) = cap h (last cs)"
    and new: "heap_ok h' (add_mset (data c) (crefs cs + R))" "data c \<notin># crefs cs + R"
      "wf_chunk h' c" "chunk_bytes h' c = p" "\<And>d. data d \<in># crefs cs + R \<Longrightarrow> keeps h h' d"
  shows "grows h cs R h' (cs @ [c]) p"
proof -
  have k: "\<forall>d \<in> set cs. keeps h h' d" using new(5) by auto
  have "\<forall>d \<in> set cs. write_idx d = cap h d"
  proof (cases cs rule: rev_cases)
    case (snoc bs b)
    then show ?thesis using full wf by (auto simp: wf_chunks_snoc)
  qed simp
  then have "wf_chunks h' (cs @ [c])"
    using wf k new(2,3) by (auto simp: wf_chunks_snoc wf_chunks_def keeps_view)
  moreover have "clear_of (cs @ [c]) d" if "data d \<in># R" for d using new(2) that by auto
  ultimately show ?thesis
    using new keeps_chain(1) [OF k] by (auto simp: grows_def)
qed

text \<open>More bytes in the window of the last chunk.\<close>

lemma grows_tail:
  assumes wf: "wf_chunks h (bs @ [c])"
    and ok: "heap_ok h' (crefs (bs @ [c]) + R)"
    and c': "open_chunk h' (ext (length p) c)" "cap h' c = cap h c"
      "chunk_bytes h' (ext (length p) c) = chunk_bytes h c @ p"
    and k: "\<And>d. data d \<in># crefs (bs @ [c]) + R \<Longrightarrow>
        data d \<noteq> data c \<or> write_idx d \<le> write_idx c \<Longrightarrow> keeps h h' d"
  shows "grows h (bs @ [c]) R h' (bs @ [ext (length p) c]) p"
proof -
  have kb: "\<forall>d \<in> set bs. keeps h h' d"
  proof
    fix d assume d: "d \<in> set bs"
    then have "data d \<noteq> data c" using wf by (metis imageI wf_chunks_snoc)
    with d show "keeps h h' d" by (intro k) auto
  qed
  have "wf_chunk h' (ext (length p) c)"
    using wf c' by (simp add: wf_chunks_snoc wf_chunk_def)
  then have "wf_chunks h' (bs @ [ext (length p) c])"
    using wf kb by (auto simp: wf_chunks_snoc keeps_view)
  moreover have "prefix (map (Pair (data c)) [read_idx c..<write_idx c])
      (map (Pair (data c)) [read_idx c..<write_idx c + length p])"
    using wf by (intro map_mono_prefix)
      (metis upt_add_eq_append open_chunkE wf_chunks_snoc wf_imp_open prefixI)
  ultimately show ?thesis
    using ok c' k keeps_chain(1) [OF kb] by (auto simp: grows_def)
qed

lemma ensure_tail_ok:
  assumes ok: "heap_ok h (crefs cs + R)" and wf: "wf_chunks h cs"
  shows "\<exists>bs c h'. ensure_tail h cs = Inr (bs @ [c], h') \<and> grows h cs R h' (bs @ [c]) []
    \<and> write_idx c < cap h' c"
proof -
  obtain c h' where new: "chunk_new h = (c, h')" by fastforce
  note n = chunk_new_ok [OF ok new]
  have room: "write_idx c < cap h' c" by (simp add: n(5,6) min_size_def)
  show ?thesis
  proof (cases cs rule: rev_cases)
    case Nil
    have "grows h cs R h' (cs @ [c]) []"
      by (rule grows_new_chunk [OF ok wf _ n(1,2,3,4,7)]) (simp add: Nil)
    with Nil new room show ?thesis by (auto simp: ensure_tail_def)
  next
    case (snoc bs b)
    then have b: "open_chunk h b" using wf by (simp add: wf_chunks_snoc wf_imp_open)
    show ?thesis
    proof (cases "write_idx b = cap h b")
      case True
      have "grows h cs R h' (cs @ [c]) []"
        by (rule grows_new_chunk [OF ok wf _ n(1,2,3,4,7)]) (simp add: snoc True)
      with True snoc b new room show ?thesis
        by (auto simp: ensure_tail_def fully_written_open)
    next
      case False
      with write_idx_le_cap [OF b] have "write_idx b < cap h b" by simp
      with False snoc b grows_refl [OF ok wf] show ?thesis
        by (auto simp: ensure_tail_def fully_written_open)
    qed
  qed
qed

section \<open>Operations that append\<close>

text \<open>The part of \<open>Marshal::write\<close> that changes the chain.\<close>

definition write_chain :: "heap \<Rightarrow> chunk list \<Rightarrow> byte list \<Rightarrow> (chunk list \<times> heap) res" where
  "write_chain h cs p =
     (if cs = [] then let (c, h1) = chunk_new_copy p h in Inr ([c], h1)
      else rbind (fully_written h (last cs)) (\<lambda>fw.
        if fw then let (c, h1) = chunk_new_copy p h in Inr (cs @ [c], h1)
        else rbind (chunk_write h (last cs) p) (\<lambda>(n_write, tail, h1).
          rbind (assertion (0 < n_write)) (\<lambda>_.
            let cs' = butlast cs @ [tail] in
            if n_write < length p then
              let (c, h2) = chunk_new_copy (drop n_write p) h1 in Inr (cs' @ [c], h2)
            else Inr (cs', h1)))))"

lemma write_chain_new:
  assumes ok: "heap_ok h (crefs cs + R)" and wf: "wf_chunks h cs"
    and full: "cs \<noteq> [] \<Longrightarrow> write_idx (last cs) = cap h (last cs)"
  shows "\<exists>c h'. chunk_new_copy p h = (c, h') \<and> grows h cs R h' (cs @ [c]) p"
proof -
  obtain c h' where new: "chunk_new_copy p h = (c, h')" by fastforce
  note n = chunk_new_copy_ok [OF ok new]
  have "grows h cs R h' (cs @ [c]) p"
    by (rule grows_new_chunk [OF ok wf full n(1,2,3,4,7)])
  with new show ?thesis by blast
qed

lemma write_chain_ok:
  assumes ok: "heap_ok h (crefs cs + R)" and wf: "wf_chunks h cs" and p: "p \<noteq> []"
  shows "\<exists>cs' h'. write_chain h cs p = Inr (cs', h') \<and> grows h cs R h' cs' p"
proof (cases cs rule: rev_cases)
  case Nil
  with write_chain_new [OF ok wf, of p] show ?thesis by (auto simp: write_chain_def)
next
  case (snoc bs c)
  then have c: "open_chunk h c" "data c \<in># crefs cs + R"
    using wf by (simp_all add: wf_chunks_snoc wf_imp_open)
  show ?thesis
  proof (cases "write_idx c = cap h c")
    case True
    with write_chain_new [OF ok wf, of p] snoc c show ?thesis
      by (auto simp: write_chain_def fully_written_open)
  next
    case False
    define n where "n = min (length p) (cap h c - write_idx c)"
    have n: "0 < n" "n \<le> length p" using False p write_idx_le_cap [OF c(1)] by (auto simp: n_def)
    obtain h1 where w: "chunk_write h c p = Inr (n, ext n c, h1)" "heap_ok h1 (crefs cs + R)"
      "open_chunk h1 (ext n c)" "cap h1 c = cap h c"
      "chunk_bytes h1 (ext n c) = chunk_bytes h c @ take n p"
      "\<And>d. data d \<in># crefs cs + R \<Longrightarrow> data d \<noteq> data c \<or> write_idx d \<le> write_idx c \<Longrightarrow> keeps h h1 d"
      using chunk_write_ok [OF ok c n_def] by blast
    have len: "length (take n p) = n" using n by simp
    have g1: "grows h cs R h1 (bs @ [ext n c]) (take n p)"
      using grows_tail [of h bs c h1 R "take n p", unfolded len] wf w by (simp add: snoc)
    show ?thesis
    proof (cases "n < length p")
      case True
      then have "cap h c - write_idx c = n" by (auto simp: n_def)
      then have "write_idx (ext n c) = cap h1 (ext n c)"
        using w(4) write_idx_le_cap [OF c(1)] by simp
      then obtain d h2 where d: "chunk_new_copy (drop n p) h1 = (d, h2)"
        "grows h1 (bs @ [ext n c]) R h2 ((bs @ [ext n c]) @ [d]) (drop n p)"
        using write_chain_new [of h1 "bs @ [ext n c]" R "drop n p"] g1 by (auto simp: grows_def)
      from grows_trans [OF g1 d(2)] show ?thesis
        using True False n c w(1) d(1) snoc by (auto simp: write_chain_def fully_written_open)
    next
      case no: False
      with n have "n = length p" by simp
      with g1 no False n c w(1) snoc show ?thesis
        by (auto simp: write_chain_def fully_written_open)
    qed
  qed
qed

text \<open>A descriptor that delivers something at every call, often enough for all it has.\<close>

definition delivers :: "in_fd \<Rightarrow> bool" where
  "delivers fd \<longleftrightarrow> (\<forall>x \<in> set (rd_sched fd). 0 < x) \<and> length (rx fd) \<le> length (rd_sched fd)"

lemma chunk_read_delivers:
  assumes "chunk_read_from_fd h c fd = Inr (cnt, c', h', fd')" "write_idx c < cap h c" "delivers fd"
  shows "cnt \<le> 0 \<Longrightarrow> rx fd' = []" "0 < cnt \<Longrightarrow> delivers fd'"
proof -
  obtain r where r: "cells h (data c) = Some r" using assms(1)
    by (auto simp: chunk_read_from_fd_def chunk_chk_def deref_def rbind_eq_Inr_iff split: option.splits)
  obtain got where s: "sys_read fd (raw_size r - write_idx c) = (cnt, got, fd')"
    using assms(1,2) r
    by (auto simp: chunk_read_from_fd_def chunk_chk_def deref_def cap_def rbind_eq_Inr_iff Let_def
        split: prod.splits if_splits)
  have n: "0 < raw_size r - write_idx c" using assms(2) r by (simp add: cap_def)
  show "cnt \<le> 0 \<Longrightarrow> rx fd' = []" "0 < cnt \<Longrightarrow> delivers fd'"
    using s n assms(3)
    by (auto simp: sys_read_def delivers_def Let_def min_def Suc_le_eq split: list.splits if_splits)
qed

lemma fill_loop_ok:
  assumes "heap_ok h (crefs cs + R)" and "wf_chunks h cs"
  shows "\<exists>got cs' h' fd'. fill_loop h cs fd = Inr (length got, cs', h', fd')
    \<and> grows h cs R h' cs' got \<and> rx fd = got @ rx fd' \<and> (delivers fd \<longrightarrow> rx fd' = [])"
  using assms
proof (induction "length (rd_sched fd)" arbitrary: h cs fd rule: less_induct)
  case less
  obtain bs c h1 where e: "ensure_tail h cs = Inr (bs @ [c], h1)" "grows h cs R h1 (bs @ [c]) []"
    "write_idx c < cap h1 c"
    using ensure_tail_ok [OF less.prems] by blast
  then have ok1: "heap_ok h1 (crefs (bs @ [c]) + R)" and wf1: "wf_chunks h1 (bs @ [c])"
    by (auto simp: grows_def)
  then have c: "open_chunk h1 c" "data c \<in># crefs (bs @ [c]) + R"
    by (simp_all add: wf_chunks_snoc wf_imp_open)
  obtain cnt got h2 fd1 where r:
    "chunk_read_from_fd h1 c fd = Inr (cnt, ext (length got) c, h2, fd1)"
    "cnt > 0 \<and> got \<noteq> [] \<and> int (length got) = cnt \<or> cnt \<le> 0 \<and> got = []"
    "rx fd = got @ rx fd1" "heap_ok h2 (crefs (bs @ [c]) + R)"
    "open_chunk h2 (ext (length got) c)" "cap h2 c = cap h1 c"
    "chunk_bytes h2 (ext (length got) c) = chunk_bytes h1 c @ got"
    "\<And>d. data d \<in># crefs (bs @ [c]) + R \<Longrightarrow> data d \<noteq> data c \<or> write_idx d \<le> write_idx c
        \<Longrightarrow> keeps h1 h2 d"
    using chunk_read_from_fd_ok [OF ok1 c e(3), of fd] by blast
  have g: "grows h cs R h2 (bs @ [ext (length got) c]) got"
    using grows_trans [OF e(2) grows_tail [OF wf1 r(4,5,6,7,8)]] by simp
  show ?case
  proof (cases "cnt \<le> 0")
    case True
    with r(2) have got: "got = []" by auto
    with True e(1) r(1) have "fill_loop h cs fd = Inr (length got, bs @ [ext (length got) c], h2, fd1)"
      by (simp add: fill_loop.simps [of h cs fd])
    moreover have "delivers fd \<longrightarrow> rx fd1 = []" using chunk_read_delivers(1) [OF r(1) e(3)] True by blast
    ultimately show ?thesis using g r(3) by blast
  next
    case False
    then have dl: "delivers fd \<longrightarrow> delivers fd1" using chunk_read_delivers(2) [OF r(1) e(3)] by simp
    from False have "length (rd_sched fd1) < length (rd_sched fd)"
      using chunk_read_from_fd_sched [OF r(1)] by simp
    then obtain more cs' h' fd' where m:
      "fill_loop h2 (bs @ [ext (length got) c]) fd1 = Inr (length more, cs', h', fd')"
      "grows h2 (bs @ [ext (length got) c]) R h' cs' more" "rx fd1 = more @ rx fd'"
      "delivers fd1 \<longrightarrow> rx fd' = []"
      using less.hyps [of fd1 h2 "bs @ [ext (length got) c]"] g by (auto simp: grows_def)
    from False r(2) have "nat cnt = length got" by auto
    with False e(1) r(1) m(1) have "fill_loop h cs fd = Inr (length (got @ more), cs', h', fd')"
      by (simp add: fill_loop.simps [of h cs fd])
    moreover have "rx fd = (got @ more) @ rx fd'" using r(3) m(3) by simp
    ultimately show ?thesis using grows_trans [OF g m(2)] dl m(4) by blast
  qed
qed

lemma bookmark_loop_ok:
  assumes "heap_ok h (crefs cs + R)" and "wf_chunks h cs"
  shows "\<exists>ps cs' h' got. bookmark_loop h cs n = Inr (ps, cs', h') \<and> length got = n
    \<and> grows h cs R h' cs' got \<and> clocs cs' = clocs cs @ ps"
  using assms
proof (induction n arbitrary: h cs)
  case 0
  then show ?case by (auto intro: grows_refl)
next
  case (Suc n)
  obtain bs c h1 where e: "ensure_tail h cs = Inr (bs @ [c], h1)" "grows h cs R h1 (bs @ [c]) []"
    "write_idx c < cap h1 c"
    using ensure_tail_ok [OF Suc.prems] by blast
  then have ok1: "heap_ok h1 (crefs (bs @ [c]) + R)" and wf1: "wf_chunks h1 (bs @ [c])"
    by (auto simp: grows_def)
  then have c: "open_chunk h1 c" by (simp add: wf_chunks_snoc wf_imp_open)
  then obtain r where r: "cells h1 (data c) = Some r" "read_idx c \<le> write_idx c"
    by (rule open_chunkE)
  let ?b = "[ptr r (write_idx c)]"
  have c1: "open_chunk h1 (ext (length ?b) c)"
    using r e(3) by (auto simp: open_chunk_def cap_def)
  have b1: "chunk_bytes h1 (ext (length ?b) c) = chunk_bytes h1 c @ ?b"
    using r by (simp add: chunk_bytes_def)
  have "keeps h1 h1 d" if "data d \<in># crefs (bs @ [c]) + R" for d
    using heap_ok_live [OF ok1 that] by (auto simp: keeps_def)
  then have g: "grows h cs R h1 (bs @ [ext 1 c]) ?b"
    using grows_trans [OF e(2) grows_tail [OF wf1 ok1 c1 refl b1]] by simp
  have "length (clocs cs) = length (clocs (bs @ [c]))"
    unfolding length_clocs [OF Suc.prems(2)] length_clocs [OF wf1]
    using e(2) by (simp only: grows_def append_Nil2)
  moreover have "prefix (clocs cs) (clocs (bs @ [c]))" using e(2) unfolding grows_def by blast
  ultimately have "clocs cs = clocs (bs @ [c])"
    by (metis append_Nil2 append_eq_append_conv prefixE)
  then have l: "clocs (bs @ [ext 1 c]) = clocs cs @ [(data c, write_idx c)]"
    using r by simp
  have s: "chunk_set_bookmark h1 c = Inr ((data c, write_idx c), ext 1 c)"
    using c c1 by (simp add: chunk_set_bookmark_def chunk_chk_open Let_def ext_def)
  obtain ps cs' h' got where m: "bookmark_loop h1 (bs @ [ext 1 c]) n = Inr (ps, cs', h')"
    "length got = n" "grows h1 (bs @ [ext 1 c]) R h' cs' got"
    "clocs cs' = clocs (bs @ [ext 1 c]) @ ps"
    using Suc.IH [of h1 "bs @ [ext 1 c]"] g by (auto simp: grows_def)
  from grows_trans [OF g m(3)] m(1,2,4) l e(1) s show ?case
    by (intro exI [of _ "(data c, write_idx c) # ps"] exI [of _ cs'] exI [of _ h']
        exI [of _ "?b @ got"]) simp
qed

section \<open>Operations that consume\<close>

text \<open>The head chunk was advanced by \<open>k\<close>; \<open>drop_if_read\<close> restores the invariant of the chain.\<close>

lemma drop_if_read_ok:
  assumes ok: "heap_ok h (crefs (c # cs) + R)" and wf: "wf_chunks h (c # cs)"
    and k: "k \<le> length (chunk_bytes h c)"
  shows "\<exists>cs' h'. drop_if_read h (adv k c) cs = Inr (cs', h') \<and> shrinks h (c # cs) R h' cs' k"
proof -
  have c: "open_chunk h c" and wfcs: "wf_chunks h cs" using wf by (auto simp: wf_chunks_Cons wf_imp_open)
  then have a: "open_chunk h (adv k c)" using k by (intro open_chunk_adv) simp_all
  have l: "map (Pair (data c)) [read_idx c + k..<write_idx c]
      = drop k (map (Pair (data c)) [read_idx c..<write_idx c])" by (simp add: drop_map)
  show ?thesis
  proof (cases "read_idx (adv k c) = cap h (adv k c)")
    case True
    then have kl: "k = length (chunk_bytes h c)"
      using k c write_idx_le_cap [OF c] by simp
    obtain h' where h': "release (data c) h = Inr h'" "heap_ok h' (crefs cs + R)"
      "\<forall>d. data d \<in># crefs cs + R \<longrightarrow> keeps h h' d"
      using release_ok [of h "data c" "crefs cs + R"] ok by auto
    then have kc: "\<forall>d \<in> set cs. keeps h h' d" by auto
    have "clear_of (c # cs) d \<longrightarrow> clear_of cs d" for d by (auto simp: clear_of_def)
    moreover have "length (map (Pair (data c)) [read_idx c..<write_idx c]) = k" using kl c by simp
    moreover have "within cs (c # cs)" by (simp add: within_def)
    ultimately have "shrinks h (c # cs) R h' cs k"
      using h' wfcs keeps_chain [OF kc] kl by (auto simp: shrinks_def)
    moreover have "drop_if_read h (adv k c) cs = Inr (cs, h')"
      using True a h'(1) by (simp add: drop_if_read_def fully_read_open chunk_delete_def)
    ultimately show ?thesis by blast
  next
    case False
    then have "wf_chunk h (adv k c)"
      using a write_idx_le_cap [OF a] by (auto simp: wf_chunk_def open_chunk_def)
    then have "wf_chunks h (adv k c # cs)" using wf by (simp add: wf_chunks_Cons)
    moreover have "keeps h h d" if "data d \<in># R" for d
      using heap_ok_live [OF ok, of "data d"] that by (auto simp: keeps_def)
    moreover have "clear_of (c # cs) d \<longrightarrow> clear_of (adv k c # cs) d" for d
      by (auto simp: clear_of_def)
    moreover have "within (adv k c # cs) (c # cs)" by (auto simp: within_def clear_of_def)
    ultimately have "shrinks h (c # cs) R h (adv k c # cs) k"
      using ok k c l by (auto simp: shrinks_def chunk_bytes_adv)
    moreover have "drop_if_read h (adv k c) cs = Inr (adv k c # cs, h)"
      using False a by (simp add: drop_if_read_def fully_read_open)
    ultimately show ?thesis by blast
  qed
qed

lemma empty_head:
  "wf_chunks h (c # cs) \<Longrightarrow> chunk_bytes h c = [] \<Longrightarrow> cs = []"
  using wf_full_bytes by (auto simp: wf_chunks_Cons)

lemma read_loop_ok:
  assumes "heap_ok h (crefs cs + R)" and "wf_chunks h cs"
  shows "\<exists>cs' h'. read_loop h cs n = Inr (take n (cbytes h cs), cs', h')
    \<and> shrinks h cs R h' cs' (min n (length (cbytes h cs)))"
  using assms
proof (induction n arbitrary: h cs rule: less_induct)
  case (less n)
  show ?case
  proof (cases "n = 0 \<or> cs = [] \<or> chunk_bytes h (hd cs) = []")
    case True
    then have "n = 0 \<or> cbytes h cs = []"
      using empty_head [of h "hd cs" "tl cs"] less.prems(2) by (cases cs) auto
    moreover have "read_loop h cs n = Inr ([], cs, h)"
      using True wf_chunks_open [OF less.prems(2)]
      by (subst read_loop.simps) (cases cs; auto simp: chunk_content_size_open simp del: length_chunk_bytes)
    ultimately show ?thesis using shrinks_refl [OF less.prems] by auto
  next
    case False
    then obtain c ds where cs: "cs = c # ds" by (cases cs) auto
    let ?b = "chunk_bytes h c" and ?k = "min n (length (chunk_bytes h c))"
    have c: "open_chunk h c" using less.prems(2) by (simp add: cs wf_chunks_open)
    obtain cs1 h1 where d: "drop_if_read h (adv ?k c) ds = Inr (cs1, h1)" "shrinks h cs R h1 cs1 ?k"
      using drop_if_read_ok [of h c ds R ?k] less.prems by (auto simp: cs)
    have k: "0 < ?k" "length (take n ?b) = ?k" using False cs by auto
    then obtain cs' h' where r: "read_loop h1 cs1 (n - ?k)
          = Inr (take (n - ?k) (cbytes h1 cs1), cs', h')"
      "shrinks h1 cs1 R h' cs' (min (n - ?k) (length (cbytes h1 cs1)))"
      using less.IH [of "n - ?k" h1 cs1] d(2) False by (auto simp: shrinks_def)
    have b1: "cbytes h1 cs1 = drop ?k (cbytes h cs)" using d(2) by (simp add: shrinks_def)
    have t: "take n ?b @ take (n - ?k) (drop ?k (cbytes h cs)) = take n (cbytes h cs)"
      by (auto simp: cs min_def take_Cons')
    have "?b \<noteq> []" "take n ?b \<noteq> []" "n \<noteq> 0" using False cs by auto
    then have "read_loop h cs n = rbind (read_loop h1 cs1 (n - ?k)) (\<lambda>(rest, cs'', h'').
        Inr (take n ?b @ rest, cs'', h''))"
      unfolding read_loop.simps [of h cs n]
      by (simp add: cs chunk_content_size_open [OF c] chunk_read_open [OF c] d(1) k(2)
          del: length_chunk_bytes length_take take_eq_Nil)
    then have "read_loop h cs n = Inr (take n (cbytes h cs), cs', h')"
      unfolding r(1) b1 t [symmetric] by simp
    moreover have "?k + min (n - ?k) (length (cbytes h1 cs1)) = min n (length (cbytes h cs))"
      unfolding b1 by (auto simp: cs)
    ultimately show ?thesis using shrinks_trans [OF d(2) r(2)] by auto
  qed
qed

lemma peek_loop_ok:
  "wf_chunks h cs \<Longrightarrow> peek_loop h cs n = Inr (take n (cbytes h cs))"
proof (induction cs arbitrary: n)
  case (Cons c cs)
  then have c: "open_chunk h c" by (simp add: wf_chunks_open)
  show ?case
  proof (cases "n = 0 \<or> chunk_bytes h c = []")
    case True
    with Cons.prems c show ?thesis
      using empty_head [OF Cons.prems] by (auto simp: chunk_peek_open)
  next
    case False
    with Cons c show ?thesis by (auto simp: chunk_peek_open wf_chunks_Cons min_def)
  qed
qed simp

section \<open>Moving bytes by sharing arrays\<close>

definition shares ::
  "heap \<Rightarrow> chunk list \<Rightarrow> chunk list \<Rightarrow> addr multiset \<Rightarrow> heap \<Rightarrow> chunk list \<Rightarrow> chunk list \<Rightarrow> nat \<Rightarrow> bool"
  where
  "shares h tcs mcs R h' tcs' mcs' k \<longleftrightarrow> heap_ok h' (crefs tcs' + (crefs mcs' + R))
     \<and> wf_chunks h' tcs' \<and> wf_chunks h' mcs'
     \<and> cbytes h' tcs' = cbytes h tcs @ take k (cbytes h mcs)
     \<and> cbytes h' mcs' = drop k (cbytes h mcs)
     \<and> clocs tcs' = clocs tcs @ take k (clocs mcs) \<and> clocs mcs' = drop k (clocs mcs)
     \<and> (\<forall>d. data d \<in># R \<longrightarrow> keeps h h' d) \<and> (\<forall>d. clear_of mcs d \<longrightarrow> clear_of mcs' d)
     \<and> (\<forall>d \<in> set tcs'. clear_of mcs' d) \<and> data ` set mcs' \<subseteq> data ` set mcs
     \<and> data ` set tcs' \<subseteq> data ` set tcs \<union> data ` set mcs"

definition window :: "nat \<Rightarrow> chunk \<Rightarrow> chunk" where
  "window k c = c\<lparr>write_idx := read_idx c + k\<rparr>"

lemma window_simps [simp]:
  "data (window k c) = data c" "read_idx (window k c) = read_idx c"
  "write_idx (window k c) = read_idx c + k" "cap h (window k c) = cap h c"
  by (simp_all add: window_def cap_def)

lemma open_window:
  assumes "open_chunk h c" "k \<le> length (chunk_bytes h c)"
  shows "open_chunk h (window k c)" "chunk_bytes h (window k c) = take k (chunk_bytes h c)"
proof -
  obtain r where r: "cells h (data c) = Some r" "read_idx c \<le> write_idx c" "write_idx c \<le> raw_size r"
    using assms(1) by (rule open_chunkE)
  with assms show "open_chunk h (window k c)" "chunk_bytes h (window k c) = take k (chunk_bytes h c)"
    by (auto simp: open_chunk_def chunk_bytes_def take_map)
qed

text \<open>One round of the loop: a shared copy of the head, cut to \<open>k\<close> bytes, which the head loses.\<close>

lemma share_step:
  assumes ok: "heap_ok h (crefs tcs + (crefs (c # ds) + R))"
    and wf: "wf_chunks h tcs" "wf_chunks h (c # ds)"
    and full: "\<forall>d \<in> set tcs. write_idx d = cap h d"
    and disj: "data ` set tcs \<inter> data ` set (c # ds) = {}"
    and k: "k = min need (length (chunk_bytes h c))" "0 < k"
  shows "\<exists>h1 h2 mcs'. ref_copy (data c) h = Inr h1 \<and> open_chunk h1 c
    \<and> length (chunk_bytes h1 c) = length (chunk_bytes h c)
    \<and> drop_if_read h1 (adv k c) ds = Inr (mcs', h2)
    \<and> shares h tcs (c # ds) R h2 (tcs @ [window k c]) mcs' k
    \<and> cap h1 c = cap h c \<and> (\<forall>d \<in> set (tcs @ [window k c]). keeps h h2 d)"
proof -
  let ?A = "crefs tcs + (crefs (c # ds) + R)" and ?R = "add_mset (data c) (crefs tcs + R)"
  obtain h1 where h1: "ref_copy (data c) h = Inr h1" "heap_ok h1 (add_mset (data c) ?A)"
    "\<And>d. data d \<in># ?A \<Longrightarrow> keeps h h1 d"
    using ref_copy_ok [OF ok, of "data c"] by auto
  then have k1: "\<forall>d \<in> set (c # ds). keeps h h1 d" "keeps h h1 c" by auto
  note v1 = keeps_view [OF k1(2)]
  have wf1: "wf_chunks h1 (c # ds)" using keeps_chain(2) [OF k1(1)] wf(2) by simp
  then have c1: "open_chunk h1 c" by (simp add: wf_chunks_open)
  obtain mcs' h2 where d: "drop_if_read h1 (adv k c) ds = Inr (mcs', h2)"
    "shrinks h1 (c # ds) ?R h2 mcs' k"
    using drop_if_read_ok [of h1 c ds ?R k] h1(2) wf1 k(1) v1 by (auto simp: ac_simps)
  have k2: "keeps h h2 d" if "data d \<in># ?R" for d
    using h1(3) [of d] d(2) that by (auto simp: shrinks_def intro: keeps_trans)
  then have kt: "\<forall>d \<in> set tcs. keeps h h2 d" and kw: "keeps h h2 (window k c)" by auto
  have c: "open_chunk h c" using wf(2) by (simp add: wf_chunks_open)
  have kl: "k \<le> length (chunk_bytes h c)" using k by simp
  have "wf_chunk h (window k c)"
    using open_window [OF c kl] wf(2) by (simp add: wf_chunk_def wf_chunks_Cons)
  then have "wf_chunks h (tcs @ [window k c])"
    using wf(1) full disj by (auto simp: wf_chunks_snoc wf_chunks_def)
  then have wft: "wf_chunks h2 (tcs @ [window k c])"
    using keeps_chain(2) [of "tcs @ [window k c]" h h2] kt kw by auto
  have bt: "cbytes h2 (tcs @ [window k c]) = cbytes h tcs @ take k (chunk_bytes h c)"
    using keeps_chain(1) [OF kt] keeps_view [OF kw] open_window [OF c kl] by simp
  have bm: "cbytes h2 mcs' = drop k (cbytes h (c # ds))"
    using d(2) unfolding keeps_chain(1) [OF k1(1), symmetric] shrinks_def by blast
  have lt: "map (Pair (data c)) [read_idx c..<read_idx c + k]
      = take k (map (Pair (data c)) [read_idx c..<write_idx c])"
    using kl c by (auto simp: take_map elim!: open_chunkE)
  have "clear_of (c # ds) e" if "e \<in> set (tcs @ [window k c])" for e
  proof (cases "e = window k c")
    case True
    have "data c \<noteq> data (last ds)" if "ds \<noteq> []"
      using wf(2) that by (auto simp: wf_chunks_Cons)
    then show ?thesis using True kl c by (auto simp: clear_of_def open_chunk_def)
  next
    case False
    with that have "e \<in> set tcs" by simp
    then have "data e \<notin> data ` set (c # ds)" using disj by blast
    then show ?thesis unfolding clear_of_def by (metis imageI last_in_set)
  qed
  then have "\<forall>e \<in> set (tcs @ [window k c]). clear_of mcs' e" using d(2) by (auto simp: shrinks_def)
  moreover have "k \<le> length (map (Pair (data c)) [read_idx c..<write_idx c])" using kl c by simp
  moreover have "heap_ok h2 (crefs mcs' + ?R)" "wf_chunks h2 mcs'" "clocs mcs' = drop k (clocs (c # ds))"
    "\<forall>d. clear_of (c # ds) d \<longrightarrow> clear_of mcs' d" "data ` set mcs' \<subseteq> data ` set (c # ds)"
    using d(2) unfolding shrinks_def by blast+
  ultimately have "shares h tcs (c # ds) R h2 (tcs @ [window k c]) mcs' k"
    using wft bt bm lt k2 kl unfolding shares_def
    by (auto simp: ac_simps simp del: length_chunk_bytes)
  with h1(1) d(1) c1 v1 kt kw show ?thesis by auto
qed

lemma shares_refl:
  assumes "heap_ok h (crefs tcs + (crefs mcs + R))" "wf_chunks h tcs" "wf_chunks h mcs"
    "\<forall>d \<in> set tcs. clear_of mcs d"
  shows "shares h tcs mcs R h tcs mcs 0"
  using assms heap_ok_live [OF assms(1)] by (force simp: shares_def keeps_def)

lemma shares_data:
  assumes "shares h tcs mcs R h' tcs' mcs' k"
  shows "data ` set mcs' \<subseteq> data ` set mcs" "data ` set tcs' \<subseteq> data ` set tcs \<union> data ` set mcs"
    "heap_ok h' (crefs tcs' + (crefs mcs' + R))" "wf_chunks h' tcs'" "wf_chunks h' mcs'"
    "cbytes h' mcs' = drop k (cbytes h mcs)"
  using assms unfolding shares_def by simp_all

lemma Un_subset_trans: "C \<subseteq> B \<union> D \<Longrightarrow> B \<subseteq> A \<union> M \<Longrightarrow> D \<subseteq> M \<Longrightarrow> C \<subseteq> A \<union> M"
  by blast

lemma shares_trans:
  assumes "shares h tcs mcs R h1 tcs1 mcs1 j" "shares h1 tcs1 mcs1 R h2 tcs2 mcs2 k"
  shows "shares h tcs mcs R h2 tcs2 mcs2 (j + k)"
proof -
  have "data ` set mcs2 \<subseteq> data ` set mcs" "data ` set tcs2 \<subseteq> data ` set tcs \<union> data ` set mcs"
    by (rule subset_trans [OF shares_data(1) [OF assms(2)] shares_data(1) [OF assms(1)]])
      (rule Un_subset_trans [OF shares_data(2) [OF assms(2)] shares_data(2) [OF assms(1)]
         shares_data(1) [OF assms(1)]])
  moreover have "keeps h h2 d" if "data d \<in># R" for d
    using assms that keeps_trans unfolding shares_def by meson
  ultimately show ?thesis using assms unfolding shares_def by (simp add: add.commute take_add)
qed

lemma window_eq: "open_chunk h c \<Longrightarrow> length (chunk_bytes h c) = k \<Longrightarrow> window k c = c"
  by (auto simp: window_def elim!: open_chunkE)

lemma chunk_eta [simp]: "\<lparr>data = data c, read_idx = read_idx c, write_idx = write_idx c\<rparr> = c"
  by (cases c) simp

lemma share_loop_ok:
  assumes "heap_ok h (crefs tcs + (crefs mcs + R))" "wf_chunks h tcs" "wf_chunks h mcs"
    "\<forall>d \<in> set tcs. write_idx d = cap h d" "data ` set tcs \<inter> data ` set mcs = {}"
    "need \<le> length (cbytes h mcs)"
  shows "\<exists>tcs' mcs' h'. share_loop h tcs mcs need = Inr (need, tcs', mcs', h')
    \<and> shares h tcs mcs R h' tcs' mcs' need"
  using assms
proof (induction mcs arbitrary: h tcs need)
  case Nil
  then show ?case using shares_refl [of h tcs "[]" R] by (simp add: share_loop.simps [of h tcs "[]"])
next
  case (Cons c ds)
  show ?case
  proof (cases "need = 0")
    case True
    have "clear_of (c # ds) d" if "d \<in> set tcs" for d
    proof -
      have "data d \<notin> data ` set (c # ds)" using Cons.prems(5) that by blast
      then show ?thesis unfolding clear_of_def by (metis imageI last_in_set)
    qed
    with True shares_refl [OF Cons.prems(1-3)] show ?thesis by (simp add: share_loop.simps)
  next
    case False
    let ?k = "min need (length (chunk_bytes h c))"
    have "chunk_bytes h c \<noteq> []"
      using empty_head [OF Cons.prems(3)] Cons.prems(6) False by auto
    then have k0: "0 < ?k" using False by simp
    obtain h1 h2 mcs1 where s: "ref_copy (data c) h = Inr h1" "open_chunk h1 c"
      "length (chunk_bytes h1 c) = length (chunk_bytes h c)"
      "drop_if_read h1 (adv ?k c) ds = Inr (mcs1, h2)"
      "shares h tcs (c # ds) R h2 (tcs @ [window ?k c]) mcs1 ?k" "cap h1 c = cap h c"
      "\<forall>d \<in> set (tcs @ [window ?k c]). keeps h h2 d"
      using share_step [OF Cons.prems(1-5) refl k0] by blast
    have w: "(if length (chunk_bytes h1 c) > need
          then c\<lparr>write_idx := write_idx c - (length (chunk_bytes h1 c) - need)\<rparr> else c) = window ?k c"
      using s(2) window_eq [OF s(2)] s(3) by (auto simp: window_def elim!: open_chunkE)
    have ow: "open_chunk h1 (window ?k c)" "length (chunk_bytes h1 (window ?k c)) = ?k"
      using open_window [OF s(2), of ?k] s(3) by simp_all
    have copy: "shared_copy c h = Inr (c, h1)"
      using s(1,2) by (simp add: shared_copy_def chunk_chk_open Let_def)
    have mk: "min ?k (length (chunk_bytes h1 c)) = ?k" using s(3) by simp
    have step: "share_loop h tcs (c # ds) need
        = rbind (share_loop h2 (tcs @ [window ?k c]) mcs1 (need - ?k)) (\<lambda>(f, tcs', mcs'', h3).
            Inr (?k + f, tcs', mcs'', h3))"
      unfolding share_loop.simps [of h tcs "c # ds" need]
      by (simp only: False if_False list.case copy rbind_Inr prod.case Let_def w
          chunk_content_size_open [OF s(2)] chunk_content_size_open [OF ow(1)] ow(2) k0
          assertion_True chunk_discard_open [OF s(2)] mk verify_True s(4) simp_thms)
    show ?thesis
    proof (cases "need \<le> length (chunk_bytes h c)")
      case True
      with step s(5) show ?thesis by (simp add: share_loop.simps [of h2 _ _ 0])
    next
      case no: False
      then have k: "?k = length (chunk_bytes h c)" by simp
      have ds: "ds \<noteq> []" using no Cons.prems(6) by auto
      then have full: "write_idx c = cap h c" using Cons.prems(3) by (simp add: wf_chunks_Cons)
      have c: "window ?k c = c" "open_chunk h c"
      proof -
        show co: "open_chunk h c" using Cons.prems(3) by (simp add: wf_chunks_open)
        show "window ?k c = c" unfolding k by (rule window_eq [OF co refl])
      qed
      have "fully_read h1 (adv ?k c) = Inr True"
        using open_chunk_adv [OF s(2)] s(3,6) k full c(2) s(2)
        by (auto simp: fully_read_open elim!: open_chunkE)
      then have mcs1: "mcs1 = ds" using s(4) by (auto simp: drop_if_read_def rbind_eq_Inr_iff)
      have sh: "shares h tcs (c # ds) R h2 (tcs @ [c]) ds ?k" using s(5) unfolding c(1) mcs1 .
      have a: "\<forall>d \<in> set (tcs @ [c]). write_idx d = cap h2 d"
        using Cons.prems(4) full s(7) unfolding c(1) by (auto simp: keeps_view)
      have b: "data ` set (tcs @ [c]) \<inter> data ` set ds = {}"
        using Cons.prems(3,5) by (auto simp: wf_chunks_Cons)
      note shares_data(6) [OF sh]
      then have n: "need - ?k \<le> length (cbytes h2 ds)" using Cons.prems(6) by simp
      obtain tcs' mcs' h' where
        l: "share_loop h2 (tcs @ [c]) ds (need - ?k) = Inr (need - ?k, tcs', mcs', h')"
          "shares h2 (tcs @ [c]) ds R h' tcs' mcs' (need - ?k)"
        using Cons.IH [OF shares_data(3-5) [OF sh] a b n] by blast
      have "shares h tcs (c # ds) R h' tcs' mcs' (?k + (need - ?k))"
        by (rule shares_trans [OF sh l(2)])
      moreover have kk: "?k + (need - ?k) = need" by simp
      moreover have "share_loop h tcs (c # ds) need = Inr (?k + (need - ?k), tcs', mcs', h')"
        unfolding step c(1) mcs1 l(1) by simp
      ultimately show ?thesis unfolding kk by blast
    qed
  qed
qed

section \<open>The operations of a buffer\<close>

text \<open>
  \<open>buf_ok h m R\<close>: the buffer is well formed in a heap whose other references are \<open>R\<close>. The
  effect of an operation on a buffer comes with its frame: any other buffer \<open>o\<close> that lives on
  \<open>R\<close> keeps its bytes, provided that appending to \<open>m\<close> does not write under its windows.
\<close>

definition refs :: "marshal \<Rightarrow> addr multiset" where
  "refs m = crefs (chunks m)"

definition buf_ok :: "heap \<Rightarrow> marshal \<Rightarrow> addr multiset \<Rightarrow> bool" where
  "buf_ok h m R \<longleftrightarrow> heap_ok h (refs m + R) \<and> wf_marshal h m"

definition clear :: "marshal \<Rightarrow> marshal \<Rightarrow> bool" where
  "clear m b \<longleftrightarrow> (\<forall>d \<in> set (chunks b). clear_of (chunks m) d)"

definition same_buf :: "heap \<Rightarrow> heap \<Rightarrow> marshal \<Rightarrow> bool" where
  "same_buf h h' b \<longleftrightarrow> (\<forall>d \<in> set (chunks b). keeps h h' d)"

definition appends ::
  "addr multiset \<Rightarrow> heap \<Rightarrow> marshal \<Rightarrow> byte list \<Rightarrow> heap \<Rightarrow> marshal \<Rightarrow> bool" where
  "appends R h m p h' m' \<longleftrightarrow> buf_ok h' m' R \<and> bytes h' m' = bytes h m @ p
     \<and> prefix (locs m) (locs m') \<and> (\<forall>a \<in># refs m'. a \<in># R \<longrightarrow> a \<in># refs m)
     \<and> (\<forall>b. set_mset (refs b) \<subseteq> set_mset R \<and> clear m b \<longrightarrow> same_buf h h' b \<and> clear m' b)"

definition consumes ::
  "addr multiset \<Rightarrow> heap \<Rightarrow> marshal \<Rightarrow> nat \<Rightarrow> heap \<Rightarrow> marshal \<Rightarrow> bool" where
  "consumes R h m k h' m' \<longleftrightarrow> buf_ok h' m' R \<and> bytes h' m' = drop k (bytes h m)
     \<and> locs m' = drop k (locs m) \<and> write_cnt m' = write_cnt m
     \<and> data ` set (chunks m') \<subseteq> data ` set (chunks m)
     \<and> (\<forall>b. set_mset (refs b) \<subseteq> set_mset R \<longrightarrow> same_buf h h' b) \<and> (\<forall>b. clear m b \<longrightarrow> clear m' b)
     \<and> (\<forall>b. clear b m \<longrightarrow> clear b m')"

lemma set_mset_refs [simp]: "set_mset (refs m) = data ` set (chunks m)"
  by (simp add: refs_def)

lemma same_bufI: "\<forall>d \<in> set (chunks b). keeps h h' d \<Longrightarrow> same_buf h h' b"
  by (simp add: same_buf_def)

lemma same_buf_view:
  assumes "same_buf h h' b"
  shows "bytes h' b = bytes h b" "wf_marshal h' b = wf_marshal h b"
    "c \<in> set (chunks b) \<Longrightarrow> cap h' c = cap h c"
  using assms keeps_chain [of "chunks b" h h']
  by (auto simp: same_buf_def bytes_def wf_marshal_def keeps_view)

lemma same_buf_trans: "same_buf h1 h2 b \<Longrightarrow> same_buf h2 h3 b \<Longrightarrow> same_buf h1 h3 b"
  by (auto simp: same_buf_def intro: keeps_trans)

lemma grows_appends:
  assumes "grows h (chunks m) R h' cs' p" and "wf_marshal h m"
    and "chunks m' = cs'" "content_size m' = content_size m + length p"
  shows "appends R h m p h' m'"
proof -
  have "same_buf h h' b \<and> clear m' b" if "set_mset (refs b) \<subseteq> set_mset R" "clear m b" for b
    using that assms(1,3) by (auto simp: grows_def clear_def intro!: same_bufI)
  then show ?thesis
    using assms by (auto simp: appends_def grows_def buf_ok_def refs_def wf_marshal_def bytes_def locs_def)
qed

lemma shrinks_consumes:
  assumes "shrinks h (chunks m) R h' cs' k" and "wf_marshal h m" and "k \<le> length (bytes h m)"
    and "chunks m' = cs'" "content_size m' = content_size m - k" "write_cnt m' = write_cnt m"
  shows "consumes R h m k h' m'"
proof -
  have "same_buf h h' b" if "set_mset (refs b) \<subseteq> set_mset R" for b
    using that assms(1) by (auto simp: shrinks_def intro!: same_bufI)
  moreover have "clear m' b" if "clear m b" for b
    using that assms(1,4) by (auto simp: shrinks_def clear_def)
  moreover have "clear b m'" if "clear b m" for b
    using that assms(1,4) by (simp add: shrinks_def within_def clear_def)
  ultimately show ?thesis
    using assms
    by (auto simp: consumes_def shrinks_def buf_ok_def refs_def wf_marshal_def bytes_def locs_def)
qed

lemma Marshal_write_via_chain:
  "Marshal_write h m p = rbind (write_chain h (chunks m) p) (\<lambda>(cs, h').
     let m' = m\<lparr>chunks := cs, write_cnt := write_cnt m + of_nat (length p),
                 content_size := content_size m + length p\<rparr> in
     rbind (chk_size h' m') (\<lambda>_. Inr (length p, m', h')))"
  by (simp add: Marshal_write_def write_chain_def Let_def)

lemma Marshal_write_ok:
  assumes "buf_ok h m R" "p \<noteq> []"
  shows "\<exists>m' h'. Marshal_write h m p = Inr (length p, m', h') \<and> appends R h m p h' m'
    \<and> write_cnt m' = write_cnt m + of_nat (length p)"
proof -
  have ok: "heap_ok h (crefs (chunks m) + R)" and wf: "wf_chunks h (chunks m)" "wf_marshal h m"
    using assms(1) by (simp_all add: buf_ok_def refs_def wf_marshal_def)
  obtain cs' h' where w: "write_chain h (chunks m) p = Inr (cs', h')" "grows h (chunks m) R h' cs' p"
    using write_chain_ok [OF ok wf(1) assms(2)] by blast
  let ?m = "m\<lparr>chunks := cs', write_cnt := write_cnt m + of_nat (length p),
              content_size := content_size m + length p\<rparr>"
  have a: "appends R h m p h' ?m" by (rule grows_appends [OF w(2) wf(2)]) simp_all
  then have "wf_marshal h' ?m" by (simp add: appends_def buf_ok_def)
  with w(1) a show ?thesis by (simp add: Marshal_write_via_chain Let_def)
qed

lemma Marshal_read_ok:
  assumes "buf_ok h m R"
  shows "\<exists>m' h'. Marshal_read h m n = Inr (take n (bytes h m), m', h')
    \<and> consumes R h m (min n (length (bytes h m))) h' m'"
proof -
  have ok: "heap_ok h (crefs (chunks m) + R)" and wf: "wf_chunks h (chunks m)" "wf_marshal h m"
    using assms by (simp_all add: buf_ok_def refs_def wf_marshal_def)
  let ?k = "min n (length (bytes h m))"
  obtain cs' h' where r: "read_loop h (chunks m) n = Inr (take n (bytes h m), cs', h')"
    "shrinks h (chunks m) R h' cs' ?k"
    using read_loop_ok [OF ok wf(1), of n] by (auto simp: bytes_def)
  let ?m = "m\<lparr>chunks := cs', content_size := content_size m - ?k\<rparr>"
  have c: "consumes R h m ?k h' ?m" by (rule shrinks_consumes [OF r(2) wf(2)]) simp_all
  then have wf': "wf_marshal h' ?m" by (simp add: consumes_def buf_ok_def)
  have "length (take n (bytes h m)) = ?k" "?k \<le> content_size m" "?k \<le> n"
    using wf(2) by (simp_all add: wf_marshal_def)
  then have "Marshal_read h m n = Inr (take n (bytes h m), ?m, h')"
    using wf(2) wf' by (simp add: Marshal_read_def r(1) Let_def del: length_take)
  with c show ?thesis by blast
qed

lemma Marshal_peek_ok: "wf_marshal h m \<Longrightarrow> Marshal_peek h m n = Inr (take n (bytes h m))"
  by (simp add: Marshal_peek_def peek_loop_ok bytes_def wf_marshal_def)

lemma Marshal_read_from_fd_ok:
  assumes "buf_ok h m R"
  shows "\<exists>got m' h' fd'. Marshal_read_from_fd h m fd = Inr (length got, m', h', fd')
    \<and> appends R h m got h' m' \<and> rx fd = got @ rx fd'
    \<and> write_cnt m' = write_cnt m + of_nat (length got) \<and> (delivers fd \<longrightarrow> rx fd' = [])"
proof -
  have ok: "heap_ok h (crefs (chunks m) + R)" and wf: "wf_chunks h (chunks m)" "wf_marshal h m"
    using assms by (simp_all add: buf_ok_def refs_def wf_marshal_def)
  obtain got cs' h' fd' where r: "fill_loop h (chunks m) fd = Inr (length got, cs', h', fd')"
    "grows h (chunks m) R h' cs' got" "rx fd = got @ rx fd'"
    "delivers fd \<longrightarrow> rx fd' = []"
    using fill_loop_ok [OF ok wf(1)] by blast
  let ?m = "m\<lparr>chunks := cs', write_cnt := write_cnt m + of_nat (length got),
              content_size := content_size m + length got\<rparr>"
  have a: "appends R h m got h' ?m" by (rule grows_appends [OF r(2) wf(2)]) simp_all
  then have "wf_marshal h' ?m" by (simp add: appends_def buf_ok_def)
  then have "Marshal_read_from_fd h m fd = Inr (length got, ?m, h', fd')"
    using wf(2) by (simp add: Marshal_read_from_fd_def r(1) Let_def)
  moreover have "write_cnt ?m = write_cnt m + of_nat (length got)" by simp
  ultimately show ?thesis using a r(3,4) by blast
qed

lemma consumes_trans:
  assumes "consumes R h m j h1 m1" "consumes R h1 m1 k h2 m2"
  shows "consumes R h m (j + k) h2 m2"
  using assms unfolding consumes_def
  by (simp add: add.commute) (meson same_buf_trans subset_trans)

lemma Marshal_write_to_fd_ok:
  assumes "buf_ok h m R"
  shows "\<exists>k m' h' fd'. Marshal_write_to_fd h m fd = Inr (k, m', h', fd') \<and> k \<le> length (bytes h m)
    \<and> consumes R h m k h' m' \<and> tx fd' = tx fd @ take k (bytes h m)
    \<and> ((\<forall>x \<in> set (wr_sched fd). 0 < x) \<and> length (bytes h m) \<le> length (wr_sched fd) \<longrightarrow>
          k = length (bytes h m))"
  using assms
proof (induction "length (wr_sched fd)" arbitrary: h m fd rule: less_induct)
  case less
  then have ok: "heap_ok h (crefs (chunks m) + R)" and wf: "wf_chunks h (chunks m)" "wf_marshal h m"
    by (simp_all add: buf_ok_def refs_def wf_marshal_def)
  show ?case
  proof (cases "bytes h m = []")
    case True
    have "consumes R h m 0 h m" using shrinks_consumes [OF shrinks_refl [OF ok wf(1)] wf(2)] by simp
    with True wf(2) show ?thesis by (simp add: Marshal_write_to_fd.simps [of h m fd])
  next
    case False
    then obtain c cs where cs: "chunks m = c # cs" by (cases "chunks m") (auto simp: bytes_def)
    have c: "open_chunk h c" using wf(1) by (simp add: cs wf_chunks_open)
    have "chunk_bytes h c \<noteq> []" using empty_head [of h c cs] wf(1) False by (auto simp: cs bytes_def)
    then obtain cnt fd1 where w: "chunk_write_to_fd h c fd = Inr (cnt, adv (nat cnt) c, fd1)"
      "nat cnt \<le> length (chunk_bytes h c)" "tx fd1 = tx fd @ take (nat cnt) (chunk_bytes h c)"
      "\<And>x xs. wr_sched fd = x # xs \<Longrightarrow> 0 < x \<Longrightarrow> 0 < cnt \<and> wr_sched fd1 = xs"
      using chunk_write_to_fd_ok [OF c] by blast
    obtain cs1 h1 where d: "drop_if_read h (adv (nat cnt) c) cs = Inr (cs1, h1)"
      "shrinks h (chunks m) R h1 cs1 (nat cnt)"
      using drop_if_read_ok [OF _ _ w(2), of cs R] ok wf(1) by (auto simp: cs)
    have len: "nat cnt \<le> length (bytes h m)" using w(2) by (simp add: bytes_def cs)
    let ?m = "m\<lparr>chunks := cs1, content_size := content_size m - nat cnt\<rparr>"
    have con: "consumes R h m (nat cnt) h1 ?m" by (rule shrinks_consumes [OF d(2) wf(2) len]) simp_all
    then have ok1: "buf_ok h1 ?m R" by (simp add: consumes_def)
    have out: "take (nat cnt) (chunk_bytes h c) = take (nat cnt) (bytes h m)"
      using w(2) by (simp add: bytes_def cs)
    show ?thesis
    proof (cases "cnt \<le> 0")
      case True
      then have "?m = m\<lparr>chunks := cs1\<rparr>" by simp
      moreover have "\<not> ((\<forall>x \<in> set (wr_sched fd). 0 < x) \<and> length (bytes h m) \<le> length (wr_sched fd))"
        using w(4) True False by (cases "wr_sched fd") auto
      ultimately show ?thesis
        using True con ok1 w(1,3) d(1) False wf(2)
        by (simp add: Marshal_write_to_fd.simps [of h m fd] cs buf_ok_def)
    next
      case pos: False
      have "length (wr_sched fd1) < length (wr_sched fd)"
        using chunk_write_to_fd_sched [OF w(1)] pos by simp
      then obtain k m' h' fd' where r: "Marshal_write_to_fd h1 ?m fd1 = Inr (k, m', h', fd')"
        "k \<le> length (bytes h1 ?m)" "consumes R h1 ?m k h' m'" "tx fd' = tx fd1 @ take k (bytes h1 ?m)"
        "(\<forall>x \<in> set (wr_sched fd1). 0 < x) \<and> length (bytes h1 ?m) \<le> length (wr_sched fd1) \<longrightarrow>
          k = length (bytes h1 ?m)"
        using less.hyps [OF _ ok1] by blast
      have b1: "bytes h1 ?m = drop (nat cnt) (bytes h m)" using con by (simp add: consumes_def)
      have "nat cnt \<le> content_size m" using len wf(2) by (simp add: wf_marshal_def)
      then have "Marshal_write_to_fd h m fd = Inr (nat cnt + k, m', h', fd')"
        using pos False wf(2) w(1) d(1) r(1) by (simp add: Marshal_write_to_fd.simps [of h m fd] cs)
      moreover have "nat cnt + k \<le> length (bytes h m)" using r(2) len by (simp add: b1)
      moreover have "tx fd' = tx fd @ take (nat cnt + k) (bytes h m)"
        using r(4) w(3) out by (simp add: b1 take_add)
      moreover have "nat cnt + k = length (bytes h m)"
        if "(\<forall>x \<in> set (wr_sched fd). 0 < x) \<and> length (bytes h m) \<le> length (wr_sched fd)"
        using that w(4) r(5) len pos False by (cases "wr_sched fd") (auto simp: b1)
      ultimately show ?thesis using consumes_trans [OF con r(3)] by blast
    qed
  qed
qed

lemma delete_chain_ok:
  "heap_ok h (crefs cs + R) \<Longrightarrow>
     \<exists>h'. delete_chain cs h = Inr h' \<and> heap_ok h' R \<and> (\<forall>d. data d \<in># R \<longrightarrow> keeps h h' d)"
proof (induction cs arbitrary: h)
  case Nil
  then show ?case using heap_ok_live by (fastforce simp: keeps_def)
next
  case (Cons c cs)
  then have "heap_ok h (add_mset (data c) (crefs cs + R))" by simp
  from release_ok [OF this] obtain h1 where h1: "release (data c) h = Inr h1"
    "heap_ok h1 (crefs cs + R)" "\<And>d. data d \<in># crefs cs + R \<Longrightarrow> keeps h h1 d" by blast
  from Cons.IH [OF h1(2)] obtain h' where "delete_chain cs h1 = Inr h'" "heap_ok h' R"
    "\<forall>d. data d \<in># R \<longrightarrow> keeps h1 h' d" by blast
  with h1 show ?case by (auto simp: chunk_delete_def intro: keeps_trans)
qed

lemma Marshal_delete_ok:
  assumes "buf_ok h m R"
  shows "\<exists>h'. Marshal_delete m h = Inr h' \<and> heap_ok h' R
    \<and> (\<forall>b. set_mset (refs b) \<subseteq> set_mset R \<longrightarrow> same_buf h h' b)"
proof -
  obtain h' where "delete_chain (chunks m) h = Inr h'" "heap_ok h' R"
    "\<forall>d. data d \<in># R \<longrightarrow> keeps h h' d"
    using delete_chain_ok [of h "chunks m" R] assms by (auto simp: buf_ok_def refs_def)
  then show ?thesis by (auto simp: Marshal_delete_def intro!: same_bufI)
qed

end
