(* ===== verification/Marshal_Interface.thy ===== *)
theory Marshal_Interface
  imports Marshal_Correct
begin

text \<open>
  The remaining operations of \<open>Marshal\<close> (moving bytes between two buffers, and bookmarks), the
  contract of a buffer as a locale of byte queues with its interpretation on \<open>Marshal\<close>, and the
  properties of the buffer as the rest of the program relies on them.
\<close>

section \<open>Reading from another buffer\<close>

definition disjoint_bufs :: "marshal \<Rightarrow> marshal \<Rightarrow> bool" where
  "disjoint_bufs a b \<longleftrightarrow> data ` set (chunks a) \<inter> data ` set (chunks b) = {}"

definition moves ::
  "addr multiset \<Rightarrow> heap \<Rightarrow> marshal \<Rightarrow> marshal \<Rightarrow> nat \<Rightarrow> heap \<Rightarrow> marshal \<Rightarrow> marshal \<Rightarrow> bool" where
  "moves R h t m n h' t' m' \<longleftrightarrow> heap_ok h' (refs t' + (refs m' + R))
     \<and> wf_marshal h' t' \<and> wf_marshal h' m'
     \<and> bytes h' t' = bytes h t @ take n (bytes h m) \<and> bytes h' m' = drop n (bytes h m)
     \<and> write_cnt t' = write_cnt t + of_nat n \<and> write_cnt m' = write_cnt m \<and> clear m' t' \<and> prefix (locs t) (locs t')
     \<and> (\<forall>b. set_mset (refs b) \<subseteq> set_mset R \<and> clear t b \<longrightarrow> same_buf h h' b)
     \<and> (\<forall>b. set_mset (refs b) \<subseteq> set_mset R \<and> clear m b \<longrightarrow> clear m' b)
     \<and> set_mset (refs m') \<subseteq> set_mset (refs m) \<and> set_mset (refs t') \<subseteq> set_mset (refs t) \<union> set_mset (refs m)"

lemma clear_disjoint: "disjoint_bufs a b \<Longrightarrow> clear a b \<and> clear b a"
  unfolding disjoint_bufs_def clear_def clear_of_def
  by (metis (no_types, lifting) disjoint_iff imageI last_in_set)

lemma by_pointer_ok:
  assumes ok: "heap_ok h (refs t + (refs m + R))" and wf: "wf_marshal h t" "wf_marshal h m"
    and full: "\<forall>d \<in> set (chunks t). write_idx d = cap h d" and dis: "disjoint_bufs t m"
    and n: "n \<le> length (bytes h m)"
  shows "\<exists>t' m' h'. read_from_marshal h t m n = Inr (n, t', m', h') \<and> moves R h t m n h' t' m'"
proof -
  have wfc: "wf_chunks h (chunks t)" "wf_chunks h (chunks m)" using wf by (simp_all add: wf_marshal_def)
  obtain tcs mcs h' where s: "share_loop h (chunks t) (chunks m) n = Inr (n, tcs, mcs, h')"
    "shares h (chunks t) (chunks m) R h' tcs mcs n"
    using share_loop_ok [of h "chunks t" "chunks m" R n] ok wfc full dis n
    by (auto simp: refs_def disjoint_bufs_def bytes_def)
  let ?t = "t\<lparr>chunks := tcs, write_cnt := write_cnt t + of_nat n, content_size := content_size t + n\<rparr>"
  let ?m = "m\<lparr>chunks := mcs, content_size := content_size m - n\<rparr>"
  have "same_buf h h' b" if "set_mset (refs b) \<subseteq> set_mset R" for b
    using s(2) that by (auto simp: shares_def intro!: same_bufI)
  moreover have "clear ?m b" if "clear m b" for b
    using s(2) that by (auto simp: shares_def clear_def)
  ultimately have mv: "moves R h t m n h' ?t ?m"
    using s(2) wf n
    by (auto simp: moves_def shares_def wf_marshal_def bytes_def refs_def clear_def locs_def)
  have by_pointer: "(if chunks t = [] then Inr True else fully_written h (last (chunks t))) = Inr True"
    using full wfc(1) by (auto simp: fully_written_open wf_chunks_open)
  have "n \<le> content_size m" using wf(2) n by (simp add: wf_marshal_def)
  moreover have "wf_marshal h' ?t" using mv by (simp add: moves_def)
  ultimately have "read_from_marshal h t m n = Inr (n, ?t, ?m, h')"
    unfolding read_from_marshal.simps [of h t m n] by_pointer
    using wf(2) n by (simp add: s(1) Let_def)
  with mv show ?thesis by blast
qed

text \<open>The other path first fills the last chunk by copying, then continues by pointers.\<close>

lemma Marshal_write_fit:
  assumes ok: "buf_ok h t R" and p: "p \<noteq> []" "chunks t = bs @ [c]"
    and len: "length p \<le> cap h c - write_idx c"
    and w: "Marshal_write h t p = Inr (k, t', h')"
  shows "chunks t' = bs @ [ext (length p) c]" "cap h' c = cap h c"
proof -
  have hok: "heap_ok h (crefs (chunks t) + R)" and wf: "wf_chunks h (chunks t)"
    using ok by (simp_all add: buf_ok_def refs_def wf_marshal_def)
  have c: "open_chunk h c" "data c \<in># crefs (chunks t) + R"
    using wf by (simp_all add: p(2) wf_chunks_open)
  have min: "length p = min (length p) (cap h c - write_idx c)" using len by simp
  obtain h1 where h1: "chunk_write h c p = Inr (length p, ext (length p) c, h1)" "cap h1 c = cap h c"
    using chunk_write_ok [OF hok c min] by blast
  have "write_idx c \<noteq> cap h c" using len p(1) by auto
  then have wc: "write_chain h (chunks t) p = Inr (bs @ [ext (length p) c], h1)"
    using p c(1) h1(1) by (simp add: write_chain_def fully_written_open)
  then show "chunks t' = bs @ [ext (length p) c]" "cap h' c = cap h c"
    using w h1(2) by (auto simp: Marshal_write_via_chain Let_def rbind_eq_Inr_iff)
qed

lemma appends_keeps_full:
  assumes "wf_marshal h' t'" "chunks t' = bs @ [c]" "write_idx c = cap h' c"
  shows "\<forall>d \<in> set (chunks t'). write_idx d = cap h' d"
  using assms by (auto simp: wf_marshal_def wf_chunks_snoc)

lemma disjoint_bufs_sub:
  "disjoint_bufs t m \<Longrightarrow> data ` set (chunks t1) \<subseteq> data ` set (chunks t) \<Longrightarrow>
     data ` set (chunks m1) \<subseteq> data ` set (chunks m) \<Longrightarrow> disjoint_bufs t1 m1"
  unfolding disjoint_bufs_def by blast

lemma moves_by_copy:
  assumes "consumes (refs t + R) h m k h1 m1" "appends (refs m1 + R) h1 t p h2 t1"
    and "p = take k (bytes h m)" "bytes h1 t = bytes h t"
    and dis: "disjoint_bufs t m1" "disjoint_bufs t1 m1"
    and "write_cnt t1 = write_cnt t + of_nat k" "set_mset (refs t1) \<subseteq> set_mset (refs t)"
  shows "moves R h t m k h2 t1 m1"
proof -
  have c: "clear m1 t1" "clear t m1" using clear_disjoint dis by blast+
  then have "same_buf h1 h2 m1" using assms(2) by (auto simp: appends_def)
  then have "wf_marshal h2 m1" "bytes h2 m1 = bytes h1 m1"
    using assms(1) by (auto simp: same_buf_view consumes_def buf_ok_def)
  moreover have "same_buf h h2 b" if "set_mset (refs b) \<subseteq> set_mset R" "clear t b" for b
    using assms(1,2) that same_buf_trans [of h h1 b h2]
    by (simp add: appends_def consumes_def le_supI2)
  moreover have "clear m1 b" if "clear m b" for b using assms(1) that by (simp add: consumes_def)
  ultimately show ?thesis
    using assms c by (auto simp: moves_def appends_def consumes_def buf_ok_def ac_simps)
qed

lemma moves_trans:
  assumes "moves R h t m j h1 t1 m1" "moves R h1 t1 m1 k h2 t2 m2"
    and "\<And>b. set_mset (refs b) \<subseteq> set_mset R \<Longrightarrow> clear t b \<Longrightarrow> clear t1 b"
  shows "moves R h t m (j + k) h2 t2 m2"
proof -
  have "same_buf h h2 b" if "set_mset (refs b) \<subseteq> set_mset R \<and> clear t b" for b
    using assms that by (meson moves_def same_buf_trans)
  moreover have "clear m2 b" if "set_mset (refs b) \<subseteq> set_mset R \<and> clear m b" for b
    using assms(1,2) that by (simp add: moves_def)
  moreover have "set_mset (refs m2) \<subseteq> set_mset (refs m)"
    "set_mset (refs t2) \<subseteq> set_mset (refs t) \<union> set_mset (refs m)"
    using assms(1,2) Un_subset_trans unfolding moves_def by (meson subset_trans)+
  moreover have "prefix (locs t) (locs t2)" using assms(1,2) prefix_order.trans unfolding moves_def by blast
  ultimately show ?thesis
    using assms(1,2) unfolding moves_def by (simp add: take_add add.commute)
qed

lemma read_from_marshal_ok:
  assumes ok: "heap_ok h (refs t + (refs m + R))" and wf: "wf_marshal h t" "wf_marshal h m"
    and dis: "disjoint_bufs t m" and n: "n \<le> length (bytes h m)" "0 < n \<or> chunks t = []"
  shows "\<exists>t' m' h'. read_from_marshal h t m n = Inr (n, t', m', h') \<and> moves R h t m n h' t' m'"
proof (cases "\<forall>d \<in> set (chunks t). write_idx d = cap h d")
  case True
  then show ?thesis by (rule by_pointer_ok [OF ok wf _ dis n(1)])
next
  case False
  then obtain bs c where t: "chunks t = bs @ [c]" by (cases "chunks t" rule: rev_cases) auto
  then have c: "open_chunk h c" "write_idx c < cap h c"
    using wf(1) False write_idx_le_cap [of h c]
    by (fastforce simp: wf_marshal_def wf_chunks_snoc wf_imp_open)+
  let ?k = "min (cap h c - write_idx c) n"
  have k: "0 < ?k" "?k \<le> length (bytes h m)" using c(2) n t by auto
  have okm: "buf_ok h m (refs t + R)" using ok wf(2) by (simp add: buf_ok_def ac_simps)
  have mk: "min ?k (length (bytes h m)) = ?k" using k(2) by simp
  obtain m1 h1 where r: "Marshal_read h m ?k = Inr (take ?k (bytes h m), m1, h1)"
    "consumes (refs t + R) h m ?k h1 m1"
    using Marshal_read_ok [OF okm, of ?k] unfolding mk by blast
  let ?p = "take ?k (bytes h m)"
  have p: "length ?p = ?k" "?p \<noteq> []" using k by auto
  have st: "same_buf h h1 t" using r(2) by (simp add: consumes_def)
  then have okt: "buf_ok h1 t (refs m1 + R)"
    using r(2) wf(1) same_buf_view(2) [OF st] by (simp add: consumes_def buf_ok_def ac_simps)
  have cap1: "cap h1 c = cap h c" using same_buf_view(3) [OF st] t by simp
  obtain t1 h2 where w: "Marshal_write h1 t ?p = Inr (length ?p, t1, h2)"
    "appends (refs m1 + R) h1 t ?p h2 t1" "write_cnt t1 = write_cnt t + of_nat ?k"
    using Marshal_write_ok [OF okt p(2)] unfolding p(1) by blast
  note fit = Marshal_write_fit [OF okt p(2) t _ w(1), unfolded p(1) cap1, simplified]
  have "data ` set (chunks m1) \<subseteq> data ` set (chunks m)" using r(2) by (simp add: consumes_def)
  then have dis1: "disjoint_bufs t m1" "disjoint_bufs t1 m1"
    using fit(1) t by (auto intro!: disjoint_bufs_sub [OF dis])
  have mv: "moves R h t m ?k h2 t1 m1"
    by (rule moves_by_copy [OF r(2) w(2) refl same_buf_view(1) [OF st] dis1 w(3)])
      (use fit(1) t in auto)
  then have wf1: "wf_marshal h2 t1" "wf_marshal h2 m1" "heap_ok h2 (refs t1 + (refs m1 + R))"
    by (simp_all add: moves_def)
  have cond: "(if chunks t = [] then Inr True else fully_written h (last (chunks t))) = Inr False"
    using c by (simp add: t fully_written_open)
  show ?thesis
  proof (cases "n \<le> cap h c - write_idx c")
    case True
    then have kn: "?k = n" by simp
    have "read_from_marshal h t m n = Inr (n, t1, m1, h2)"
      unfolding read_from_marshal.simps [of h t m n] cond
      using wf(2) n wf1(1) r(1) w(1) p(1) unfolding kn by (simp add: t kn Let_def)
    with mv show ?thesis unfolding kn by blast
  next
    case no: False
    then have kn: "?k = cap h c - write_idx c" by simp
    have full: "write_idx (ext ?k c) = cap h2 (ext ?k c)" using c fit(2) by (simp add: kn)
    have len: "n - ?k \<le> length (bytes h2 m1)" using mv n by (simp add: moves_def)
    obtain t2 m2 h3 where rec: "read_from_marshal h2 t1 m1 (n - ?k) = Inr (n - ?k, t2, m2, h3)"
      "moves R h2 t1 m1 (n - ?k) h3 t2 m2"
      using by_pointer_ok [OF wf1(3,1,2) appends_keeps_full [OF wf1(1) fit(1) full] dis1(2) len] by blast
    have "clear t1 b" if "set_mset (refs b) \<subseteq> set_mset R" "clear t b" for b
      using w(2) that by (simp add: appends_def le_supI2)
    then have mv2: "moves R h t m (?k + (n - ?k)) h3 t2 m2" by (rule moves_trans [OF mv rec(2)])
    have "open_chunk h2 (ext ?k c)"
      using wf1(1) wf_chunks_open unfolding wf_marshal_def fit(1) by fastforce
    then have fw: "fully_written h2 (last (chunks t1)) = Inr True" "chunks t1 \<noteq> []"
      using full unfolding fit(1) by (simp_all only: last_snoc fully_written_open) simp_all
    have "wf_marshal h3 t2" using rec(2) by (simp add: moves_def)
    then have "read_from_marshal h t m n = Inr (n, t2, m2, h3)"
      unfolding read_from_marshal.simps [of h t m n] cond
      using wf(2) n(1) r(1) w(1) p(1) no rec(1) fw by (simp add: t kn Let_def)
    with mv2 show ?thesis using no by auto
  qed
qed

section \<open>Bookmarks\<close>

definition val :: "heap \<Rightarrow> addr \<times> nat \<Rightarrow> byte" where
  "val h l = ptr (the (cells h (fst l))) (snd l)"

definition same_shape :: "heap \<Rightarrow> heap \<Rightarrow> bool" where
  "same_shape h h' \<longleftrightarrow> brk h' = brk h \<and> (\<forall>a. map_option (\<lambda>r. (raw_size r, refcnt r)) (cells h' a)
     = map_option (\<lambda>r. (raw_size r, refcnt r)) (cells h a))"

lemma same_shape_cell:
  "same_shape h h' \<Longrightarrow> cells h a = Some r \<Longrightarrow>
     \<exists>r'. cells h' a = Some r' \<and> raw_size r' = raw_size r \<and> refcnt r' = refcnt r"
  unfolding same_shape_def by (metis (mono_tags, lifting) Pair_inject map_option_eq_Some)

lemma same_shape_sym: "same_shape h h' \<Longrightarrow> same_shape h' h"
  by (simp add: same_shape_def)

lemma same_shape_heap_ok: "same_shape h h' \<Longrightarrow> heap_ok h R \<Longrightarrow> heap_ok h' R"
proof (rule heap_okI)
  assume s: "same_shape h h'" and ok: "heap_ok h R"
  fix a
  show "a \<in># R \<and> refcnt r = int (count R a) \<and> min_size \<le> raw_size r \<and> a < brk h'"
    if "cells h' a = Some r" for r
    using same_shape_cell [OF same_shape_sym [OF s] that] heap_ok_cell [OF ok] s
    by (metis same_shape_def)
  show "\<exists>r. cells h' a = Some r" if "a \<in># R"
    using heap_ok_live [OF ok that] same_shape_cell [OF s] by blast
qed

lemma same_shape_chunk:
  assumes "same_shape h h'"
  shows "open_chunk h' c = open_chunk h c" "cap h' c = cap h c"
proof -
  show "cap h' c = cap h c"
  proof (cases "cells h (data c)")
    case None
    then have "map_option (\<lambda>r. (raw_size r, refcnt r)) (cells h' (data c)) = None"
      using assms by (simp add: same_shape_def)
    with None show ?thesis by (simp add: cap_def)
  next
    case (Some r)
    then show ?thesis using same_shape_cell [OF assms Some] by (auto simp: cap_def)
  qed
  show "open_chunk h' c = open_chunk h c"
    using same_shape_cell [OF assms, of "data c"] same_shape_cell [OF same_shape_sym [OF assms], of "data c"]
    unfolding open_chunk_def by metis
qed

lemma same_shape_wf: "same_shape h h' \<Longrightarrow> wf_chunks h' cs = wf_chunks h cs"
  by (simp add: wf_chunks_def wf_chunk_def same_shape_chunk)

lemma bytes_val: "wf_marshal h m \<Longrightarrow> bytes h m = map (val h) (locs m)"
proof -
  have "\<forall>c \<in> set cs. open_chunk h c \<Longrightarrow> cbytes h cs = map (val h) (clocs cs)" for cs
    by (induction cs) (auto simp: chunk_bytes_def val_def elim!: open_chunkE)
  then show "wf_marshal h m \<Longrightarrow> ?thesis"
    by (auto simp: bytes_def locs_def wf_marshal_def wf_chunks_open)
qed

lemma distinct_locs: "wf_marshal h m \<Longrightarrow> distinct (locs m)"
proof -
  have *: "fst ` set (clocs cs) \<subseteq> data ` set cs" for cs by (induction cs) auto
  have "distinct (map data cs) \<Longrightarrow> distinct (clocs cs)" for cs
  proof (induction cs)
    case (Cons c cs)
    have "data c \<notin> fst ` set (clocs cs)" using Cons.prems * [of cs] by (auto simp del: clocs_simps)
    then have "set (map (Pair (data c)) [read_idx c..<write_idx c]) \<inter> set (clocs cs) = {}" by force
    with Cons show ?case by (simp add: distinct_map inj_on_def)
  qed simp
  then show "wf_marshal h m \<Longrightarrow> ?thesis" by (simp add: wf_marshal_def wf_chunks_def locs_def)
qed

lemma locs_live: "wf_marshal h m \<Longrightarrow> l \<in> set (locs m) \<Longrightarrow> \<exists>r. cells h (fst l) = Some r"
proof -
  have "\<forall>c \<in> set cs. open_chunk h c \<Longrightarrow> l \<in> set (clocs cs) \<Longrightarrow> \<exists>r. cells h (fst l) = Some r" for cs
    by (induction cs) (auto elim!: open_chunkE)
  then show "wf_marshal h m \<Longrightarrow> l \<in> set (locs m) \<Longrightarrow> ?thesis"
    unfolding locs_def wf_marshal_def using wf_chunks_open by blast
qed

lemma store_at_ok:
  assumes "\<forall>q \<in> set qs. \<exists>r. cells h (fst q) = Some r" "length qs \<le> length pc" "distinct qs"
  shows "\<exists>h'. store_at h qs pc = Inr h' \<and> same_shape h h' \<and> map (val h') qs = take (length qs) pc
    \<and> (\<forall>l. l \<notin> set qs \<longrightarrow> val h' l = val h l)"
  using assms
proof (induction qs arbitrary: h pc)
  case Nil
  then show ?case by (simp add: same_shape_def)
next
  case (Cons q qs)
  obtain a i where q: "q = (a, i)" by fastforce
  obtain b bs where pc: "pc = b # bs" using Cons.prems(2) by (cases pc) auto
  obtain r where r: "cells h a = Some r" using Cons.prems(1) by (auto simp: q)
  let ?h = "put_cell a (r\<lparr>ptr := (ptr r)(i := b)\<rparr>) h"
  have v: "val ?h l = (if l = q then b else val h l)" for l
    by (cases l) (auto simp: val_def put_cell_def q r)
  have s: "same_shape h ?h" by (simp add: same_shape_def put_cell_def r)
  have "\<forall>q \<in> set qs. \<exists>r. cells ?h (fst q) = Some r"
    using Cons.prems(1) by (auto simp: put_cell_def)
  then obtain h' where h': "store_at ?h qs bs = Inr h'" "same_shape ?h h'"
    "map (val h') qs = take (length qs) bs" "\<forall>l. l \<notin> set qs \<longrightarrow> val h' l = val ?h l"
    using Cons.IH [of ?h bs] Cons.prems by (auto simp: pc)
  then have "store_at h (q # qs) pc = Inr h'" by (simp add: q pc deref_def r)
  moreover have "same_shape h h'" using s h'(2) by (simp add: same_shape_def)
  moreover have "val h' q = val ?h q" using h'(4) Cons.prems(3) by (metis distinct.simps(2))
  ultimately show ?case using h'(3,4) v by (auto simp: pc)
qed

lemma set_bookmark_ok:
  assumes "buf_ok h m R" "write_cnt m = 0"
  shows "\<exists>bm m' h' got. set_bookmark h m n = Inr (bm, m', h') \<and> bm_size bm = n
    \<and> length (bm_ptr bm) = n \<and> locs m' = locs m @ bm_ptr bm \<and> length got = n
    \<and> appends R h m got h' m' \<and> write_cnt m' = 0"
proof -
  have ok: "heap_ok h (crefs (chunks m) + R)" and wf: "wf_chunks h (chunks m)" "wf_marshal h m"
    using assms by (simp_all add: buf_ok_def refs_def wf_marshal_def)
  obtain ps cs' h' got where r: "bookmark_loop h (chunks m) n = Inr (ps, cs', h')" "length got = n"
    "grows h (chunks m) R h' cs' got" "clocs cs' = clocs (chunks m) @ ps"
    using bookmark_loop_ok [OF ok wf(1)] by blast
  let ?m = "m\<lparr>chunks := cs', content_size := content_size m + n\<rparr>"
  have a: "appends R h m got h' ?m" by (rule grows_appends [OF r(3) wf(2)]) (simp_all add: r(2))
  then have wf': "wf_marshal h' ?m" by (simp add: appends_def buf_ok_def)
  have "length (clocs cs') = length (clocs (chunks m)) + n"
    using length_clocs [of h' cs'] length_clocs [OF wf(1)] r(2,3) by (simp add: grows_def)
  then have "length ps = n" using r(4) by simp
  then show ?thesis
    using a wf' assms(2) r by (simp add: set_bookmark_def Let_def locs_def) blast
qed

lemma write_bookmark_ok:
  assumes m: "buf_ok h m R" and l: "locs m = xs @ bm_ptr bm @ ys" and sz: "length (bm_ptr bm) = bm_size bm"
    and pc: "length pc = bm_size bm"
  shows "\<exists>h'. write_bookmark h bm pc = Inr h' \<and> buf_ok h' m R
    \<and> bytes h' m = take (length xs) (bytes h m) @ pc @ drop (length xs + bm_size bm) (bytes h m)
    \<and> (\<forall>b. wf_marshal h b \<and> set (locs b) \<inter> set (bm_ptr bm) = {} \<longrightarrow>
          wf_marshal h' b \<and> bytes h' b = bytes h b)"
proof -
  have wf: "wf_marshal h m" "heap_ok h (refs m + R)" using m by (simp_all add: buf_ok_def)
  have d: "distinct (xs @ bm_ptr bm @ ys)" using distinct_locs [OF wf(1)] by (simp add: l)
  have "\<forall>q \<in> set (bm_ptr bm). \<exists>r. cells h (fst q) = Some r" using locs_live [OF wf(1)] by (simp add: l)
  then obtain h' where h': "store_at h (bm_ptr bm) pc = Inr h'" "same_shape h h'"
    "map (val h') (bm_ptr bm) = pc" "\<forall>l. l \<notin> set (bm_ptr bm) \<longrightarrow> val h' l = val h l"
    using store_at_ok [of "bm_ptr bm" h pc] d sz pc by auto
  have wfb: "wf_chunks h' (chunks b) = wf_chunks h (chunks b)" for b by (rule same_shape_wf [OF h'(2)])
  have len: "length (bytes h' b) = length (bytes h b)" if "wf_chunks h (chunks b)" for b
    using length_clocs [of h' "chunks b"] length_clocs [OF that] wfb [of b] that by (simp add: bytes_def)
  have wf': "wf_marshal h' b" if "wf_marshal h b" for b
    using that len wfb by (auto simp: wf_marshal_def)
  have "map (val h') xs = map (val h) xs" "map (val h') ys = map (val h) ys" using h'(4) d by auto
  then have "bytes h' m = map (val h) xs @ pc @ map (val h) ys"
    using bytes_val [OF wf' [OF wf(1)]] h'(3) by (simp add: l)
  moreover have "bytes h m = map (val h) xs @ map (val h) (bm_ptr bm) @ map (val h) ys"
    using bytes_val [OF wf(1)] by (simp add: l)
  moreover have "bytes h' b = bytes h b"
    if "wf_marshal h b" "set (locs b) \<inter> set (bm_ptr bm) = {}" for b
    using bytes_val [OF that(1)] bytes_val [OF wf' [OF that(1)]] h'(4) that(2) by auto
  moreover have "buf_ok h' m R" using wf wf' same_shape_heap_ok [OF h'(2)] by (simp add: buf_ok_def)
  ultimately show ?thesis using h'(1) wf' sz by (simp add: write_bookmark_def)
qed

section \<open>The contract of a byte queue\<close>

text \<open>
  What the operators, the connections and the clients rely on: a queue of bytes that takes
  non-empty writes at one end and gives reads and peeks at the other, and that never aborts.
  \<open>run_ops\<close> drives an implementation through a sequence of calls and collects what it returned;
  \<open>queue_ops\<close> does the same for a plain list.
\<close>

datatype op = Write "byte list" | Read nat | Peek nat

fun run_ops ::
  "('s \<Rightarrow> byte list \<Rightarrow> (nat \<times> 's) res) \<Rightarrow> ('s \<Rightarrow> nat \<Rightarrow> (byte list \<times> 's) res)
     \<Rightarrow> ('s \<Rightarrow> nat \<Rightarrow> byte list res) \<Rightarrow> 's \<Rightarrow> op list \<Rightarrow> (byte list list \<times> 's) res" where
  "run_ops wr rd pk s [] = Inr ([], s)"
| "run_ops wr rd pk s (Write p # ops) =
     rbind (wr s p) (\<lambda>(n, s1). rbind (verify (n = length p)) (\<lambda>_. run_ops wr rd pk s1 ops))"
| "run_ops wr rd pk s (Read n # ops) =
     rbind (rd s n) (\<lambda>(out, s1). rbind (run_ops wr rd pk s1 ops) (\<lambda>(outs, s2). Inr (out # outs, s2)))"
| "run_ops wr rd pk s (Peek n # ops) =
     rbind (pk s n) (\<lambda>out. rbind (run_ops wr rd pk s ops) (\<lambda>(outs, s2). Inr (out # outs, s2)))"

fun queue_ops :: "byte list \<Rightarrow> op list \<Rightarrow> byte list list \<times> byte list" where
  "queue_ops q [] = ([], q)"
| "queue_ops q (Write p # ops) = queue_ops (q @ p) ops"
| "queue_ops q (Read n # ops) = (let (outs, q') = queue_ops (drop n q) ops in (take n q # outs, q'))"
| "queue_ops q (Peek n # ops) = (let (outs, q') = queue_ops q ops in (take n q # outs, q'))"

definition writes_something :: "op list \<Rightarrow> bool" where
  "writes_something ops \<longleftrightarrow> Write [] \<notin> set ops"

locale byte_queue =
  fixes inv :: "'s \<Rightarrow> bool" and contents :: "'s \<Rightarrow> byte list"
    and wr :: "'s \<Rightarrow> byte list \<Rightarrow> (nat \<times> 's) res" and rd :: "'s \<Rightarrow> nat \<Rightarrow> (byte list \<times> 's) res"
    and pk :: "'s \<Rightarrow> nat \<Rightarrow> byte list res"
  assumes wr: "inv s \<Longrightarrow> p \<noteq> [] \<Longrightarrow>
      \<exists>s'. wr s p = Inr (length p, s') \<and> inv s' \<and> contents s' = contents s @ p"
    and rd: "inv s \<Longrightarrow>
      \<exists>s'. rd s n = Inr (take n (contents s), s') \<and> inv s' \<and> contents s' = drop n (contents s)"
    and pk: "inv s \<Longrightarrow> pk s n = Inr (take n (contents s))"
begin

lemma run_ops_refines:
  "inv s \<Longrightarrow> writes_something ops \<Longrightarrow>
     \<exists>s'. run_ops wr rd pk s ops = Inr (fst (queue_ops (contents s) ops), s') \<and> inv s'
       \<and> contents s' = snd (queue_ops (contents s) ops)"
proof (induction ops arbitrary: s)
  case (Cons x ops)
  show ?case
  proof (cases x)
    case (Write p)
    with Cons.prems have p: "p \<noteq> []" by (auto simp: writes_something_def)
    obtain s1 where "wr s p = Inr (length p, s1)" "inv s1" "contents s1 = contents s @ p"
      using wr [OF Cons.prems(1) p] by blast
    then show ?thesis using Cons.IH [of s1] Cons.prems(2) by (auto simp: Write writes_something_def)
  next
    case (Read n)
    obtain s1 where "rd s n = Inr (take n (contents s), s1)" "inv s1" "contents s1 = drop n (contents s)"
      using rd [OF Cons.prems(1)] by blast
    then show ?thesis using Cons.IH [of s1] Cons.prems(2)
      by (auto simp: Read writes_something_def split: prod.splits)
  next
    case (Peek n)
    then show ?thesis using Cons.IH [of s] Cons.prems pk [OF Cons.prems(1)]
      by (auto simp: writes_something_def split: prod.splits)
  qed
qed simp

end

definition wr_op :: "heap \<times> marshal \<Rightarrow> byte list \<Rightarrow> (nat \<times> heap \<times> marshal) res" where
  "wr_op s p = rbind (Marshal_write (fst s) (snd s) p) (\<lambda>(n, m', h'). Inr (n, h', m'))"

definition rd_op :: "heap \<times> marshal \<Rightarrow> nat \<Rightarrow> (byte list \<times> heap \<times> marshal) res" where
  "rd_op s n = rbind (Marshal_read (fst s) (snd s) n) (\<lambda>(out, m', h'). Inr (out, h', m'))"

definition pk_op :: "heap \<times> marshal \<Rightarrow> nat \<Rightarrow> byte list res" where
  "pk_op s n = Marshal_peek (fst s) (snd s) n"

lemma drop_min_length: "drop (min n (length xs)) xs = drop n xs"
  by (simp add: min_def)

interpretation mq: byte_queue "\<lambda>s. buf_ok (fst s) (snd s) R" "\<lambda>s. bytes (fst s) (snd s)" wr_op rd_op pk_op
  for R
proof unfold_locales
  fix s :: "heap \<times> marshal" and n and p :: "byte list"
  assume ok: "buf_ok (fst s) (snd s) R"
  show "\<exists>s'. wr_op s p = Inr (length p, s') \<and> buf_ok (fst s') (snd s') R
      \<and> bytes (fst s') (snd s') = bytes (fst s) (snd s) @ p" if "p \<noteq> []"
    using Marshal_write_ok [OF ok that] by (auto simp: wr_op_def appends_def)
  show "\<exists>s'. rd_op s n = Inr (take n (bytes (fst s) (snd s)), s') \<and> buf_ok (fst s') (snd s') R
      \<and> bytes (fst s') (snd s') = drop n (bytes (fst s) (snd s))"
    using Marshal_read_ok [OF ok, of n] by (auto simp: rd_op_def consumes_def drop_min_length)
  show "pk_op s n = Inr (take n (bytes (fst s) (snd s)))"
    using ok by (simp add: pk_op_def Marshal_peek_ok buf_ok_def)
qed

section \<open>Properties\<close>

lemma appends_view:
  "appends R h m p h' m' \<Longrightarrow> buf_ok h' m' R \<and> bytes h' m' = bytes h m @ p
     \<and> (\<forall>b. set_mset (refs b) \<subseteq> set_mset R \<and> clear m b \<longrightarrow>
          bytes h' b = bytes h b \<and> wf_marshal h' b = wf_marshal h b \<and> clear m' b)"
  by (auto simp: appends_def dest: same_buf_view)

lemma consumes_view:
  "consumes R h m k h' m' \<Longrightarrow> buf_ok h' m' R \<and> bytes h' m' = drop k (bytes h m)
     \<and> write_cnt m' = write_cnt m \<and> (\<forall>b. set_mset (refs b) \<subseteq> set_mset R \<longrightarrow>
          bytes h' b = bytes h b \<and> wf_marshal h' b = wf_marshal h b)"
  by (auto simp: consumes_def dest: same_buf_view)

text \<open>A buffer to exercise the properties on: three bytes in one array, one byte already read.\<close>

definition demo_heap :: heap where
  "demo_heap = \<lparr>cells = [7 \<mapsto> \<lparr>ptr = (\<lambda>i. of_nat i + 10), raw_size = 8192, refcnt = 1\<rparr>],
     brk = 8, garbage = (\<lambda>_ _. 255)\<rparr>"

definition demo_buf :: marshal where
  "demo_buf = \<lparr>chunks = [\<lparr>data = 7, read_idx = 1, write_idx = 4\<rparr>], write_cnt = 0, content_size = 3\<rparr>"

lemma demo_bytes: "bytes demo_heap demo_buf = [11, 12, 13]"
  by (simp add: bytes_def demo_buf_def demo_heap_def chunk_bytes_def upt_rec)

lemma demo_ok: "buf_ok demo_heap demo_buf {#}"
proof -
  have "heap_ok demo_heap (refs demo_buf)"
    by (rule heap_okI) (auto simp: demo_heap_def demo_buf_def refs_def min_size_def split: if_splits)
  moreover have "wf_marshal demo_heap demo_buf"
    unfolding wf_marshal_def demo_bytes
    by (simp add: demo_buf_def demo_heap_def wf_chunks_Cons wf_chunk_def open_chunk_def cap_def)
  ultimately show ?thesis by (simp add: buf_ok_def)
qed

text \<open>
  Writing a non-empty block never fails, returns its length, appends exactly its bytes at the
  end of the buffer, adds its length to the 32-bit write counter, keeps every invariant of the
  chain and of the reference counts, and changes no other buffer whose windows lie outside the
  free room of the last chunk.
\<close>

theorem marshal_write_appends:
  assumes "buf_ok h m R" and "p \<noteq> []"
  shows "\<exists>m' h'. Marshal_write h m p = Inr (length p, m', h') \<and> buf_ok h' m' R
    \<and> bytes h' m' = bytes h m @ p \<and> write_cnt m' = write_cnt m + of_nat (length p)
    \<and> (\<forall>b. set_mset (refs b) \<subseteq> set_mset R \<and> clear m b \<longrightarrow>
          bytes h' b = bytes h b \<and> wf_marshal h' b = wf_marshal h b \<and> clear m' b)"
  using Marshal_write_ok [OF assms] appends_view by blast

theorem marshal_write_appends_witness:
  "\<exists>m' h'. Marshal_write demo_heap demo_buf [1, 2] = Inr (2, m', h') \<and> bytes h' m' = [11, 12, 13, 1, 2]"
  using marshal_write_appends [OF demo_ok, of "[1, 2]"] by (auto simp: demo_bytes)

text \<open>
  Reading \<open>n\<close> bytes never fails, returns the first \<open>n\<close> bytes (all of them when there are
  fewer), removes exactly those, and changes no other buffer at all.
\<close>

theorem marshal_read_takes_prefix:
  assumes "buf_ok h m R"
  shows "\<exists>m' h'. Marshal_read h m n = Inr (take n (bytes h m), m', h') \<and> buf_ok h' m' R
    \<and> bytes h' m' = drop n (bytes h m) \<and> write_cnt m' = write_cnt m
    \<and> (\<forall>b. set_mset (refs b) \<subseteq> set_mset R \<longrightarrow> bytes h' b = bytes h b \<and> wf_marshal h' b = wf_marshal h b)"
  using Marshal_read_ok [OF assms, of n] consumes_view drop_min_length [of n "bytes h m"] by metis

theorem marshal_read_takes_prefix_witness:
  "\<exists>m' h'. Marshal_read demo_heap demo_buf 2 = Inr ([11, 12], m', h') \<and> bytes h' m' = [13]"
  using marshal_read_takes_prefix [OF demo_ok, of 2] by (auto simp: demo_bytes numeral_2_eq_2)

text \<open>
  C4. A buffer driven through any sequence of non-empty writes, reads and peeks returns exactly
  what a queue of bytes returns, and ends with the bytes of that queue.
\<close>

theorem marshal_refines_queue:
  assumes "buf_ok h m R" and "writes_something ops"
  shows "\<exists>h' m'. run_ops wr_op rd_op pk_op (h, m) ops = Inr (fst (queue_ops (bytes h m) ops), h', m')
    \<and> buf_ok h' m' R \<and> bytes h' m' = snd (queue_ops (bytes h m) ops)"
  using mq.run_ops_refines [of "(h, m)" R ops] assms by auto

theorem marshal_refines_queue_witness:
  "\<exists>h' m'. run_ops wr_op rd_op pk_op (demo_heap, demo_buf) [Read 1, Write [5], Peek 3, Read 9]
     = Inr ([[11], [12, 13, 5], [12, 13, 5]], h', m') \<and> bytes h' m' = []"
  using marshal_refines_queue [OF demo_ok, of "[Read 1, Write [5], Peek 3, Read 9]"]
  by (auto simp: demo_bytes writes_something_def numeral_3_eq_3)

text \<open>
  Filling a buffer from a descriptor never fails: it appends, in order, exactly the bytes it
  took from the descriptor, and returns how many they are; it takes all of them from a descriptor
  that delivers something at every call.
\<close>

theorem marshal_read_from_fd_appends_stream:
  assumes "buf_ok h m R"
  shows "\<exists>got m' h' fd'. Marshal_read_from_fd h m fd = Inr (length got, m', h', fd')
    \<and> rx fd = got @ rx fd' \<and> buf_ok h' m' R \<and> bytes h' m' = bytes h m @ got
    \<and> write_cnt m' = write_cnt m + of_nat (length got) \<and> (delivers fd \<longrightarrow> rx fd' = [])
    \<and> (\<forall>b. set_mset (refs b) \<subseteq> set_mset R \<and> clear m b \<longrightarrow>
          bytes h' b = bytes h b \<and> wf_marshal h' b = wf_marshal h b \<and> clear m' b)"
  using Marshal_read_from_fd_ok [OF assms, of fd] appends_view by blast

theorem marshal_read_from_fd_appends_stream_witness:
  "\<exists>m' h' fd'. Marshal_read_from_fd demo_heap demo_buf \<lparr>rx = [1, 2, 3], rd_sched = [2, 5, 1]\<rparr>
     = Inr (3, m', h', fd') \<and> rx fd' = [] \<and> bytes h' m' = [11, 12, 13, 1, 2, 3]"
  using marshal_read_from_fd_appends_stream [OF demo_ok, of "\<lparr>rx = [1, 2, 3], rd_sched = [2, 5, 1]\<rparr>"]
  by (auto simp: demo_bytes delivers_def)

text \<open>
  Sending a buffer to a descriptor never fails: what it removes from the front is exactly what
  was added to the stream, in order; and a descriptor that accepts something at every call
  empties the buffer.
\<close>

theorem marshal_write_to_fd_sends_prefix:
  assumes "buf_ok h m R"
  shows "\<exists>k m' h' fd'. Marshal_write_to_fd h m fd = Inr (k, m', h', fd') \<and> k \<le> length (bytes h m)
    \<and> tx fd' = tx fd @ take k (bytes h m) \<and> buf_ok h' m' R \<and> bytes h' m' = drop k (bytes h m)
    \<and> ((\<forall>x \<in> set (wr_sched fd). 0 < x) \<and> length (bytes h m) \<le> length (wr_sched fd) \<longrightarrow>
          k = length (bytes h m))"
  using Marshal_write_to_fd_ok [OF assms, of fd] consumes_view by blast

theorem marshal_write_to_fd_sends_prefix_witness:
  "\<exists>m' h' fd'. Marshal_write_to_fd demo_heap demo_buf \<lparr>tx = [9], wr_sched = [2, 1, 4]\<rparr>
     = Inr (3, m', h', fd') \<and> tx fd' = [9, 11, 12, 13] \<and> bytes h' m' = []"
  using marshal_write_to_fd_sends_prefix [OF demo_ok, of "\<lparr>tx = [9], wr_sched = [2, 1, 4]\<rparr>"]
  by (auto simp: demo_bytes numeral_3_eq_3)

text \<open>
  Moving \<open>n\<close> available bytes from one buffer into another never fails: they leave the front of
  the first and join the end of the second, although whole arrays are shared instead of copied;
  afterwards appending to the source does not reach into what the target holds, and no third
  buffer that the target cannot write under has changed.
\<close>

theorem read_from_marshal_moves_prefix:
  assumes "heap_ok h (refs t + (refs m + R))" "wf_marshal h t" "wf_marshal h m" "disjoint_bufs t m"
    and "n \<le> length (bytes h m)" "0 < n \<or> chunks t = []"
  shows "\<exists>t' m' h'. read_from_marshal h t m n = Inr (n, t', m', h')
    \<and> heap_ok h' (refs t' + (refs m' + R)) \<and> wf_marshal h' t' \<and> wf_marshal h' m'
    \<and> bytes h' t' = bytes h t @ take n (bytes h m) \<and> bytes h' m' = drop n (bytes h m)
    \<and> write_cnt t' = write_cnt t + of_nat n \<and> clear m' t'
    \<and> (\<forall>b. set_mset (refs b) \<subseteq> set_mset R \<and> clear t b \<longrightarrow> bytes h' b = bytes h b)"
  using read_from_marshal_ok [OF assms] unfolding moves_def by (meson same_buf_view(1))

theorem read_from_marshal_moves_prefix_witness:
  "\<exists>t' m' h'. read_from_marshal demo_heap Marshal_new demo_buf 2 = Inr (2, t', m', h')
     \<and> bytes h' t' = [11, 12] \<and> bytes h' m' = [13] \<and> clear m' t'"
proof -
  have h: "heap_ok demo_heap (refs Marshal_new + (refs demo_buf + {#}))" "wf_marshal demo_heap demo_buf"
    using demo_ok by (simp_all add: buf_ok_def Marshal_new_def refs_def)
  have n: "wf_marshal demo_heap Marshal_new" "disjoint_bufs Marshal_new demo_buf"
    "bytes demo_heap Marshal_new = []" "chunks Marshal_new = []"
    by (simp_all add: Marshal_new_def wf_marshal_def bytes_def disjoint_bufs_def)
  show ?thesis
    using read_from_marshal_moves_prefix [OF h(1) n(1) h(2) n(2), of 2] n(3,4)
    by (auto simp: demo_bytes numeral_2_eq_2)
qed

text \<open>
  The header protocol of requests and replies: room for a size is reserved by a bookmark, a
  body is written behind it, and storing \<open>pc\<close> through the bookmark later yields exactly the old
  bytes, \<open>pc\<close>, and the body, while the write counter has counted the body only.
\<close>

theorem bookmark_patches_header:
  assumes "buf_ok h m R" "write_cnt m = 0" and "body \<noteq> []" and "length pc = n"
  shows "\<exists>bm m1 h1 m2 h2 h3. set_bookmark h m n = Inr (bm, m1, h1)
    \<and> Marshal_write h1 m1 body = Inr (length body, m2, h2) \<and> write_bookmark h2 bm pc = Inr h3
    \<and> buf_ok h3 m2 R \<and> bytes h3 m2 = bytes h m @ pc @ body
    \<and> fst (get_and_reset_write_cnt m2) = of_nat (length body)"
proof -
  obtain bm m1 h1 got where s: "set_bookmark h m n = Inr (bm, m1, h1)" "bm_size bm = n"
    "length (bm_ptr bm) = n" "locs m1 = locs m @ bm_ptr bm" "length got = n"
    "appends R h m got h1 m1" "write_cnt m1 = 0"
    using set_bookmark_ok [OF assms(1,2)] by blast
  then have ok1: "buf_ok h1 m1 R" "bytes h1 m1 = bytes h m @ got" by (simp_all add: appends_def)
  obtain m2 h2 where w: "Marshal_write h1 m1 body = Inr (length body, m2, h2)"
    "appends R h1 m1 body h2 m2" "write_cnt m2 = of_nat (length body)"
    using Marshal_write_ok [OF ok1(1) assms(3)] s(7) by auto
  have ok2: "buf_ok h2 m2 R" "bytes h2 m2 = (bytes h m @ got) @ body" using w(2) ok1(2) by (simp_all add: appends_def)
  obtain ys where "locs m2 = locs m1 @ ys" using w(2) by (auto simp: appends_def prefix_def)
  then have l: "locs m2 = locs m @ bm_ptr bm @ ys" by (simp add: s(4))
  have len: "length (locs m) = length (bytes h m)"
    using assms(1) by (simp add: locs_def bytes_def length_clocs buf_ok_def wf_marshal_def)
  obtain h3 where "write_bookmark h2 bm pc = Inr h3" "buf_ok h3 m2 R" "bytes h3 m2 = bytes h m @ pc @ body"
    using write_bookmark_ok [OF ok2(1) l, of pc] s assms(4) by (auto simp: ok2(2) len)
  with s(1) w show ?thesis by (auto simp: get_and_reset_write_cnt_def)
qed

theorem bookmark_patches_header_witness:
  "\<exists>bm m1 h1 m2 h2 h3. set_bookmark demo_heap demo_buf 4 = Inr (bm, m1, h1)
    \<and> Marshal_write h1 m1 [5, 6] = Inr (2, m2, h2) \<and> write_bookmark h2 bm (to_le 4 (2 :: i32)) = Inr h3
    \<and> bytes h3 m2 = [11, 12, 13] @ to_le 4 (2 :: i32) @ [5, 6]"
  using bookmark_patches_header [OF demo_ok, of "[5, 6]" "to_le 4 (2 :: i32)" 4]
  by (auto simp: demo_bytes) (auto simp: demo_buf_def)

text \<open>
  Destroying a buffer never fails, keeps every other buffer intact, and when no other
  reference is left it frees every array of the heap.
\<close>

theorem marshal_delete_frees_all:
  assumes "buf_ok h m R"
  shows "\<exists>h'. Marshal_delete m h = Inr h' \<and> heap_ok h' R
    \<and> (\<forall>b. set_mset (refs b) \<subseteq> set_mset R \<longrightarrow> bytes h' b = bytes h b)
    \<and> (R = {#} \<longrightarrow> cells h' = Map.empty)"
  using Marshal_delete_ok [OF assms] heap_ok_empty by (metis same_buf_view(1))

theorem marshal_delete_frees_all_witness:
  "\<exists>h'. Marshal_delete demo_buf demo_heap = Inr h' \<and> cells h' = Map.empty"
  using marshal_delete_frees_all [OF demo_ok] by auto

text \<open>
  A write of zero bytes is not an empty operation: in the debug build it fails the assertion
  \<open>n_write > 0\<close> whenever the buffer has a last chunk with room left.
\<close>

theorem marshal_write_nothing_asserts:
  assumes "buf_ok h m R" and "chunks m \<noteq> []" and "write_idx (last (chunks m)) < cap h (last (chunks m))"
  shows "Marshal_write h m [] = Inl AssertFailed"
proof -
  let ?c = "last (chunks m)"
  have c: "open_chunk h ?c" "data ?c \<in># refs m + R" "heap_ok h (refs m + R)"
    using assms(1,2) by (auto simp: buf_ok_def wf_marshal_def wf_chunks_open)
  then obtain h' where "chunk_write h ?c [] = Inr (0, ext 0 ?c, h')"
    using chunk_write_ok [OF c(3,1,2), of 0 "[]"] by auto
  with c(1) assms(2,3) show ?thesis
    by (simp add: Marshal_write_via_chain write_chain_def fully_written_open)
qed

theorem marshal_write_nothing_asserts_witness:
  "Marshal_write demo_heap demo_buf [] = Inl AssertFailed"
  using marshal_write_nothing_asserts [OF demo_ok] by (simp add: demo_buf_def demo_heap_def cap_def)

end
