(* ===== verification/Sparse_Int.thy ===== *)
theory Sparse_Int
  imports Rpc_Prelude
begin

text \<open>
  The variable-length integers of \<open>base/basetypes.cc\<close> (class \<open>SparseInt\<close>) and the wrappers
  \<open>v32\<close>, \<open>v64\<close>. A C++ \<open>char* buf\<close> is the byte list of the caller's array (5 bytes for a
  32-bit value, 9 for a 64-bit one), updated in place; \<open>dump_i32\<close> and \<open>dump_i64\<close> return the
  number of bytes the caller is to send together with the array, so that what the code stores
  in the array and what it tells the caller to send stay apart.
\<close>

section \<open>Definitions\<close>

definition buf_size :: "byte \<Rightarrow> nat" where
  "buf_size byte0 =
     (if byte0 AND 0x80 = 0 then 1
      else if byte0 AND 0xC0 = 0x80 then 2
      else if byte0 AND 0xE0 = 0xC0 then 3
      else if byte0 AND 0xF0 = 0xE0 then 4
      else if byte0 AND 0xF8 = 0xF0 then 5
      else if byte0 AND 0xFC = 0xF8 then 6
      else if byte0 AND 0xFE = 0xFC then 7
      else if byte0 AND 0xFF = 0xFE then 8
      else 9)"

definition val_size :: "i64 \<Rightarrow> nat" where
  "val_size val =
     (if -64 \<le> sint val \<and> sint val \<le> 63 then 1
      else if -8192 \<le> sint val \<and> sint val \<le> 8191 then 2
      else if -1048576 \<le> sint val \<and> sint val \<le> 1048575 then 3
      else if -134217728 \<le> sint val \<and> sint val \<le> 134217727 then 4
      else if -17179869184 \<le> sint val \<and> sint val \<le> 17179869183 then 5
      else if -2199023255552 \<le> sint val \<and> sint val \<le> 2199023255551 then 6
      else if -281474976710656 \<le> sint val \<and> sint val \<le> 281474976710655 then 7
      else if -36028797018963968 \<le> sint val \<and> sint val \<le> 36028797018963967 then 8
      else 9)"

definition dump_i32 :: "i32 \<Rightarrow> byte list \<Rightarrow> nat \<times> byte list" where
  "dump_i32 val buf = (let pv = to_le 4 val in
     if -64 \<le> sint val \<and> sint val \<le> 63 then
       (1, buf[0 := (pv ! 0) AND 0x7F])
     else if -8192 \<le> sint val \<and> sint val \<le> 8191 then
       (2, buf[0 := ((pv ! 1) AND 0x3F) OR 0x80, 1 := pv ! 0])
     else if -1048576 \<le> sint val \<and> sint val \<le> 1048575 then
       (3, buf[0 := ((pv ! 2) AND 0x1F) OR 0xC0, 1 := pv ! 1, 2 := pv ! 0])
     else if -134217728 \<le> sint val \<and> sint val \<le> 134217727 then
       (4, buf[0 := ((pv ! 3) AND 0x0F) OR 0xE0, 1 := pv ! 2, 2 := pv ! 1, 3 := pv ! 0])
     else
       (5, buf[1 := pv ! 3, 2 := pv ! 2, 3 := pv ! 1, 4 := pv ! 0,
               0 := (if sint val < 0 then 0xF7 else 0xF0)]))"

definition dump_i64 :: "i64 \<Rightarrow> byte list \<Rightarrow> nat \<times> byte list" where
  "dump_i64 val buf = (let pv = to_le 8 val in
     if -64 \<le> sint val \<and> sint val \<le> 63 then
       (1, buf[0 := (pv ! 0) AND 0x7F])
     else if -8192 \<le> sint val \<and> sint val \<le> 8191 then
       (2, buf[0 := ((pv ! 1) AND 0x3F) OR 0x80, 1 := pv ! 0])
     else if -1048576 \<le> sint val \<and> sint val \<le> 1048575 then
       (3, buf[0 := ((pv ! 2) AND 0x1F) OR 0xC0, 1 := pv ! 1, 2 := pv ! 0])
     else if -134217728 \<le> sint val \<and> sint val \<le> 134217727 then
       (4, buf[0 := ((pv ! 3) AND 0x0F) OR 0xE0, 1 := pv ! 2, 2 := pv ! 1, 3 := pv ! 0])
     else if -17179869184 \<le> sint val \<and> sint val \<le> 17179869183 then
       (5, buf[0 := ((pv ! 4) AND 0x07) OR 0xF0, 1 := pv ! 3, 2 := pv ! 2, 3 := pv ! 1,
               4 := pv ! 0])
     else if -2199023255552 \<le> sint val \<and> sint val \<le> 2199023255551 then
       (6, buf[0 := ((pv ! 5) AND 0x03) OR 0xF8, 1 := pv ! 4, 2 := pv ! 3, 3 := pv ! 2,
               4 := pv ! 1, 5 := pv ! 0])
     else if -281474976710656 \<le> sint val \<and> sint val \<le> 281474976710655 then
       (7, buf[0 := ((pv ! 6) AND 0x01) OR 0xFC, 1 := pv ! 5, 2 := pv ! 4, 3 := pv ! 3,
               4 := pv ! 2, 5 := pv ! 1, 6 := pv ! 0])
     else if -36028797018963968 \<le> sint val \<and> sint val \<le> 36028797018963967 then
       (8, buf[1 := pv ! 7, 2 := pv ! 6, 3 := pv ! 5, 4 := pv ! 4, 5 := pv ! 3, 6 := pv ! 2,
               7 := pv ! 1, 8 := pv ! 0, 0 := 0xFE])
     else
       (9, buf[1 := pv ! 7, 2 := pv ! 6, 3 := pv ! 5, 4 := pv ! 4, 5 := pv ! 3, 6 := pv ! 2,
               7 := pv ! 1, 8 := pv ! 0, 0 := 0xFF]))"

text \<open>
  The body both loaders share for a short encoding: copy the \<open>bsize\<close> bytes in reverse, clear
  the length prefix of the top byte, and extend the sign over the rest of the \<open>n\<close>-byte value.
\<close>

definition load_pv :: "nat \<Rightarrow> nat \<Rightarrow> byte list \<Rightarrow> byte list" where
  "load_pv n bsize buf =
     (let pv = fold (\<lambda>i pv. pv[i := buf ! (bsize - i - 1)]) [0..<bsize] (replicate n 0);
          pv = pv[bsize - 1 := (pv ! (bsize - 1)) AND drop_bit bsize 0xFF]
      in if signed_drop_bit (7 - bsize) (pv ! (bsize - 1)) AND 1 \<noteq> 0 then
           fold (\<lambda>i pv. pv[i := 0xFF]) [bsize..<n]
             (pv[bsize - 1 := (pv ! (bsize - 1)) OR push_bit (7 - bsize) 0xFF])
         else pv)"

definition load_i32 :: "byte list \<Rightarrow> i32" where
  "load_i32 buf = (let bsize = buf_size (buf ! 0) in
     if bsize < 5 then from_le (load_pv 4 bsize buf)
     else from_le (fold (\<lambda>i pv. pv[i := buf ! (4 - i)]) [0..<4] (replicate 4 0)))"

definition load_i64 :: "byte list \<Rightarrow> i64" where
  "load_i64 buf = (let bsize = buf_size (buf ! 0) in
     if bsize < 8 then from_le (load_pv 8 bsize buf)
     else from_le (fold (\<lambda>i pv. pv[i := buf ! (8 - i)]) [0..<8] (replicate 8 0)))"

text \<open>The wrapper classes hold one integer; \<open>v32::val_size\<close> widens it with its sign.\<close>

definition v32_val_size :: "i32 \<Rightarrow> nat" where
  "v32_val_size v = val_size (scast v)"

definition v64_val_size :: "i64 \<Rightarrow> nat" where
  "v64_val_size v = val_size v"

section \<open>Loops of the loaders\<close>

lemma length_fold_update [simp]: "length (fold (\<lambda>i pv. pv[i := f i]) is pv) = length pv"
  by (induction "is" arbitrary: pv) auto

lemma fold_update_upt:
  "b \<le> length pv \<Longrightarrow> a \<le> b \<Longrightarrow>
     fold (\<lambda>i pv. pv[i := f i]) [a..<b] pv = take a pv @ map f [a..<b] @ drop b pv"
proof (induction b)
  case 0
  then show ?case by simp
next
  case (Suc b)
  show ?case
  proof (cases "a = Suc b")
    case True
    then show ?thesis by simp
  next
    case False
    with Suc.prems have "a \<le> b" by simp
    with Suc.prems Suc.IH show ?thesis
      by (auto simp: list_update_append Cons_nth_drop_Suc [symmetric])
  qed
qed

lemma map_rev_take:
  "b \<le> length buf \<Longrightarrow> map (\<lambda>i. buf ! (b - i - 1)) [0..<b] = rev (take b buf)"
  by (rule nth_equalityI) (auto simp: rev_nth)

lemma to_le_Suc: "to_le (Suc n) w = to_le n w @ [byte_at w n]"
  by (simp add: to_le_def)

lemma to_le_split:
  "b < n \<Longrightarrow> to_le n w = to_le b w @ [byte_at w b] @ map (byte_at w) [Suc b..<n]"
  unfolding to_le_def
  by (metis (no_types, lifting) add.commute append_Cons append_Nil le_add_diff_inverse
      less_imp_le_nat list.simps(8) list.simps(9) map_append plus_nat.add_0 upt_add_eq_append
      upt_conv_Cons zero_le)

section \<open>Sign extension\<close>

lemma bit_255 [simp]: "bit (255 :: int) n \<longleftrightarrow> n < 8"
proof -
  have "(255 :: int) = mask 8" by (simp add: mask_eq_exp_minus_1)
  then show ?thesis by (simp only: bit_mask_iff) simp
qed

text \<open>The top byte after the prefix is masked off, and after the sign is put back.\<close>

lemma sign_byte:
  fixes v :: "'a::len word"
  assumes b: "0 < b" "b < 8" and len: "8 * b \<le> LENGTH('a)"
    and r: "- (2 ^ (7 * b - 1)) \<le> sint v" "sint v < 2 ^ (7 * b - 1)"
    and z: "z = byte_at v (b - 1) AND drop_bit b 0xFF"
  shows "signed_drop_bit (7 - b) z AND 1 \<noteq> 0 \<longleftrightarrow> sint v < 0"
    and "sint v < 0 \<Longrightarrow> z OR push_bit (7 - b) 0xFF = byte_at v (b - 1)"
    and "\<not> sint v < 0 \<Longrightarrow> z = byte_at v (b - 1)"
proof -
  have m: "bit (drop_bit b (0xFF :: byte)) n \<longleftrightarrow> n + b < 8" for n
    by (auto simp: bit_simps add.commute)
  have bz: "bit z n \<longleftrightarrow> n + b < 8 \<and> bit v (8 * (b - 1) + n)" for n
    using b by (auto simp: z bit_simps m bit_byte_at)
  have sgn: "bit v (8 * (b - 1) + n) \<longleftrightarrow> sint v < 0" if "7 - b \<le> n" "n < 8" for n
    using b len that by (intro sint_range_sign_bits [OF r]) auto
  have "signed_drop_bit (7 - b) z AND 1 \<noteq> 0 \<longleftrightarrow> bit (signed_drop_bit (7 - b) z) 0"
    by (simp add: and_one_eq bit_0 odd_iff_mod_2_eq_one)
  also have "\<dots> \<longleftrightarrow> bit z (7 - b)" using b by (auto simp: bit_simps)
  also have "\<dots> \<longleftrightarrow> sint v < 0" using b sgn [of "7 - b"] by (simp add: bz)
  finally show "signed_drop_bit (7 - b) z AND 1 \<noteq> 0 \<longleftrightarrow> sint v < 0" .
  have p: "bit (push_bit (7 - b) (0xFF :: byte)) n \<longleftrightarrow> 7 - b \<le> n \<and> n < 8" for n
    using b by (auto simp: bit_simps)
  show "z OR push_bit (7 - b) 0xFF = byte_at v (b - 1)" if "sint v < 0"
    using b that sgn by (intro bit_word_eqI) (auto simp: bit_simps bz p bit_byte_at)
  show "z = byte_at v (b - 1)" if "\<not> sint v < 0"
  proof (rule bit_word_eqI)
    fix n assume "n < LENGTH(8)"
    then show "bit z n \<longleftrightarrow> bit (byte_at v (b - 1)) n"
      using that sgn [of n] by (cases "7 - b \<le> n") (auto simp: bz bit_byte_at)
  qed
qed

lemma high_bytes:
  fixes v :: "'a::len word"
  assumes "- (2 ^ k) \<le> sint v" "sint v < 2 ^ k" "k \<le> 8 * j" "8 * j + 8 \<le> LENGTH('a)"
  shows "byte_at v j = (if sint v < 0 then 0xFF else 0)"
proof -
  have "bit v (8 * j + n) \<longleftrightarrow> sint v < 0" if "n < 8" for n
    using assms that by (intro sint_range_sign_bits [OF assms(1,2)]) auto
  then show ?thesis
    by (intro bit_word_eqI) (auto simp: bit_byte_at)
qed

text \<open>
  Loading a short encoding of \<open>v\<close> gives back the bytes of \<open>v\<close>: \<open>y\<close> is the top byte with any
  length prefix in the \<open>b\<close> bits that the loader clears.
\<close>

lemma load_pv_to_le:
  fixes v :: "'a::len word"
  assumes b: "0 < b" "b < 8" "b \<le> n" and len: "8 * n = LENGTH('a)"
    and buf: "b \<le> length buf" "rev (take b buf) = to_le (b - 1) v @ [y]"
    and y: "y AND drop_bit b 0xFF = byte_at v (b - 1) AND drop_bit b 0xFF"
    and r: "- (2 ^ (7 * b - 1)) \<le> sint v" "sint v < 2 ^ (7 * b - 1)"
  shows "load_pv n b buf = to_le n v"
proof -
  obtain c where c: "b = Suc c" using b(1) gr0_conv_Suc by blast
  let ?z = "y AND drop_bit b 0xFF"
  have len': "8 * b \<le> LENGTH('a)" using b len by simp
  note sb = sign_byte [OF b(1,2) len' r, of ?z, OF y]
  have pv: "fold (\<lambda>i pv. pv[i := buf ! (b - i - 1)]) [0..<b] (replicate n (0::byte))
      = to_le c v @ [y] @ replicate (n - b) 0"
  proof -
    have "fold (\<lambda>i pv. pv[i := buf ! (b - i - 1)]) [0..<b] (replicate n (0::byte))
        = rev (take b buf) @ drop b (replicate n 0)"
      using b buf(1) by (subst fold_update_upt) (simp_all only: map_rev_take, simp_all)
    then show ?thesis using buf(2) by (simp add: c)
  qed
  have hi: "map (byte_at v) [b..<n] = replicate (n - b) (if sint v < 0 then 0xFF else 0)"
  proof (rule nth_equalityI)
    fix i assume "i < length (map (byte_at v) [b..<n])"
    then have i: "i < n - b" by simp
    then have "8 * (b + i) + 8 \<le> LENGTH('a)" using len by simp
    then show "map (byte_at v) [b..<n] ! i
        = replicate (n - b) (if sint v < 0 then 0xFF else (0::byte)) ! i"
      using i b high_bytes [OF r, of "b + i"] by simp
  qed simp
  have v: "to_le n v = to_le c v @ [byte_at v c] @ map (byte_at v) [b..<n]"
    using to_le_split [of c n v] b by (simp add: c)
  show ?thesis
    using sb b unfolding load_pv_def Let_def pv v hi
    by (auto simp: c nth_append list_update_append fold_update_upt map_replicate_const)
qed

section \<open>Encodings\<close>

lemma buf_size_prefix [simp]:
  "buf_size (x AND 0x7F) = 1"
  "buf_size ((x AND 0x3F) OR 0x80) = 2"
  "buf_size ((x AND 0x1F) OR 0xC0) = 3"
  "buf_size ((x AND 0x0F) OR 0xE0) = 4"
  "buf_size ((x AND 0x07) OR 0xF0) = 5"
  "buf_size ((x AND 0x03) OR 0xF8) = 6"
  "buf_size ((x AND 0x01) OR 0xFC) = 7"
  "buf_size 0xFE = 8" "buf_size 0xFF = 9" "buf_size 0xF0 = 5" "buf_size 0xF7 = 5"
  by (simp_all add: buf_size_def bit.conj_disj_distrib2 and.assoc)

lemma buf_size_bounds: "1 \<le> buf_size b" "buf_size b \<le> 9"
  by (auto simp: buf_size_def)

lemmas mask_simps = bit.conj_disj_distrib2 and.assoc

text \<open>The bytes that go on the wire: the prefix of the array whose length the dump returns.\<close>

definition sent :: "nat \<times> byte list \<Rightarrow> byte list" where
  "sent d = take (fst d) (snd d)"

definition enc_v32 :: "i32 \<Rightarrow> byte list" where
  "enc_v32 v = sent (dump_i32 v (replicate 5 0))"

definition enc_v64 :: "i64 \<Rightarrow> byte list" where
  "enc_v64 v = sent (dump_i64 v (replicate 9 0))"

lemma sent_simps [simp]:
  "sent (n, buf) = take n buf"
  "sent (if c then x else y) = (if c then sent x else sent y)"
  by (simp_all add: sent_def)

lemma list5: "5 \<le> length buf \<Longrightarrow> \<exists>a b c d e r. buf = a # b # c # d # e # r"
  by (auto simp: numeral_eq_Suc Suc_le_length_iff)

lemma list9: "9 \<le> length buf \<Longrightarrow>
    \<exists>a b c d e f g h i r. buf = a # b # c # d # e # f # g # h # i # r"
  by (auto simp: numeral_eq_Suc Suc_le_length_iff)

lemma to_le_numeral: "to_le (numeral k) w = to_le (pred_numeral k) w @ [byte_at w (pred_numeral k)]"
  using to_le_Suc [of "pred_numeral k" w] by (simp add: numeral_eq_Suc)

lemma to_le_0 [simp]: "to_le 0 w = []"
  by (simp add: to_le_def)

lemma to_le_Suc_0 [simp]: "to_le (Suc 0) w = [byte_at w 0]"
  by (simp add: to_le_def)

lemma list_update_Cons_numeral [simp]:
  "(x # xs)[numeral k := y] = x # xs[pred_numeral k := y]"
  by (simp add: numeral_eq_Suc)

lemma replicate_numeral: "replicate (numeral k) x = x # replicate (pred_numeral k) x"
  by (simp add: numeral_eq_Suc)

text \<open>What the caller sends does not depend on what the array held before.\<close>

lemma dump_i32_sends: "5 \<le> length buf \<Longrightarrow> sent (dump_i32 v buf) = enc_v32 v"
  by (drule list5, elim exE)
    (simp only: enc_v32_def dump_i32_def Let_def sent_simps, simp add: replicate_numeral)

lemma dump_i64_sends: "9 \<le> length buf \<Longrightarrow> sent (dump_i64 v buf) = enc_v64 v"
  by (drule list9, elim exE)
    (simp only: enc_v64_def dump_i64_def Let_def sent_simps, simp add: replicate_numeral)

lemma length_dump [simp]:
  "length (snd (dump_i32 v buf)) = length buf" "length (snd (dump_i64 w buf)) = length buf"
  by (auto simp: dump_i32_def dump_i64_def Let_def)

text \<open>The ranges the code tests, as one predicate: the value fits \<open>b\<close> bytes of seven bits each.\<close>

definition fits :: "nat \<Rightarrow> int \<Rightarrow> bool" where
  "fits b x \<longleftrightarrow> - (2 ^ (7 * b - 1)) \<le> x \<and> x < 2 ^ (7 * b - 1)"

lemma fits_range:
  "-64 \<le> x \<and> x \<le> 63 \<longleftrightarrow> fits 1 x"
  "-8192 \<le> x \<and> x \<le> 8191 \<longleftrightarrow> fits 2 x"
  "-1048576 \<le> x \<and> x \<le> 1048575 \<longleftrightarrow> fits 3 x"
  "-134217728 \<le> x \<and> x \<le> 134217727 \<longleftrightarrow> fits 4 x"
  "-17179869184 \<le> x \<and> x \<le> 17179869183 \<longleftrightarrow> fits 5 x"
  "-2199023255552 \<le> x \<and> x \<le> 2199023255551 \<longleftrightarrow> fits 6 x"
  "-281474976710656 \<le> x \<and> x \<le> 281474976710655 \<longleftrightarrow> fits 7 x"
  "-36028797018963968 \<le> x \<and> x \<le> 36028797018963967 \<longleftrightarrow> fits 8 x"
  by (auto simp: fits_def)

lemma enc_v32_eq:
  "enc_v32 v =
     (if fits 1 (sint v) then [byte_at v 0 AND 0x7F]
      else if fits 2 (sint v) then [(byte_at v 1 AND 0x3F) OR 0x80, byte_at v 0]
      else if fits 3 (sint v) then [(byte_at v 2 AND 0x1F) OR 0xC0, byte_at v 1, byte_at v 0]
      else if fits 4 (sint v) then [(byte_at v 3 AND 0x0F) OR 0xE0, byte_at v 2, byte_at v 1, byte_at v 0]
      else [if sint v < 0 then 0xF7 else 0xF0, byte_at v 3, byte_at v 2, byte_at v 1, byte_at v 0])"
  by (simp only: enc_v32_def dump_i32_def Let_def sent_simps fits_range, simp add: replicate_numeral)

lemma enc_v64_eq:
  "enc_v64 v =
     (if fits 1 (sint v) then [byte_at v 0 AND 0x7F]
      else if fits 2 (sint v) then [(byte_at v 1 AND 0x3F) OR 0x80, byte_at v 0]
      else if fits 3 (sint v) then [(byte_at v 2 AND 0x1F) OR 0xC0, byte_at v 1, byte_at v 0]
      else if fits 4 (sint v) then [(byte_at v 3 AND 0x0F) OR 0xE0, byte_at v 2, byte_at v 1, byte_at v 0]
      else if fits 5 (sint v) then [(byte_at v 4 AND 0x07) OR 0xF0, byte_at v 3, byte_at v 2, byte_at v 1, byte_at v 0]
      else if fits 6 (sint v) then [(byte_at v 5 AND 0x03) OR 0xF8, byte_at v 4, byte_at v 3, byte_at v 2, byte_at v 1, byte_at v 0]
      else if fits 7 (sint v) then [(byte_at v 6 AND 0x01) OR 0xFC, byte_at v 5, byte_at v 4, byte_at v 3, byte_at v 2, byte_at v 1, byte_at v 0]
      else if fits 8 (sint v) then [0xFE, byte_at v 7, byte_at v 6, byte_at v 5, byte_at v 4, byte_at v 3, byte_at v 2, byte_at v 1]
      else [0xFF, byte_at v 7, byte_at v 6, byte_at v 5, byte_at v 4, byte_at v 3, byte_at v 2, byte_at v 1, byte_at v 0])"
  by (simp only: enc_v64_def dump_i64_def Let_def sent_simps fits_range, simp add: replicate_numeral)

lemma val_size_eq:
  "val_size v = (if fits 1 (sint v) then 1 else if fits 2 (sint v) then 2
     else if fits 3 (sint v) then 3 else if fits 4 (sint v) then 4 else if fits 5 (sint v) then 5
     else if fits 6 (sint v) then 6 else if fits 7 (sint v) then 7 else if fits 8 (sint v) then 8
     else 9)"
  by (simp only: val_size_def fits_range)

section \<open>Decoding\<close>

lemma load_i32_short:
  assumes "0 < b" "b < 5" "buf_size (bs ! 0) = b" "length bs = b"
    and "rev bs = to_le (b - 1) v @ [y]"
    and "y AND drop_bit b 0xFF = byte_at v (b - 1) AND drop_bit b 0xFF"
    and "- (2 ^ (7 * b - 1)) \<le> sint v" "sint v < 2 ^ (7 * b - 1)"
  shows "load_i32 (bs @ junk) = v"
  using load_pv_to_le [of b 4 "bs @ junk" v y] assms
  by (simp add: load_i32_def nth_append)

lemma load_i64_short:
  assumes "0 < b" "b < 8" "buf_size (bs ! 0) = b" "length bs = b"
    and "rev bs = to_le (b - 1) v @ [y]"
    and "y AND drop_bit b 0xFF = byte_at v (b - 1) AND drop_bit b 0xFF"
    and "- (2 ^ (7 * b - 1)) \<le> sint v" "sint v < 2 ^ (7 * b - 1)"
  shows "load_i64 (bs @ junk) = v"
  using load_pv_to_le [of b 8 "bs @ junk" v y] assms
  by (simp add: load_i64_def nth_append)

lemma load_i64_long:
  assumes "8 \<le> buf_size b0"
  shows "load_i64 (b0 # b1 # b2 # b3 # b4 # b5 # b6 # b7 # b8 # junk)
       = from_le [b8, b7, b6, b5, b4, b3, b2, b1]"
  using assms by (simp add: load_i64_def fold_update_upt upt_rec replicate_numeral)

lemma from_le_to_le_explicit:
  "from_le [byte_at v 0, byte_at v 1, byte_at v 2, byte_at v 3] = (v :: i32)"
  "from_le [byte_at w 0, byte_at w 1, byte_at w 2, byte_at w 3,
            byte_at w 4, byte_at w 5, byte_at w 6, byte_at w 7] = (w :: i64)"
  using from_le_to_le [of 4 v] from_le_to_le [of 8 w] by (simp_all add: to_le_numeral)

subsection \<open>The encoding by size\<close>

lemma val_size_bounds: "1 \<le> val_size v" "val_size v \<le> 9"
  by (auto simp: val_size_eq)

lemma val_size_cases:
  obtains "val_size v = 1" | "val_size v = 2" | "val_size v = 3" | "val_size v = 4"
    | "val_size v = 5" | "val_size v = 6" | "val_size v = 7" | "val_size v = 8" | "val_size v = 9"
  using val_size_bounds [of v] by linarith

lemma val_size_fits: "val_size v = b \<Longrightarrow> b < 9 \<Longrightarrow> fits b (sint v)"
  by (auto simp: val_size_eq split: if_splits)

lemma val_size_not_fits: "1 \<le> b \<Longrightarrow> b < val_size v \<Longrightarrow> \<not> fits b (sint v)"
proof (rule notI)
  assume b: "1 \<le> b" "b < val_size v" and f: "fits b (sint v)"
  then have "b \<in> {1, 2, 3, 4, 5, 6, 7, 8}" using val_size_bounds(2) [of v] by auto
  with b(2) f show False by (auto simp: val_size_eq split: if_splits)
qed

lemma val_size_range:
  assumes "val_size v = b" and "b < 9"
  shows "- (2 ^ (7 * b - 1)) \<le> sint v" and "sint v < 2 ^ (7 * b - 1)"
  using val_size_fits [OF assms] by (simp_all add: fits_def)

lemma sint_scast_i32 [simp]: "sint (scast (v :: i32) :: i64) = sint v"
proof -
  have "- (2 ^ 63) \<le> sint v" "sint v < 2 ^ 63" using sint_ge [of v] sint_lt [of v] by simp_all
  then show ?thesis by (simp add: signed_scast_eq signed_take_bit_int_eq_self)
qed

lemma v32_val_size_le: "v32_val_size v \<le> 5"
proof -
  have "fits 5 (sint v)" using sint_ge [of v] sint_lt [of v] by (simp add: fits_def)
  then show ?thesis by (simp add: v32_val_size_def val_size_eq)
qed

lemma v32_val_size_cases:
  obtains "v32_val_size v = 1" | "v32_val_size v = 2" | "v32_val_size v = 3"
    | "v32_val_size v = 4" | "v32_val_size v = 5"
  using val_size_bounds [of "scast v"] v32_val_size_le [of v] by (simp add: v32_val_size_def) linarith

lemma v32_val_size_range:
  assumes "v32_val_size v = b" and "b < 9"
  shows "- (2 ^ (7 * b - 1)) \<le> sint v" and "sint v < 2 ^ (7 * b - 1)"
  using val_size_range [of "scast v" b] assms by (simp_all add: v32_val_size_def)

lemma enc_v64_size:
  "val_size v = 1 \<Longrightarrow> enc_v64 v = [byte_at v 0 AND 0x7F]"
  "val_size v = 2 \<Longrightarrow> enc_v64 v = [(byte_at v 1 AND 0x3F) OR 0x80, byte_at v 0]"
  "val_size v = 3 \<Longrightarrow> enc_v64 v = [(byte_at v 2 AND 0x1F) OR 0xC0, byte_at v 1, byte_at v 0]"
  "val_size v = 4 \<Longrightarrow> enc_v64 v = [(byte_at v 3 AND 0x0F) OR 0xE0, byte_at v 2, byte_at v 1, byte_at v 0]"
  "val_size v = 5 \<Longrightarrow> enc_v64 v = [(byte_at v 4 AND 0x07) OR 0xF0, byte_at v 3, byte_at v 2, byte_at v 1, byte_at v 0]"
  "val_size v = 6 \<Longrightarrow> enc_v64 v = [(byte_at v 5 AND 0x03) OR 0xF8, byte_at v 4, byte_at v 3, byte_at v 2, byte_at v 1, byte_at v 0]"
  "val_size v = 7 \<Longrightarrow> enc_v64 v = [(byte_at v 6 AND 0x01) OR 0xFC, byte_at v 5, byte_at v 4, byte_at v 3, byte_at v 2, byte_at v 1, byte_at v 0]"
  "val_size v = 8 \<Longrightarrow> enc_v64 v = [0xFE, byte_at v 7, byte_at v 6, byte_at v 5, byte_at v 4, byte_at v 3, byte_at v 2, byte_at v 1]"
  "val_size v = 9 \<Longrightarrow> enc_v64 v = [0xFF, byte_at v 7, byte_at v 6, byte_at v 5, byte_at v 4, byte_at v 3, byte_at v 2, byte_at v 1, byte_at v 0]"
  by (simp_all add: enc_v64_eq val_size_fits val_size_not_fits)

lemma enc_v32_size:
  "v32_val_size v = 1 \<Longrightarrow> enc_v32 v = [byte_at v 0 AND 0x7F]"
  "v32_val_size v = 2 \<Longrightarrow> enc_v32 v = [(byte_at v 1 AND 0x3F) OR 0x80, byte_at v 0]"
  "v32_val_size v = 3 \<Longrightarrow> enc_v32 v = [(byte_at v 2 AND 0x1F) OR 0xC0, byte_at v 1, byte_at v 0]"
  "v32_val_size v = 4 \<Longrightarrow> enc_v32 v = [(byte_at v 3 AND 0x0F) OR 0xE0, byte_at v 2, byte_at v 1, byte_at v 0]"
  "v32_val_size v = 5 \<Longrightarrow> enc_v32 v = [if sint v < 0 then 0xF7 else 0xF0, byte_at v 3, byte_at v 2, byte_at v 1, byte_at v 0]"
  using val_size_fits [of "scast v"] val_size_not_fits [where v = "scast v"]
  by (simp_all add: v32_val_size_def enc_v32_eq)

text \<open>
  A 32-bit value always survives: the reader's array holds the received bytes first and
  anything (\<open>junk\<close>) after them.
\<close>

lemma load_i32_enc: "load_i32 (enc_v32 v @ junk) = v"
proof -
  have long: "load_i32 (b0 # b1 # b2 # b3 # b4 # junk) = from_le [b4, b3, b2, b1]"
    if "5 \<le> buf_size b0" for b0 b1 b2 b3 b4
    using that by (simp add: load_i32_def fold_update_upt upt_rec replicate_numeral)
  note short = load_i32_short [OF _ _ _ _ _ _ v32_val_size_range, where v = v and junk = junk]
  show ?thesis
  proof (cases v rule: v32_val_size_cases)
    case 1
    then show ?thesis
      by (intro short [where b = 1 and y = "byte_at v 0 AND 0x7F"])
        (simp_all add: enc_v32_size mask_simps to_le_numeral)
  next
    case 2
    then show ?thesis
      by (intro short [where b = 2 and y = "(byte_at v 1 AND 0x3F) OR 0x80"])
        (simp_all add: enc_v32_size mask_simps to_le_numeral)
  next
    case 3
    then show ?thesis
      by (intro short [where b = 3 and y = "(byte_at v 2 AND 0x1F) OR 0xC0"])
        (simp_all add: enc_v32_size mask_simps to_le_numeral)
  next
    case 4
    then show ?thesis
      by (intro short [where b = 4 and y = "(byte_at v 3 AND 0x0F) OR 0xE0"])
        (simp_all add: enc_v32_size mask_simps to_le_numeral)
  next
    case 5
    then show ?thesis
      using long [of "if sint v < 0 then 0xF7 else 0xF0"] from_le_to_le_explicit(1) [of v]
      by (simp add: enc_v32_size)
  qed
qed

text \<open>
  A 64-bit value survives when its encoding is not eight bytes long. The eight-byte encoding
  puts nine bytes into the array and tells the caller to send eight of them: the low byte of
  the value stays behind and the reader takes whatever follows in its own array.
\<close>

lemma load_i64_enc:
  assumes "val_size v \<noteq> 8"
  shows "load_i64 (enc_v64 v @ junk) = v"
proof -
  note short = load_i64_short [OF _ _ _ _ _ _ val_size_range, where v = v and junk = junk]
  show ?thesis
  proof (cases v rule: val_size_cases)
    case 1
    then show ?thesis
      by (intro short [where b = 1 and y = "byte_at v 0 AND 0x7F"])
        (simp_all add: enc_v64_size mask_simps to_le_numeral)
  next
    case 2
    then show ?thesis
      by (intro short [where b = 2 and y = "(byte_at v 1 AND 0x3F) OR 0x80"])
        (simp_all add: enc_v64_size mask_simps to_le_numeral)
  next
    case 3
    then show ?thesis
      by (intro short [where b = 3 and y = "(byte_at v 2 AND 0x1F) OR 0xC0"])
        (simp_all add: enc_v64_size mask_simps to_le_numeral)
  next
    case 4
    then show ?thesis
      by (intro short [where b = 4 and y = "(byte_at v 3 AND 0x0F) OR 0xE0"])
        (simp_all add: enc_v64_size mask_simps to_le_numeral)
  next
    case 5
    then show ?thesis
      by (intro short [where b = 5 and y = "(byte_at v 4 AND 0x07) OR 0xF0"])
        (simp_all add: enc_v64_size mask_simps to_le_numeral)
  next
    case 6
    then show ?thesis
      by (intro short [where b = 6 and y = "(byte_at v 5 AND 0x03) OR 0xF8"])
        (simp_all add: enc_v64_size mask_simps to_le_numeral)
  next
    case 7
    then show ?thesis
      by (intro short [where b = 7 and y = "(byte_at v 6 AND 0x01) OR 0xFC"])
        (simp_all add: enc_v64_size mask_simps to_le_numeral)
  next
    case 8
    with assms show ?thesis by simp
  next
    case 9
    then show ?thesis
      using from_le_to_le_explicit(2) [of v] by (simp add: load_i64_long enc_v64_size)
  qed
qed

lemma load_i64_enc_eight:
  assumes "val_size v = 8"
  shows "load_i64 (enc_v64 v @ j # junk) = (v AND NOT 0xFF) OR ucast j"
proof (rule bit_word_eqI)
  fix n assume n: "n < LENGTH(64)"
  have "load_i64 (enc_v64 v @ j # junk) = from_le ((to_le 8 v)[0 := j])"
    using assms by (simp add: load_i64_long enc_v64_size to_le_numeral)
  moreover have "bit ((to_le 8 v)[0 := j] ! (n div 8)) (n mod 8)
      \<longleftrightarrow> (if n < 8 then bit j n else bit v n)"
    using n by (cases "n < 8") (simp_all add: bit_byte_at)
  ultimately show "bit (load_i64 (enc_v64 v @ j # junk)) n
      \<longleftrightarrow> bit ((v AND NOT 0xFF) OR ucast j) n"
    using n bit_imp_le_length [of j n] by (auto simp: bit_from_le bit_simps)
qed

subsection \<open>Length and first byte of an encoding\<close>

lemma length_enc_v64 [simp]: "length (enc_v64 v) = val_size v"
  by (cases v rule: val_size_cases) (simp_all add: enc_v64_size)

lemma length_enc_v32 [simp]: "length (enc_v32 v) = v32_val_size v"
  by (cases v rule: v32_val_size_cases) (simp_all add: enc_v32_size)

lemma buf_size_enc_v64 [simp]: "buf_size (enc_v64 v ! 0) = val_size v"
  by (cases v rule: val_size_cases) (simp_all add: enc_v64_size)

lemma buf_size_enc_v32 [simp]: "buf_size (enc_v32 v ! 0) = v32_val_size v"
  by (cases v rule: v32_val_size_cases) (simp_all add: enc_v32_size)

lemma v32_val_size_pos [simp]: "0 < v32_val_size v" "0 < val_size w"
  using val_size_bounds(1) [of "scast v"] val_size_bounds(1) [of w]
  by (simp_all add: v32_val_size_def)

lemma enc_neq_Nil [simp]: "enc_v32 v \<noteq> []" "enc_v64 w \<noteq> []"
  by (simp_all flip: length_greater_0_conv)

lemma fst_dump_i32: "fst (dump_i32 v buf) = v32_val_size v"
  by (simp only: dump_i32_def Let_def fits_range if_distrib [of fst] fst_conv v32_val_size_def
      val_size_eq sint_scast_i32)
    (use v32_val_size_le [of v] in \<open>simp add: v32_val_size_def val_size_eq split: if_splits\<close>)

lemma fst_dump_i64: "fst (dump_i64 v buf) = val_size v"
  by (simp only: dump_i64_def Let_def fits_range if_distrib [of fst] fst_conv val_size_eq)

lemma buf_size_dump_i32:
  assumes "5 \<le> length buf"
  shows "buf_size (snd (dump_i32 v buf) ! 0) = v32_val_size v"
  using buf_size_enc_v32 [of v] fst_dump_i32 [of v buf]
  by (simp add: dump_i32_sends [OF assms, symmetric] sent_def)

lemma buf_size_dump_i64:
  assumes "9 \<le> length buf"
  shows "buf_size (snd (dump_i64 v buf) ! 0) = val_size v"
  using buf_size_enc_v64 [of v] fst_dump_i64 [of v buf]
  by (simp add: dump_i64_sends [OF assms, symmetric] sent_def)

section \<open>Properties\<close>

text \<open>
  C2. Every 32-bit value survives the variable-length encoding, whatever the two arrays held
  before: the size that is returned is the size \<open>v32::val_size\<close> announces and the size the
  first byte announces, and the bytes sent are decoded to the value.
\<close>

theorem v32_wire_roundtrip:
  assumes "5 \<le> length buf"
  shows "fst (dump_i32 v buf) = v32_val_size v
    \<and> buf_size (snd (dump_i32 v buf) ! 0) = v32_val_size v
    \<and> v32_val_size v \<le> 5
    \<and> load_i32 (sent (dump_i32 v buf) @ junk) = v"
  using assms
  by (simp add: fst_dump_i32 buf_size_dump_i32 v32_val_size_le dump_i32_sends load_i32_enc)

theorem v32_wire_roundtrip_witness:
  "load_i32 (sent (dump_i32 (- 1987) [9, 9, 9, 9, 9]) @ [7, 7, 7]) = - 1987"
  using v32_wire_roundtrip [of "[9, 9, 9, 9, 9]" "- 1987" "[7, 7, 7]"] by simp

text \<open>
  C3. Every 64-bit value whose encoding is not eight bytes long survives the encoding, and the
  three ways in which the code computes the size of an encoding agree.
\<close>

theorem v64_wire_roundtrip:
  assumes "9 \<le> length buf" and "val_size v \<noteq> 8"
  shows "fst (dump_i64 v buf) = val_size v
    \<and> buf_size (snd (dump_i64 v buf) ! 0) = val_size v
    \<and> load_i64 (sent (dump_i64 v buf) @ junk) = v"
  using assms by (simp add: fst_dump_i64 buf_size_dump_i64 dump_i64_sends load_i64_enc)

theorem v64_wire_roundtrip_witness:
  "load_i64 (sent (dump_i64 (- 70000) [1, 2, 3, 4, 5, 6, 7, 8, 9]) @ [7]) = - 70000"
  using v64_wire_roundtrip [of "[1, 2, 3, 4, 5, 6, 7, 8, 9]" "- 70000" "[7]"]
  by (simp add: val_size_def)

text \<open>
  C35. The eight-byte encoding does not carry the low byte: of a value between \<open>2^48\<close> and
  \<open>2^55\<close> in magnitude the receiver gets the upper seven bytes, and in place of the low byte
  the ninth byte \<open>j\<close> of its own array.
\<close>

theorem v64_eight_byte_encoding_drops_low_byte:
  assumes "9 \<le> length buf" and "val_size v = 8"
  shows "fst (dump_i64 v buf) = 8
    \<and> load_i64 (sent (dump_i64 v buf) @ j # junk) = (v AND NOT 0xFF) OR ucast j"
  using assms by (simp add: fst_dump_i64 dump_i64_sends load_i64_enc_eight)

theorem v64_eight_byte_encoding_drops_low_byte_witness:
  "load_i64 (sent (dump_i64 0x01000000000055 [0, 0, 0, 0, 0, 0, 0, 0, 0]) @ [0]) = 0x01000000000000"
  using v64_eight_byte_encoding_drops_low_byte
    [of "[0, 0, 0, 0, 0, 0, 0, 0, 0]" "0x01000000000055" 0 "[]"]
  by (simp add: val_size_def)

end
