(* ===== verification/Marshal_Codec.thy ===== *)
theory Marshal_Codec
  imports Marshal_Interface Sparse_Int
begin

text \<open>
  The operators \<open><<\<close> and \<open>>>\<close> of \<open>rpc/marshal.h\<close> on every type that goes over the wire. A C++
  template over element types becomes a function over the operators of the elements. The
  contract of a pair of operators is the locale \<open>codec\<close>; scalar types are interpretations of it,
  and each container template is a sublocale: from codecs of its parts to a codec of the whole.

  A \<open>std::string\<close> is its bytes; a \<open>double\<close> is its 64-bit image; \<open>std::set\<close> and \<open>std::map\<close> are
  lists in the order of their keys without repetition; the unordered containers are a set and a
  finite map together with an iteration order that is not specified. A length that the standard
  library refuses (negative, seen as \<open>size_t\<close>) is the error \<open>BadAlloc\<close>.
\<close>

section \<open>Definitions\<close>

type_synonym 'a put = "heap \<Rightarrow> marshal \<Rightarrow> 'a \<Rightarrow> (marshal \<times> heap) res"
type_synonym 'a get = "heap \<Rightarrow> marshal \<Rightarrow> ('a \<times> marshal \<times> heap) res"

text \<open>\<open>verify(m.write(p, n) == n)\<close> and \<open>verify(m.read(p, n) == n)\<close>\<close>

definition put_bytes :: "byte list put" where
  "put_bytes h m p = rbind (Marshal_write h m p) (\<lambda>(n, m', h').
     rbind (verify (n = length p)) (\<lambda>_. Inr (m', h')))"

definition get_bytes :: "nat \<Rightarrow> byte list get" where
  "get_bytes n h m = rbind (Marshal_read h m n) (\<lambda>(out, m', h').
     rbind (verify (length out = n)) (\<lambda>_. Inr (out, m', h')))"

definition put_i8 :: "i8 put" where
  "put_i8 h m v = put_bytes h m (to_le 1 v)"

definition put_i16 :: "i16 put" where
  "put_i16 h m v = put_bytes h m (to_le 2 v)"

definition put_i32 :: "i32 put" where
  "put_i32 h m v = put_bytes h m (to_le 4 v)"

definition put_i64 :: "i64 put" where
  "put_i64 h m v = put_bytes h m (to_le 8 v)"

text \<open>Uninitialised memory of a local array.\<close>

definition stack_junk :: "heap \<Rightarrow> nat \<Rightarrow> byte list" where
  "stack_junk h n = map (garbage h (brk h)) [0..<n]"

definition put_v32 :: "i32 put" where
  "put_v32 h m v = (let (bsize, buf) = dump_i32 v (stack_junk h 5) in
     put_bytes h m (take bsize buf))"

definition put_v64 :: "i64 put" where
  "put_v64 h m v = (let (bsize, buf) = dump_i64 v (stack_junk h 9) in
     put_bytes h m (take bsize buf))"

definition put_u8 :: "8 word put" where
  "put_u8 h m u = put_bytes h m (to_le 1 u)"

definition put_u16 :: "16 word put" where
  "put_u16 h m u = put_bytes h m (to_le 2 u)"

definition put_u32 :: "32 word put" where
  "put_u32 h m u = put_bytes h m (to_le 4 u)"

definition put_u64 :: "64 word put" where
  "put_u64 h m u = put_bytes h m (to_le 8 u)"

definition put_double :: "64 word put" where
  "put_double h m v = put_bytes h m (to_le 8 v)"

definition put_string :: "byte list put" where
  "put_string h m v = (let v_len = of_nat (length v) :: i64 in
     rbind (put_v64 h m v_len) (\<lambda>(m1, h1).
       if 0 < sint v_len then
         rbind (Marshal_write h1 m1 (take (nat (sint v_len)) v)) (\<lambda>(n, m2, h2).
         rbind (verify (n = nat (sint v_len))) (\<lambda>_. Inr (m2, h2)))
       else Inr (m1, h1)))"

definition put_pair :: "'a put \<Rightarrow> 'b put \<Rightarrow> ('a \<times> 'b) put" where
  "put_pair put1 put2 h m v =
     rbind (put1 h m (fst v)) (\<lambda>(m1, h1). put2 h1 m1 (snd v))"

fun put_elems :: "'a put \<Rightarrow> 'a list put" where
  "put_elems put h m [] = Inr (m, h)"
| "put_elems put h m (x # xs) = rbind (put h m x) (\<lambda>(m1, h1). put_elems put h1 m1 xs)"

definition put_vector :: "'a put \<Rightarrow> 'a list put" where
  "put_vector put h m v =
     rbind (put_v64 h m (of_nat (length v))) (\<lambda>(m1, h1). put_elems put h1 m1 v)"

definition put_list :: "'a put \<Rightarrow> 'a list put" where
  "put_list put h m v =
     rbind (put_v64 h m (of_nat (length v))) (\<lambda>(m1, h1). put_elems put h1 m1 v)"

definition put_set :: "'a put \<Rightarrow> 'a list put" where
  "put_set put h m v =
     rbind (put_v64 h m (of_nat (length v))) (\<lambda>(m1, h1). put_elems put h1 m1 v)"

definition put_map :: "'k put \<Rightarrow> 'v put \<Rightarrow> ('k \<times> 'v) list put" where
  "put_map putk putv h m v =
     rbind (put_v64 h m (of_nat (length v))) (\<lambda>(m1, h1). put_elems (put_pair putk putv) h1 m1 v)"

definition put_unordered_set :: "('a set \<Rightarrow> 'a list) \<Rightarrow> 'a put \<Rightarrow> 'a set put" where
  "put_unordered_set iter put h m v =
     rbind (put_v64 h m (of_nat (card v))) (\<lambda>(m1, h1). put_elems put h1 m1 (iter v))"

definition put_unordered_map ::
  "(('k \<rightharpoonup> 'v) \<Rightarrow> ('k \<times> 'v) list) \<Rightarrow> 'k put \<Rightarrow> 'v put \<Rightarrow> ('k \<rightharpoonup> 'v) put" where
  "put_unordered_map iter putk putv h m v =
     rbind (put_v64 h m (of_nat (card (dom v)))) (\<lambda>(m1, h1).
       put_elems (put_pair putk putv) h1 m1 (iter v))"

definition get_word :: "nat \<Rightarrow> 'a::len word get" where
  "get_word k h m = rbind (get_bytes k h m) (\<lambda>(b, m', h'). Inr (from_le b, m', h'))"

definition get_i8 :: "i8 get" where
  "get_i8 = get_word 1"

definition get_i16 :: "i16 get" where
  "get_i16 = get_word 2"

definition get_i32 :: "i32 get" where
  "get_i32 = get_word 4"

definition get_i64 :: "i64 get" where
  "get_i64 = get_word 8"

text \<open>
  \<open>char buf[5]\<close> is filled with as many bytes as the first byte announces; more than five run
  over the array.
\<close>

definition get_v32 :: "i32 get" where
  "get_v32 h m =
     rbind (Marshal_peek h m 1) (\<lambda>byte0.
     rbind (verify (length byte0 = 1)) (\<lambda>_.
       let bsize = buf_size (hd byte0) in
       rbind (Marshal_read h m bsize) (\<lambda>(out, m', h').
         if 5 < length out then Inl OutOfBounds
         else
           rbind (verify (length out = bsize)) (\<lambda>_.
             Inr (load_i32 (out @ drop bsize (stack_junk h 5)), m', h')))))"

definition get_v64 :: "i64 get" where
  "get_v64 h m =
     rbind (Marshal_peek h m 1) (\<lambda>byte0.
     rbind (verify (length byte0 = 1)) (\<lambda>_.
       let bsize = buf_size (hd byte0) in
       rbind (Marshal_read h m bsize) (\<lambda>(out, m', h').
         if 9 < length out then Inl OutOfBounds
         else
           rbind (verify (length out = bsize)) (\<lambda>_.
             Inr (load_i64 (out @ drop bsize (stack_junk h 9)), m', h')))))"

definition get_u8 :: "8 word get" where
  "get_u8 = get_word 1"

definition get_u16 :: "16 word get" where
  "get_u16 = get_word 2"

definition get_u32 :: "32 word get" where
  "get_u32 = get_word 4"

definition get_u64 :: "64 word get" where
  "get_u64 = get_word 8"

definition get_double :: "64 word get" where
  "get_double = get_word 8"

definition get_string :: "byte list get" where
  "get_string h m =
     rbind (get_v64 h m) (\<lambda>(v_len, m1, h1).
       if sint v_len < 0 then Inl BadAlloc
       else if 0 < sint v_len then get_bytes (nat (sint v_len)) h1 m1
       else Inr ([], m1, h1))"

definition get_pair :: "'a get \<Rightarrow> 'b get \<Rightarrow> ('a \<times> 'b) get" where
  "get_pair get1 get2 h m =
     rbind (get1 h m) (\<lambda>(x, m1, h1).
     rbind (get2 h1 m1) (\<lambda>(y, m2, h2). Inr ((x, y), m2, h2)))"

text \<open>
  \<open>for (int i = 0; i < v_len.get(); i++)\<close>: \<open>k\<close> elements are left and \<open>i\<close> is a 32-bit counter,
  whose increment is undefined at its largest value.
\<close>

fun get_elems :: "'a get \<Rightarrow> nat \<Rightarrow> nat \<Rightarrow> 'a list get" where
  "get_elems get i 0 h m = Inr ([], m, h)"
| "get_elems get i (Suc k) h m =
     rbind (get h m) (\<lambda>(elem, m1, h1).
     rbind (if i = 2147483647 then Inl IntOverflow else Inr (Suc i)) (\<lambda>i'.
     rbind (get_elems get i' k h1 m1) (\<lambda>(rest, m2, h2). Inr (elem # rest, m2, h2))))"

definition get_vector :: "'a get \<Rightarrow> 'a list get" where
  "get_vector get h m =
     rbind (get_v64 h m) (\<lambda>(v_len, m1, h1).
       if sint v_len < 0 then Inl BadAlloc else get_elems get 0 (nat (sint v_len)) h1 m1)"

definition get_list :: "'a get \<Rightarrow> 'a list get" where
  "get_list get h m =
     rbind (get_v64 h m) (\<lambda>(v_len, m1, h1). get_elems get 0 (nat (sint v_len)) h1 m1)"

text \<open>\<open>std::set::insert\<close> and \<open>insert_into_map\<close> leave a key that is already there as it is.\<close>

definition set_insert :: "'a::linorder \<Rightarrow> 'a list \<Rightarrow> 'a list" where
  "set_insert x s = (if x \<in> set s then s else insort x s)"

definition insert_into_map :: "'k::linorder \<times> 'v \<Rightarrow> ('k \<times> 'v) list \<Rightarrow> ('k \<times> 'v) list" where
  "insert_into_map kv s = (if fst kv \<in> fst ` set s then s else insort_key fst kv s)"

definition get_set :: "'a::linorder get \<Rightarrow> 'a list get" where
  "get_set get h m =
     rbind (get_v64 h m) (\<lambda>(v_len, m1, h1).
     rbind (get_elems get 0 (nat (sint v_len)) h1 m1) (\<lambda>(elems, m2, h2).
       Inr (fold set_insert elems [], m2, h2)))"

definition get_map :: "'k::linorder get \<Rightarrow> 'v get \<Rightarrow> ('k \<times> 'v) list get" where
  "get_map getk getv h m =
     rbind (get_v64 h m) (\<lambda>(v_len, m1, h1).
     rbind (get_elems (get_pair getk getv) 0 (nat (sint v_len)) h1 m1) (\<lambda>(elems, m2, h2).
       Inr (fold insert_into_map elems [], m2, h2)))"

definition get_unordered_set :: "'a get \<Rightarrow> 'a set get" where
  "get_unordered_set get h m =
     rbind (get_v64 h m) (\<lambda>(v_len, m1, h1).
     rbind (get_elems get 0 (nat (sint v_len)) h1 m1) (\<lambda>(elems, m2, h2).
       Inr (fold insert elems {}, m2, h2)))"

definition get_unordered_map :: "'k get \<Rightarrow> 'v get \<Rightarrow> ('k \<rightharpoonup> 'v) get" where
  "get_unordered_map getk getv h m =
     rbind (get_v64 h m) (\<lambda>(v_len, m1, h1).
     rbind (get_elems (get_pair getk getv) 0 (nat (sint v_len)) h1 m1) (\<lambda>(elems, m2, h2).
       Inr (fold (\<lambda>(k, x) s. if s k = None then s(k \<mapsto> x) else s) elems Map.empty, m2, h2)))"

section \<open>The contract of a pair of operators\<close>

text \<open>
  \<open>puts\<close>: the effect of \<open><<\<close>, the bytes at the end of the buffer and counted. A codec writes the
  encoding of a valid value, reads a value back from a buffer that starts with its encoding, and
  stops with a failed \<open>verify\<close> on a buffer that holds only a part of one.
\<close>

definition puts ::
  "addr multiset \<Rightarrow> heap \<Rightarrow> marshal \<Rightarrow> byte list \<Rightarrow> heap \<Rightarrow> marshal \<Rightarrow> bool" where
  "puts R h m p h' m' \<longleftrightarrow> appends R h m p h' m' \<and> write_cnt m' = write_cnt m + of_nat (length p)"

definition wire_put :: "('a \<Rightarrow> bool) \<Rightarrow> ('a \<Rightarrow> byte list) \<Rightarrow> 'a put \<Rightarrow> bool" where
  "wire_put valid enc put \<longleftrightarrow> (\<forall>h m R v. buf_ok h m R \<and> valid v \<longrightarrow>
     (\<exists>m' h'. put h m v = Inr (m', h') \<and> puts R h m (enc v) h' m'))"

definition wire_get :: "('a \<Rightarrow> bool) \<Rightarrow> ('a \<Rightarrow> byte list) \<Rightarrow> 'a get \<Rightarrow> bool" where
  "wire_get valid enc get \<longleftrightarrow> (\<forall>h m R v. buf_ok h m R \<and> valid v \<and> prefix (enc v) (bytes h m) \<longrightarrow>
     (\<exists>m' h'. get h m = Inr (v, m', h') \<and> consumes R h m (length (enc v)) h' m'))"

definition wire_cut :: "('a \<Rightarrow> bool) \<Rightarrow> ('a \<Rightarrow> byte list) \<Rightarrow> 'a get \<Rightarrow> bool" where
  "wire_cut valid enc get \<longleftrightarrow> (\<forall>h m R v. buf_ok h m R \<and> valid v \<and> strict_prefix (bytes h m) (enc v) \<longrightarrow>
     get h m = Inl VerifyFailed)"

locale codec =
  fixes valid :: "'a \<Rightarrow> bool" and enc :: "'a \<Rightarrow> byte list" and put :: "'a put" and get :: "'a get"
  assumes put: "wire_put valid enc put" and get: "wire_get valid enc get" and cut: "wire_cut valid enc get"
begin

lemma put_ok:
  "buf_ok h m R \<Longrightarrow> valid v \<Longrightarrow> \<exists>m' h'. put h m v = Inr (m', h') \<and> puts R h m (enc v) h' m'"
  using put by (simp add: wire_put_def)

lemma get_ok:
  "buf_ok h m R \<Longrightarrow> valid v \<Longrightarrow> prefix (enc v) (bytes h m) \<Longrightarrow>
     \<exists>m' h'. get h m = Inr (v, m', h') \<and> consumes R h m (length (enc v)) h' m'"
  using get by (simp add: wire_get_def)

lemma get_cut:
  "buf_ok h m R \<Longrightarrow> valid v \<Longrightarrow> strict_prefix (bytes h m) (enc v) \<Longrightarrow> get h m = Inl VerifyFailed"
  using cut unfolding wire_cut_def by blast

text \<open>A value written to an empty buffer is the value read back, and the buffer is empty again.\<close>

lemma roundtrip:
  assumes ok: "buf_ok h m R" and v: "valid v" and e: "bytes h m = []"
  shows "\<exists>m1 h1 m2 h2. put h m v = Inr (m1, h1) \<and> get h1 m1 = Inr (v, m2, h2)
    \<and> buf_ok h2 m2 R \<and> bytes h2 m2 = []"
proof -
  obtain m1 h1 where p: "put h m v = Inr (m1, h1)" "puts R h m (enc v) h1 m1"
    using put_ok [OF ok v] by blast
  then have b: "buf_ok h1 m1 R" "bytes h1 m1 = enc v" using e by (simp_all add: puts_def appends_def)
  then obtain m2 h2 where "get h1 m1 = Inr (v, m2, h2)" "consumes R h1 m1 (length (enc v)) h2 m2"
    using get_ok [OF b(1) v] by auto
  with p b show ?thesis by (auto simp: consumes_def)
qed

end

lemma puts_trans:
  assumes "puts R h m p h1 m1" "puts R h1 m1 q h2 m2"
  shows "puts R h m (p @ q) h2 m2"
proof -
  have "same_buf h h2 b \<and> clear m2 b" if "set_mset (refs b) \<subseteq> set_mset R \<and> clear m b" for b
    using assms that same_buf_trans unfolding puts_def appends_def by metis
  moreover have "\<forall>a \<in># refs m2. a \<in># R \<longrightarrow> a \<in># refs m"
    using assms unfolding puts_def appends_def by blast
  ultimately show ?thesis
    using assms unfolding puts_def appends_def by (auto intro: prefix_order.trans)
qed

lemma puts_refl: "buf_ok h m R \<Longrightarrow> puts R h m [] h m"
proof -
  assume ok: "buf_ok h m R"
  have "same_buf h h b" if "set_mset (refs b) \<subseteq> set_mset R" for b
    using heap_ok_live that ok by (fastforce simp: same_buf_def keeps_def buf_ok_def)
  with ok show ?thesis by (auto simp: puts_def appends_def)
qed

lemma puts_buf_ok: "puts R h m p h' m' \<Longrightarrow> buf_ok h' m' R"
  by (simp add: puts_def appends_def)

lemma consumes_buf_ok: "consumes R h m k h' m' \<Longrightarrow> buf_ok h' m' R \<and> bytes h' m' = drop k (bytes h m)"
  by (simp add: consumes_def)

lemma put_bytes_ok:
  assumes "buf_ok h m R" "p \<noteq> []"
  shows "\<exists>m' h'. put_bytes h m p = Inr (m', h') \<and> puts R h m p h' m'"
  using Marshal_write_ok [OF assms] by (auto simp: put_bytes_def puts_def)

lemma get_bytes_ok:
  assumes ok: "buf_ok h m R"
  shows "n \<le> length (bytes h m) \<Longrightarrow>
      \<exists>m' h'. get_bytes n h m = Inr (take n (bytes h m), m', h') \<and> consumes R h m n h' m'"
    and "length (bytes h m) < n \<Longrightarrow> get_bytes n h m = Inl VerifyFailed"
proof -
  obtain m' h' where r: "Marshal_read h m n = Inr (take n (bytes h m), m', h')"
    "consumes R h m (min n (length (bytes h m))) h' m'"
    using Marshal_read_ok [OF ok] by blast
  show "\<exists>m' h'. get_bytes n h m = Inr (take n (bytes h m), m', h') \<and> consumes R h m n h' m'"
    if "n \<le> length (bytes h m)"
    using r that by (auto simp: get_bytes_def min_def)
  show "get_bytes n h m = Inl VerifyFailed" if "length (bytes h m) < n"
    using r(1) that by (simp add: get_bytes_def)
qed

section \<open>Scalars\<close>

lemma word_codec:
  fixes put :: "'a::len word put"
  assumes "\<And>h m v. put h m v = put_bytes h m (to_le k v)" and k: "0 < k" "LENGTH('a) \<le> 8 * k"
  shows "codec (\<lambda>_. True) (to_le k) put (get_word k)"
proof
  show "wire_put (\<lambda>_. True) (to_le k) put"
    using put_bytes_ok k(1) by (simp add: wire_put_def assms(1))
  show "wire_get (\<lambda>_. True) (to_le k) (get_word k :: 'a word get)"
    unfolding wire_get_def
  proof (intro allI impI)
    fix h m R and v :: "'a word"
    assume a: "buf_ok h m R \<and> True \<and> prefix (to_le k v) (bytes h m)"
    then have "k \<le> length (bytes h m)" "take k (bytes h m) = to_le k v"
      by (auto simp: prefix_def)
    with a get_bytes_ok(1) [of h m R k]
    show "\<exists>m' h'. get_word k h m = Inr (v, m', h') \<and> consumes R h m (length (to_le k v)) h' m'"
      by (auto simp: get_word_def k(2))
  qed
  show "wire_cut (\<lambda>_. True) (to_le k) (get_word k :: 'a word get)"
    unfolding wire_cut_def
    using get_bytes_ok(2) prefix_length_less by (fastforce simp: get_word_def)
qed

lemmas scalar_defs = put_i8_def put_i16_def put_i32_def put_i64_def put_u8_def put_u16_def put_u32_def
  put_u64_def put_double_def get_i8_def get_i16_def get_i32_def get_i64_def get_u8_def get_u16_def
  get_u32_def get_u64_def get_double_def

interpretation i8: codec "\<lambda>_. True" "to_le 1" put_i8 get_i8
  unfolding get_i8_def by (rule word_codec) (simp_all add: put_i8_def)

interpretation i16: codec "\<lambda>_. True" "to_le 2" put_i16 get_i16
  unfolding get_i16_def by (rule word_codec) (simp_all add: put_i16_def)

interpretation i32: codec "\<lambda>_. True" "to_le 4" put_i32 get_i32
  unfolding get_i32_def by (rule word_codec) (simp_all add: put_i32_def)

interpretation i64: codec "\<lambda>_. True" "to_le 8" put_i64 get_i64
  unfolding get_i64_def by (rule word_codec) (simp_all add: put_i64_def)

interpretation u8: codec "\<lambda>_. True" "to_le 1" put_u8 get_u8
  unfolding get_u8_def by (rule word_codec) (simp_all add: put_u8_def)

interpretation u16: codec "\<lambda>_. True" "to_le 2" put_u16 get_u16
  unfolding get_u16_def by (rule word_codec) (simp_all add: put_u16_def)

interpretation u32: codec "\<lambda>_. True" "to_le 4" put_u32 get_u32
  unfolding get_u32_def by (rule word_codec) (simp_all add: put_u32_def)

interpretation u64: codec "\<lambda>_. True" "to_le 8" put_u64 get_u64
  unfolding get_u64_def by (rule word_codec) (simp_all add: put_u64_def)

interpretation double: codec "\<lambda>_. True" "to_le 8" put_double get_double
  unfolding get_double_def by (rule word_codec) (simp_all add: put_double_def)

text \<open>
  Variable-length integers. The first byte decides how many bytes are read; \<open>cap\<close> is the size of
  the local array, and \<open>load\<close> looks only at the bytes of the encoding.
\<close>

definition get_sparse :: "nat \<Rightarrow> (byte list \<Rightarrow> 'a) \<Rightarrow> 'a get" where
  "get_sparse sz load h m =
     rbind (Marshal_peek h m 1) (\<lambda>byte0.
     rbind (verify (length byte0 = 1)) (\<lambda>_.
       let bsize = buf_size (hd byte0) in
       rbind (Marshal_read h m bsize) (\<lambda>(out, m', h').
         if sz < length out then Inl OutOfBounds
         else
           rbind (verify (length out = bsize)) (\<lambda>_.
             Inr (load (out @ drop bsize (stack_junk h sz)), m', h')))))"

lemma sparse_codec:
  assumes put: "\<And>h m v. put h m v = put_bytes h m (enc v)"
    and enc: "\<And>v. enc v \<noteq> []" "\<And>v. buf_size (enc v ! 0) = length (enc v)" "\<And>v. length (enc v) \<le> sz"
    and load: "\<And>v junk. valid v \<Longrightarrow> load (enc v @ junk) = v"
  shows "codec valid enc put (get_sparse sz load)"
proof
  show "wire_put valid enc put" using put_bytes_ok enc(1) by (simp add: wire_put_def put)
  show "wire_get valid enc (get_sparse sz load)"
    unfolding wire_get_def
  proof (intro allI impI)
    fix h m R v
    assume a: "buf_ok h m R \<and> valid v \<and> prefix (enc v) (bytes h m)"
    then obtain rest where b: "bytes h m = enc v @ rest" by (auto simp: prefix_def)
    then have "take 1 (bytes h m) = [enc v ! 0]" using enc(1) [of v] by (cases "enc v") auto
    then have pk: "Marshal_peek h m 1 = Inr [enc v ! 0]"
      using Marshal_peek_ok [of h m 1] a by (simp add: buf_ok_def)
    obtain m' h' where rd: "Marshal_read h m (length (enc v)) = Inr (enc v, m', h')"
      "consumes R h m (length (enc v)) h' m'"
      using Marshal_read_ok [of h m R "length (enc v)"] a by (auto simp: b)
    have "get_sparse sz load h m = Inr (v, m', h')"
      unfolding get_sparse_def pk using a enc(2,3) load rd(1) by (simp add: not_less [symmetric])
    with rd(2) show "\<exists>m' h'. get_sparse sz load h m = Inr (v, m', h') \<and> consumes R h m (length (enc v)) h' m'"
      by blast
  qed
  show "wire_cut valid enc (get_sparse sz load)"
    unfolding wire_cut_def
  proof (intro allI impI)
    fix h m R v
    assume a: "buf_ok h m R \<and> valid v \<and> strict_prefix (bytes h m) (enc v)"
    then have pk: "Marshal_peek h m 1 = Inr (take 1 (bytes h m))" by (simp add: Marshal_peek_ok buf_ok_def)
    show "get_sparse sz load h m = Inl VerifyFailed"
    proof (cases "bytes h m = []")
      case True
      with pk show ?thesis by (simp add: get_sparse_def)
    next
      case False
      obtain r where r: "enc v = bytes h m @ r" using a by (auto simp: strict_prefix_def prefix_def)
      have lt: "length (bytes h m) < length (enc v)" using a prefix_length_less by blast
      have "take 1 (bytes h m) = [enc v ! 0]" using False by (cases "bytes h m") (auto simp: r)
      moreover obtain m' h' where "Marshal_read h m (length (enc v)) = Inr (bytes h m, m', h')"
        using Marshal_read_ok [of h m R "length (enc v)"] a lt by auto
      moreover have "\<not> sz < length (bytes h m)" using lt enc(3) [of v] by simp
      ultimately show ?thesis unfolding get_sparse_def pk using enc(2) [of v] lt by simp
    qed
  qed
qed

lemma length_stack_junk: "length (stack_junk h n) = n"
  by (simp add: stack_junk_def)

lemma put_v32_eq: "put_v32 h m v = put_bytes h m (enc_v32 v)"
  using dump_i32_sends [of "stack_junk h 5" v]
  by (cases "dump_i32 v (stack_junk h 5)") (simp add: put_v32_def sent_def length_stack_junk)

lemma put_v64_eq: "put_v64 h m v = put_bytes h m (enc_v64 v)"
  using dump_i64_sends [of "stack_junk h 9" v]
  by (cases "dump_i64 v (stack_junk h 9)") (simp add: put_v64_def sent_def length_stack_junk)

interpretation v32: codec "\<lambda>_. True" enc_v32 put_v32 get_v32
proof -
  have "get_v32 = get_sparse 5 load_i32" by (simp add: fun_eq_iff get_v32_def get_sparse_def)
  moreover have "codec (\<lambda>_. True) enc_v32 put_v32 (get_sparse 5 load_i32)"
    by (rule sparse_codec) (simp_all add: put_v32_eq v32_val_size_le load_i32_enc)
  ultimately show "codec (\<lambda>_. True) enc_v32 put_v32 get_v32" by simp
qed

definition long_enough :: "i64 \<Rightarrow> bool" where
  "long_enough v \<longleftrightarrow> val_size v \<noteq> 8"

interpretation v64: codec long_enough enc_v64 put_v64 get_v64
proof -
  have "get_v64 = get_sparse 9 load_i64" by (simp add: fun_eq_iff get_v64_def get_sparse_def)
  moreover have "codec long_enough enc_v64 put_v64 (get_sparse 9 load_i64)"
    by (rule sparse_codec) (simp_all add: put_v64_eq val_size_bounds load_i64_enc long_enough_def)
  ultimately show "codec long_enough enc_v64 put_v64 get_v64" by simp
qed

section \<open>Strings and pairs\<close>

definition short_len :: "nat \<Rightarrow> bool" where
  "short_len n \<longleftrightarrow> n < 2 ^ 31"

lemma short_len_v64:
  assumes "short_len n"
  shows "sint (of_nat n :: i64) = int n" "long_enough (of_nat n)"
proof -
  have "int n < 2 ^ 31" using assms by (simp add: short_len_def)
  then show s: "sint (of_nat n :: i64) = int n"
    by (simp add: signed_of_nat signed_take_bit_int_eq_self)
  have "fits 5 (sint (of_nat n :: i64))" unfolding s using \<open>int n < 2 ^ 31\<close> by (simp add: fits_def)
  then show "long_enough (of_nat n)" by (simp add: long_enough_def val_size_eq)
qed

definition enc_string :: "byte list \<Rightarrow> byte list" where
  "enc_string v = enc_v64 (of_nat (length v)) @ v"

lemma strict_prefix_append_cases:
  assumes "strict_prefix b (p @ q)"
  obtains "strict_prefix b p" | r where "b = p @ r" "strict_prefix r q"
proof (cases "prefix p b")
  case True
  then obtain r where "b = p @ r" by (auto simp: prefix_def)
  with assms show ?thesis using that(2) [of r] by (simp add: strict_prefix_def)
next
  case False
  from assms have "prefix b (p @ q)" by (simp add: strict_prefix_def)
  then have "prefix b p" using False by (auto simp: prefix_append)
  with False show ?thesis using that(1) by (auto simp: strict_prefix_def)
qed

interpretation str: codec "\<lambda>v. short_len (length v)" enc_string put_string get_string
proof
  show "wire_put (\<lambda>v. short_len (length v)) enc_string put_string"
    unfolding wire_put_def
  proof (intro allI impI)
    fix h m R and v :: "byte list"
    assume a: "buf_ok h m R \<and> short_len (length v)"
    note s = short_len_v64 [OF conjunct2 [OF a]]
    obtain m1 h1 where p: "put_v64 h m (of_nat (length v)) = Inr (m1, h1)"
      "puts R h m (enc_v64 (of_nat (length v))) h1 m1"
      using v64.put_ok [OF conjunct1 [OF a] s(2)] by blast
    show "\<exists>m' h'. put_string h m v = Inr (m', h') \<and> puts R h m (enc_string v) h' m'"
    proof (cases "v = []")
      case True
      with p s(1) show ?thesis by (simp add: put_string_def enc_string_def)
    next
      case False
      obtain m2 h2 where "Marshal_write h1 m1 v = Inr (length v, m2, h2)" "puts R h1 m1 v h2 m2"
        using Marshal_write_ok [OF puts_buf_ok [OF p(2)] False] by (auto simp: puts_def)
      with p False s(1) show ?thesis
        using puts_trans by (auto simp: put_string_def enc_string_def Let_def)
    qed
  qed
  show "wire_get (\<lambda>v. short_len (length v)) enc_string get_string"
    unfolding wire_get_def
  proof (intro allI impI)
    fix h m R and v :: "byte list"
    assume a: "buf_ok h m R \<and> short_len (length v) \<and> prefix (enc_string v) (bytes h m)"
    then have s: "sint (of_nat (length v) :: i64) = int (length v)" "long_enough (of_nat (length v))"
      using short_len_v64 by auto
    obtain rest where b: "bytes h m = enc_v64 (of_nat (length v)) @ v @ rest"
      using a by (auto simp: prefix_def enc_string_def)
    obtain m1 h1 where g: "get_v64 h m = Inr (of_nat (length v), m1, h1)"
      "consumes R h m (length (enc_v64 (of_nat (length v)))) h1 m1"
      using v64.get_ok [OF conjunct1 [OF a] s(2)] b by auto
    note c = consumes_buf_ok [OF g(2)]
    then obtain m2 h2 where "get_bytes (length v) h1 m1 = Inr (v, m2, h2)" "consumes R h1 m1 (length v) h2 m2"
      using get_bytes_ok(1) [of h1 m1 R "length v"] by (auto simp: b)
    then show "\<exists>m' h'. get_string h m = Inr (v, m', h') \<and> consumes R h m (length (enc_string v)) h' m'"
      using g s(1) consumes_trans [OF g(2)] by (cases "v = []") (auto simp: get_string_def enc_string_def)
  qed
  show "wire_cut (\<lambda>v. short_len (length v)) enc_string get_string"
    unfolding wire_cut_def
  proof (intro allI impI)
    fix h m R and v :: "byte list"
    assume a: "buf_ok h m R \<and> short_len (length v) \<and> strict_prefix (bytes h m) (enc_string v)"
    then have s: "sint (of_nat (length v) :: i64) = int (length v)" "long_enough (of_nat (length v))"
      using short_len_v64 by auto
    from a have "strict_prefix (bytes h m) (enc_v64 (of_nat (length v)) @ v)" by (simp add: enc_string_def)
    then show "get_string h m = Inl VerifyFailed"
    proof (cases rule: strict_prefix_append_cases)
      case 1
      then show ?thesis using v64.get_cut [OF conjunct1 [OF a] s(2)] by (simp add: get_string_def)
    next
      case (2 r)
      obtain m1 h1 where g: "get_v64 h m = Inr (of_nat (length v), m1, h1)"
        "consumes R h m (length (enc_v64 (of_nat (length v)))) h1 m1"
        using v64.get_ok [OF conjunct1 [OF a] s(2)] 2(1) by auto
      note c = consumes_buf_ok [OF g(2)]
      have "length r < length v" using 2(2) prefix_length_less by blast
      with c 2(1) get_bytes_ok(2) [of h1 m1 R "length v"] g(1) s(1) show ?thesis
        by (auto simp: get_string_def)
    qed
  qed
qed

locale two_codecs =
  A: codec validA encA putA getA + B: codec validB encB putB getB
  for validA :: "'a \<Rightarrow> bool" and encA putA getA and validB :: "'b \<Rightarrow> bool" and encB putB getB

definition enc_pair :: "('a \<Rightarrow> byte list) \<Rightarrow> ('b \<Rightarrow> byte list) \<Rightarrow> 'a \<times> 'b \<Rightarrow> byte list" where
  "enc_pair encA encB v = encA (fst v) @ encB (snd v)"

definition both_valid :: "('a \<Rightarrow> bool) \<Rightarrow> ('b \<Rightarrow> bool) \<Rightarrow> 'a \<times> 'b \<Rightarrow> bool" where
  "both_valid validA validB v \<longleftrightarrow> validA (fst v) \<and> validB (snd v)"

sublocale two_codecs \<subseteq> pair: codec "both_valid validA validB" "enc_pair encA encB"
  "put_pair putA putB" "get_pair getA getB"
proof
  show "wire_put (both_valid validA validB) (enc_pair encA encB) (put_pair putA putB)"
    unfolding wire_put_def
  proof (intro allI impI)
    fix h m R v
    assume a: "buf_ok h m R \<and> both_valid validA validB v"
    then obtain m1 h1 where "putA h m (fst v) = Inr (m1, h1)" "puts R h m (encA (fst v)) h1 m1"
      using A.put_ok [of h m R "fst v"] by (auto simp: both_valid_def)
    moreover from puts_buf_ok [OF this(2)] a obtain m2 h2 where
      "putB h1 m1 (snd v) = Inr (m2, h2)" "puts R h1 m1 (encB (snd v)) h2 m2"
      using B.put_ok by (metis both_valid_def)
    ultimately show "\<exists>m' h'. put_pair putA putB h m v = Inr (m', h') \<and> puts R h m (enc_pair encA encB v) h' m'"
      using puts_trans by (auto simp: put_pair_def enc_pair_def)
  qed
  show "wire_get (both_valid validA validB) (enc_pair encA encB) (get_pair getA getB)"
    unfolding wire_get_def
  proof (intro allI impI)
    fix h m R v
    assume a: "buf_ok h m R \<and> both_valid validA validB v \<and> prefix (enc_pair encA encB v) (bytes h m)"
    then obtain rest where b: "bytes h m = encA (fst v) @ encB (snd v) @ rest"
      by (auto simp: prefix_def enc_pair_def)
    obtain m1 h1 where g1: "getA h m = Inr (fst v, m1, h1)" "consumes R h m (length (encA (fst v))) h1 m1"
      using A.get_ok [of h m R "fst v"] a b by (auto simp: both_valid_def)
    obtain m2 h2 where g2: "getB h1 m1 = Inr (snd v, m2, h2)" "consumes R h1 m1 (length (encB (snd v))) h2 m2"
      using B.get_ok [of h1 m1 R "snd v"] consumes_buf_ok [OF g1(2)] a b by (auto simp: both_valid_def)
    show "\<exists>m' h'. get_pair getA getB h m = Inr (v, m', h')
        \<and> consumes R h m (length (enc_pair encA encB v)) h' m'"
      using g1(1) g2(1) consumes_trans [OF g1(2) g2(2)] by (simp add: get_pair_def enc_pair_def)
  qed
  show "wire_cut (both_valid validA validB) (enc_pair encA encB) (get_pair getA getB)"
    unfolding wire_cut_def
  proof (intro allI impI)
    fix h m R v
    assume a: "buf_ok h m R \<and> both_valid validA validB v \<and> strict_prefix (bytes h m) (enc_pair encA encB v)"
    then have "strict_prefix (bytes h m) (encA (fst v) @ encB (snd v))" by (simp add: enc_pair_def)
    then show "get_pair getA getB h m = Inl VerifyFailed"
    proof (cases rule: strict_prefix_append_cases)
      case 1
      then show ?thesis using A.get_cut [of h m R "fst v"] a by (simp add: get_pair_def both_valid_def)
    next
      case (2 r)
      obtain m1 h1 where g1: "getA h m = Inr (fst v, m1, h1)" "consumes R h m (length (encA (fst v))) h1 m1"
        using A.get_ok [of h m R "fst v"] a 2(1) by (auto simp: both_valid_def)
      then have "getB h1 m1 = Inl VerifyFailed"
        using B.get_cut [of h1 m1 R "snd v"] consumes_buf_ok [OF g1(2)] a 2 by (auto simp: both_valid_def)
      with g1(1) show ?thesis by (simp add: get_pair_def)
    qed
  qed
qed

section \<open>Sequences\<close>

definition enc_seq :: "('a \<Rightarrow> byte list) \<Rightarrow> 'a list \<Rightarrow> byte list" where
  "enc_seq enc xs = enc_v64 (of_nat (length xs)) @ concat (map enc xs)"

definition all_valid :: "('a \<Rightarrow> bool) \<Rightarrow> 'a list \<Rightarrow> bool" where
  "all_valid valid xs \<longleftrightarrow> short_len (length xs) \<and> (\<forall>x \<in> set xs. valid x)"

lemma consumes_refl: "buf_ok h m R \<Longrightarrow> consumes R h m 0 h m"
  using shrinks_consumes [OF shrinks_refl, of h m R] by (simp add: buf_ok_def refs_def wf_marshal_def)

context codec
begin

lemma put_elems_ok:
  "buf_ok h m R \<Longrightarrow> \<forall>x \<in> set xs. valid x \<Longrightarrow>
     \<exists>m' h'. put_elems put h m xs = Inr (m', h') \<and> puts R h m (concat (map enc xs)) h' m'"
proof (induction xs arbitrary: h m)
  case (Cons x xs)
  then obtain m1 h1 where p: "put h m x = Inr (m1, h1)" "puts R h m (enc x) h1 m1"
    using put_ok [of h m R x] by auto
  then show ?case
    using Cons.IH [OF puts_buf_ok [OF p(2)]] Cons.prems(2) puts_trans [OF p(2)] by auto
qed (simp add: puts_refl)

lemma get_elems_ok:
  "buf_ok h m R \<Longrightarrow> \<forall>x \<in> set xs. valid x \<Longrightarrow> prefix (concat (map enc xs)) (bytes h m) \<Longrightarrow>
     i + length xs \<le> 2147483647 \<Longrightarrow>
     \<exists>m' h'. get_elems get i (length xs) h m = Inr (xs, m', h')
       \<and> consumes R h m (length (concat (map enc xs))) h' m'"
proof (induction xs arbitrary: h m i)
  case (Cons x xs)
  then obtain rest where b: "bytes h m = enc x @ concat (map enc xs) @ rest" by (auto simp: prefix_def)
  then obtain m1 h1 where g: "get h m = Inr (x, m1, h1)" "consumes R h m (length (enc x)) h1 m1"
    using get_ok [of h m R x] Cons.prems by auto
  note c = consumes_buf_ok [OF g(2)]
  obtain m2 h2 where r: "get_elems get (Suc i) (length xs) h1 m1 = Inr (xs, m2, h2)"
    "consumes R h1 m1 (length (concat (map enc xs))) h2 m2"
    using Cons.IH [of h1 m1 "Suc i"] c Cons.prems(2,4) b by auto
  have "i \<noteq> 2147483647" using Cons.prems(4) by auto
  with g(1) r(1) have "get_elems get i (length (x # xs)) h m = Inr (x # xs, m2, h2)" by simp
  then show ?case using consumes_trans [OF g(2) r(2)] by (metis concat.simps(2) length_append list.simps(9))
qed (simp add: consumes_refl)

lemma get_elems_cut:
  "buf_ok h m R \<Longrightarrow> \<forall>x \<in> set xs. valid x \<Longrightarrow> strict_prefix (bytes h m) (concat (map enc xs)) \<Longrightarrow>
     i + length xs \<le> 2147483647 \<Longrightarrow> get_elems get i (length xs) h m = Inl VerifyFailed"
proof (induction xs arbitrary: h m i)
  case (Cons x xs)
  from Cons.prems(3) have "strict_prefix (bytes h m) (enc x @ concat (map enc xs))" by simp
  then show ?case
  proof (cases rule: strict_prefix_append_cases)
    case 1
    then show ?thesis using get_cut [of h m R x] Cons.prems by simp
  next
    case (2 r)
    obtain m1 h1 where g: "get h m = Inr (x, m1, h1)" "consumes R h m (length (enc x)) h1 m1"
      using get_ok [of h m R x] Cons.prems 2(1) by auto
    have "i \<noteq> 2147483647" using Cons.prems(4) by auto
    moreover have "get_elems get (Suc i) (length xs) h1 m1 = Inl VerifyFailed"
      using Cons.IH [of h1 m1 "Suc i"] consumes_buf_ok [OF g(2)] Cons.prems(2,4) 2 by auto
    ultimately show ?thesis using g(1) by simp
  qed
qed (simp add: strict_prefix_def)

end

text \<open>The loop after the length was read and, for a vector, accepted by \<open>reserve\<close>.\<close>

definition get_seq :: "(i64 \<Rightarrow> unit res) \<Rightarrow> 'a get \<Rightarrow> 'a list get" where
  "get_seq chk get h m = rbind (get_v64 h m) (\<lambda>(v_len, m1, h1).
     rbind (chk v_len) (\<lambda>_. get_elems get 0 (nat (sint v_len)) h1 m1))"

context codec
begin

lemma seq_codec:
  assumes chk: "\<And>n. short_len n \<Longrightarrow> chk (of_nat n) = Inr ()"
  shows "codec (all_valid valid) (enc_seq enc) (put_list put) (get_seq chk get)"
proof
  show "wire_put (all_valid valid) (enc_seq enc) (put_list put)"
    unfolding wire_put_def
  proof (intro allI impI)
    fix h m R and v :: "'a list"
    assume a: "buf_ok h m R \<and> all_valid valid v"
    then have s: "long_enough (of_nat (length v))" by (simp add: all_valid_def short_len_v64)
    obtain m1 h1 where p: "put_v64 h m (of_nat (length v)) = Inr (m1, h1)"
      "puts R h m (enc_v64 (of_nat (length v))) h1 m1"
      using v64.put_ok [OF conjunct1 [OF a] s] by blast
    obtain m2 h2 where "put_elems put h1 m1 v = Inr (m2, h2)" "puts R h1 m1 (concat (map enc v)) h2 m2"
      using put_elems_ok [OF puts_buf_ok [OF p(2)], of v] a by (auto simp: all_valid_def)
    with p show "\<exists>m' h'. put_list put h m v = Inr (m', h') \<and> puts R h m (enc_seq enc v) h' m'"
      using puts_trans by (auto simp: put_list_def enc_seq_def)
  qed
  have get_len: "\<exists>m1 h1. get_v64 h m = Inr (of_nat (length v), m1, h1) \<and> buf_ok h1 m1 R
      \<and> consumes R h m (length (enc_v64 (of_nat (length v)))) h1 m1 \<and> bytes h1 m1 = rest"
    if "buf_ok h m R" "all_valid valid v" "bytes h m = enc_v64 (of_nat (length v)) @ rest"
    for h m R and v :: "'a list" and rest
    using v64.get_ok [of h m R "of_nat (length v)"] that consumes_buf_ok
    by (fastforce simp: all_valid_def short_len_v64)
  have nat_len: "nat (sint (of_nat (length v) :: i64)) = length v" "0 + length v \<le> 2147483647"
    if "all_valid valid v" for v
    using that short_len_v64(1) [of "length v"] by (simp_all add: all_valid_def short_len_def)
  have ok_len: "chk (of_nat (length v)) = Inr ()" if "all_valid valid v" for v
    using chk that by (simp add: all_valid_def)
  show "wire_get (all_valid valid) (enc_seq enc) (get_seq chk get)"
    unfolding wire_get_def
  proof (intro allI impI)
    fix h m R and v :: "'a list"
    assume a: "buf_ok h m R \<and> all_valid valid v \<and> prefix (enc_seq enc v) (bytes h m)"
    then obtain rest where b: "bytes h m = enc_v64 (of_nat (length v)) @ concat (map enc v) @ rest"
      by (auto simp: prefix_def enc_seq_def)
    obtain m1 h1 where g: "get_v64 h m = Inr (of_nat (length v), m1, h1)" "buf_ok h1 m1 R"
      "consumes R h m (length (enc_v64 (of_nat (length v)))) h1 m1" "bytes h1 m1 = concat (map enc v) @ rest"
      using get_len [OF _ _ b] a by blast
    obtain m2 h2 where r: "get_elems get 0 (length v) h1 m1 = Inr (v, m2, h2)"
      "consumes R h1 m1 (length (concat (map enc v))) h2 m2"
      using get_elems_ok [OF g(2), of v 0] a g(4) nat_len(2) by (auto simp: all_valid_def)
    show "\<exists>m' h'. get_seq chk get h m = Inr (v, m', h') \<and> consumes R h m (length (enc_seq enc v)) h' m'"
      using g(1) r(1) consumes_trans [OF g(3) r(2)] a by (simp add: get_seq_def enc_seq_def nat_len(1) ok_len)
  qed
  show "wire_cut (all_valid valid) (enc_seq enc) (get_seq chk get)"
    unfolding wire_cut_def
  proof (intro allI impI)
    fix h m R and v :: "'a list"
    assume a: "buf_ok h m R \<and> all_valid valid v \<and> strict_prefix (bytes h m) (enc_seq enc v)"
    then have s: "long_enough (of_nat (length v))" by (simp add: all_valid_def short_len_v64)
    from a have "strict_prefix (bytes h m) (enc_v64 (of_nat (length v)) @ concat (map enc v))"
      by (simp add: enc_seq_def)
    then show "get_seq chk get h m = Inl VerifyFailed"
    proof (cases rule: strict_prefix_append_cases)
      case 1
      then show ?thesis using v64.get_cut [OF conjunct1 [OF a] s] by (simp add: get_seq_def)
    next
      case (2 r)
      obtain m1 h1 where g: "get_v64 h m = Inr (of_nat (length v), m1, h1)" "buf_ok h1 m1 R"
        "bytes h1 m1 = r"
        using get_len [OF _ _ 2(1)] a by blast
      then show ?thesis using get_elems_cut [OF g(2), of v 0] a 2(2) nat_len
        by (auto simp: get_seq_def all_valid_def chk)
    qed
  qed
qed

end

locale elem_codec = E: codec valid enc put get
  for valid :: "'a \<Rightarrow> bool" and enc put get

sublocale elem_codec \<subseteq> list: codec "all_valid valid" "enc_seq enc" "put_list put" "get_list get"
proof -
  have "get_list get = get_seq (\<lambda>_. Inr ()) get" by (simp add: fun_eq_iff get_list_def get_seq_def)
  then show "codec (all_valid valid) (enc_seq enc) (put_list put) (get_list get)"
    using E.seq_codec [of "\<lambda>_. Inr ()"] by simp
qed

sublocale elem_codec \<subseteq> vector: codec "all_valid valid" "enc_seq enc" "put_vector put" "get_vector get"
proof -
  let ?chk = "\<lambda>l :: i64. if sint l < 0 then Inl BadAlloc else Inr ()"
  have "get_vector get = get_seq ?chk get"
    by (rule ext)+ (auto simp: get_vector_def get_seq_def intro!: rbind_cong)
  moreover have "put_vector put = put_list put" by (simp add: fun_eq_iff put_vector_def put_list_def)
  ultimately show "codec (all_valid valid) (enc_seq enc) (put_vector put) (get_vector get)"
    using E.seq_codec [of ?chk] by (simp add: short_len_v64(1))
qed

section \<open>Containers as views of sequences\<close>

text \<open>
  A container that is sent as the sequence \<open>g v\<close> and rebuilt from it by \<open>f\<close>.
\<close>

lemma codec_view:
  assumes "codec valid enc put get"
    and put': "\<And>h m v. valid' v \<Longrightarrow> put' h m v = put h m (g v)"
    and get': "\<And>h m. get' h m = rbind (get h m) (\<lambda>(x, m1, h1). Inr (f x, m1, h1))"
    and view: "\<And>v. valid' v \<Longrightarrow> valid (g v) \<and> f (g v) = v"
  shows "codec valid' (\<lambda>v. enc (g v)) put' get'"
proof
  note c = assms(1)
  show "wire_put valid' (\<lambda>v. enc (g v)) put'"
    using codec.put_ok [OF c] view by (simp add: wire_put_def put')
  show "wire_get valid' (\<lambda>v. enc (g v)) get'"
    unfolding wire_get_def using codec.get_ok [OF c] view by (fastforce simp: get')
  show "wire_cut valid' (\<lambda>v. enc (g v)) get'"
    unfolding wire_cut_def using codec.get_cut [OF c] view by (fastforce simp: get')
qed

lemma fold_set_insert: "sorted_wrt (<) xs \<Longrightarrow> fold set_insert xs [] = (xs :: 'a::linorder list)"
proof (induction xs rule: rev_induct)
  case (snoc x xs)
  then have "x \<notin> set xs" "\<forall>y \<in> set xs. y < x" by (auto simp: sorted_wrt_append)
  then show ?case using snoc by (simp add: set_insert_def sorted_wrt_append sorted_insort_is_snoc
        strict_sorted_imp_sorted less_imp_le)
qed simp

lemma insort_key_last:
  "\<forall>y \<in> set xs. f y < f x \<Longrightarrow> insort_key f x xs = xs @ [x]"
  by (induction xs) auto

lemma fold_insert_into_map:
  "sorted_wrt (<) (map fst xs) \<Longrightarrow> fold insert_into_map xs [] = (xs :: ('k::linorder \<times> 'v) list)"
proof (induction xs rule: rev_induct)
  case (snoc x xs)
  then have "\<forall>y \<in> set xs. fst y < fst x" by (auto simp: sorted_wrt_append)
  then show ?case using snoc
    by (auto simp: insert_into_map_def sorted_wrt_append insort_key_last)
qed simp

lemma fold_insert_set: "fold insert xs s = set xs \<union> s"
  by (induction xs arbitrary: s) auto

lemma fold_insert_map:
  "distinct (map fst xs) \<Longrightarrow> \<forall>k \<in> set (map fst xs). s k = None \<Longrightarrow>
     fold (\<lambda>(k, x) s. if s k = None then s(k \<mapsto> x) else s) xs s = s ++ map_of xs"
proof (induction xs arbitrary: s)
  case (Cons kv xs)
  obtain k x where kv: "kv = (k, x)" by fastforce
  then have "k \<notin> dom (map_of xs)" "\<forall>j \<in> set (map fst xs). (s(k \<mapsto> x)) j = None"
    using Cons.prems by (auto simp: dom_map_of_conv_image_fst)
  moreover have "fold (\<lambda>(k, x) s. if s k = None then s(k \<mapsto> x) else s) xs (s(k \<mapsto> x))
      = s(k \<mapsto> x) ++ map_of xs"
    by (rule Cons.IH) (use Cons.prems(1) calculation(2) in simp_all)
  moreover have "s ++ map_of (kv # xs) = (s ++ map_of xs)(k \<mapsto> x)"
    by (simp only: kv map_of.simps fst_conv snd_conv map_add_upd)
  moreover have "s k = None" using Cons.prems(2) by (simp add: kv)
  ultimately show ?case by (simp only: kv fold.simps o_apply prod.case map_add_upd_left simp_thms if_True)
qed simp

definition set_valid :: "('a \<Rightarrow> bool) \<Rightarrow> 'a::linorder list \<Rightarrow> bool" where
  "set_valid valid v \<longleftrightarrow> all_valid valid v \<and> sorted_wrt (<) v"

definition map_valid :: "('k \<Rightarrow> bool) \<Rightarrow> ('v \<Rightarrow> bool) \<Rightarrow> ('k::linorder \<times> 'v) list \<Rightarrow> bool" where
  "map_valid validk validv v \<longleftrightarrow> all_valid (both_valid validk validv) v \<and> sorted_wrt (<) (map fst v)"

locale key_codec = elem_codec valid enc put get
  for valid :: "'a::linorder \<Rightarrow> bool" and enc put get

sublocale key_codec \<subseteq> set: codec "set_valid valid" "enc_seq enc" "put_set put" "get_set get"
proof -
  have "codec (set_valid valid) (\<lambda>v. enc_seq enc (id v)) (put_set put) (get_set get)"
  proof (rule codec_view [OF list.codec_axioms, where f = "\<lambda>xs. fold set_insert xs []"])
    show "get_set get h m = rbind (get_list get h m) (\<lambda>(x, m1, h1). Inr (fold set_insert x [], m1, h1))" for h m
      by (simp add: get_set_def get_list_def rbind_assoc split_def)
  qed (auto simp: set_valid_def fold_set_insert put_set_def put_list_def)
  then show "codec (set_valid valid) (enc_seq enc) (put_set put) (get_set get)" by simp
qed

locale map_codec = two_codecs validk enck putk getk validv encv putv getv
  for validk :: "'k::linorder \<Rightarrow> bool" and enck putk getk and validv :: "'v \<Rightarrow> bool" and encv putv getv

sublocale map_codec \<subseteq> items: elem_codec "both_valid validk validv" "enc_pair enck encv"
  "put_pair putk putv" "get_pair getk getv"
  by unfold_locales

sublocale map_codec \<subseteq> map: codec "map_valid validk validv" "enc_seq (enc_pair enck encv)"
  "put_map putk putv" "get_map getk getv"
proof -
  have "codec (map_valid validk validv) (\<lambda>v. enc_seq (enc_pair enck encv) (id v)) (put_map putk putv)
      (get_map getk getv)"
  proof (rule codec_view [OF items.list.codec_axioms, where f = "\<lambda>xs. fold insert_into_map xs []"])
    show "get_map getk getv h m = rbind (get_list (get_pair getk getv) h m)
        (\<lambda>(x, m1, h1). Inr (fold insert_into_map x [], m1, h1))" for h m
      by (simp add: get_map_def get_list_def rbind_assoc split_def)
  qed (auto simp: map_valid_def fold_insert_into_map put_map_def put_list_def)
  then show "codec (map_valid validk validv) (enc_seq (enc_pair enck encv)) (put_map putk putv)
      (get_map getk getv)" by simp
qed

text \<open>
  The unordered containers are visited in an order that only the library knows: any order that
  visits each element once.
\<close>

locale hash_set = elem_codec valid enc put get
  for valid :: "'a \<Rightarrow> bool" and enc put get +
  fixes iter :: "'a set \<Rightarrow> 'a list"
  assumes iter: "finite s \<Longrightarrow> set (iter s) = s \<and> distinct (iter s)"

definition uset_valid :: "('a \<Rightarrow> bool) \<Rightarrow> 'a set \<Rightarrow> bool" where
  "uset_valid valid s \<longleftrightarrow> finite s \<and> short_len (card s) \<and> (\<forall>x \<in> s. valid x)"

sublocale hash_set \<subseteq> uset: codec "uset_valid valid" "\<lambda>s. enc_seq enc (iter s)"
  "put_unordered_set iter put" "get_unordered_set get"
proof (rule codec_view [OF list.codec_axioms, where f = "\<lambda>xs. fold insert xs {}"])
  fix h m and v :: "'a set"
  show "get_unordered_set get h m = rbind (get_list get h m) (\<lambda>(x, m1, h1). Inr (fold insert x {}, m1, h1))"
    by (simp add: get_unordered_set_def get_list_def rbind_assoc split_def)
  assume v: "uset_valid valid v"
  then have "card v = length (iter v)" "set (iter v) = v"
    using iter [of v] by (auto simp: uset_valid_def distinct_card [symmetric])
  then show "put_unordered_set iter put h m v = put_list put h m (iter v)"
    "all_valid valid (iter v) \<and> fold insert (iter v) {} = v"
    using v by (auto simp: put_unordered_set_def put_list_def all_valid_def uset_valid_def fold_insert_set)
qed

locale hash_map = two_codecs validk enck putk getk validv encv putv getv
  for validk :: "'k \<Rightarrow> bool" and enck putk getk and validv :: "'v \<Rightarrow> bool" and encv putv getv +
  fixes iter :: "('k \<rightharpoonup> 'v) \<Rightarrow> ('k \<times> 'v) list"
  assumes iter: "finite (dom s) \<Longrightarrow> map_of (iter s) = s \<and> distinct (map fst (iter s))"

sublocale hash_map \<subseteq> items: elem_codec "both_valid validk validv" "enc_pair enck encv"
  "put_pair putk putv" "get_pair getk getv"
  by unfold_locales

definition umap_valid :: "('k \<Rightarrow> bool) \<Rightarrow> ('v \<Rightarrow> bool) \<Rightarrow> ('k \<rightharpoonup> 'v) \<Rightarrow> bool" where
  "umap_valid validk validv s \<longleftrightarrow> finite (dom s) \<and> short_len (card (dom s))
     \<and> (\<forall>k x. s k = Some x \<longrightarrow> validk k \<and> validv x)"

sublocale hash_map \<subseteq> umap: codec "umap_valid validk validv" "\<lambda>s. enc_seq (enc_pair enck encv) (iter s)"
  "put_unordered_map iter putk putv" "get_unordered_map getk getv"
proof (rule codec_view [OF items.list.codec_axioms,
      where f = "\<lambda>xs. fold (\<lambda>(k, x) s. if s k = None then s(k \<mapsto> x) else s) xs Map.empty"])
  fix h m and v :: "'k \<rightharpoonup> 'v"
  show "get_unordered_map getk getv h m = rbind (get_list (get_pair getk getv) h m) (\<lambda>(x, m1, h1).
      Inr (fold (\<lambda>(k, x) s. if s k = None then s(k \<mapsto> x) else s) x Map.empty, m1, h1))"
    by (simp add: get_unordered_map_def get_list_def rbind_assoc split_def)
  assume v: "umap_valid validk validv v"
  then have i: "map_of (iter v) = v" "distinct (map fst (iter v))"
    using iter [of v] by (auto simp: umap_valid_def)
  then have "dom v = set (map fst (iter v))" by (metis dom_map_of_conv_image_fst list.set_map)
  then have "card (dom v) = length (iter v)" using distinct_card [OF i(2)] by simp
  moreover have "\<forall>kv \<in> set (iter v). v (fst kv) = Some (snd kv)"
    using i by (metis map_of_is_SomeI prod.collapse)
  ultimately show "put_unordered_map iter putk putv h m v = put_list (put_pair putk putv) h m (iter v)"
    "all_valid (both_valid validk validv) (iter v)
      \<and> fold (\<lambda>(k, x) s. if s k = None then s(k \<mapsto> x) else s) (iter v) Map.empty = v"
    using v i fold_insert_map [OF i(2), of Map.empty]
    by (auto simp: put_unordered_map_def put_list_def all_valid_def umap_valid_def both_valid_def)
qed

context hash_map
begin

lemmas map_roundtrip = umap.roundtrip

end

section \<open>Properties\<close>

text \<open>
  A message as applications send them: a table from keys to vectors of pairs of a fixed and a
  variable-length number, that is \<open>std::map<i32, std::vector<std::pair<std::string, v64>>>\<close>. The
  order of the keys is the order of the model's type.
\<close>

interpretation entry: two_codecs "\<lambda>v. short_len (length v)" enc_string put_string get_string
  long_enough enc_v64 put_v64 get_v64
  by unfold_locales

interpretation entries: elem_codec "both_valid (\<lambda>v. short_len (length v)) long_enough"
  "enc_pair enc_string enc_v64" "put_pair put_string put_v64" "get_pair get_string get_v64"
  by unfold_locales

interpretation table: map_codec "\<lambda>_ :: 64 word. True" "to_le 8" put_u64 get_u64
  "all_valid (both_valid (\<lambda>v. short_len (length v)) long_enough)" "enc_seq (enc_pair enc_string enc_v64)"
  "put_vector (put_pair put_string put_v64)" "get_vector (get_pair get_string get_v64)"
  by unfold_locales

interpretation i32s: key_codec "\<lambda>_ :: 32 word. True" "to_le 4" put_u32 get_u32
  by unfold_locales

interpretation u32_hash: hash_set "\<lambda>_ :: 32 word. True" "to_le 4" put_u32 get_u32 sorted_list_of_set
  by unfold_locales simp_all

interpretation i64_hash: hash_map "\<lambda>_ :: 64 word. True" "to_le 8" put_u64 get_u64
  "\<lambda>v. short_len (length v)" enc_string put_string get_string
  "\<lambda>s. map (\<lambda>k. (k, the (s k))) (sorted_list_of_set (dom s))"
proof
  fix s :: "64 word \<rightharpoonup> byte list" assume "finite (dom s)"
  then show "map_of (map (\<lambda>k. (k, the (s k))) (sorted_list_of_set (dom s))) = s
      \<and> distinct (map fst (map (\<lambda>k. (k, the (s k))) (sorted_list_of_set (dom s))))"
    by (auto simp: map_of_map_keys comp_def)
qed


definition demo_table :: "(64 word \<times> (byte list \<times> i64) list) list" where
  "demo_table = [(3, [([104, 105], - 5), ([], 70000)]), (9, [])]"

lemma demo_table_valid:
  "map_valid (\<lambda>_. True) (all_valid (both_valid (\<lambda>s. short_len (length s)) long_enough)) demo_table"
  by (simp add: demo_table_def map_valid_def all_valid_def both_valid_def short_len_def long_enough_def
      val_size_def)

lemma new_demo_ok:
  "buf_ok demo_heap Marshal_new (refs demo_buf)" "bytes demo_heap Marshal_new = []"
  using demo_ok by (simp_all add: buf_ok_def Marshal_new_def refs_def wf_marshal_def bytes_def)


text \<open>
  C25. A message that was cut short is never mistaken for a shorter one: reading it stops with a
  failed \<open>verify\<close>, wherever the cut is.
\<close>

theorem truncated_message_is_rejected:
  fixes v :: "(64 word \<times> (byte list \<times> i64) list) list"
  assumes "buf_ok h m R"
    and "map_valid (\<lambda>_. True) (all_valid (both_valid (\<lambda>s. short_len (length s)) long_enough)) v"
    and "strict_prefix (bytes h m) (enc_seq (enc_pair (to_le 8) (enc_seq (enc_pair enc_string enc_v64))) v)"
  shows "get_map get_u64 (get_vector (get_pair get_string get_v64)) h m = Inl VerifyFailed"
  by (rule table.map.get_cut [OF assms])

theorem truncated_message_is_rejected_witness:
  "\<exists>m' h'. Marshal_write demo_heap Marshal_new [2, 3, 0] = Inr (3, m', h')
     \<and> get_map get_u64 (get_vector (get_pair get_string get_v64)) h' m' = Inl VerifyFailed"
proof -
  obtain m' h' where w: "Marshal_write demo_heap Marshal_new [2, 3, 0] = Inr (3, m', h')"
    "buf_ok h' m' (refs demo_buf)" "bytes h' m' = [2, 3, 0]"
    using Marshal_write_ok [OF new_demo_ok(1), of "[2, 3, 0]"] by (auto simp: appends_def new_demo_ok(2))
  have "enc_v64 2 = [2]" by (simp add: enc_v64_eq fits_def byte_at_def)
  then have "strict_prefix [2, 3, 0]
      (enc_seq (enc_pair (to_le 8) (enc_seq (enc_pair enc_string enc_v64))) demo_table)"
    by (simp add: enc_seq_def demo_table_def enc_pair_def to_le_def byte_at_def strict_prefix_def upt_rec)
  with w truncated_message_is_rejected [OF w(2) demo_table_valid] show ?thesis by auto
qed

text \<open>
  The unordered containers lose nothing either, whatever order the library visits them in:
  an \<open>std::unordered_map<i64, std::string>\<close> is rebuilt as the same finite map.
\<close>

theorem unordered_map_roundtrip:
  fixes iter :: "(64 word \<rightharpoonup> byte list) \<Rightarrow> (64 word \<times> byte list) list"
  assumes iter: "\<And>s. finite (dom s) \<Longrightarrow> map_of (iter s) = s \<and> distinct (map fst (iter s))"
    and "buf_ok h m R" "bytes h m = []" and "umap_valid (\<lambda>_. True) (\<lambda>s. short_len (length s)) v"
  shows "\<exists>m1 h1 m2 h2. put_unordered_map iter put_i64 put_string h m v = Inr (m1, h1)
    \<and> get_unordered_map get_i64 get_string h1 m1 = Inr (v, m2, h2) \<and> bytes h2 m2 = []"
proof -
  have "hash_map (\<lambda>_. True) (to_le 8) put_i64 get_i64 (\<lambda>s. short_len (length s)) enc_string
      put_string get_string iter"
    by unfold_locales (use iter in auto)
  from hash_map.map_roundtrip [OF this assms(2,4,3)] show ?thesis by blast
qed

theorem unordered_map_roundtrip_witness:
  "\<exists>m1 h1 m2 h2. put_unordered_map (\<lambda>s. map (\<lambda>k. (k, the (s k))) (sorted_list_of_set (dom s)))
      put_i64 put_string demo_heap Marshal_new [5 \<mapsto> [1, 2], 8 \<mapsto> []] = Inr (m1, h1)
    \<and> get_unordered_map get_i64 get_string h1 m1 = Inr ([5 \<mapsto> [1, 2], 8 \<mapsto> []], m2, h2)"
proof -
  note ok = new_demo_ok
  have v: "umap_valid (\<lambda>_. True) (\<lambda>s. short_len (length s)) [5 :: 64 word \<mapsto> [1, 2 :: byte], 8 \<mapsto> []]"
    by (auto simp: umap_valid_def short_len_def)
  show ?thesis using unordered_map_roundtrip [OF i64_hash.iter ok v] by blast
qed

text \<open>
  C34. The receiver of a \<open>v32\<close> trusts the first byte: when it announces more than five bytes and
  they are there, the read runs over the five-byte array on the stack.
\<close>

theorem v32_read_overruns_array:
  assumes "buf_ok h m R" and "bytes h m = b # rest" and "5 < buf_size b" "buf_size b \<le> length (b # rest)"
  shows "get_v32 h m = Inl OutOfBounds"
proof -
  have "Marshal_peek h m 1 = Inr [b]" using assms(1,2) by (simp add: Marshal_peek_ok buf_ok_def)
  moreover obtain m' h' where "Marshal_read h m (buf_size b) = Inr (take (buf_size b) (b # rest), m', h')"
    using Marshal_read_ok [OF assms(1), of "buf_size b"] assms(2) by auto
  ultimately show ?thesis using assms(3,4) unfolding get_v32_def by simp
qed

theorem v32_read_overruns_array_witness:
  "\<exists>m' h'. Marshal_write demo_heap Marshal_new [0xFF, 1, 2, 3, 4, 5, 6, 7, 8] = Inr (9, m', h')
     \<and> get_v32 h' m' = Inl OutOfBounds"
proof -
  note ok = new_demo_ok
  obtain m' h' where w: "Marshal_write demo_heap Marshal_new [0xFF, 1, 2, 3, 4, 5, 6, 7, 8] = Inr (9, m', h')"
    "buf_ok h' m' (refs demo_buf)" "bytes h' m' = [0xFF, 1, 2, 3, 4, 5, 6, 7, 8]"
    using Marshal_write_ok [OF ok(1), of "[0xFF, 1, 2, 3, 4, 5, 6, 7, 8]"] by (auto simp: appends_def ok(2))
  have "buf_size 0xFF = 9" by (simp add: buf_size_def)
  with w v32_read_overruns_array [OF w(2,3)] show ?thesis by simp
qed

end
