(* ===== verification/Rpc_Message.thy ===== *)
theory Rpc_Message
  imports Marshal_Codec
begin

text \<open>
  Packets on the wire, as the client and the server share them: a 32-bit size that does not count
  itself, then the body. Holds the test both receive loops make (\<open>rpc/client.cc\<close>,
  \<open>rpc/server.cc\<close>), with the mixed arithmetic of \<open>packet_size + sizeof(i32)\<close>, where a signed
  32-bit number is widened to an unsigned 64-bit one; and the header protocol of both send sides:
  reserve the size by a bookmark, write the body, fill in the size.
\<close>

section \<open>Definitions\<close>

text \<open>\<open>(size_t) packet_size\<close> and \<open>packet_size + sizeof(i32)\<close>\<close>

definition as_size :: "i32 \<Rightarrow> nat" where
  "as_size packet_size = unat (scast packet_size :: 64 word)"

definition with_header :: "i32 \<Rightarrow> nat" where
  "with_header packet_size = unat (scast packet_size + 4 :: 64 word)"

definition packet_waiting :: "heap \<Rightarrow> marshal \<Rightarrow> i32 option res" where
  "packet_waiting h m =
     rbind (Marshal_peek h m 4) (\<lambda>b.
       if length b = 4 then
         rbind (Marshal_content_size h m) (\<lambda>sz.
           let packet_size = from_le b in
           Inr (if with_header packet_size \<le> sz then Some packet_size else None))
       else Inr None)"

text \<open>\<open>out_.set_bookmark(sizeof(i32))\<close> at the beginning, and the end of a message.\<close>

definition end_message :: "heap \<Rightarrow> marshal \<Rightarrow> bookmark option \<Rightarrow> (marshal \<times> heap) res" where
  "end_message h m bmark = (case bmark of
       None \<Rightarrow> Inr (m, h)
     | Some bm \<Rightarrow>
         let (size, m') = get_and_reset_write_cnt m in
         rbind (write_bookmark h bm (to_le 4 size)) (\<lambda>h'. Inr (m', h')))"

section \<open>What a stream contains\<close>

definition packet :: "byte list \<Rightarrow> byte list" where
  "packet body = to_le 4 (of_nat (length body) :: i32) @ body"

definition complete :: "byte list \<Rightarrow> bool" where
  "complete b \<longleftrightarrow> 4 \<le> length b \<and> with_header (from_le (take 4 b)) \<le> length b"

lemma packet_waiting_ok:
  assumes "wf_marshal h m"
  shows "packet_waiting h m
    = Inr (if complete (bytes h m) then Some (from_le (take 4 (bytes h m))) else None)"
proof (cases "4 \<le> length (bytes h m)")
  case True
  then show ?thesis using assms by (simp add: packet_waiting_def Marshal_peek_ok complete_def Let_def)
next
  case False
  then show ?thesis using assms by (simp add: packet_waiting_def Marshal_peek_ok complete_def)
qed

lemma size_of_short:
  assumes "short_len n"
  shows "as_size (of_nat n) = n" "with_header (of_nat n) = n + 4"
proof -
  have n: "int n < 2 ^ 31" using assms by (simp add: short_len_def)
  then have s: "sint (of_nat n :: i32) = int n" by (simp add: signed_of_nat signed_take_bit_int_eq_self)
  have c: "(scast (of_nat n :: i32) :: 64 word) = of_nat n"
    by (simp only: scast_eq s) simp
  have u: "unat (of_nat k :: 64 word) = k" if "k < 2 ^ 64" for k
    using that by (simp add: unsigned_of_nat take_bit_nat_eq_self)
  have k: "n < 2 ^ 64" "n + 4 < 2 ^ 64" using n by simp_all
  show "as_size (of_nat n) = n" unfolding as_size_def c by (rule u [OF k(1)])
  have "(of_nat n + 4 :: 64 word) = of_nat (n + 4)" by simp
  then show "with_header (of_nat n) = n + 4" unfolding with_header_def c using u [OF k(2)] by simp
qed

lemma complete_packet:
  assumes "short_len (length body)"
  shows "complete (packet body @ rest)" "from_le (take 4 (packet body @ rest)) = (of_nat (length body) :: i32)"
proof -
  have t: "take 4 (packet body @ rest) = to_le 4 (of_nat (length body) :: i32)" by (simp add: packet_def)
  show "from_le (take 4 (packet body @ rest)) = (of_nat (length body) :: i32)" unfolding t by simp
  show "complete (packet body @ rest)"
    using size_of_short(2) [OF assms] unfolding complete_def t by (simp add: packet_def)
qed

section \<open>Sending a message\<close>

text \<open>A buffer is private when no other buffer looks into its arrays.\<close>

lemma disjoint_appends:
  assumes "appends R h m p h' m'" "disjoint_bufs m b" "set_mset (refs b) \<subseteq> set_mset R"
  shows "disjoint_bufs m' b"
  using assms unfolding appends_def disjoint_bufs_def by (auto simp: disjoint_iff) blast

lemma locs_in_data: "fst ` set (locs m) \<subseteq> data ` set (chunks m)"
proof -
  have "fst ` set (clocs cs) \<subseteq> data ` set cs" for cs by (induction cs) auto
  then show ?thesis by (simp add: locs_def)
qed

lemma disjoint_locs: "disjoint_bufs a b \<Longrightarrow> set (locs a) \<inter> set (locs b) = {}"
  using locs_in_data [of a] locs_in_data [of b] unfolding disjoint_bufs_def by force

definition sends ::
  "addr multiset \<Rightarrow> heap \<Rightarrow> marshal \<Rightarrow> byte list \<Rightarrow> heap \<Rightarrow> marshal \<Rightarrow> bool" where
  "sends R h m p h' m' \<longleftrightarrow> buf_ok h' m' R \<and> bytes h' m' = bytes h m @ p \<and> write_cnt m' = 0
     \<and> (\<forall>a \<in># refs m'. a \<in># R \<longrightarrow> a \<in># refs m)
     \<and> (\<forall>b. set_mset (refs b) \<subseteq> set_mset R \<and> disjoint_bufs m b \<and> wf_marshal h b \<longrightarrow>
          wf_marshal h' b \<and> bytes h' b = bytes h b \<and> disjoint_bufs m' b)"

text \<open>Filling in the size: the bytes of the bookmark change, and nothing that does not look at them.\<close>

lemma end_message_ok:
  assumes ok: "buf_ok h m Q" and l: "locs m = xs @ bm_ptr bm @ ys" and sz: "bm_size bm = 4" "length (bm_ptr bm) = 4"
    and b: "bytes h m = pre @ got @ body" "length pre = length xs" "length got = 4" and w: "write_cnt m = of_nat (length body)"
  shows "\<exists>h'. end_message h m (Some bm) = Inr (m\<lparr>write_cnt := 0\<rparr>, h') \<and> buf_ok h' (m\<lparr>write_cnt := 0\<rparr>) Q
    \<and> bytes h' (m\<lparr>write_cnt := 0\<rparr>) = pre @ packet body
    \<and> (\<forall>b. wf_marshal h b \<and> set (locs b) \<inter> set (bm_ptr bm) = {} \<longrightarrow> wf_marshal h' b \<and> bytes h' b = bytes h b)"
proof -
  let ?sz = "to_le 4 (of_nat (length body) :: i32)"
  obtain h' where h': "write_bookmark h bm ?sz = Inr h'" "buf_ok h' m Q" "bytes h' m = pre @ ?sz @ body"
    "\<forall>b. wf_marshal h b \<and> set (locs b) \<inter> set (bm_ptr bm) = {} \<longrightarrow> wf_marshal h' b \<and> bytes h' b = bytes h b"
    using write_bookmark_ok [OF ok l, of ?sz] sz b(2,3) by (auto simp: b(1))
  then have "buf_ok h' (m\<lparr>write_cnt := 0\<rparr>) Q" "bytes h' (m\<lparr>write_cnt := 0\<rparr>) = pre @ packet body"
    by (simp_all add: buf_ok_def refs_def wf_marshal_def bytes_def packet_def)
  moreover have "end_message h m (Some bm) = Inr (m\<lparr>write_cnt := 0\<rparr>, h')"
    using h'(1) w by (simp add: end_message_def get_and_reset_write_cnt_def)
  ultimately show ?thesis using h'(4) by blast
qed

lemma message_ok:
  assumes ok: "buf_ok h m R" and w0: "write_cnt m = 0"
  shows "\<exists>bm m1 h1. set_bookmark h m 4 = Inr (bm, m1, h1) \<and> buf_ok h1 m1 R \<and> write_cnt m1 = 0
    \<and> (\<forall>b. set_mset (refs b) \<subseteq> set_mset R \<and> disjoint_bufs m b \<and> wf_marshal h b \<longrightarrow>
          wf_marshal h1 b \<and> bytes h1 b = bytes h b \<and> disjoint_bufs m1 b)
    \<and> (\<forall>body h2 m2. puts R h1 m1 body h2 m2 \<longrightarrow>
        (\<exists>m3 h3. end_message h2 m2 (Some bm) = Inr (m3, h3) \<and> sends R h m (packet body) h3 m3))"
proof -
  obtain bm m1 h1 got where s: "set_bookmark h m 4 = Inr (bm, m1, h1)" "bm_size bm = 4"
    "length (bm_ptr bm) = 4" "locs m1 = locs m @ bm_ptr bm" "length got = 4"
    "appends R h m got h1 m1" "write_cnt m1 = 0"
    using set_bookmark_ok [OF ok w0] by blast
  have ok1: "buf_ok h1 m1 R" "bytes h1 m1 = bytes h m @ got" using s(6) by (simp_all add: appends_def)
  have frame1: "wf_marshal h1 b \<and> bytes h1 b = bytes h b \<and> disjoint_bufs m1 b"
    if "set_mset (refs b) \<subseteq> set_mset R" "disjoint_bufs m b" "wf_marshal h b" for b
  proof -
    have "same_buf h h1 b" using s(6) that(1) clear_disjoint [OF that(2)] by (simp add: appends_def)
    with that disjoint_appends [OF s(6) that(2,1)] show ?thesis by (simp add: same_buf_view)
  qed
  have fin: "\<exists>m3 h3. end_message h2 m2 (Some bm) = Inr (m3, h3) \<and> sends R h m (packet body) h3 m3"
    if p: "puts R h1 m1 body h2 m2" for body h2 m2
  proof -
    have a: "appends R h1 m1 body h2 m2" "write_cnt m2 = of_nat (length body)"
      using p s(7) by (simp_all add: puts_def)
    then have ok2: "buf_ok h2 m2 R" "bytes h2 m2 = bytes h m @ got @ body"
      using ok1(2) by (simp_all add: appends_def)
    obtain ys where "locs m2 = locs m1 @ ys" using a(1) by (auto simp: appends_def prefix_def)
    then have l: "locs m2 = locs m @ bm_ptr bm @ ys" by (simp add: s(4))
    have len: "length (locs m) = length (bytes h m)"
      using ok by (simp add: locs_def bytes_def length_clocs buf_ok_def wf_marshal_def)
    let ?m3 = "m2\<lparr>write_cnt := 0\<rparr>"
    obtain h3 where h3: "end_message h2 m2 (Some bm) = Inr (?m3, h3)" "buf_ok h3 ?m3 R"
      "bytes h3 ?m3 = bytes h m @ packet body"
      "\<And>b. wf_marshal h2 b \<Longrightarrow> set (locs b) \<inter> set (bm_ptr bm) = {} \<Longrightarrow>
          wf_marshal h3 b \<and> bytes h3 b = bytes h2 b"
      using end_message_ok [OF ok2(1) l s(2,3) ok2(2) len [symmetric] s(5) a(2)] by blast
    have "wf_marshal h3 b \<and> bytes h3 b = bytes h b \<and> disjoint_bufs ?m3 b"
      if b: "set_mset (refs b) \<subseteq> set_mset R" "disjoint_bufs m b" "wf_marshal h b" for b
    proof -
      have b1: "wf_marshal h1 b" "bytes h1 b = bytes h b" "disjoint_bufs m1 b" using frame1 [OF b] by simp_all
      have "same_buf h1 h2 b" using a(1) b(1) clear_disjoint [OF b1(3)] by (simp add: appends_def)
      then have b2: "wf_marshal h2 b" "bytes h2 b = bytes h b" using b1 by (simp_all add: same_buf_view)
      have d2: "disjoint_bufs m2 b" by (rule disjoint_appends [OF a(1) b1(3) b(1)])
      have "set (bm_ptr bm) \<subseteq> set (locs m2)" by (auto simp: l)
      then have "set (locs b) \<inter> set (bm_ptr bm) = {}" using disjoint_locs [OF d2] by blast
      with h3(4) [OF b2(1)] b2(2) d2 show ?thesis by (simp add: disjoint_bufs_def)
    qed
    moreover have "\<forall>a \<in># refs m2. a \<in># R \<longrightarrow> a \<in># refs m"
      using s(6) a(1) unfolding appends_def by blast
    ultimately have "sends R h m (packet body) h3 ?m3"
      using h3(2,3) unfolding sends_def by (simp add: refs_def)
    with h3(1) show ?thesis by blast
  qed
  show ?thesis using s(1,7) ok1(1) frame1 fin by blast
qed

section \<open>Frames\<close>

lemma clear_new [simp]: "clear Marshal_new b"
  by (simp add: clear_def Marshal_new_def)

lemma new_simps [simp]: "refs Marshal_new = {#}" "wf_marshal h Marshal_new" "bytes h Marshal_new = []"
  "disjoint_bufs Marshal_new m" "chunks Marshal_new = []" "write_cnt Marshal_new = 0"
  by (simp_all add: Marshal_new_def refs_def wf_marshal_def bytes_def disjoint_bufs_def)

lemma disjoint_mono: "A \<subseteq> B \<Longrightarrow> B \<inter> C = {} \<Longrightarrow> A \<inter> C = {}"
  by blast

text \<open>Buffers that see only the arrays of \<open>R\<close> keep their content.\<close>

definition keeps_bufs :: "addr multiset \<Rightarrow> heap \<Rightarrow> heap \<Rightarrow> bool" where
  "keeps_bufs R h h' \<longleftrightarrow> (\<forall>b. set_mset (refs b) \<subseteq> set_mset R \<and> wf_marshal h b \<longrightarrow>
     wf_marshal h' b \<and> bytes h' b = bytes h b)"

lemma keeps_bufsD:
  "keeps_bufs R h h' \<Longrightarrow> set_mset (refs b) \<subseteq> set_mset R \<Longrightarrow> wf_marshal h b \<Longrightarrow>
     wf_marshal h' b \<and> bytes h' b = bytes h b"
  by (simp add: keeps_bufs_def)

lemma keeps_bufs_trans: "keeps_bufs R h h1 \<Longrightarrow> keeps_bufs R h1 h2 \<Longrightarrow> keeps_bufs R h h2"
  unfolding keeps_bufs_def by metis

lemma keeps_bufs_mono: "keeps_bufs R h h' \<Longrightarrow> set_mset Q \<subseteq> set_mset R \<Longrightarrow> keeps_bufs Q h h'"
  unfolding keeps_bufs_def by (meson subset_trans)

lemma keeps_bufs_refl [simp]: "keeps_bufs R h h"
  by (simp add: keeps_bufs_def)

lemma keeps_bufs_same:
  "(\<And>b. set_mset (refs b) \<subseteq> set_mset R \<Longrightarrow> same_buf h h' b) \<Longrightarrow> keeps_bufs R h h'"
  unfolding keeps_bufs_def using same_buf_view(1,2) by metis

lemma disjoint_fresh: "A \<inter> (I \<union> B) = {} \<Longrightarrow> (\<forall>a \<in> M. a \<in> A \<or> a \<in> B \<longrightarrow> a \<in> I) \<Longrightarrow> A \<inter> (M \<union> B) = {}"
  by blast

lemma received_nonzero:
  assumes "got \<noteq> []" "length got < 2 ^ 32"
  shows "(of_nat (length got) :: i32) \<noteq> 0"
proof
  assume "(of_nat (length got) :: i32) = 0"
  then have "unat (of_nat (length got) :: i32) = 0" by simp
  with assms show False by (simp add: unsigned_of_nat take_bit_nat_eq_self)
qed

end
