(* ===== verification/Poll_Mgr.thy ===== *)
theory Poll_Mgr
  imports Rpc_Prelude
begin

text \<open>
  The event loop of \<open>rpc/polling.cc\<close> (the epoll variant): poll threads that hold a reference to
  every registered pollable, the table \<open>mode_\<close>, and the deferred removal that keeps a pollable
  alive until the current batch of events is done. Pollables live in a store with their
  reference counts; \<open>p_mode\<close> is what the virtual \<open>poll_mode()\<close> answers. The kernel's interest
  list is part of the state and follows the documented rules of \<open>epoll_ctl\<close>: adding a
  descriptor twice or modifying one that is not there fails, and closing a descriptor drops it.
  \<open>evlist\<close> is the part of the array filled by \<open>epoll_wait\<close> that was not looked at yet.
\<close>

section \<open>Definitions\<close>

type_synonym pid = nat

record pollable =
  p_fd :: int
  p_mode :: i32
  p_ref :: int

record poll_thread =
  mode :: "int \<Rightarrow> i32 option"
  poll_set :: "pid set"
  pending_remove :: "pid set"
  epoll :: "int \<Rightarrow> (pid \<times> i32) option"
  evlist :: "(pid \<times> i32) list"
  stop_flag :: bool

record poll_world =
  poll_threads :: "poll_thread list"
  pobjs :: "pid \<Rightarrow> pollable option"

definition READ :: i32 where "READ = 1"
definition WRITE :: i32 where "WRITE = 2"
definition EPOLLIN :: i32 where "EPOLLIN = 1"
definition EPOLLOUT :: i32 where "EPOLLOUT = 4"
definition EPOLLERR :: i32 where "EPOLLERR = 8"
definition EPOLLHUP :: i32 where "EPOLLHUP = 0x10"
definition EPOLLRDHUP :: i32 where "EPOLLRDHUP = 0x2000"
definition EPOLLET :: i32 where "EPOLLET = 0x80000000"

definition obj :: "poll_world \<Rightarrow> pid \<Rightarrow> pollable res" where
  "obj w p = (case pobjs w p of None \<Rightarrow> Inl UseAfterFree | Some q \<Rightarrow> Inr q)"

definition Pollable_ref_copy :: "pid \<Rightarrow> poll_world \<Rightarrow> poll_world res" where
  "Pollable_ref_copy p w = rbind (obj w p) (\<lambda>q.
     Inr (w\<lparr>pobjs := (pobjs w)(p \<mapsto> q\<lparr>p_ref := p_ref q + 1\<rparr>)\<rparr>))"

definition Pollable_release :: "pid \<Rightarrow> poll_world \<Rightarrow> poll_world res" where
  "Pollable_release p w = rbind (obj w p) (\<lambda>q.
     let r = p_ref q - 1 in
     rbind (verify (0 \<le> r)) (\<lambda>_.
       Inr (w\<lparr>pobjs := (pobjs w)(p := if r = 0 then None else Some (q\<lparr>p_ref := r\<rparr>))\<rparr>)))"

definition set_thread :: "nat \<Rightarrow> poll_thread \<Rightarrow> poll_world \<Rightarrow> poll_world" where
  "set_thread t th w = w\<lparr>poll_threads := (poll_threads w)[t := th]\<rparr>"

definition PollThread_new :: poll_thread where
  "PollThread_new = \<lparr>mode = Map.empty, poll_set = {}, pending_remove = {}, epoll = Map.empty,
     evlist = [], stop_flag = False\<rparr>"

definition PollMgr_new :: "int \<Rightarrow> (pid \<Rightarrow> pollable option) \<Rightarrow> poll_world res" where
  "PollMgr_new n_threads objs = rbind (verify (0 < n_threads)) (\<lambda>_.
     Inr \<lparr>poll_threads = replicate (nat n_threads) PollThread_new, pobjs = objs\<rparr>)"

definition epoll_add :: "int \<Rightarrow> pid \<times> i32 \<Rightarrow> poll_thread \<Rightarrow> poll_thread res" where
  "epoll_add fd ev th = rbind (verify (epoll th fd = None)) (\<lambda>_.
     Inr (th\<lparr>epoll := (epoll th)(fd \<mapsto> ev)\<rparr>))"

definition epoll_mod :: "int \<Rightarrow> pid \<times> i32 \<Rightarrow> poll_thread \<Rightarrow> poll_thread res" where
  "epoll_mod fd ev th = rbind (verify (epoll th fd \<noteq> None)) (\<lambda>_.
     Inr (th\<lparr>epoll := (epoll th)(fd \<mapsto> ev)\<rparr>))"

definition add_events :: "i32 \<Rightarrow> i32" where
  "add_events poll_mode =
     EPOLLET OR EPOLLIN OR EPOLLRDHUP OR (if poll_mode AND WRITE \<noteq> 0 then EPOLLOUT else 0)"

definition mod_events :: "i32 \<Rightarrow> i32" where
  "mod_events new_mode =
     EPOLLET OR EPOLLRDHUP OR (if new_mode AND READ \<noteq> 0 then EPOLLIN else 0)
       OR (if new_mode AND WRITE \<noteq> 0 then EPOLLOUT else 0)"

definition PollThread_add :: "nat \<Rightarrow> pid \<Rightarrow> poll_world \<Rightarrow> poll_world res" where
  "PollThread_add t p w =
     rbind (Pollable_ref_copy p w) (\<lambda>w1.
     rbind (obj w1 p) (\<lambda>q.
       let poll_mode = p_mode q; fd = p_fd q; th = poll_threads w1 ! t in
       rbind (verify (p \<notin> poll_set th)) (\<lambda>_.
       rbind (verify (mode th fd = None)) (\<lambda>_.
         let th1 = th\<lparr>poll_set := insert p (poll_set th), mode := (mode th)(fd \<mapsto> poll_mode)\<rparr> in
         rbind (epoll_add fd (p, add_events poll_mode) th1) (\<lambda>th2.
           Inr (set_thread t th2 w1))))))"

definition PollThread_remove :: "nat \<Rightarrow> pid \<Rightarrow> poll_world \<Rightarrow> poll_world res" where
  "PollThread_remove t p w =
     rbind (obj w p) (\<lambda>q.
       let th = poll_threads w ! t in
       if p \<in> poll_set th then
         rbind (assertion (mode th (p_fd q) \<noteq> None)) (\<lambda>_.
           Inr (set_thread t (th\<lparr>poll_set := poll_set th - {p}, mode := (mode th)(p_fd q := None),
                                  pending_remove := insert p (pending_remove th)\<rparr>) w))
       else
         rbind (assertion (mode th (p_fd q) = None)) (\<lambda>_. Inr w))"

definition PollThread_update_mode :: "nat \<Rightarrow> pid \<Rightarrow> i32 \<Rightarrow> poll_world \<Rightarrow> poll_world res" where
  "PollThread_update_mode t p new_mode w =
     rbind (obj w p) (\<lambda>q.
       let fd = p_fd q; th = poll_threads w ! t in
       if p \<notin> poll_set th then Inr w
       else case mode th fd of
           None \<Rightarrow> Inl VerifyFailed
         | Some old_mode \<Rightarrow>
             let th1 = th\<lparr>mode := (mode th)(fd \<mapsto> new_mode)\<rparr> in
             if new_mode \<noteq> old_mode then
               rbind (epoll_mod fd (p, mod_events new_mode) th1) (\<lambda>th2. Inr (set_thread t th2 w))
             else Inr (set_thread t th1 w))"

text \<open>The hash of MurmurHash3's finaliser, on 32-bit words.\<close>

definition hash_fd :: "32 word \<Rightarrow> 32 word" where
  "hash_fd h0 =
     (let h1 = h0 XOR drop_bit 16 h0; h2 = h1 * 0x85ebca6b;
          h3 = h2 XOR drop_bit 13 h2; h4 = h3 * 0xc2b2ae35
      in h4 XOR drop_bit 16 h4)"

definition tid_of :: "poll_world \<Rightarrow> int \<Rightarrow> nat" where
  "tid_of w fd = unat (hash_fd (of_int fd) mod of_nat (length (poll_threads w)))"

definition PollMgr_add :: "pid \<Rightarrow> poll_world \<Rightarrow> poll_world res" where
  "PollMgr_add p w = rbind (obj w p) (\<lambda>q.
     if 0 \<le> p_fd q then PollThread_add (tid_of w (p_fd q)) p w else Inr w)"

definition PollMgr_remove :: "pid \<Rightarrow> poll_world \<Rightarrow> poll_world res" where
  "PollMgr_remove p w = rbind (obj w p) (\<lambda>q.
     if 0 \<le> p_fd q then PollThread_remove (tid_of w (p_fd q)) p w else Inr w)"

definition PollMgr_update_mode :: "pid \<Rightarrow> i32 \<Rightarrow> poll_world \<Rightarrow> poll_world res" where
  "PollMgr_update_mode p new_mode w = rbind (obj w p) (\<lambda>q.
     if 0 \<le> p_fd q then PollThread_update_mode (tid_of w (p_fd q)) p new_mode w else Inr w)"

text \<open>
  One pass over a batch. The handlers are virtual functions of the pollable: parameters that act
  on the world.
\<close>

datatype hcall = HandleRead | HandleWrite | HandleError

type_synonym handler = "hcall \<Rightarrow> pid \<Rightarrow> poll_world \<Rightarrow> poll_world res"

definition call_if :: "bool \<Rightarrow> (poll_world \<Rightarrow> poll_world res) \<Rightarrow> poll_world \<Rightarrow> poll_world res" where
  "call_if b f w = (if b then f w else Inr w)"

definition dispatch :: "handler \<Rightarrow> pid \<times> i32 \<Rightarrow> poll_world \<Rightarrow> poll_world res" where
  "dispatch handle ev w = (case ev of (poll, events) \<Rightarrow>
     rbind (obj w poll) (\<lambda>_.
     rbind (call_if (events AND EPOLLIN \<noteq> 0) (handle HandleRead poll) w) (\<lambda>w1.
     rbind (call_if (events AND EPOLLOUT \<noteq> 0) (handle HandleWrite poll) w1) (\<lambda>w2.
     call_if (events AND (EPOLLERR OR EPOLLHUP OR EPOLLRDHUP) \<noteq> 0) (handle HandleError poll) w2))))"

fun dispatch_all :: "handler \<Rightarrow> nat \<Rightarrow> (pid \<times> i32) list \<Rightarrow> poll_world \<Rightarrow> poll_world res" where
  "dispatch_all handle t [] w = Inr (set_thread t ((poll_threads w ! t)\<lparr>evlist := []\<rparr>) w)"
| "dispatch_all handle t (ev # evs) w =
     rbind (dispatch handle ev (set_thread t ((poll_threads w ! t)\<lparr>evlist := ev # evs\<rparr>) w)) (\<lambda>w1.
       dispatch_all handle t evs w1)"

text \<open>
  The removal pass: \<open>ps\<close> is the order in which the unordered set of pending pollables is visited.
\<close>

fun sweep_loop :: "nat \<Rightarrow> pid list \<Rightarrow> poll_world \<Rightarrow> poll_world res" where
  "sweep_loop t [] w = Inr w"
| "sweep_loop t (p # ps) w =
     rbind (obj w p) (\<lambda>q.
       let fd = p_fd q; th = poll_threads w ! t;
           th1 = (if mode th fd = None then th\<lparr>epoll := (epoll th)(fd := None)\<rparr> else th) in
       rbind (Pollable_release p (set_thread t th1 w)) (\<lambda>w1. sweep_loop t ps w1))"

definition sweep :: "(pid set \<Rightarrow> pid list) \<Rightarrow> nat \<Rightarrow> poll_world \<Rightarrow> poll_world res" where
  "sweep ord t w = (let th = poll_threads w ! t; remove_poll = ord (pending_remove th) in
     sweep_loop t remove_poll (set_thread t (th\<lparr>pending_remove := {}\<rparr>) w))"

text \<open>\<open>batches\<close> are the answers of the successive calls of \<open>epoll_wait\<close>.\<close>

fun poll_loop ::
  "(pid set \<Rightarrow> pid list) \<Rightarrow> handler \<Rightarrow> nat \<Rightarrow> (pid \<times> i32) list list \<Rightarrow> poll_world \<Rightarrow> poll_world res" where
  "poll_loop ord handle t [] w = Inr w"
| "poll_loop ord handle t (evs # batches) w =
     (if stop_flag (poll_threads w ! t) then Inr w
      else
        rbind (dispatch_all handle t (take 100 evs) w) (\<lambda>w1.
        rbind (sweep ord t w1) (\<lambda>w2. poll_loop ord handle t batches w2)))"

text \<open>
  The destructor walks \<open>poll_set_\<close> with an iterator while \<open>remove\<close> erases the element the
  iterator stands on: with anything registered the next step of the iterator uses a freed node.
\<close>

fun release_all :: "pid list \<Rightarrow> poll_world \<Rightarrow> poll_world res" where
  "release_all [] w = Inr w"
| "release_all (p # ps) w = rbind (Pollable_release p w) (release_all ps)"

definition PollThread_delete :: "(pid set \<Rightarrow> pid list) \<Rightarrow> nat \<Rightarrow> poll_world \<Rightarrow> poll_world res" where
  "PollThread_delete ord t w = (let th = poll_threads w ! t in
     case ord (poll_set th) of
       [] \<Rightarrow> release_all (ord (pending_remove th)) w
     | p # _ \<Rightarrow> rbind (PollThread_remove t p w) (\<lambda>_. Inl UseAfterFree))"

section \<open>The invariant\<close>

text \<open>
  \<open>held\<close> is the number of references a poll thread owns on a pollable. The invariant of a
  thread: it owns the references its two sets stand for, on live pollables whose descriptor
  hashes to it; \<open>mode_\<close> lists exactly the registered descriptors; the kernel's interest for a
  registered descriptor names its pollable and asks for what \<open>mode_\<close> says; and every pollable
  the kernel or the current batch can name is one the thread still holds.
\<close>

definition held :: "poll_thread \<Rightarrow> pid \<Rightarrow> int" where
  "held th p = of_bool (p \<in> poll_set th) + of_bool (p \<in> pending_remove th)"

lemma held_eq_0_iff: "held th p = 0 \<longleftrightarrow> p \<notin> poll_set th \<and> p \<notin> pending_remove th"
  by (cases "p \<in> poll_set th"; cases "p \<in> pending_remove th"; simp add: held_def)

definition fd_of :: "poll_world \<Rightarrow> pid \<Rightarrow> int option" where
  "fd_of w p = map_option p_fd (pobjs w p)"

definition ref_of :: "poll_world \<Rightarrow> pid \<Rightarrow> int" where
  "ref_of w p = (case pobjs w p of None \<Rightarrow> 0 | Some q \<Rightarrow> p_ref q)"

definition asks_for :: "i32 \<Rightarrow> i32 \<Rightarrow> bool" where
  "asks_for ev m \<longleftrightarrow> ((ev AND EPOLLOUT \<noteq> 0) = (m AND WRITE \<noteq> 0)) \<and> (m AND READ \<noteq> 0 \<longrightarrow> ev AND EPOLLIN \<noteq> 0)"

definition owns_ok :: "nat \<Rightarrow> nat \<Rightarrow> (pid \<Rightarrow> int option) \<Rightarrow> (pid \<Rightarrow> int) \<Rightarrow> poll_thread \<Rightarrow> bool" where
  "owns_ok n t F G th \<longleftrightarrow> (\<forall>p \<in> poll_set th \<union> pending_remove th. held th p \<le> G p
     \<and> (\<exists>fd. F p = Some fd \<and> 0 \<le> fd \<and> unat (hash_fd (of_int fd) mod of_nat n) = t))"

definition table_ok :: "(pid \<Rightarrow> int option) \<Rightarrow> poll_thread \<Rightarrow> bool" where
  "table_ok F th \<longleftrightarrow> (\<forall>fd m. mode th fd = Some m \<longrightarrow> (\<exists>p \<in> poll_set th. F p = Some fd))
     \<and> (\<forall>p \<in> poll_set th. \<forall>fd. F p = Some fd \<longrightarrow>
          (\<exists>m ev. mode th fd = Some m \<and> epoll th fd = Some (p, ev) \<and> asks_for ev m))"

definition kernel_ok :: "(pid \<Rightarrow> int option) \<Rightarrow> poll_thread \<Rightarrow> bool" where
  "kernel_ok F th \<longleftrightarrow> (\<forall>fd p ev. epoll th fd = Some (p, ev) \<longrightarrow>
        p \<in> poll_set th \<union> pending_remove th \<and> F p = Some fd)
     \<and> (\<forall>ev \<in> set (evlist th). fst ev \<in> poll_set th \<union> pending_remove th)"

definition thread_ok :: "poll_world \<Rightarrow> nat \<Rightarrow> bool" where
  "thread_ok w t \<longleftrightarrow> owns_ok (length (poll_threads w)) t (fd_of w) (ref_of w) (poll_threads w ! t)
     \<and> table_ok (fd_of w) (poll_threads w ! t) \<and> kernel_ok (fd_of w) (poll_threads w ! t)"

definition poll_ok :: "poll_world \<Rightarrow> bool" where
  "poll_ok w \<longleftrightarrow> poll_threads w \<noteq> [] \<and> length (poll_threads w) < 2 ^ 31
     \<and> (\<forall>t < length (poll_threads w). thread_ok w t) \<and> (\<forall>p q. pobjs w p = Some q \<longrightarrow> 0 < p_ref q)"

lemma owns_okD:
  assumes "owns_ok n t F G th" "p \<in> poll_set th \<or> p \<in> pending_remove th"
  shows "held th p \<le> G p" "\<exists>fd. F p = Some fd \<and> 0 \<le> fd \<and> unat (hash_fd (of_int fd) mod of_nat n) = t"
  using assms by (auto simp: owns_ok_def)

lemma table_okD:
  assumes "table_ok F th"
  shows "mode th fd = Some m \<Longrightarrow> \<exists>p \<in> poll_set th. F p = Some fd"
    "p \<in> poll_set th \<Longrightarrow> F p = Some fd \<Longrightarrow>
       \<exists>m ev. mode th fd = Some m \<and> epoll th fd = Some (p, ev) \<and> asks_for ev m"
  using assms by (auto simp: table_ok_def)

lemma kernel_okD:
  assumes "kernel_ok F th"
  shows "epoll th fd = Some (p, ev) \<Longrightarrow> (p \<in> poll_set th \<or> p \<in> pending_remove th) \<and> F p = Some fd"
    "e \<in> set (evlist th) \<Longrightarrow> fst e \<in> poll_set th \<or> fst e \<in> pending_remove th"
  using assms by (auto simp: kernel_ok_def)

lemma set_thread_simps [simp]:
  "length (poll_threads (set_thread t th w)) = length (poll_threads w)"
  "t < length (poll_threads w) \<Longrightarrow> poll_threads (set_thread t th w) ! t = th"
  "s \<noteq> t \<Longrightarrow> poll_threads (set_thread t th w) ! s = poll_threads w ! s"
  "pobjs (set_thread t th w) = pobjs w" "fd_of (set_thread t th w) = fd_of w"
  "ref_of (set_thread t th w) = ref_of w" "tid_of (set_thread t th w) = tid_of w"
  by (simp_all add: set_thread_def fd_of_def ref_of_def tid_of_def fun_eq_iff)

text \<open>The thread index is always in range: the remainder is taken on unsigned words.\<close>

lemma tid_of_less: "poll_ok w \<Longrightarrow> tid_of w fd < length (poll_threads w)"
proof -
  assume ok: "poll_ok w"
  let ?n = "of_nat (length (poll_threads w)) :: 32 word"
  have n: "unat ?n = length (poll_threads w)" "length (poll_threads w) > 0"
    using ok by (simp_all add: poll_ok_def unsigned_of_nat take_bit_nat_eq_self)
  then have "unat (hash_fd (of_int fd) mod ?n) < unat ?n" by (simp add: unat_mod)
  with n show ?thesis by (simp add: tid_of_def)
qed

lemma obj_eq_Inr [simp]: "obj w p = Inr q \<longleftrightarrow> pobjs w p = Some q"
  by (simp add: obj_def split: option.split)

text \<open>
  A change of reference counts that leaves every thread what it holds, and of one thread.
\<close>

lemma poll_ok_change:
  assumes ok: "poll_ok w" and t: "t < length (poll_threads w)"
    and len: "length (poll_threads w') = length (poll_threads w)"
    and others: "\<And>s. s \<noteq> t \<Longrightarrow> poll_threads w' ! s = poll_threads w ! s"
    and objs: "\<And>s p. s < length (poll_threads w) \<Longrightarrow> s \<noteq> t \<Longrightarrow>
        p \<in> poll_set (poll_threads w ! s) \<union> pending_remove (poll_threads w ! s) \<Longrightarrow>
        fd_of w' p = fd_of w p \<and> ref_of w p \<le> ref_of w' p"
    and this_one: "thread_ok w' t" and pos: "\<And>p q. pobjs w' p = Some q \<Longrightarrow> 0 < p_ref q"
  shows "poll_ok w'"
proof -
  have "thread_ok w' s" if s: "s < length (poll_threads w)" "s \<noteq> t" for s
  proof -
    have th: "thread_ok w s" using ok s by (simp add: poll_ok_def)
    let ?th = "poll_threads w ! s"
    have o: "fd_of w' p = fd_of w p" "ref_of w p \<le> ref_of w' p"
      if "p \<in> poll_set ?th \<union> pending_remove ?th" for p using objs s that by auto
    have "owns_ok (length (poll_threads w')) s (fd_of w') (ref_of w') ?th"
      unfolding owns_ok_def
    proof
      fix p assume p: "p \<in> poll_set ?th \<union> pending_remove ?th"
      with th have "held ?th p \<le> ref_of w p" "\<exists>fd. fd_of w p = Some fd \<and> 0 \<le> fd
          \<and> unat (hash_fd (of_int fd) mod of_nat (length (poll_threads w))) = s"
        unfolding thread_ok_def owns_ok_def by blast+
      with o [OF p] show "held ?th p \<le> ref_of w' p \<and> (\<exists>fd. fd_of w' p = Some fd \<and> 0 \<le> fd
          \<and> unat (hash_fd (of_int fd) mod of_nat (length (poll_threads w'))) = s)"
        by (simp add: len)
    qed
    moreover have "table_ok (fd_of w') ?th"
    proof -
      have "table_ok (fd_of w) ?th" using th by (simp add: thread_ok_def)
      then show ?thesis unfolding table_ok_def by (simp add: o(1))
    qed
    moreover have "kernel_ok (fd_of w') ?th"
    proof -
      have "kernel_ok (fd_of w) ?th" using th by (simp add: thread_ok_def)
      then show ?thesis unfolding kernel_ok_def by (auto simp: o(1))
    qed
    ultimately show ?thesis using others s by (simp add: thread_ok_def)
  qed
  then show ?thesis using ok this_one pos len unfolding poll_ok_def
    by (metis list.size(3) not_less_zero t)
qed

section \<open>Every operation keeps the invariant\<close>

lemma event_bits:
  "asks_for (add_events m) m" "asks_for (mod_events m) m"
  by (auto simp: asks_for_def add_events_def mod_events_def EPOLLET_def EPOLLIN_def EPOLLRDHUP_def
      EPOLLOUT_def READ_def WRITE_def)

text \<open>More references on one pollable, fewer on one that its threads do not need.\<close>

lemma set_ref_ok:
  assumes ok: "poll_ok w" and p: "pobjs w p = Some q" and r: "0 < r"
    and enough: "\<And>t. t < length (poll_threads w) \<Longrightarrow> held (poll_threads w ! t) p \<le> r"
  shows "poll_ok (w\<lparr>pobjs := (pobjs w)(p \<mapsto> q\<lparr>p_ref := r\<rparr>)\<rparr>)"
proof -
  let ?w = "w\<lparr>pobjs := (pobjs w)(p \<mapsto> q\<lparr>p_ref := r\<rparr>)\<rparr>"
  have F: "fd_of ?w = fd_of w" using p by (auto simp: fd_of_def fun_eq_iff)
  have G: "ref_of ?w x = (if x = p then r else ref_of w x)" for x by (simp add: ref_of_def)
  have "thread_ok ?w t" if t: "t < length (poll_threads w)" for t
  proof -
    have "thread_ok w t" using ok t by (simp add: poll_ok_def)
    then show ?thesis
      using enough [OF t] unfolding thread_ok_def owns_ok_def F G by simp
  qed
  with ok r show ?thesis by (auto simp: poll_ok_def split: if_splits)
qed

text \<open>A pollable is held by one thread at most: the one its descriptor hashes to.\<close>

lemma held_elsewhere:
  assumes "poll_ok w" "pobjs w p = Some q" "s < length (poll_threads w)" "s \<noteq> tid_of w (p_fd q)"
  shows "p \<notin> poll_set (poll_threads w ! s)" "p \<notin> pending_remove (poll_threads w ! s)"
    "held (poll_threads w ! s) p = 0"
proof -
  have "owns_ok (length (poll_threads w)) s (fd_of w) (ref_of w) (poll_threads w ! s)"
    using assms by (simp add: poll_ok_def thread_ok_def)
  moreover have "fd_of w p = Some (p_fd q)" using assms(2) by (simp add: fd_of_def)
  ultimately show "p \<notin> poll_set (poll_threads w ! s)" "p \<notin> pending_remove (poll_threads w ! s)"
    using assms(4) owns_okD(2) by (fastforce simp: tid_of_def)+
  then show "held (poll_threads w ! s) p = 0" by (simp add: held_def)
qed

lemma held_le_ref:
  assumes ok: "poll_ok w" and p: "pobjs w p = Some q" and t: "t < length (poll_threads w)"
  shows "held (poll_threads w ! t) p \<le> p_ref q"
proof (cases "p \<in> poll_set (poll_threads w ! t) \<union> pending_remove (poll_threads w ! t)")
  case True
  have "owns_ok (length (poll_threads w)) t (fd_of w) (ref_of w) (poll_threads w ! t)"
    using ok t by (simp add: poll_ok_def thread_ok_def)
  from owns_okD(1) [OF this, of p] True p show ?thesis by (simp add: ref_of_def)
next
  case False
  with ok p show ?thesis by (auto simp: held_def poll_ok_def less_imp_le)
qed

lemma ref_copy_keeps:
  assumes "poll_ok w" "Pollable_ref_copy p w = Inr w'"
  shows "poll_ok w'" "poll_threads w' = poll_threads w" "fd_of w' = fd_of w"
    "ref_of w' p = ref_of w p + 1" "x \<noteq> p \<Longrightarrow> ref_of w' x = ref_of w x"
proof -
  obtain q where q: "pobjs w p = Some q" "w' = w\<lparr>pobjs := (pobjs w)(p \<mapsto> q\<lparr>p_ref := p_ref q + 1\<rparr>)\<rparr>"
    using assms(2) by (auto simp: Pollable_ref_copy_def rbind_eq_Inr_iff)
  have "0 < p_ref q" using assms(1) q(1) by (simp add: poll_ok_def)
  then show "poll_ok w'"
    unfolding q(2) using held_le_ref [OF assms(1) q(1)]
    by (intro set_ref_ok [OF assms(1) q(1)]) (simp_all add: add.commute add_increasing)
  show "poll_threads w' = poll_threads w" "fd_of w' = fd_of w"
    "ref_of w' p = ref_of w p + 1" "x \<noteq> p \<Longrightarrow> ref_of w' x = ref_of w x"
    using q by (auto simp: fd_of_def ref_of_def fun_eq_iff)
qed

lemma set_thread_ok:
  assumes "poll_ok w" "t < length (poll_threads w)"
    and "owns_ok (length (poll_threads w)) t (fd_of w) (ref_of w) th" "table_ok (fd_of w) th"
      "kernel_ok (fd_of w) th"
  shows "poll_ok (set_thread t th w)"
  by (rule poll_ok_change [OF assms(1,2)])
    (use assms in \<open>auto simp: thread_ok_def poll_ok_def\<close>)

lemma add_keeps:
  assumes ok: "poll_ok w" and add: "PollMgr_add p w = Inr w'"
  shows "poll_ok w'"
proof -
  obtain q where q: "pobjs w p = Some q" using add by (auto simp: PollMgr_add_def rbind_eq_Inr_iff)
  show ?thesis
  proof (cases "0 \<le> p_fd q")
    case False
    with add q ok show ?thesis by (simp add: PollMgr_add_def obj_def)
  next
    case True
    let ?t = "tid_of w (p_fd q)"
    note t = tid_of_less [OF ok, of "p_fd q"]
    from add True q have "PollThread_add ?t p w = Inr w'" by (simp add: PollMgr_add_def obj_def)
    then obtain w1 q1 where w1: "Pollable_ref_copy p w = Inr w1" "pobjs w1 p = Some q1"
      and new: "p \<notin> poll_set (poll_threads w1 ! ?t)" "mode (poll_threads w1 ! ?t) (p_fd q1) = None"
        "epoll (poll_threads w1 ! ?t) (p_fd q1) = None"
      and w': "w' = set_thread ?t ((poll_threads w1 ! ?t)\<lparr>poll_set := insert p (poll_set (poll_threads w1 ! ?t)),
          mode := (mode (poll_threads w1 ! ?t))(p_fd q1 \<mapsto> p_mode q1),
          epoll := (epoll (poll_threads w1 ! ?t))(p_fd q1 \<mapsto> (p, add_events (p_mode q1)))\<rparr>) w1"
      by (auto simp: PollThread_add_def epoll_add_def Let_def rbind_eq_Inr_iff)
    note k = ref_copy_keeps [OF ok w1(1)]
    let ?th = "poll_threads w ! ?t" and ?fd = "p_fd q1"
    have F: "fd_of w p = Some ?fd" using k(3) w1(2) by (metis fd_of_def option.map(2))
    then have fd: "?fd = p_fd q" using q by (simp add: fd_of_def)
    have th: "owns_ok (length (poll_threads w)) ?t (fd_of w) (ref_of w) ?th" "table_ok (fd_of w) ?th"
      "kernel_ok (fd_of w) ?th" using ok t by (simp_all add: poll_ok_def thread_ok_def)
    let ?th' = "?th\<lparr>poll_set := insert p (poll_set ?th), mode := (mode ?th)(?fd \<mapsto> p_mode q1),
        epoll := (epoll ?th)(?fd \<mapsto> (p, add_events (p_mode q1)))\<rparr>"
    have G: "held ?th p \<le> ref_of w p" using held_le_ref [OF ok q t] q by (simp add: ref_of_def)
    have "owns_ok (length (poll_threads w1)) ?t (fd_of w1) (ref_of w1) ?th'"
      unfolding owns_ok_def k(2,3)
    proof
      fix x assume x: "x \<in> poll_set ?th' \<union> pending_remove ?th'"
      show "held ?th' x \<le> ref_of w1 x \<and> (\<exists>fd. fd_of w x = Some fd \<and> 0 \<le> fd
          \<and> unat (hash_fd (of_int fd) mod of_nat (length (poll_threads w))) = ?t)"
      proof (cases "x = p")
        case True
        then show ?thesis using G k(4) F fd \<open>0 \<le> p_fd q\<close> new(1) by (simp add: held_def k(2) tid_of_def)
      next
        case False
        then show ?thesis using x th(1) k(5) [OF False] by (auto simp: owns_ok_def held_def)
      qed
    qed
    moreover have "table_ok (fd_of w1) ?th'"
      using th(2) new F event_bits(1) [of "p_mode q1"] unfolding table_ok_def k(2,3) by fastforce
    moreover have "kernel_ok (fd_of w1) ?th'"
      using th(3) F unfolding kernel_ok_def k(3) by auto
    ultimately show ?thesis
      unfolding w' k(2) by (intro set_thread_ok [OF k(1)]) (simp_all add: k(2) t)
  qed
qed

lemma remove_keeps:
  assumes ok: "poll_ok w" and rm: "PollMgr_remove p w = Inr w'"
  shows "poll_ok w'"
proof -
  obtain q where q: "pobjs w p = Some q" using rm by (auto simp: PollMgr_remove_def rbind_eq_Inr_iff)
  let ?t = "tid_of w (p_fd q)"
  let ?th = "poll_threads w ! ?t"
  note t = tid_of_less [OF ok, of "p_fd q"]
  show ?thesis
  proof (cases "0 \<le> p_fd q \<and> p \<in> poll_set ?th")
    case False
    with rm q ok show ?thesis
      by (auto simp: PollMgr_remove_def PollThread_remove_def obj_def Let_def rbind_eq_Inr_iff split: if_splits)
  next
    case True
    let ?th' = "?th\<lparr>poll_set := poll_set ?th - {p}, mode := (mode ?th)(p_fd q := None),
        pending_remove := insert p (pending_remove ?th)\<rparr>"
    from rm q True have w': "w' = set_thread ?t ?th' w"
      by (auto simp: PollMgr_remove_def PollThread_remove_def obj_def Let_def rbind_eq_Inr_iff split: if_splits)
    have th: "owns_ok (length (poll_threads w)) ?t (fd_of w) (ref_of w) ?th" "table_ok (fd_of w) ?th"
      "kernel_ok (fd_of w) ?th" using ok t by (simp_all add: poll_ok_def thread_ok_def)
    have F: "fd_of w p = Some (p_fd q)" using q by (simp add: fd_of_def)
    have inj: "x = p" if "x \<in> poll_set ?th" "fd_of w x = Some (p_fd q)" for x
    proof -
      have "\<exists>ev. epoll ?th (p_fd q) = Some (x, ev)" "\<exists>ev. epoll ?th (p_fd q) = Some (p, ev)"
        using th(2) that True F unfolding table_ok_def by blast+
      then show ?thesis by auto
    qed
    have le: "held ?th' x \<le> held ?th x" for x using True by (auto simp: held_def)
    have "owns_ok (length (poll_threads w)) ?t (fd_of w) (ref_of w) ?th'"
      unfolding owns_ok_def
    proof
      fix x assume "x \<in> poll_set ?th' \<union> pending_remove ?th'"
      then have "x \<in> poll_set ?th \<or> x \<in> pending_remove ?th" using True by auto
      from owns_okD [OF th(1) this] order_trans [OF le [of x]]
      show "held ?th' x \<le> ref_of w x \<and> (\<exists>fd. fd_of w x = Some fd \<and> 0 \<le> fd
          \<and> unat (hash_fd (of_int fd) mod of_nat (length (poll_threads w))) = ?t)" by blast
    qed
    moreover have "table_ok (fd_of w) ?th'"
      unfolding table_ok_def
    proof (intro conjI allI impI ballI)
      fix fd m assume "mode ?th' fd = Some m"
      then have "fd \<noteq> p_fd q" "mode ?th fd = Some m" by (auto split: if_splits)
      then show "\<exists>x \<in> poll_set ?th'. fd_of w x = Some fd" using table_okD(1) [OF th(2)] F by fastforce
    next
      fix x fd assume x: "x \<in> poll_set ?th'" "fd_of w x = Some fd"
      then have "fd \<noteq> p_fd q" using inj by auto
      with x show "\<exists>m ev. mode ?th' fd = Some m \<and> epoll ?th' fd = Some (x, ev) \<and> asks_for ev m"
        using table_okD(2) [OF th(2), of x fd] by simp
    qed
    moreover have "kernel_ok (fd_of w) ?th'" using th(3) True unfolding kernel_ok_def by auto
    ultimately show ?thesis unfolding w' by (intro set_thread_ok [OF ok t])
  qed
qed

lemma update_mode_keeps:
  assumes ok: "poll_ok w" and p: "pobjs w p = Some q"
  shows "\<exists>w'. PollMgr_update_mode p m w = Inr w' \<and> poll_ok w' \<and> pobjs w' = pobjs w
    \<and> (\<forall>s. poll_set (poll_threads w' ! s) = poll_set (poll_threads w ! s)
          \<and> pending_remove (poll_threads w' ! s) = pending_remove (poll_threads w ! s)
          \<and> evlist (poll_threads w' ! s) = evlist (poll_threads w ! s))
    \<and> (p \<in> poll_set (poll_threads w ! tid_of w (p_fd q)) \<longrightarrow>
          mode (poll_threads w' ! tid_of w (p_fd q)) (p_fd q) = Some m)"
proof -
  let ?t = "tid_of w (p_fd q)"
  let ?th = "poll_threads w ! ?t"
  note t = tid_of_less [OF ok, of "p_fd q"]
  have F: "fd_of w p = Some (p_fd q)" using p by (simp add: fd_of_def)
  have th: "owns_ok (length (poll_threads w)) ?t (fd_of w) (ref_of w) ?th" "table_ok (fd_of w) ?th"
    "kernel_ok (fd_of w) ?th" using ok t by (simp_all add: poll_ok_def thread_ok_def)
  show ?thesis
  proof (cases "0 \<le> p_fd q \<and> p \<in> poll_set ?th")
    case False
    moreover have "p \<notin> poll_set ?th" using owns_okD(2) [OF th(1), of p] F False by auto
    ultimately show ?thesis using p ok by (auto simp: PollMgr_update_mode_def PollThread_update_mode_def obj_def Let_def)
  next
    case True
    then obtain old ev where old: "mode ?th (p_fd q) = Some old" "epoll ?th (p_fd q) = Some (p, ev)"
      "asks_for ev old" using table_okD(2) [OF th(2) _ F] by auto
    let ?ev = "if m \<noteq> old then mod_events m else ev"
    let ?th' = "?th\<lparr>mode := (mode ?th)(p_fd q \<mapsto> m), epoll := (epoll ?th)(p_fd q \<mapsto> (p, ?ev))\<rparr>"
    have same: "(epoll ?th)(p_fd q \<mapsto> (p, ev)) = epoll ?th" using old(2) by auto
    have up: "PollMgr_update_mode p m w = Inr (set_thread ?t ?th' w)"
      using True p old
      by (auto simp: PollMgr_update_mode_def PollThread_update_mode_def obj_def Let_def epoll_mod_def same)
    have "owns_ok (length (poll_threads w)) ?t (fd_of w) (ref_of w) ?th'"
      using th(1) by (simp add: owns_ok_def held_def)
    moreover have "asks_for ?ev m" using event_bits(2) old(3) by simp
    then have "table_ok (fd_of w) ?th'"
      using table_okD [OF th(2)] True F old(2) unfolding table_ok_def
      by (auto split: if_splits) fastforce+
    moreover have "kernel_ok (fd_of w) ?th'" using kernel_okD [OF th(3)] True F unfolding kernel_ok_def by auto
    ultimately have "poll_ok (set_thread ?t ?th' w)" by (rule set_thread_ok [OF ok t])
    moreover have "poll_set (poll_threads (set_thread ?t ?th' w) ! s) = poll_set (poll_threads w ! s)
        \<and> pending_remove (poll_threads (set_thread ?t ?th' w) ! s) = pending_remove (poll_threads w ! s)
        \<and> evlist (poll_threads (set_thread ?t ?th' w) ! s) = evlist (poll_threads w ! s)" for s
      using t by (cases "s = ?t") simp_all
    ultimately show ?thesis using up t by simp
  qed
qed

text \<open>
  The removal pass. While it runs, the references of the pollables still to be visited are owned
  by the pass: the invariant is that of a state whose pending set is what is left to visit.
\<close>

definition with_pending :: "nat \<Rightarrow> pid set \<Rightarrow> poll_world \<Rightarrow> poll_world" where
  "with_pending t P w = set_thread t ((poll_threads w ! t)\<lparr>pending_remove := P\<rparr>) w"

lemma sweep_step:
  assumes t: "t < length (poll_threads w)" and ok: "poll_ok (with_pending t (insert p P) w)"
    and p: "p \<notin> P" and ev: "evlist (poll_threads w ! t) = []"
  shows "\<exists>q w1. obj w p = Inr q \<and> Pollable_release p (set_thread t
      (if mode (poll_threads w ! t) (p_fd q) = None
       then (poll_threads w ! t)\<lparr>epoll := (epoll (poll_threads w ! t))(p_fd q := None)\<rparr>
       else poll_threads w ! t) w) = Inr w1
    \<and> poll_ok (with_pending t P w1) \<and> length (poll_threads w1) = length (poll_threads w)
    \<and> evlist (poll_threads w1 ! t) = [] \<and> pending_remove (poll_threads w1 ! t) = pending_remove (poll_threads w ! t)"
proof -
  let ?wP = "with_pending t (insert p P) w" and ?th = "poll_threads w ! t"
  let ?thP = "?th\<lparr>pending_remove := insert p P\<rparr>"
  have wP: "poll_threads ?wP ! t = ?thP" "pobjs ?wP = pobjs w" "length (poll_threads ?wP) = length (poll_threads w)"
    "fd_of ?wP = fd_of w" "ref_of ?wP = ref_of w" "tid_of ?wP = tid_of w"
    "\<And>s. s \<noteq> t \<Longrightarrow> poll_threads ?wP ! s = poll_threads w ! s"
    using t by (simp_all add: with_pending_def)
  have "thread_ok ?wP t" using ok t by (simp add: poll_ok_def wP(3))
  then have th: "owns_ok (length (poll_threads w)) t (fd_of w) (ref_of w) ?thP" "table_ok (fd_of w) ?thP"
    "kernel_ok (fd_of w) ?thP"
    unfolding thread_ok_def wP by auto
  obtain fd where fd: "fd_of w p = Some fd" "held ?thP p \<le> ref_of w p"
    "unat (hash_fd (of_int fd) mod of_nat (length (poll_threads w))) = t"
    using owns_okD [OF th(1), of p] by auto
  then obtain q where q: "pobjs w p = Some q" "p_fd q = fd" by (auto simp: fd_of_def)
  define th1 where "th1 = (if mode ?th fd = None then ?th\<lparr>epoll := (epoll ?th)(fd := None)\<rparr> else ?th)"
  have th1: "poll_set th1 = poll_set ?th" "mode th1 = mode ?th" "evlist th1 = []"
    "pending_remove th1 = pending_remove ?th"
    "epoll th1 = (if mode ?th fd = None then (epoll ?th)(fd := None) else epoll ?th)"
    using ev by (simp_all add: th1_def)
  let ?o = "if p_ref q - 1 = 0 then None else Some (q\<lparr>p_ref := p_ref q - 1\<rparr>)"
  define w1 where "w1 = (set_thread t th1 w)\<lparr>pobjs := (pobjs w)(p := ?o)\<rparr>"
  have r: "of_bool (p \<in> poll_set ?th) + 1 \<le> p_ref q"
    using fd(2) q(1) by (simp add: held_def ref_of_def)
  then have pos: "0 \<le> p_ref q - 1" by (cases "p \<in> poll_set ?th") auto
  then have rel: "Pollable_release p (set_thread t th1 w) = Inr w1"
    using q(1) by (simp add: Pollable_release_def obj_def Let_def w1_def)
  define w' where "w' = with_pending t P w1"
  let ?th' = "th1\<lparr>pending_remove := P\<rparr>"
  have thr: "poll_threads w' ! t = ?th'" "length (poll_threads w') = length (poll_threads w)"
    "\<And>s. s \<noteq> t \<Longrightarrow> poll_threads w' ! s = poll_threads w ! s" "pobjs w' = (pobjs w)(p := ?o)"
    using t by (simp_all add: w'_def w1_def with_pending_def set_thread_def)
  have F: "fd_of w' x = (if x = p \<and> p_ref q = 1 then None else fd_of w x)"
    and G: "ref_of w' x = (if x = p then p_ref q - 1 else ref_of w x)" for x
    unfolding fd_of_def ref_of_def thr(4) using q by auto
  have dead: "p \<notin> poll_set ?th" if "p_ref q = 1" using r that by auto
  have no_entry: "epoll ?th' fd' \<noteq> Some (p, e)" if "p \<notin> poll_set ?th" for fd' e
  proof
    assume e: "epoll ?th' fd' = Some (p, e)"
    then have e': "epoll ?thP fd' = Some (p, e)" by (auto simp: th1 split: if_splits)
    then have fd': "fd' = fd" using kernel_okD(1) [OF th(3) e'] fd(1) by simp
    with e obtain m where "mode ?thP fd = Some m" by (cases "mode ?th fd") (auto simp: th1)
    then obtain x where x: "x \<in> poll_set ?thP" "fd_of w x = Some fd" using table_okD(1) [OF th(2)] by blast
    then have "x = p" using table_okD(2) [OF th(2) x] e' fd' by auto
    with x that show False by simp
  qed
  have "owns_ok (length (poll_threads w)) t (fd_of w') (ref_of w') ?th'"
    unfolding owns_ok_def
  proof
    fix x assume x: "x \<in> poll_set ?th' \<union> pending_remove ?th'"
    then have x': "x \<in> poll_set ?thP \<or> x \<in> pending_remove ?thP" by (auto simp: th1)
    note o = owns_okD [OF th(1) x']
    have h: "held ?th' x = held ?thP x - of_bool (x = p)" using p by (auto simp: held_def th1)
    show "held ?th' x \<le> ref_of w' x \<and> (\<exists>fd. fd_of w' x = Some fd \<and> 0 \<le> fd
        \<and> unat (hash_fd (of_int fd) mod of_nat (length (poll_threads w))) = t)"
      using o x p dead q(1) unfolding h G F by (auto simp: ref_of_def th1 split: if_splits)
  qed
  moreover have "table_ok (fd_of w') ?th'"
    unfolding table_ok_def
  proof (intro conjI allI impI ballI)
    fix fd' m assume "mode ?th' fd' = Some m"
    then have "mode ?thP fd' = Some m" by (simp add: th1)
    from table_okD(1) [OF th(2) this] show "\<exists>x \<in> poll_set ?th'. fd_of w' x = Some fd'"
      using dead by (force simp: F th1)
  next
    fix x fd' assume x: "x \<in> poll_set ?th'" "fd_of w' x = Some fd'"
    then have "x \<in> poll_set ?thP" "fd_of w x = Some fd'" by (auto simp: F th1 split: if_splits)
    from table_okD(2) [OF th(2) this]
    show "\<exists>m ev. mode ?th' fd' = Some m \<and> epoll ?th' fd' = Some (x, ev) \<and> asks_for ev m" by (auto simp: th1)
  qed
  moreover have "kernel_ok (fd_of w') ?th'"
    unfolding kernel_ok_def
  proof (intro conjI allI impI ballI)
    fix fd' x e assume e: "epoll ?th' fd' = Some (x, e)"
    then have "epoll ?thP fd' = Some (x, e)" by (auto simp: th1 split: if_splits)
    from kernel_okD(1) [OF th(3) this] no_entry e dead
    show "x \<in> poll_set ?th' \<union> pending_remove ?th'" "fd_of w' x = Some fd'" by (auto simp: F th1)
  next
    fix e assume "e \<in> set (evlist ?th')"
    then show "fst e \<in> poll_set ?th' \<union> pending_remove ?th'" by (simp add: th1)
  qed
  ultimately have this_one: "thread_ok w' t" unfolding thread_ok_def thr by simp
  have tid: "tid_of w (p_fd q) = t" using fd(3) q(2) by (simp add: tid_of_def)
  have "poll_ok w'"
  proof (rule poll_ok_change [OF ok _ _ _ _ this_one])
    show "t < length (poll_threads ?wP)" "length (poll_threads w') = length (poll_threads ?wP)"
      using t by (simp_all add: wP thr)
    show "poll_threads w' ! s = poll_threads ?wP ! s" if "s \<noteq> t" for s using that by (simp add: wP thr)
    show "fd_of w' x = fd_of ?wP x \<and> ref_of ?wP x \<le> ref_of w' x"
      if "s < length (poll_threads ?wP)" "s \<noteq> t"
        "x \<in> poll_set (poll_threads ?wP ! s) \<union> pending_remove (poll_threads ?wP ! s)" for s x
    proof -
      have "x \<noteq> p" using held_elsewhere(1,2) [OF ok, of p q s] that q(1) tid by (auto simp: wP)
      then show ?thesis unfolding wP F G by simp
    qed
    show "0 < p_ref q'" if "pobjs w' x = Some q'" for x q'
      using that ok pos unfolding poll_ok_def wP thr(4) by (auto split: if_splits)
  qed
  moreover have "evlist (poll_threads w1 ! t) = []"
    "pending_remove (poll_threads w1 ! t) = pending_remove ?th"
    using t by (simp_all add: w1_def set_thread_def th1)
  moreover have "length (poll_threads w1) = length (poll_threads w)" by (simp add: w1_def)
  ultimately show ?thesis using rel q unfolding w'_def th1_def by (auto simp: obj_def)
qed

lemma sweep_loop_keeps:
  assumes "t < length (poll_threads w)" "poll_ok (with_pending t (set ps) w)" "distinct ps"
    "evlist (poll_threads w ! t) = []" "pending_remove (poll_threads w ! t) = {}"
  shows "\<exists>w'. sweep_loop t ps w = Inr w' \<and> poll_ok w' \<and> pending_remove (poll_threads w' ! t) = {}
    \<and> length (poll_threads w') = length (poll_threads w)"
  using assms
proof (induction ps arbitrary: w)
  case Nil
  have "with_pending t {} w = w"
    using Nil.prems(5) by (simp add: with_pending_def set_thread_def)
      (metis list_update_id poll_thread.surjective poll_thread.update_convs(3) poll_world.surjective
        poll_world.update_convs(1))
  with Nil show ?case by simp
next
  case (Cons p ps)
  from sweep_step [OF Cons.prems(1), of p "set ps"] Cons.prems obtain q w1 where
    s: "obj w p = Inr q" "Pollable_release p (set_thread t
      (if mode (poll_threads w ! t) (p_fd q) = None
       then (poll_threads w ! t)\<lparr>epoll := (epoll (poll_threads w ! t))(p_fd q := None)\<rparr>
       else poll_threads w ! t) w) = Inr w1" "poll_ok (with_pending t (set ps) w1)"
    "length (poll_threads w1) = length (poll_threads w)" "evlist (poll_threads w1 ! t) = []"
    "pending_remove (poll_threads w1 ! t) = {}"
    by auto
  from Cons.IH [OF _ s(3) _ s(5,6)] Cons.prems(1,3) s(4) obtain w' where
    "sweep_loop t ps w1 = Inr w'" "poll_ok w'" "pending_remove (poll_threads w' ! t) = {}"
    "length (poll_threads w') = length (poll_threads w)" by auto
  with s(1,2) show ?case by (simp add: Let_def obj_def)
qed

lemma sweep_keeps:
  assumes ok: "poll_ok w" and t: "t < length (poll_threads w)" and ev: "evlist (poll_threads w ! t) = []"
    and ord: "set (ord (pending_remove (poll_threads w ! t))) = pending_remove (poll_threads w ! t)"
      "distinct (ord (pending_remove (poll_threads w ! t)))"
  shows "\<exists>w'. sweep ord t w = Inr w' \<and> poll_ok w' \<and> pending_remove (poll_threads w' ! t) = {}"
proof -
  let ?th = "poll_threads w ! t"
  let ?w = "set_thread t (?th\<lparr>pending_remove := {}\<rparr>) w"
  have "with_pending t (pending_remove ?th) ?w = w"
    using t by (simp add: with_pending_def set_thread_def)
  then show ?thesis
    using sweep_loop_keeps [of t ?w "ord (pending_remove ?th)"] t ev ord ok
    by (auto simp: sweep_def Let_def)
qed

section \<open>All interleavings\<close>

text \<open>
  The steps of the program around the poll threads: any thread may create pollables, take and
  drop references of its own, register, unregister and change modes at any time; the system may
  close a descriptor that no registered pollable uses; a poll thread fetches a batch of events of
  descriptors in the kernel's list, works through it one event at a time, and runs the removal
  pass when the batch is done. Handlers are sequences of the other steps.
\<close>

inductive poll_step :: "poll_world \<Rightarrow> poll_world \<Rightarrow> bool" where
  create: "pobjs w p = None \<Longrightarrow> poll_step w (w\<lparr>pobjs := (pobjs w)(p \<mapsto> \<lparr>p_fd = fd, p_mode = m, p_ref = 1\<rparr>)\<rparr>)"
| take_ref: "Pollable_ref_copy p w = Inr w' \<Longrightarrow> poll_step w w'"
| drop_ref: "pobjs w p = Some q \<Longrightarrow> held (poll_threads w ! tid_of w (p_fd q)) p < p_ref q \<Longrightarrow>
    Pollable_release p w = Inr w' \<Longrightarrow> poll_step w w'"
| add: "PollMgr_add p w = Inr w' \<Longrightarrow> poll_step w w'"
| remove: "PollMgr_remove p w = Inr w' \<Longrightarrow> poll_step w w'"
| update: "PollMgr_update_mode p m w = Inr w' \<Longrightarrow> poll_step w w'"
| close_fd: "t < length (poll_threads w) \<Longrightarrow> mode (poll_threads w ! t) fd = None \<Longrightarrow>
    poll_step w (set_thread t ((poll_threads w ! t)\<lparr>epoll := (epoll (poll_threads w ! t))(fd := None)\<rparr>) w)"
| wait: "t < length (poll_threads w) \<Longrightarrow> evlist (poll_threads w ! t) = [] \<Longrightarrow>
    \<forall>ev \<in> set evs. \<exists>fd e. epoll (poll_threads w ! t) fd = Some (fst ev, e) \<Longrightarrow>
    poll_step w (set_thread t ((poll_threads w ! t)\<lparr>evlist := evs\<rparr>) w)"
| next_event: "t < length (poll_threads w) \<Longrightarrow> evlist (poll_threads w ! t) = ev # evs \<Longrightarrow>
    poll_step w (set_thread t ((poll_threads w ! t)\<lparr>evlist := evs\<rparr>) w)"
| sweep: "t < length (poll_threads w) \<Longrightarrow> evlist (poll_threads w ! t) = [] \<Longrightarrow>
    (\<And>s. finite s \<Longrightarrow> set (ord s) = s \<and> distinct (ord s)) \<Longrightarrow> finite (pending_remove (poll_threads w ! t)) \<Longrightarrow>
    sweep ord t w = Inr w' \<Longrightarrow> poll_step w w'"

lemma release_keeps:
  assumes ok: "poll_ok w" and q: "pobjs w p = Some q"
    and spare: "held (poll_threads w ! tid_of w (p_fd q)) p < p_ref q"
    and rel: "Pollable_release p w = Inr w'"
  shows "poll_ok w'"
proof (cases "p_ref q = 1")
  case False
  with rel q have w': "w' = w\<lparr>pobjs := (pobjs w)(p \<mapsto> q\<lparr>p_ref := p_ref q - 1\<rparr>)\<rparr>"
    by (auto simp: Pollable_release_def obj_def Let_def rbind_eq_Inr_iff)
  have "0 < p_ref q" using ok q by (simp add: poll_ok_def)
  moreover have "held (poll_threads w ! s) p \<le> p_ref q - 1" if "s < length (poll_threads w)" for s
    using held_elsewhere(3) [OF ok q that] spare calculation False by (cases "s = tid_of w (p_fd q)") auto
  ultimately show ?thesis unfolding w' using False by (intro set_ref_ok [OF ok q]) auto
next
  case True
  with rel q have w': "w' = w\<lparr>pobjs := (pobjs w)(p := None)\<rparr>"
    by (auto simp: Pollable_release_def obj_def Let_def rbind_eq_Inr_iff)
  have "0 \<le> held (poll_threads w ! tid_of w (p_fd q)) p" by (simp add: held_def)
  then have "held (poll_threads w ! tid_of w (p_fd q)) p = 0" using spare True by simp
  then have "held (poll_threads w ! s) p = 0" if "s < length (poll_threads w)" for s
    using held_elsewhere(3) [OF ok q that] by (cases "s = tid_of w (p_fd q)") simp_all
  then have out: "p \<notin> poll_set (poll_threads w ! s)" "p \<notin> pending_remove (poll_threads w ! s)"
    if "s < length (poll_threads w)" for s using that by (simp_all add: held_eq_0_iff)
  have F: "fd_of w' x = (if x = p then None else fd_of w x)" and G: "ref_of w' x = (if x = p then 0 else ref_of w x)"
    for x by (simp_all add: w' fd_of_def ref_of_def)
  have "thread_ok w' s" if s: "s < length (poll_threads w)" for s
  proof -
    let ?th = "poll_threads w ! s"
    have th: "owns_ok (length (poll_threads w)) s (fd_of w) (ref_of w) ?th" "table_ok (fd_of w) ?th"
      "kernel_ok (fd_of w) ?th" using ok s by (simp_all add: poll_ok_def thread_ok_def)
    have thr: "poll_threads w' = poll_threads w" by (simp add: w')
    have "owns_ok (length (poll_threads w)) s (fd_of w') (ref_of w') ?th"
      using th(1) out [OF s] unfolding owns_ok_def F G by auto
    moreover have "table_ok (fd_of w') ?th" using th(2) out [OF s] unfolding table_ok_def F by auto
    moreover have "kernel_ok (fd_of w') ?th" using th(3) out [OF s] unfolding kernel_ok_def F by force
    ultimately show ?thesis by (simp add: thread_ok_def thr)
  qed
  then show ?thesis using ok by (auto simp: poll_ok_def w' split: if_splits)
qed

lemma create_keeps:
  assumes ok: "poll_ok w" and p: "pobjs w p = None"
  shows "poll_ok (w\<lparr>pobjs := (pobjs w)(p \<mapsto> \<lparr>p_fd = fd, p_mode = m, p_ref = 1\<rparr>)\<rparr>)" (is "poll_ok ?w")
proof -
  have F: "fd_of ?w x = (if x = p then Some fd else fd_of w x)" and G: "ref_of ?w x = (if x = p then 1 else ref_of w x)"
    for x by (simp_all add: fd_of_def ref_of_def)
  have p': "fd_of w p = None" using p by (simp add: fd_of_def)
  have "thread_ok ?w s" if s: "s < length (poll_threads w)" for s
  proof -
    let ?th = "poll_threads w ! s"
    have th: "owns_ok (length (poll_threads w)) s (fd_of w) (ref_of w) ?th" "table_ok (fd_of w) ?th"
      "kernel_ok (fd_of w) ?th" using ok s by (simp_all add: poll_ok_def thread_ok_def)
    have out: "p \<notin> poll_set ?th" "p \<notin> pending_remove ?th" using owns_okD(2) [OF th(1), of p] p' by auto
    have "owns_ok (length (poll_threads w)) s (fd_of ?w) (ref_of ?w) ?th"
      using th(1) out unfolding owns_ok_def F G by auto
    moreover have "table_ok (fd_of ?w) ?th" using th(2) out unfolding table_ok_def F by auto
    moreover have "kernel_ok (fd_of ?w) ?th" using th(3) out unfolding kernel_ok_def F by force
    ultimately show ?thesis by (simp add: thread_ok_def)
  qed
  then show ?thesis using ok by (auto simp: poll_ok_def)
qed

lemma step_keeps:
  assumes "poll_step w w'" "poll_ok w"
  shows "poll_ok w'"
  using assms
proof (induction rule: poll_step.induct)
  case (close_fd t w fd)
  let ?th = "poll_threads w ! t"
  have th: "owns_ok (length (poll_threads w)) t (fd_of w) (ref_of w) ?th" "table_ok (fd_of w) ?th"
    "kernel_ok (fd_of w) ?th" using close_fd by (simp_all add: poll_ok_def thread_ok_def)
  show ?case
  proof (rule set_thread_ok [OF close_fd.prems close_fd.hyps(1)])
    show "table_ok (fd_of w) (?th\<lparr>epoll := (epoll ?th)(fd := None)\<rparr>)"
      using th(2) close_fd.hyps(2) unfolding table_ok_def by fastforce
  qed (use th in \<open>auto simp: owns_ok_def held_def kernel_ok_def\<close>)
next
  case (wait t w evs)
  let ?th = "poll_threads w ! t"
  have th: "owns_ok (length (poll_threads w)) t (fd_of w) (ref_of w) ?th" "table_ok (fd_of w) ?th"
    "kernel_ok (fd_of w) ?th" using wait by (simp_all add: poll_ok_def thread_ok_def)
  have "fst ev \<in> poll_set ?th \<or> fst ev \<in> pending_remove ?th" if "ev \<in> set evs" for ev
    using wait.hyps(3) that kernel_okD(1) [OF th(3)] by blast
  then show ?case
    using th by (intro set_thread_ok [OF wait.prems wait.hyps(1)])
      (auto simp: owns_ok_def held_def table_ok_def kernel_ok_def)
next
  case (next_event t w ev evs)
  then have "owns_ok (length (poll_threads w)) t (fd_of w) (ref_of w) (poll_threads w ! t)"
    "table_ok (fd_of w) (poll_threads w ! t)" "kernel_ok (fd_of w) (poll_threads w ! t)"
    by (simp_all add: poll_ok_def thread_ok_def)
  with next_event.hyps show ?case
    by (intro set_thread_ok [OF next_event.prems next_event.hyps(1)])
      (auto simp: owns_ok_def held_def table_ok_def kernel_ok_def)
next
  case (sweep t w ord w')
  then show ?case using sweep_keeps [of w t ord] by auto
next
  case (update p m w w')
  then obtain q where "pobjs w p = Some q" by (auto simp: PollMgr_update_mode_def rbind_eq_Inr_iff)
  with update show ?case using update_mode_keeps [of w p q m] by auto
qed (auto intro: create_keeps ref_copy_keeps(1) release_keeps add_keeps remove_keeps)

definition poll_reachable :: "poll_world \<Rightarrow> poll_world \<Rightarrow> bool" where
  "poll_reachable w w' \<longleftrightarrow> poll_step\<^sup>*\<^sup>* w w'"

lemma reachable_ok: "poll_reachable w w' \<Longrightarrow> poll_ok w \<Longrightarrow> poll_ok w'"
  unfolding poll_reachable_def by (induction rule: rtranclp_induct) (auto intro: step_keeps)

lemma new_ok:
  assumes "PollMgr_new n objs = Inr w" "n < 2 ^ 31" "\<forall>p q. objs p = Some q \<longrightarrow> 0 < p_ref q"
  shows "poll_ok w"
proof -
  have n: "0 < n" "w = \<lparr>poll_threads = replicate (nat n) PollThread_new, pobjs = objs\<rparr>"
    using assms(1) by (auto simp: PollMgr_new_def rbind_eq_Inr_iff)
  then have "thread_ok w t" if "t < nat n" for t
    using that by (simp add: thread_ok_def owns_ok_def table_ok_def kernel_ok_def PollThread_new_def)
  with n assms(2,3) show ?thesis by (auto simp: poll_ok_def)
qed

section \<open>Properties\<close>


text \<open>A run for the witness: one poll thread; a pollable is created, registered and gets an event.\<close>

definition demo_poll0 :: poll_world where
  "demo_poll0 = \<lparr>poll_threads = [PollThread_new], pobjs = Map.empty\<rparr>"

definition demo_poll1 :: poll_world where
  "demo_poll1 = demo_poll0\<lparr>pobjs := [7 \<mapsto> \<lparr>p_fd = 5, p_mode = READ, p_ref = 1\<rparr>]\<rparr>"

definition demo_thread :: poll_thread where
  "demo_thread = PollThread_new\<lparr>poll_set := {7}, mode := [5 \<mapsto> READ], epoll := [5 \<mapsto> (7, add_events READ)]\<rparr>"

definition demo_poll2 :: poll_world where
  "demo_poll2 = \<lparr>poll_threads = [demo_thread], pobjs = [7 \<mapsto> \<lparr>p_fd = 5, p_mode = READ, p_ref = 2\<rparr>]\<rparr>"

lemma demo_poll_add: "PollMgr_add 7 demo_poll1 = Inr demo_poll2"
  by (simp add: PollMgr_add_def PollThread_add_def demo_poll1_def demo_poll0_def demo_poll2_def obj_def
      Pollable_ref_copy_def Let_def epoll_add_def PollThread_new_def set_thread_def tid_of_def demo_thread_def)

lemma demo_poll_reachable: "poll_reachable demo_poll0 demo_poll2"
proof -
  have "poll_step demo_poll0 demo_poll1"
    unfolding demo_poll1_def using poll_step.create [of demo_poll0 7 5 READ] by (simp add: demo_poll0_def)
  moreover have "poll_step demo_poll1 demo_poll2" by (rule poll_step.add [OF demo_poll_add])
  ultimately show ?thesis unfolding poll_reachable_def by auto
qed


text \<open>
  Changing the mode of a live pollable never fails, whatever happened before; when it is
  registered, \<open>mode_\<close> and the kernel's interest agree afterwards on whether it waits to write.
\<close>

theorem poll_update_mode_total:
  assumes "poll_ok w" and "pobjs w p = Some q"
  shows "\<exists>w'. PollMgr_update_mode p m w = Inr w' \<and> poll_ok w'
    \<and> (p \<in> poll_set (poll_threads w ! tid_of w (p_fd q)) \<longrightarrow>
        mode (poll_threads w' ! tid_of w (p_fd q)) (p_fd q) = Some m
        \<and> (\<exists>ev. epoll (poll_threads w' ! tid_of w (p_fd q)) (p_fd q) = Some (p, ev) \<and> asks_for ev m))"
proof -
  let ?t = "tid_of w (p_fd q)"
  obtain w' where u: "PollMgr_update_mode p m w = Inr w'" "poll_ok w'" "pobjs w' = pobjs w"
    "poll_set (poll_threads w' ! ?t) = poll_set (poll_threads w ! ?t)"
    "p \<in> poll_set (poll_threads w ! ?t) \<longrightarrow> mode (poll_threads w' ! ?t) (p_fd q) = Some m"
    using update_mode_keeps [OF assms] by blast
  have "length (poll_threads w') = length (poll_threads w)"
    using u(1) assms(2)
    by (auto simp: PollMgr_update_mode_def PollThread_update_mode_def obj_def Let_def rbind_eq_Inr_iff
        split: if_splits option.splits)
  then have "table_ok (fd_of w') (poll_threads w' ! ?t)"
    using u(2) tid_of_less [OF assms(1), of "p_fd q"] by (simp add: poll_ok_def thread_ok_def)
  moreover have "fd_of w' p = Some (p_fd q)" using u(3) assms(2) by (simp add: fd_of_def)
  ultimately show ?thesis using u table_okD(2) [of "fd_of w'"] by fastforce
qed

theorem poll_update_mode_total_witness:
  "\<exists>w'. PollMgr_update_mode 7 (READ OR WRITE) demo_poll2 = Inr w'
     \<and> mode (poll_threads w' ! 0) 5 = Some (READ OR WRITE)"
proof -
  have "PollMgr_new 1 (\<lambda>_. None) = Inr demo_poll0" by (simp add: PollMgr_new_def demo_poll0_def)
  then have "poll_ok demo_poll2" using reachable_ok [OF demo_poll_reachable new_ok] by simp
  from poll_update_mode_total [OF this, of 7 "\<lparr>p_fd = 5, p_mode = READ, p_ref = 2\<rparr>" "READ OR WRITE"]
  show ?thesis by (auto simp: demo_poll2_def demo_thread_def tid_of_def)
qed

end
