(* ===== verification/Poll_Refs.thy ===== *)
theory Poll_Refs
  imports Poll_Mgr
begin

text \<open>
  What the owners of pollables (the connections of a server, a client) rely on: how many references
  on a pollable belong to others than the poll threads, and that registration, change of mode,
  removal and release work as long as the owner still has a reference of its own.
\<close>

text \<open>\<open>::close(fd)\<close> makes the kernel forget the descriptor.\<close>

definition os_close :: "int \<Rightarrow> poll_world \<Rightarrow> poll_world" where
  "os_close fd w = (let t = tid_of w fd; th = poll_threads w ! t in
     set_thread t (th\<lparr>epoll := (epoll th)(fd := None)\<rparr>) w)"

text \<open>
  \<open>spare k w p\<close>: besides those of the poll threads there are more than \<open>k\<close> references on \<open>p\<close>.
\<close>

definition spare :: "nat \<Rightarrow> poll_world \<Rightarrow> pid \<Rightarrow> bool" where
  "spare k w p \<longleftrightarrow> poll_ok w \<and> (\<exists>q. pobjs w p = Some q
     \<and> held (poll_threads w ! tid_of w (p_fd q)) p + int k < p_ref q)"

definition registered :: "poll_world \<Rightarrow> pid \<Rightarrow> bool" where
  "registered w p \<longleftrightarrow> (\<exists>q. pobjs w p = Some q \<and> 0 \<le> p_fd q
     \<and> p \<in> poll_set (poll_threads w ! tid_of w (p_fd q)))"

lemma spareE:
  assumes "spare k w p"
  obtains q where "poll_ok w" "pobjs w p = Some q" "held (poll_threads w ! tid_of w (p_fd q)) p + int k < p_ref q"
  using assms by (auto simp: spare_def)

lemma update_mode_length:
  "PollMgr_update_mode p m w = Inr w' \<Longrightarrow> length (poll_threads w') = length (poll_threads w)"
  by (auto simp: PollMgr_update_mode_def PollThread_update_mode_def obj_def Let_def rbind_eq_Inr_iff
      split: if_splits option.splits)

lemma update_mode_spare:
  assumes "spare k w p"
  shows "\<exists>w'. PollMgr_update_mode p m w = Inr w' \<and> spare k w' p \<and> pobjs w' = pobjs w
    \<and> (registered w p \<longrightarrow> registered w' p)"
proof -
  obtain q where q: "poll_ok w" "pobjs w p = Some q"
    "held (poll_threads w ! tid_of w (p_fd q)) p + int k < p_ref q" using assms by (rule spareE)
  obtain w' where u: "PollMgr_update_mode p m w = Inr w'" "poll_ok w'" "pobjs w' = pobjs w"
    "\<forall>s. poll_set (poll_threads w' ! s) = poll_set (poll_threads w ! s)
          \<and> pending_remove (poll_threads w' ! s) = pending_remove (poll_threads w ! s)"
    using update_mode_keeps [OF q(1,2)] by blast
  have "tid_of w' fd = tid_of w fd" for fd using update_mode_length [OF u(1)] by (simp add: tid_of_def)
  with u q show ?thesis by (auto simp: spare_def registered_def held_def)
qed

lemma ref_copy_spare:
  assumes "spare k w p"
  shows "\<exists>w'. Pollable_ref_copy p w = Inr w' \<and> spare (Suc k) w' p \<and> poll_threads w' = poll_threads w
    \<and> (registered w p \<longrightarrow> registered w' p)"
proof -
  obtain q where q: "poll_ok w" "pobjs w p = Some q"
    "held (poll_threads w ! tid_of w (p_fd q)) p + int k < p_ref q" using assms by (rule spareE)
  let ?w = "w\<lparr>pobjs := (pobjs w)(p \<mapsto> q\<lparr>p_ref := p_ref q + 1\<rparr>)\<rparr>"
  have r: "Pollable_ref_copy p w = Inr ?w" using q(2) by (simp add: Pollable_ref_copy_def obj_def)
  with ref_copy_keeps(1) [OF q(1) r] q show ?thesis
    by (auto simp: spare_def registered_def tid_of_def)
qed

lemma release_spare:
  assumes "spare (Suc k) w p"
  shows "\<exists>w'. Pollable_release p w = Inr w' \<and> spare k w' p \<and> poll_threads w' = poll_threads w
    \<and> pobjs w' p \<noteq> None \<and> (registered w p \<longrightarrow> registered w' p)"
proof -
  obtain q where q: "poll_ok w" "pobjs w p = Some q"
    "held (poll_threads w ! tid_of w (p_fd q)) p + int (Suc k) < p_ref q" using assms by (rule spareE)
  have h: "0 \<le> held (poll_threads w ! tid_of w (p_fd q)) p" by (simp add: held_def)
  let ?w = "w\<lparr>pobjs := (pobjs w)(p \<mapsto> q\<lparr>p_ref := p_ref q - 1\<rparr>)\<rparr>"
  have r: "Pollable_release p w = Inr ?w" using q(2,3) h by (simp add: Pollable_release_def obj_def Let_def)
  have "poll_ok ?w" by (rule release_keeps [OF q(1,2) _ r]) (use q(3) in simp)
  with r q(2,3) show ?thesis by (auto simp: spare_def registered_def tid_of_def)
qed

text \<open>The owner's last reference: the pollable dies exactly when no poll thread holds it any more.\<close>

lemma release_last:
  assumes "spare 0 w p" and "pobjs w p = Some q" and "\<not> spare 1 w p"
  shows "\<exists>w'. Pollable_release p w = Inr w' \<and> poll_ok w' \<and> poll_threads w' = poll_threads w
    \<and> (pobjs w' p = None \<longleftrightarrow> held (poll_threads w ! tid_of w (p_fd q)) p = 0)"
proof -
  let ?h = "held (poll_threads w ! tid_of w (p_fd q)) p"
  have q: "poll_ok w" "p_ref q = ?h + 1" using assms by (auto simp: spare_def)
  have h: "0 \<le> ?h" by (simp add: held_def)
  let ?w = "w\<lparr>pobjs := (pobjs w)(p := if ?h = 0 then None else Some (q\<lparr>p_ref := p_ref q - 1\<rparr>))\<rparr>"
  have r: "Pollable_release p w = Inr ?w" using assms(2) q h by (simp add: Pollable_release_def obj_def Let_def)
  have "poll_ok ?w" by (rule release_keeps [OF q(1) assms(2) _ r]) (simp add: q(2))
  with r show ?thesis by auto
qed

lemma remove_spare:
  assumes "spare k w p" and "registered w p" and "pobjs w p = Some q"
  shows "\<exists>w'. PollMgr_remove p w = Inr w' \<and> spare k w' p \<and> pobjs w' = pobjs w
    \<and> mode (poll_threads w' ! tid_of w' (p_fd q)) (p_fd q) = None
    \<and> held (poll_threads w' ! tid_of w' (p_fd q)) p = 1 \<and> \<not> registered w' p"
proof -
  let ?t = "tid_of w (p_fd q)" and ?th = "poll_threads w ! tid_of w (p_fd q)"
  have q: "poll_ok w" "held ?th p + int k < p_ref q" "0 \<le> p_fd q" "p \<in> poll_set ?th"
    using assms by (auto simp: spare_def registered_def)
  note t = tid_of_less [OF q(1), of "p_fd q"]
  have "table_ok (fd_of w) ?th" using q(1) t by (simp add: poll_ok_def thread_ok_def)
  then have m: "mode ?th (p_fd q) \<noteq> None" using table_okD(2) q(4) assms(3) by (fastforce simp: fd_of_def)
  let ?th' = "?th\<lparr>poll_set := poll_set ?th - {p}, mode := (mode ?th)(p_fd q := None),
      pending_remove := insert p (pending_remove ?th)\<rparr>"
  have r: "PollMgr_remove p w = Inr (set_thread ?t ?th' w)"
    using assms(3) q m by (auto simp: PollMgr_remove_def PollThread_remove_def obj_def Let_def)
  have tid: "tid_of (set_thread ?t ?th' w) fd = tid_of w fd" for fd by (simp add: tid_of_def set_thread_def)
  have th: "poll_threads (set_thread ?t ?th' w) ! ?t = ?th'" using t by (simp add: set_thread_def)
  have obj: "pobjs (set_thread ?t ?th' w) = pobjs w" by (simp add: set_thread_def)
  have "held ?th' p \<le> held ?th p" using q(4) by (simp add: held_def)
  then have "spare k (set_thread ?t ?th' w) p"
    using remove_keeps [OF q(1) r] assms(3) q(2) by (simp add: spare_def obj tid th)
  then show ?thesis using r assms(3) by (auto simp: obj tid th held_def registered_def)
qed

lemma os_close_spare:
  assumes "spare k w p" and "pobjs w p = Some q" and "mode (poll_threads w ! tid_of w fd) fd = None"
  shows "spare k (os_close fd w) p" "pobjs (os_close fd w) = pobjs w"
    "held (poll_threads (os_close fd w) ! tid_of (os_close fd w) (p_fd q)) p
       = held (poll_threads w ! tid_of w (p_fd q)) p"
proof -
  have ok: "poll_ok w" using assms(1) by (simp add: spare_def)
  let ?t = "tid_of w fd"
  note t = tid_of_less [OF ok, of fd]
  have "poll_step w (os_close fd w)"
    unfolding os_close_def Let_def by (rule poll_step.close_fd [OF t assms(3)])
  then have ok': "poll_ok (os_close fd w)" using ok by (rule step_keeps)
  have tid: "tid_of (os_close fd w) x = tid_of w x" for x
    by (simp add: os_close_def tid_of_def set_thread_def Let_def)
  show obj: "pobjs (os_close fd w) = pobjs w" by (simp add: os_close_def set_thread_def Let_def)
  have h: "held (poll_threads (os_close fd w) ! s) p = held (poll_threads w ! s) p" for s
    using t by (cases "s = ?t") (simp_all add: os_close_def set_thread_def held_def Let_def)
  then show "held (poll_threads (os_close fd w) ! tid_of (os_close fd w) (p_fd q)) p
      = held (poll_threads w ! tid_of w (p_fd q)) p" by (simp add: tid)
  from ok' h assms(1) show "spare k (os_close fd w) p" by (simp add: spare_def tid obj)
qed

lemma os_close_registered:
  assumes "spare k w p"
  shows "registered (os_close fd w) x = registered w x"
proof -
  have t: "tid_of (os_close fd w) y = tid_of w y" for y by (simp add: tid_of_def os_close_def set_thread_def Let_def)
  have "poll_set (poll_threads (os_close fd w) ! i) = poll_set (poll_threads w ! i)" for i
    using tid_of_less [of w fd] assms by (cases "i = tid_of w fd") (simp_all add: spare_def os_close_def set_thread_def Let_def)
  moreover have "pobjs (os_close fd w) = pobjs w" by (simp add: os_close_def set_thread_def Let_def)
  ultimately show ?thesis by (simp add: registered_def t)
qed

text \<open>A new pollable with a descriptor nobody uses, registered by its owner.\<close>

lemma add_spare:
  assumes ok: "poll_ok w" and new: "pobjs w p = None" and fd: "0 \<le> fd"
    and free: "mode (poll_threads w ! tid_of w fd) fd = None" "epoll (poll_threads w ! tid_of w fd) fd = None"
  shows "\<exists>w'. PollMgr_add p (w\<lparr>pobjs := (pobjs w)(p \<mapsto> \<lparr>p_fd = fd, p_mode = m, p_ref = 1\<rparr>)\<rparr>) = Inr w'
    \<and> spare 0 w' p \<and> \<not> spare 1 w' p \<and> registered w' p \<and> pobjs w' p = Some \<lparr>p_fd = fd, p_mode = m, p_ref = 2\<rparr>
    \<and> (\<forall>x. x \<noteq> p \<longrightarrow> pobjs w' x = pobjs w x)"
proof -
  let ?w = "w\<lparr>pobjs := (pobjs w)(p \<mapsto> \<lparr>p_fd = fd, p_mode = m, p_ref = 1\<rparr>)\<rparr>"
  let ?t = "tid_of w fd" and ?th = "poll_threads w ! tid_of w fd"
  note t = tid_of_less [OF ok, of fd]
  have own: "owns_ok (length (poll_threads w)) ?t (fd_of w) (ref_of w) ?th"
    using ok t by (simp add: poll_ok_def thread_ok_def)
  then have out: "p \<notin> poll_set ?th" "p \<notin> pending_remove ?th"
    using owns_okD(2) [OF own, of p] new by (auto simp: fd_of_def)
  let ?th' = "?th\<lparr>poll_set := insert p (poll_set ?th), mode := (mode ?th)(fd \<mapsto> m),
      epoll := (epoll ?th)(fd \<mapsto> (p, add_events m))\<rparr>"
  define w' where "w' = set_thread ?t ?th' (w\<lparr>pobjs := (pobjs w)(p \<mapsto> \<lparr>p_fd = fd, p_mode = m, p_ref = 2\<rparr>)\<rparr>)"
  have add: "PollMgr_add p ?w = Inr w'"
    using fd free out t
    by (simp add: PollMgr_add_def PollThread_add_def Pollable_ref_copy_def epoll_add_def obj_def Let_def
        tid_of_def set_thread_def w'_def)
  have ok': "poll_ok w'" by (rule add_keeps [OF create_keeps [OF ok new] add])
  have "tid_of w' fd = ?t" "poll_threads w' ! ?t = ?th'"
    "pobjs w' = (pobjs w)(p \<mapsto> \<lparr>p_fd = fd, p_mode = m, p_ref = 2\<rparr>)"
    using t by (simp_all add: tid_of_def set_thread_def w'_def)
  moreover have "held ?th' p = 1" using out by (simp add: held_def)
  ultimately show ?thesis using add ok' fd by (simp add: spare_def registered_def)
qed

end
