(* ===== verification/Udp_Buffer.thy ===== *)
theory Udp_Buffer
  imports Marshal_Codec
begin

text \<open>
  The class \<open>UdpBuffer\<close> of \<open>rpc/marshal.h\<close>: a \<open>Marshal\<close> whose whole content is sent as one
  datagram, through an array as large as the largest datagram. \<open>get_buf\<close> returns the pointer
  (\<open>None\<close> for null), and the values of the two out-parameters.
\<close>

section \<open>Definitions\<close>

definition max_udp_packet_size :: nat where
  "max_udp_packet_size = 65507"

record udp_buffer =
  base :: marshal
  buf :: "byte list"

definition UdpBuffer_new :: "heap \<Rightarrow> udp_buffer" where
  "UdpBuffer_new h = \<lparr>base = Marshal_new, buf = stack_junk h max_udp_packet_size\<rparr>"

definition UdpBuffer_delete :: "udp_buffer \<Rightarrow> heap \<Rightarrow> heap res" where
  "UdpBuffer_delete u h = Marshal_delete (base u) h"

definition get_buf ::
  "heap \<Rightarrow> udp_buffer \<Rightarrow> (byte list option \<times> nat \<times> bool \<times> udp_buffer \<times> heap) res" where
  "get_buf h u =
     rbind (Marshal_empty h (base u)) (\<lambda>e.
       if \<not> e then
         rbind (Marshal_content_size h (base u)) (\<lambda>sz.
           if sz > max_udp_packet_size then Inr (None, max_udp_packet_size, True, u, h)
           else
             rbind (Marshal_content_size h (base u)) (\<lambda>n.
             rbind (Marshal_read h (base u) n) (\<lambda>(out, m', h').
               if length (buf u) < length out then Inl OutOfBounds
               else
                 let b = out @ drop (length out) (buf u) in
                 Inr (Some b, length out, False, u\<lparr>base := m', buf := b\<rparr>, h'))))
       else Inr (Some (buf u), 0, False, u, h))"

definition udp_put_marshal :: "heap \<Rightarrow> udp_buffer \<Rightarrow> marshal \<Rightarrow> (udp_buffer \<times> marshal \<times> heap) res" where
  "udp_put_marshal h u v =
     rbind (Marshal_content_size h v) (\<lambda>n.
     rbind (read_from_marshal h (base u) v n) (\<lambda>(_, t, v', h'). Inr (u\<lparr>base := t\<rparr>, v', h')))"

definition udp_put :: "'a put \<Rightarrow> heap \<Rightarrow> udp_buffer \<Rightarrow> 'a \<Rightarrow> (udp_buffer \<times> heap) res" where
  "udp_put put h u v = rbind (put h (base u) v) (\<lambda>(m, h'). Inr (u\<lparr>base := m\<rparr>, h'))"

definition udp_get :: "'a get \<Rightarrow> heap \<Rightarrow> udp_buffer \<Rightarrow> ('a \<times> udp_buffer \<times> heap) res" where
  "udp_get get h u = rbind (get h (base u)) (\<lambda>(v, m, h'). Inr (v, u\<lparr>base := m\<rparr>, h'))"

section \<open>Properties\<close>

definition udp_ok :: "heap \<Rightarrow> udp_buffer \<Rightarrow> addr multiset \<Rightarrow> bool" where
  "udp_ok h u R \<longleftrightarrow> buf_ok h (base u) R \<and> length (buf u) = max_udp_packet_size"

lemma get_buf_ok:
  assumes "udp_ok h u R"
  shows "\<exists>p sz u' h' k.
    get_buf h u = Inr (p, sz, max_udp_packet_size < length (bytes h (base u)), u', h')
    \<and> udp_ok h' u' R \<and> sz \<le> max_udp_packet_size \<and> consumes R h (base u) k h' (base u')
    \<and> (if max_udp_packet_size < length (bytes h (base u)) then p = None \<and> u' = u \<and> h' = h
       else (\<exists>b. p = Some b \<and> b = buf u' \<and> take sz b = bytes h (base u)) \<and> bytes h' (base u') = [])"
proof -
  have ok: "buf_ok h (base u) R" "wf_marshal h (base u)" "length (buf u) = max_udp_packet_size"
    using assms by (simp_all add: udp_ok_def buf_ok_def)
  note keep = consumes_refl [OF ok(1)]
  let ?b = "bytes h (base u)"
  consider "?b = []" | "max_udp_packet_size < length ?b"
    | "?b \<noteq> []" "length ?b \<le> max_udp_packet_size" by fastforce
  then show ?thesis
  proof cases
    case 3
    obtain m' h' where r: "Marshal_read h (base u) (length ?b) = Inr (?b, m', h')"
      "consumes R h (base u) (length ?b) h' m'"
      using Marshal_read_ok [OF ok(1), of "length ?b"] by auto
    with 3 ok have "get_buf h u = Inr (Some (?b @ drop (length ?b) (buf u)), length ?b, False,
        u\<lparr>base := m', buf := ?b @ drop (length ?b) (buf u)\<rparr>, h')"
      by (simp add: get_buf_def Let_def)
    then show ?thesis using 3 ok(3) r(2) consumes_buf_ok [OF r(2)] by (auto simp add: udp_ok_def)
  next
    case 1
    then have "get_buf h u = Inr (Some (buf u), 0, False, u, h)" using ok by (simp add: get_buf_def)
    with 1 assms keep show ?thesis
      by (intro exI [of _ "Some (buf u)"] exI [of _ "0 :: nat"] exI [of _ u] exI [of _ h]) simp
  next
    case 2
    then have "get_buf h u = Inr (None, max_udp_packet_size, True, u, h)"
      using ok by (auto simp: get_buf_def max_udp_packet_size_def)
    with 2 assms keep show ?thesis
      by (intro exI [of _ None] exI [of _ max_udp_packet_size] exI [of _ u] exI [of _ h] exI [of _ "0 :: nat"]) simp
  qed
qed

text \<open>
  \<open>get_buf\<close> never fails and never runs over its array. A content of at most 65507 bytes is
  handed out whole, as the first bytes of the array, and leaves the buffer empty; a larger one is
  reported as an overflow and stays where it is, so that it is reported again.
\<close>

theorem udp_get_buf_whole_or_overflow:
  assumes "udp_ok h u R"
  shows "\<exists>p sz u' h'.
    get_buf h u = Inr (p, sz, max_udp_packet_size < length (bytes h (base u)), u', h')
    \<and> udp_ok h' u' R \<and> sz \<le> max_udp_packet_size
    \<and> (if max_udp_packet_size < length (bytes h (base u)) then p = None \<and> u' = u \<and> h' = h
       else (\<exists>b. p = Some b \<and> b = buf u' \<and> take sz b = bytes h (base u)) \<and> bytes h' (base u') = [])"
  using get_buf_ok [OF assms] by blast

definition demo_udp :: udp_buffer where
  "demo_udp = \<lparr>base = demo_buf, buf = replicate max_udp_packet_size 0\<rparr>"

theorem udp_get_buf_whole_or_overflow_witness:
  "\<exists>b u' h'. get_buf demo_heap demo_udp = Inr (Some b, 3, False, u', h') \<and> take 3 b = [11, 12, 13]
     \<and> bytes h' (base u') = []"
proof -
  have "udp_ok demo_heap demo_udp {#}" using demo_ok by (simp add: udp_ok_def demo_udp_def)
  from udp_get_buf_whole_or_overflow [OF this] obtain b sz u' h' where
    g: "get_buf demo_heap demo_udp = Inr (Some b, sz, False, u', h')" "take sz b = [11, 12, 13]"
      "bytes h' (base u') = []" "sz \<le> max_udp_packet_size" "length b = max_udp_packet_size"
    by (auto simp: demo_udp_def demo_bytes max_udp_packet_size_def udp_ok_def)
  have "length (take sz b) = 3" by (simp only: g(2)) simp
  then have "sz = 3" using g(4,5) by simp
  with g show ?thesis by auto
qed

end
