(* ===== verification/Rpc_Server.thy ===== *)
theory Rpc_Server
  imports Rpc_Message Poll_Refs Udp_Buffer
begin

text \<open>
  The server side of \<open>rpc/server.cc\<close> and \<open>rpc/server.h\<close>: cutting requests out of the stream of a
  TCP connection or out of a datagram, dispatching them to the registered handlers, replying, and
  the life of a connection. The state is everything these operations touch: the heap of the
  buffers, the poll manager that knows the connections as pollables, the connections themselves,
  the set and the counter of open connections, and the set of missing method numbers. Handlers are
  user code: parameters that take the request and the connection and act on this state, which the
  record leaves open for the state of the user's services. \<open>out_l_\<close> is
  held from \<open>begin_reply\<close> to \<open>end_reply\<close>, so that a reply is one uninterrupted sequence of writes.
\<close>

section \<open>Definitions\<close>

record request =
  req_m :: marshal
  req_xid :: i64

datatype conn_status = CONNECTED | CLOSED

record tcp_conn =
  sc_in :: marshal
  sc_out :: marshal
  sc_bmark :: "bookmark option"
  sc_status :: conn_status
  sc_sock :: int

record sstate =
  ss_heap :: heap
  ss_poll :: poll_world
  ss_conns :: "pid \<Rightarrow> tcp_conn option"
  ss_sconns :: "pid set"
  ss_ctr :: i64
  ss_missing :: "i32 set"

type_synonym 'u rpc_handler = "request \<Rightarrow> pid \<Rightarrow> 'u sstate_scheme \<Rightarrow> 'u sstate_scheme res"

definition EINVAL :: i32 where "EINVAL = 22"
definition ENOENT :: i32 where "ENOENT = 2"
definition EEXIST :: int where "EEXIST = 17"

text \<open>Using a connection through a pointer: an error once it is deleted.\<close>

definition conn :: "pid \<Rightarrow> 'u sstate_scheme \<Rightarrow> tcp_conn res" where
  "conn p s = (case ss_conns s p of None \<Rightarrow> Inl UseAfterFree | Some c \<Rightarrow> Inr c)"

definition set_conn :: "pid \<Rightarrow> tcp_conn \<Rightarrow> heap \<Rightarrow> 'u sstate_scheme \<Rightarrow> 'u sstate_scheme" where
  "set_conn p c h s = s\<lparr>ss_heap := h, ss_conns := (ss_conns s)(p \<mapsto> c)\<rparr>"

subsection \<open>Cutting packets\<close>

definition take_packet :: "heap \<Rightarrow> marshal \<Rightarrow> (marshal \<times> marshal \<times> heap) res" where
  "take_packet h m =
     rbind (Marshal_read h m 4) (\<lambda>(b, m1, h1).
     rbind (verify (length b = 4)) (\<lambda>_.
       let packet_size = from_le b in
       rbind (read_from_marshal h1 Marshal_new m1 (as_size packet_size)) (\<lambda>(n, t, m2, h2).
       rbind (verify (n = as_size packet_size)) (\<lambda>_. Inr (t, m2, h2)))))"

lemma Marshal_read_content:
  "Marshal_read h m n = Inr (b, m', h') \<Longrightarrow> length b \<le> content_size m \<and> content_size m' = content_size m - length b"
  by (auto simp: Marshal_read_def rbind_eq_Inr_iff Let_def)

text \<open>A new buffer has no chunk to fill up: it takes the bytes by pointer.\<close>

lemma read_from_marshal_new_content:
  "read_from_marshal h Marshal_new m n = Inr (k, t', m', h') \<Longrightarrow> content_size m' \<le> content_size m"
  unfolding read_from_marshal.simps [of h Marshal_new m n]
  by (auto simp: Marshal_new_def rbind_eq_Inr_iff Let_def)

lemma take_packet_content:
  "take_packet h m = Inr (t, m', h') \<Longrightarrow> content_size m' < content_size m"
  by (auto simp: take_packet_def rbind_eq_Inr_iff Let_def
      dest!: Marshal_read_content read_from_marshal_new_content)

function collect_requests :: "heap \<Rightarrow> marshal \<Rightarrow> (request list \<times> marshal \<times> heap) res" where
  "collect_requests h m =
     rbind (packet_waiting h m) (\<lambda>waiting.
       case waiting of
           None \<Rightarrow> Inr ([], m, h)
         | Some _ \<Rightarrow>
             rbind (take_packet h m) (\<lambda>(t, m1, h1).
             rbind (get_v64 h1 t) (\<lambda>(xid, t1, h2).
             rbind (collect_requests h2 m1) (\<lambda>(rest, m2, h3).
               Inr (\<lparr>req_m = t1, req_xid = xid\<rparr> # rest, m2, h3)))))"
  by pat_completeness auto
termination
  by (relation "measure (\<lambda>(h, m). content_size m)") (auto dest: take_packet_content)

declare collect_requests.simps [simp del]

function collect_udp_requests :: "heap \<Rightarrow> marshal \<Rightarrow> (request list \<times> marshal \<times> heap) res" where
  "collect_udp_requests h m =
     rbind (packet_waiting h m) (\<lambda>waiting.
       case waiting of
           None \<Rightarrow> Inr ([], m, h)
         | Some _ \<Rightarrow>
             rbind (take_packet h m) (\<lambda>(t, m1, h1).
             rbind (collect_udp_requests h1 m1) (\<lambda>(rest, m2, h3).
               Inr (\<lparr>req_m = t, req_xid = - 1\<rparr> # rest, m2, h3))))"
  by pat_completeness auto
termination
  by (relation "measure (\<lambda>(h, m). content_size m)") (auto dest: take_packet_content)

declare collect_udp_requests.simps [simp del]

subsection \<open>Replies\<close>

definition conn_put :: "'a put \<Rightarrow> pid \<Rightarrow> 'a \<Rightarrow> 'u sstate_scheme \<Rightarrow> 'u sstate_scheme res" where
  "conn_put put p v s =
     rbind (conn p s) (\<lambda>c.
     rbind (put (ss_heap s) (sc_out c) v) (\<lambda>(m, h). Inr (set_conn p (c\<lparr>sc_out := m\<rparr>) h s)))"

definition write_marshal :: "pid \<Rightarrow> marshal \<Rightarrow> 'u sstate_scheme \<Rightarrow> (marshal \<times> 'u sstate_scheme) res" where
  "write_marshal p m s =
     rbind (conn p s) (\<lambda>c.
     rbind (Marshal_content_size (ss_heap s) m) (\<lambda>n.
     rbind (read_from_marshal (ss_heap s) (sc_out c) m n) (\<lambda>(_, out, m', h).
       Inr (m', set_conn p (c\<lparr>sc_out := out\<rparr>) h s))))"

definition begin_reply :: "pid \<Rightarrow> i64 \<Rightarrow> i32 \<Rightarrow> 'u sstate_scheme \<Rightarrow> 'u sstate_scheme res" where
  "begin_reply p xid error_code s =
     rbind (conn p s) (\<lambda>c.
     rbind (set_bookmark (ss_heap s) (sc_out c) 4) (\<lambda>(bm, m, h).
     rbind (conn_put put_v64 p xid (set_conn p (c\<lparr>sc_out := m, sc_bmark := Some bm\<rparr>) h s))
       (conn_put put_v32 p error_code)))"

definition end_reply :: "pid \<Rightarrow> 'u sstate_scheme \<Rightarrow> 'u sstate_scheme res" where
  "end_reply p s =
     rbind (conn p s) (\<lambda>c.
     rbind (end_message (ss_heap s) (sc_out c) (sc_bmark c)) (\<lambda>(m, h).
     rbind (PollMgr_update_mode p (READ OR WRITE) (ss_poll s)) (\<lambda>pw.
       Inr (set_conn p (c\<lparr>sc_out := m, sc_bmark := None\<rparr>) h (s\<lparr>ss_poll := pw\<rparr>)))))"

definition delete_request :: "request \<Rightarrow> 'u sstate_scheme \<Rightarrow> 'u sstate_scheme res" where
  "delete_request req s = rbind (Marshal_delete (req_m req) (ss_heap s)) (\<lambda>h. Inr (s\<lparr>ss_heap := h\<rparr>))"

text \<open>A reply without result values, as the connection itself sends for a bad request.\<close>

definition reply_error :: "pid \<Rightarrow> request \<Rightarrow> i32 \<Rightarrow> 'u sstate_scheme \<Rightarrow> 'u sstate_scheme res" where
  "reply_error p req err s =
     rbind (begin_reply p (req_xid req) err s) (\<lambda>s1.
     rbind (end_reply p s1) (delete_request req))"

subsection \<open>Dispatch\<close>

definition serve_one :: "(i32 \<Rightarrow> 'u rpc_handler option) \<Rightarrow> pid \<Rightarrow> request \<Rightarrow> 'u sstate_scheme \<Rightarrow> 'u sstate_scheme res" where
  "serve_one handlers p req s =
     rbind (Marshal_content_size (ss_heap s) (req_m req)) (\<lambda>sz.
       if sz < 4 then reply_error p req EINVAL s
       else
         rbind (get_i32 (ss_heap s) (req_m req)) (\<lambda>(rpc_id, m, h).
           let s1 = s\<lparr>ss_heap := h\<rparr>; req1 = req\<lparr>req_m := m\<rparr> in
           case handlers rpc_id of
               Some f \<Rightarrow>
                 rbind (Pollable_ref_copy p (ss_poll s1)) (\<lambda>pw. f req1 p (s1\<lparr>ss_poll := pw\<rparr>))
             | None \<Rightarrow> reply_error p req1 ENOENT (s1\<lparr>ss_missing := insert rpc_id (ss_missing s1)\<rparr>)))"

fun serve_all :: "(i32 \<Rightarrow> 'u rpc_handler option) \<Rightarrow> pid \<Rightarrow> request list \<Rightarrow> 'u sstate_scheme \<Rightarrow> 'u sstate_scheme res" where
  "serve_all handlers p [] s = Inr s"
| "serve_all handlers p (req # reqs) s = rbind (serve_one handlers p req s) (serve_all handlers p reqs)"

text \<open>\<open>int bytes_read\<close> keeps the low 32 bits of the count.\<close>

definition handle_read ::
  "(i32 \<Rightarrow> 'u rpc_handler option) \<Rightarrow> pid \<Rightarrow> in_fd \<Rightarrow> 'u sstate_scheme \<Rightarrow> ('u sstate_scheme \<times> in_fd) res" where
  "handle_read handlers p fd s =
     rbind (conn p s) (\<lambda>c.
       if sc_status c = CLOSED then Inr (s, fd)
       else
         rbind (Marshal_read_from_fd (ss_heap s) (sc_in c) fd) (\<lambda>(n, m, h, fd').
           if (of_nat n :: i32) = 0 then Inr (set_conn p (c\<lparr>sc_in := m\<rparr>) h s, fd')
           else
             rbind (collect_requests h m) (\<lambda>(reqs, m2, h2).
             rbind (serve_all handlers p reqs (set_conn p (c\<lparr>sc_in := m2\<rparr>) h2 s)) (\<lambda>s2.
               Inr (s2, fd')))))"

definition handle_write :: "pid \<Rightarrow> out_fd \<Rightarrow> 'u sstate_scheme \<Rightarrow> ('u sstate_scheme \<times> out_fd) res" where
  "handle_write p fd s =
     rbind (conn p s) (\<lambda>c.
       if sc_status c = CLOSED then Inr (s, fd)
       else
         rbind (Marshal_write_to_fd (ss_heap s) (sc_out c) fd) (\<lambda>(n, m, h, fd').
           let s1 = set_conn p (c\<lparr>sc_out := m\<rparr>) h s in
           rbind (Marshal_empty h m) (\<lambda>e.
             if e then
               rbind (PollMgr_update_mode p READ (ss_poll s1)) (\<lambda>pw. Inr (s1\<lparr>ss_poll := pw\<rparr>, fd'))
             else Inr (s1, fd'))))"

definition conn_poll_mode :: "pid \<Rightarrow> 'u sstate_scheme \<Rightarrow> i32 res" where
  "conn_poll_mode p s =
     rbind (conn p s) (\<lambda>c.
     rbind (Marshal_empty (ss_heap s) (sc_out c)) (\<lambda>e. Inr (if \<not> e then READ OR WRITE else READ)))"

subsection \<open>Connections\<close>

text \<open>
  \<open>server_loop\<close> on a new client, at the address \<open>p\<close> the allocator gave; \<open>release\<close> of a connection:
  when the last reference goes, its destructor counts it out and its two buffers free their chunks.
\<close>

definition server_accept :: "pid \<Rightarrow> int \<Rightarrow> 'u sstate_scheme \<Rightarrow> 'u sstate_scheme res" where
  "server_accept p clnt_socket s =
     (let c = \<lparr>sc_in = Marshal_new, sc_out = Marshal_new, sc_bmark = None, sc_status = CONNECTED,
               sc_sock = clnt_socket\<rparr>;
          pw = (ss_poll s)\<lparr>pobjs := (pobjs (ss_poll s))
                 (p \<mapsto> \<lparr>p_fd = clnt_socket, p_mode = READ, p_ref = 1\<rparr>)\<rparr> in
      rbind (PollMgr_add p pw) (\<lambda>pw'.
        Inr (s\<lparr>ss_conns := (ss_conns s)(p \<mapsto> c), ss_ctr := ss_ctr s + 1,
               ss_sconns := insert p (ss_sconns s), ss_poll := pw'\<rparr>)))"

definition conn_release :: "pid \<Rightarrow> 'u sstate_scheme \<Rightarrow> 'u sstate_scheme res" where
  "conn_release p s =
     rbind (conn p s) (\<lambda>c.
     rbind (Pollable_release p (ss_poll s)) (\<lambda>pw.
       if pobjs pw p = None then
         rbind (Marshal_delete (sc_out c) (ss_heap s)) (\<lambda>h1.
         rbind (Marshal_delete (sc_in c) h1) (\<lambda>h2.
           Inr (s\<lparr>ss_poll := pw, ss_ctr := ss_ctr s - 1, ss_heap := h2,
                  ss_conns := (ss_conns s)(p := None)\<rparr>)))
       else Inr (s\<lparr>ss_poll := pw\<rparr>)))"

definition conn_close :: "pid \<Rightarrow> 'u sstate_scheme \<Rightarrow> 'u sstate_scheme res" where
  "conn_close p s =
     rbind (conn p s) (\<lambda>c.
       if sc_status c = CONNECTED then
         if p \<notin> ss_sconns s then Inr s
         else
           rbind (PollMgr_remove p (ss_poll s)) (\<lambda>pw.
             conn_release p (set_conn p (c\<lparr>sc_status := CLOSED\<rparr>) (ss_heap s)
               (s\<lparr>ss_sconns := ss_sconns s - {p}, ss_poll := os_close (sc_sock c) pw\<rparr>)))
       else Inr s)"

definition handle_error :: "pid \<Rightarrow> 'u sstate_scheme \<Rightarrow> 'u sstate_scheme res" where
  "handle_error p s = conn_close p s"

text \<open>
  \<open>DeferredReply::reply\<close> and the destructor it ends in; \<open>marshal_reply_\<close> and \<open>cleanup_\<close> are user code.
\<close>

definition DeferredReply_delete :: "request \<Rightarrow> pid \<Rightarrow> ('u sstate_scheme \<Rightarrow> 'u sstate_scheme res) \<Rightarrow> 'u sstate_scheme \<Rightarrow> 'u sstate_scheme res" where
  "DeferredReply_delete req p cleanup s =
     rbind (cleanup s) (\<lambda>s1.
     rbind (delete_request req s1) (conn_release p))"

definition DeferredReply_reply ::
  "request \<Rightarrow> pid \<Rightarrow> ('u sstate_scheme \<Rightarrow> 'u sstate_scheme res) \<Rightarrow> ('u sstate_scheme \<Rightarrow> 'u sstate_scheme res) \<Rightarrow> 'u sstate_scheme \<Rightarrow> 'u sstate_scheme res" where
  "DeferredReply_reply req p marshal_reply cleanup s =
     rbind (begin_reply p (req_xid req) 0 s) (\<lambda>s1.
     rbind (marshal_reply s1) (\<lambda>s2.
     rbind (end_reply p s2) (DeferredReply_delete req p cleanup)))"

subsection \<open>Datagrams\<close>

text \<open>
  \<open>recv\<close> is the answer of \<open>recvfrom\<close>: \<open>None\<close> for -1, which the code takes as a length, or the bytes
  of the datagram, cut to the size of the array. Nothing is replied, and a request without a method
  number is dropped.
\<close>

definition udp_serve_one :: "(i32 \<Rightarrow> 'u rpc_handler option) \<Rightarrow> pid \<Rightarrow> request \<Rightarrow> 'u sstate_scheme \<Rightarrow> 'u sstate_scheme res" where
  "udp_serve_one handlers p req s =
     rbind (Marshal_content_size (ss_heap s) (req_m req)) (\<lambda>sz.
       if sz < 4 then delete_request req s
       else
         rbind (get_i32 (ss_heap s) (req_m req)) (\<lambda>(rpc_id, m, h).
           let s1 = s\<lparr>ss_heap := h\<rparr>; req1 = req\<lparr>req_m := m\<rparr> in
           case handlers rpc_id of
               Some f \<Rightarrow>
                 rbind (Pollable_ref_copy p (ss_poll s1)) (\<lambda>pw. f req1 p (s1\<lparr>ss_poll := pw\<rparr>))
             | None \<Rightarrow> delete_request req1 s1))"

fun udp_serve_all :: "(i32 \<Rightarrow> 'u rpc_handler option) \<Rightarrow> pid \<Rightarrow> request list \<Rightarrow> 'u sstate_scheme \<Rightarrow> 'u sstate_scheme res" where
  "udp_serve_all handlers p [] s = Inr s"
| "udp_serve_all handlers p (req # reqs) s =
     rbind (udp_serve_one handlers p req s) (udp_serve_all handlers p reqs)"

definition udp_handle_read ::
  "(i32 \<Rightarrow> 'u rpc_handler option) \<Rightarrow> pid \<Rightarrow> byte list option \<Rightarrow> 'u sstate_scheme \<Rightarrow> 'u sstate_scheme res" where
  "udp_handle_read handlers p recv s = (case recv of
       None \<Rightarrow> Inl OutOfBounds
     | Some b \<Rightarrow>
         rbind (Marshal_write (ss_heap s) Marshal_new (take max_udp_packet_size b)) (\<lambda>(n, m, h).
         rbind (collect_udp_requests h m) (\<lambda>(reqs, m2, h2).
         rbind (udp_serve_all handlers p reqs (s\<lparr>ss_heap := h2\<rparr>)) (\<lambda>s2.
         rbind (Marshal_delete m2 (ss_heap s2)) (\<lambda>h3. Inr (s2\<lparr>ss_heap := h3\<rparr>))))))"

text \<open>A handler that replies to a datagram stops the server.\<close>

definition udp_begin_reply :: "i64 \<Rightarrow> i32 \<Rightarrow> 'u sstate_scheme \<Rightarrow> 'u sstate_scheme res" where
  "udp_begin_reply xid error_code s = rbind (verify False) (\<lambda>_. Inr s)"

definition udp_end_reply :: "'u sstate_scheme \<Rightarrow> 'u sstate_scheme res" where
  "udp_end_reply s = rbind (verify False) (\<lambda>_. Inr s)"

subsection \<open>Registration\<close>

definition Server_reg ::
  "i32 \<Rightarrow> 'f \<Rightarrow> (i32 \<Rightarrow> 'f option) \<Rightarrow> int \<times> (i32 \<Rightarrow> 'f option)" where
  "Server_reg rpc_id func handlers =
     (if handlers rpc_id \<noteq> None then (EEXIST, handlers) else (0, handlers(rpc_id \<mapsto> func)))"

definition Server_unreg :: "i32 \<Rightarrow> (i32 \<Rightarrow> 'f option) \<Rightarrow> (i32 \<Rightarrow> 'f option)" where
  "Server_unreg rpc_id handlers = handlers(rpc_id := None)"

end
