(* ===== verification/Server_Correct.thy ===== *)
theory Server_Correct
  imports Rpc_Server
begin

text \<open>
  Proofs about the server: what the receive loops make of a stream of packets, the form of a reply
  and what it leaves alone, what each kind of request is answered with, and the life of a connection.
\<close>

section \<open>Cutting packets\<close>

text \<open>
  Taking bytes out of a buffer: \<open>T\<close> are the references that now belong to what was taken. Other
  buffers keep their content, and what the source could not write under it still cannot.
\<close>

definition takes ::
  "addr multiset \<Rightarrow> addr multiset \<Rightarrow> heap \<Rightarrow> marshal \<Rightarrow> heap \<Rightarrow> marshal \<Rightarrow> bool" where
  "takes T R h m h' m' \<longleftrightarrow> buf_ok h' m' (T + R) \<and> (\<forall>b. set_mset (refs b) \<subseteq> set_mset R \<longrightarrow> same_buf h h' b)
     \<and> (\<forall>b. set_mset (refs b) \<subseteq> set_mset R \<and> clear m b \<longrightarrow> clear m' b)
     \<and> (\<forall>b. disjoint_bufs m b \<longrightarrow> set_mset T \<inter> set_mset (refs b) = {} \<and> disjoint_bufs m' b)"

lemma takesD:
  assumes "takes T R h m h' m'"
  shows "buf_ok h' m' (T + R)" "set_mset (refs b) \<subseteq> set_mset R \<Longrightarrow> same_buf h h' b"
    "set_mset (refs b) \<subseteq> set_mset R \<Longrightarrow> clear m b \<Longrightarrow> clear m' b"
    "disjoint_bufs m b \<Longrightarrow> set_mset T \<inter> set_mset (refs b) = {}" "disjoint_bufs m b \<Longrightarrow> disjoint_bufs m' b"
  using assms unfolding takes_def by blast+

lemma take_packet_ok:
  assumes ok: "buf_ok h m R" and b: "bytes h m = packet body @ rest" and len: "short_len (length body)"
  shows "\<exists>t m' h'. take_packet h m = Inr (t, m', h') \<and> takes (refs t) R h m h' m'
    \<and> wf_marshal h' t \<and> bytes h' t = body \<and> bytes h' m' = rest \<and> clear m' t"
proof -
  let ?n = "of_nat (length body) :: i32"
  have t4: "take 4 (bytes h m) = to_le 4 ?n" "4 \<le> length (bytes h m)" by (simp_all add: b packet_def)
  obtain m1 h1 where r: "Marshal_read h m 4 = Inr (to_le 4 ?n, m1, h1)" "consumes R h m 4 h1 m1"
    using Marshal_read_ok [OF ok, of 4] t4 by (auto simp: min_def)
  have ok1: "buf_ok h1 m1 R" "bytes h1 m1 = body @ rest"
    using consumes_buf_ok [OF r(2)] by (simp_all add: b packet_def)
  obtain t m2 h2 where s: "read_from_marshal h1 Marshal_new m1 (length body) = Inr (length body, t, m2, h2)"
    "moves R h1 Marshal_new m1 (length body) h2 t m2"
    using read_from_marshal_ok [of h1 Marshal_new m1 R "length body"] ok1 by (auto simp: buf_ok_def)
  have "take_packet h m = Inr (t, m2, h2)"
    using r(1) s(1) size_of_short(1) [OF len] by (simp add: take_packet_def Let_def)
  moreover have "same_buf h h2 b" if "set_mset (refs b) \<subseteq> set_mset R" for b
    using r(2) s(2) that by (intro same_buf_trans [of h h1 b h2]) (simp_all add: moves_def consumes_def)
  moreover have "clear m2 b" if "set_mset (refs b) \<subseteq> set_mset R" "clear m b" for b
    using r(2) s(2) that by (simp add: moves_def consumes_def)
  moreover have "set_mset (refs t) \<inter> set_mset (refs b) = {} \<and> disjoint_bufs m2 b" if "disjoint_bufs m b" for b
  proof -
    have m1: "set_mset (refs t) \<subseteq> set_mset (refs m1)" "set_mset (refs m2) \<subseteq> set_mset (refs m1)"
      "set_mset (refs m1) \<subseteq> set_mset (refs m)"
      using r(2) s(2) by (simp_all add: moves_def consumes_def)
    from subset_trans [OF m1(1,3)] subset_trans [OF m1(2,3)]
    have "set_mset (refs t) \<subseteq> set_mset (refs m)" "set_mset (refs m2) \<subseteq> set_mset (refs m)" .
    then show ?thesis using that disjoint_mono unfolding disjoint_bufs_def set_mset_refs by metis
  qed
  ultimately show ?thesis using s(2) ok1(2) by (auto simp: takes_def moves_def buf_ok_def ac_simps)
qed

text \<open>A request on the wire, and the request object that stands for it after the receive loop.\<close>

type_synonym wire_request = "i64 \<times> byte list"

definition enc_request :: "wire_request \<Rightarrow> byte list" where
  "enc_request q = enc_v64 (fst q) @ snd q"

definition wire_ok :: "wire_request \<Rightarrow> bool" where
  "wire_ok q \<longleftrightarrow> long_enough (fst q) \<and> short_len (length (enc_request q))"

definition req_view :: "heap \<Rightarrow> request \<Rightarrow> wire_request" where
  "req_view h r = (req_xid r, bytes h (req_m r))"

definition reqs_refs :: "request list \<Rightarrow> addr multiset" where
  "reqs_refs rs = sum_list (map (\<lambda>r. refs (req_m r)) rs)"

definition reqs_ok :: "heap \<Rightarrow> marshal \<Rightarrow> request list \<Rightarrow> bool" where
  "reqs_ok h m rs \<longleftrightarrow> (\<forall>r \<in> set rs. wf_marshal h (req_m r) \<and> clear m (req_m r))"

lemma reqs_refs_simps [simp]: "reqs_refs [] = {#}" "reqs_refs (r # rs) = refs (req_m r) + reqs_refs rs"
  by (simp_all add: reqs_refs_def)

lemma reqs_ok_simps [simp]:
  "reqs_ok h m []" "reqs_ok h m (r # rs) \<longleftrightarrow> wf_marshal h (req_m r) \<and> clear m (req_m r) \<and> reqs_ok h m rs"
  by (auto simp: reqs_ok_def)

text \<open>One packet: the request is cut out, and its number is read off its front.\<close>

lemma take_request_ok:
  assumes ok: "buf_ok h m R" and b: "bytes h m = packet (enc_request q) @ rest" and q: "wire_ok q"
  shows "\<exists>t m' h1 t' h2. take_packet h m = Inr (t, m', h1) \<and> get_v64 h1 t = Inr (fst q, t', h2)
    \<and> takes (refs t') R h m h2 m' \<and> wf_marshal h2 t' \<and> bytes h2 t' = snd q \<and> bytes h2 m' = rest
    \<and> clear m' t'"
proof -
  have v: "long_enough (fst q)" "short_len (length (enc_request q))" using q by (simp_all add: wire_ok_def)
  obtain t m' h1 where t: "take_packet h m = Inr (t, m', h1)" "takes (refs t) R h m h1 m'"
    "wf_marshal h1 t" "bytes h1 t = enc_request q" "bytes h1 m' = rest" "clear m' t"
    using take_packet_ok [OF ok b v(2)] by blast
  have ok1: "buf_ok h1 t (refs m' + R)" using t(2,3) by (simp add: takes_def buf_ok_def ac_simps)
  obtain t' h2 where g: "get_v64 h1 t = Inr (fst q, t', h2)"
    "consumes (refs m' + R) h1 t (length (enc_v64 (fst q))) h2 t'"
    using v64.get_ok [OF ok1 v(1)] t(4) by (auto simp: enc_request_def)
  have same: "same_buf h1 h2 b" if "set_mset (refs b) \<subseteq> set_mset (refs m' + R)" for b
    using g(2) that by (simp add: consumes_def)
  have m': "bytes h2 m' = rest" "wf_marshal h2 m'"
    using same_buf_view [OF same [of m']] t(2,5) by (simp_all add: takes_def buf_ok_def)
  have "same_buf h h2 b" if "set_mset (refs b) \<subseteq> set_mset R" for b
    by (rule same_buf_trans [of h h1 b h2]) (use t(2) same that in \<open>auto simp: takes_def\<close>)
  moreover have sub: "set_mset (refs t') \<subseteq> set_mset (refs t)" using g(2) by (simp add: consumes_def)
  moreover have "clear m' t'" using g(2) t(6) by (simp add: consumes_def)
  moreover have "set_mset (refs t') \<inter> set_mset (refs b) = {}" if "disjoint_bufs m b" for b
    using t(2) sub that unfolding takes_def by fastforce
  moreover have "buf_ok h2 m' (refs t' + R)" "wf_marshal h2 t'" "bytes h2 t' = snd q"
    using g(2) m'(2) t(4) by (simp_all add: consumes_def buf_ok_def enc_request_def ac_simps)
  ultimately show ?thesis using t(1,2) g(1) m'(1) by (auto simp: takes_def)
qed

text \<open>The whole loop: every complete packet becomes a request, in order, and the rest stays.\<close>

lemma takes_trans:
  assumes "takes T R h m h1 m1" "takes U (T + R) h1 m1 h2 m2"
  shows "takes (T + U) R h m h2 m2"
proof -
  note t = takesD [OF assms(1)] and u = takesD [OF assms(2)]
  have sub: "set_mset (refs b) \<subseteq> set_mset (T + R)" if "set_mset (refs b) \<subseteq> set_mset R" for b
    using that by auto
  have "same_buf h h2 b" if "set_mset (refs b) \<subseteq> set_mset R" for b
    by (rule same_buf_trans [OF t(2) [OF that] u(2) [OF sub [OF that]]])
  moreover have "clear m2 b" if "set_mset (refs b) \<subseteq> set_mset R" "clear m b" for b
    by (rule u(3) [OF sub [OF that(1)] t(3) [OF that]])
  moreover have "set_mset (T + U) \<inter> set_mset (refs b) = {} \<and> disjoint_bufs m2 b" if "disjoint_bufs m b" for b
    using t(4,5) [OF that] u(4,5) [of b] by (auto simp: Int_Un_distrib2)
  moreover have "buf_ok h2 m2 (T + U + R)" using u(1) by (simp add: ac_simps)
  ultimately show ?thesis unfolding takes_def by blast
qed

lemma takes_refl:
  assumes "buf_ok h m R"
  shows "takes {#} R h m h m"
proof -
  have "same_buf h h b" if "set_mset (refs b) \<subseteq> set_mset R" for b
    using heap_ok_live that assms by (fastforce simp: same_buf_def keeps_def buf_ok_def)
  with assms show ?thesis by (simp add: takes_def)
qed

lemma collect_requests_ok:
  assumes "buf_ok h m R" and "bytes h m = concat (map (\<lambda>q. packet (enc_request q)) qs) @ rest"
    and "\<forall>q \<in> set qs. wire_ok q" and "\<not> complete rest"
  shows "\<exists>rs m' h'. collect_requests h m = Inr (rs, m', h') \<and> takes (reqs_refs rs) R h m h' m'
    \<and> reqs_ok h' m' rs \<and> map (req_view h') rs = qs \<and> bytes h' m' = rest"
  using assms
proof (induction qs arbitrary: h m R)
  case Nil
  then have "packet_waiting h m = Inr None" by (simp add: packet_waiting_ok buf_ok_def)
  with Nil takes_refl [OF Nil.prems(1)] show ?case
    by (simp add: collect_requests.simps [of h m])
next
  case (Cons q qs)
  let ?rest = "concat (map (\<lambda>q. packet (enc_request q)) qs) @ rest"
  have b: "bytes h m = packet (enc_request q) @ ?rest" and q: "wire_ok q" using Cons.prems(2,3) by simp_all
  obtain t m1 h1 t' h2 where t: "take_packet h m = Inr (t, m1, h1)" "get_v64 h1 t = Inr (fst q, t', h2)"
    "takes (refs t') R h m h2 m1" "wf_marshal h2 t'" "bytes h2 t' = snd q" "bytes h2 m1 = ?rest" "clear m1 t'"
    using take_request_ok [OF Cons.prems(1) b q] by blast
  have ok1: "buf_ok h2 m1 (refs t' + R)" using t(3) by (simp add: takes_def)
  obtain rs m2 h3 where rs: "collect_requests h2 m1 = Inr (rs, m2, h3)"
    "takes (reqs_refs rs) (refs t' + R) h2 m1 h3 m2" "reqs_ok h3 m2 rs" "map (req_view h3) rs = qs"
    "bytes h3 m2 = rest"
    using Cons.IH [OF ok1 t(6)] Cons.prems(3,4) by auto
  have w: "packet_waiting h m = Inr (Some (of_nat (length (enc_request q))))"
    using complete_packet [of "enc_request q" ?rest] q Cons.prems(1)
    by (simp add: packet_waiting_ok buf_ok_def wire_ok_def b)
  have same: "same_buf h2 h3 t'" "clear m2 t'" using rs(2) t(7) by (auto simp: takes_def)
  have "collect_requests h m = Inr (\<lparr>req_m = t', req_xid = fst q\<rparr> # rs, m2, h3)"
    using w t(1,2) rs(1) by (simp add: collect_requests.simps [of h m])
  moreover have "takes (refs t' + reqs_refs rs) R h m h3 m2" by (rule takes_trans [OF t(3) rs(2)])
  moreover have "wf_marshal h3 t'" "bytes h3 t' = snd q" using same_buf_view [OF same(1)] t(4,5) by simp_all
  ultimately show ?case using rs(3-5) same(2) by (auto simp: req_view_def)
qed

section \<open>Replies\<close>

text \<open>
  The state of an open connection between two operations on it: \<open>R\<close> are the references of everybody
  else on the heap, \<open>k\<close> counts the references on the connection handed out to handlers. The output
  buffer shares no array with anything, no reply is half written.
\<close>

definition bufs_ok :: "addr multiset \<Rightarrow> heap \<Rightarrow> tcp_conn \<Rightarrow> bool" where
  "bufs_ok R h c \<longleftrightarrow> heap_ok h (refs (sc_out c) + (refs (sc_in c) + R))
     \<and> wf_marshal h (sc_out c) \<and> wf_marshal h (sc_in c)
     \<and> set_mset (refs (sc_out c)) \<inter> set_mset (refs (sc_in c) + R) = {}
     \<and> write_cnt (sc_out c) = 0 \<and> sc_bmark c = None"

definition srv_ok :: "nat \<Rightarrow> addr multiset \<Rightarrow> 'u sstate_scheme \<Rightarrow> pid \<Rightarrow> bool" where
  "srv_ok k R s p \<longleftrightarrow> spare k (ss_poll s) p \<and> (\<exists>c. ss_conns s p = Some c \<and> bufs_ok R (ss_heap s) c)"

definition out_bytes :: "'u sstate_scheme \<Rightarrow> pid \<Rightarrow> byte list" where
  "out_bytes s p = (case ss_conns s p of None \<Rightarrow> [] | Some c \<Rightarrow> bytes (ss_heap s) (sc_out c))"

text \<open>Everything but the output buffer and the heap is as before; buffers of others are intact.\<close>

definition same_server :: "'u sstate_scheme \<Rightarrow> 'u sstate_scheme \<Rightarrow> pid \<Rightarrow> bool" where
  "same_server s s' p \<longleftrightarrow> ss_sconns s' = ss_sconns s \<and> ss_ctr s' = ss_ctr s
     \<and> (\<forall>x. x \<noteq> p \<longrightarrow> ss_conns s' x = ss_conns s x)
     \<and> (\<forall>c. ss_conns s p = Some c \<longrightarrow> (\<exists>c'. ss_conns s' p = Some c' \<and> sc_in c' = sc_in c
           \<and> sc_status c' = sc_status c \<and> sc_sock c' = sc_sock c
           \<and> bytes (ss_heap s') (sc_in c) = bytes (ss_heap s) (sc_in c)))"

lemma same_server_trans: "same_server s s1 p \<Longrightarrow> same_server s1 s2 p \<Longrightarrow> same_server s s2 p"
  unfolding same_server_def by (elim conjE) fastforce

lemma set_conn_simps [simp]:
  "ss_heap (set_conn p c h s) = h" "ss_conns (set_conn p c h s) = (ss_conns s)(p \<mapsto> c)"
  "ss_poll (set_conn p c h s) = ss_poll s" "ss_sconns (set_conn p c h s) = ss_sconns s"
  "ss_ctr (set_conn p c h s) = ss_ctr s" "ss_missing (set_conn p c h s) = ss_missing s"
  "set_conn p c' h' (set_conn p c h s) = set_conn p c' h' s"
  "sstate.more (set_conn p c h s) = sstate.more s"
  by (simp_all add: set_conn_def)

lemma conn_Some [simp]: "ss_conns s p = Some c \<Longrightarrow> conn p s = Inr c"
  by (simp add: conn_def)

text \<open>Code between \<open>begin_reply\<close> and \<open>end_reply\<close> that writes \<open>body\<close> with the operators.\<close>

definition writes_body :: "pid \<Rightarrow> ('u sstate_scheme \<Rightarrow> 'u sstate_scheme res) \<Rightarrow> byte list \<Rightarrow> bool" where
  "writes_body p w body \<longleftrightarrow> (\<forall>R s c. ss_conns s p = Some c \<and> buf_ok (ss_heap s) (sc_out c) R \<longrightarrow>
     (\<exists>m h. w s = Inr (set_conn p (c\<lparr>sc_out := m\<rparr>) h s) \<and> puts R (ss_heap s) (sc_out c) body h m))"

lemma writes_bodyD:
  "writes_body p w body \<Longrightarrow> ss_conns s p = Some c \<Longrightarrow> buf_ok (ss_heap s) (sc_out c) R \<Longrightarrow>
     \<exists>m h. w s = Inr (set_conn p (c\<lparr>sc_out := m\<rparr>) h s) \<and> puts R (ss_heap s) (sc_out c) body h m"
  unfolding writes_body_def by blast

lemma writes_put:
  assumes "\<And>h m R. buf_ok h m R \<Longrightarrow> \<exists>m' h'. put h m v = Inr (m', h') \<and> puts R h m e h' m'"
  shows "writes_body p (conn_put put p v :: 'u sstate_scheme \<Rightarrow> _) e"
  unfolding writes_body_def
proof (intro allI impI)
  fix R and s :: "'u sstate_scheme" and c :: tcp_conn assume a: "ss_conns s p = Some c \<and> buf_ok (ss_heap s) (sc_out c) R"
  then obtain m h where "put (ss_heap s) (sc_out c) v = Inr (m, h)" "puts R (ss_heap s) (sc_out c) e h m"
    using assms by blast
  with a show "\<exists>m h. conn_put put p v s = Inr (set_conn p (c\<lparr>sc_out := m\<rparr>) h s)
      \<and> puts R (ss_heap s) (sc_out c) e h m" by (auto simp: conn_put_def)
qed

lemma writes_seq:
  fixes v :: "'u sstate_scheme \<Rightarrow> 'u sstate_scheme res"
  assumes "writes_body p v a" "writes_body p w b"
  shows "writes_body p (\<lambda>s. rbind (v s) w) (a @ b)"
  unfolding writes_body_def
proof (intro allI impI)
  fix R and s :: "'u sstate_scheme" and c :: tcp_conn assume c: "ss_conns s p = Some c \<and> buf_ok (ss_heap s) (sc_out c) R"
  obtain m h where v: "v s = Inr (set_conn p (c\<lparr>sc_out := m\<rparr>) h s)" "puts R (ss_heap s) (sc_out c) a h m"
    using writes_bodyD [OF assms(1)] c by blast
  let ?s = "set_conn p (c\<lparr>sc_out := m\<rparr>) h s"
  have c1: "ss_conns ?s p = Some (c\<lparr>sc_out := m\<rparr>)" "buf_ok (ss_heap ?s) (sc_out (c\<lparr>sc_out := m\<rparr>)) R"
    using puts_buf_ok [OF v(2)] by simp_all
  obtain m' h' where w: "w ?s = Inr (set_conn p (c\<lparr>sc_out := m'\<rparr>) h' s)" "puts R h m b h' m'"
    using writes_bodyD [OF assms(2) c1] by auto
  with v puts_trans [OF v(2) w(2)] show "\<exists>m h. rbind (v s) w = Inr (set_conn p (c\<lparr>sc_out := m\<rparr>) h s)
      \<and> puts R (ss_heap s) (sc_out c) (a @ b) h m" by auto
qed

lemma writes_nothing: "writes_body p (Inr :: 'u sstate_scheme \<Rightarrow> _) []"
  unfolding writes_body_def
proof (intro allI impI)
  fix R and s :: "'u sstate_scheme" and c :: tcp_conn assume c: "ss_conns s p = Some c \<and> buf_ok (ss_heap s) (sc_out c) R"
  then have "set_conn p (c\<lparr>sc_out := sc_out c\<rparr>) (ss_heap s) s = s" by (simp add: set_conn_def fun_upd_idem)
  with c puts_refl show "\<exists>m h. Inr s = Inr (set_conn p (c\<lparr>sc_out := m\<rparr>) h s)
      \<and> puts R (ss_heap s) (sc_out c) [] h m" by metis
qed

lemma writes_head: "writes_body p (\<lambda>s. rbind (conn_put put_v64 p xid s) (conn_put put_v32 p err)) (enc_v64 xid @ enc_v32 err)"
  by (intro writes_seq writes_put) (simp_all only: put_v64_eq put_v32_eq put_bytes_ok enc_neq_Nil not_False_eq_True)

text \<open>A reply from \<open>begin_reply\<close> to \<open>end_reply\<close>: one packet behind what was waiting to be sent.\<close>

definition replies :: "addr multiset \<Rightarrow> 'u sstate_scheme \<Rightarrow> 'u sstate_scheme \<Rightarrow> pid \<Rightarrow> byte list \<Rightarrow> bool" where
  "replies R s s' p b \<longleftrightarrow> out_bytes s' p = out_bytes s p @ b \<and> keeps_bufs R (ss_heap s) (ss_heap s')
     \<and> same_server s s' p"

text \<open>\<open>E\<close>: references that the heap has lost on the way.\<close>

lemma sends_bufs_ok:
  assumes ok: "bufs_ok (E + R) h c" and snd: "sends (refs (sc_in c) + R) h (sc_out c) b h' m'"
  shows "bufs_ok R h' (c\<lparr>sc_out := m', sc_bmark := None\<rparr>)" "keeps_bufs (refs (sc_in c) + R) h h'"
    "bytes h' (sc_in c) = bytes h (sc_in c)"
proof -
  let ?R = "refs (sc_in c) + R"
  have dis: "disjoint_bufs (sc_out c) b" if "set_mset (refs b) \<subseteq> set_mset ?R" for b
    using ok that by (auto simp: bufs_ok_def disjoint_bufs_def)
  then show keep: "keeps_bufs ?R h h'" using snd unfolding keeps_bufs_def sends_def by blast
  have "wf_marshal h (sc_in c)" using ok by (simp add: bufs_ok_def)
  from keeps_bufsD [OF keep _ this]
  have "wf_marshal h' (sc_in c)" "bytes h' (sc_in c) = bytes h (sc_in c)" by simp_all
  moreover have "set_mset (refs (sc_out c)) \<inter> set_mset ?R = {}" using ok by (auto simp: bufs_ok_def)
  then have "set_mset (refs m') \<inter> set_mset ?R = {}" using snd unfolding sends_def by blast
  ultimately show "bufs_ok R h' (c\<lparr>sc_out := m', sc_bmark := None\<rparr>)" "bytes h' (sc_in c) = bytes h (sc_in c)"
    using snd by (auto simp: bufs_ok_def sends_def buf_ok_def)
qed

lemma conn_bmark_out: "c\<lparr>sc_out := m, sc_bmark := Some b\<rparr> = c\<lparr>sc_bmark := Some b, sc_out := m\<rparr>"
  by (cases c) simp

lemma begin_reply_ok:
  assumes c: "ss_conns s p = Some c" and b: "set_bookmark (ss_heap s) (sc_out c) 4 = Inr (bm, m1, h1)" "buf_ok h1 m1 R"
  shows "\<exists>m2 h2. begin_reply p xid err s = Inr (set_conn p (c\<lparr>sc_bmark := Some bm, sc_out := m2\<rparr>) h2 s)
    \<and> puts R h1 m1 (enc_v64 xid @ enc_v32 err) h2 m2"
proof -
  let ?c = "c\<lparr>sc_bmark := Some bm, sc_out := m1\<rparr>"
  let ?s = "set_conn p ?c h1 s"
  have "ss_conns ?s p = Some ?c" "buf_ok (ss_heap ?s) (sc_out ?c) R" using b(2) by simp_all
  from writes_bodyD [OF writes_head this, of xid err] c b(1) show ?thesis by (auto simp: begin_reply_def conn_bmark_out)
qed

lemma end_reply_ok:
  assumes "end_message h m (Some bm) = Inr (m', h')" "spare k (ss_poll s) p"
  shows "\<exists>pw. end_reply p (set_conn p (c\<lparr>sc_bmark := Some bm, sc_out := m\<rparr>) h s)
      = Inr (set_conn p (c\<lparr>sc_out := m', sc_bmark := None\<rparr>) h' (s\<lparr>ss_poll := pw\<rparr>)) \<and> spare k pw p"
proof -
  obtain pw where "PollMgr_update_mode p (READ OR WRITE) (ss_poll s) = Inr pw" "spare k pw p"
    using update_mode_spare [OF assms(2)] by blast
  moreover have "c\<lparr>sc_bmark := Some bm, sc_out := m', sc_bmark := None\<rparr> = c\<lparr>sc_out := m', sc_bmark := None\<rparr>"
    by (cases c) simp
  ultimately show ?thesis using assms(1) by (auto simp: end_reply_def set_conn_def conn_def)
qed

lemma sent_reply_ok:
  assumes c: "ss_conns s p = Some c" "bufs_ok (E + R) (ss_heap s) c"
    and snd: "sends (refs (sc_in c) + R) (ss_heap s) (sc_out c) b h m" and pw: "spare k pw p"
  shows "srv_ok k R (set_conn p (c\<lparr>sc_out := m, sc_bmark := None\<rparr>) h (s\<lparr>ss_poll := pw\<rparr>)) p"
    "replies R s (set_conn p (c\<lparr>sc_out := m, sc_bmark := None\<rparr>) h (s\<lparr>ss_poll := pw\<rparr>)) p b"
  using sends_bufs_ok [OF c(2) snd] c(1) snd pw keeps_bufs_mono [of "refs (sc_in c) + R" "ss_heap s" h R]
  by (simp_all add: srv_ok_def replies_def out_bytes_def same_server_def sends_def)

lemma reply_ok:
  assumes ok: "srv_ok k R s p" and w: "writes_body p w body"
  shows "\<exists>s1 s2 s3. begin_reply p xid err s = Inr s1 \<and> w s1 = Inr s2 \<and> end_reply p s2 = Inr s3
    \<and> srv_ok k R s3 p \<and> replies R s s3 p (packet (enc_v64 xid @ enc_v32 err @ body))
    \<and> ss_missing s3 = ss_missing s \<and> sstate.more s3 = sstate.more s"
proof -
  obtain c where c: "ss_conns s p = Some c" "bufs_ok ({#} + R) (ss_heap s) c" and sp: "spare k (ss_poll s) p"
    using ok by (auto simp: srv_ok_def)
  let ?R = "refs (sc_in c) + R" and ?h = "ss_heap s" and ?o = "sc_out c"
  have bo: "buf_ok ?h ?o ?R" "write_cnt ?o = 0" using c(2) by (simp_all add: bufs_ok_def buf_ok_def)
  obtain bm m1 h1 where b: "set_bookmark ?h ?o 4 = Inr (bm, m1, h1)" "buf_ok h1 m1 ?R"
    and fin: "\<And>b h2 m2. puts ?R h1 m1 b h2 m2 \<Longrightarrow>
        \<exists>m3 h3. end_message h2 m2 (Some bm) = Inr (m3, h3) \<and> sends ?R ?h ?o (packet b) h3 m3"
    using message_ok [OF bo] by blast
  let ?c = "\<lambda>m. c\<lparr>sc_bmark := Some bm, sc_out := m\<rparr>"
  obtain m2 h2 where h: "begin_reply p xid err s = Inr (set_conn p (?c m2) h2 s)"
    "puts ?R h1 m1 (enc_v64 xid @ enc_v32 err) h2 m2"
    using begin_reply_ok [OF c(1) b] by blast
  let ?s1 = "set_conn p (?c m2) h2 s"
  have s1: "ss_conns ?s1 p = Some (?c m2)" "buf_ok (ss_heap ?s1) (sc_out (?c m2)) ?R"
    using puts_buf_ok [OF h(2)] by simp_all
  obtain m3 h3 where w3: "w ?s1 = Inr (set_conn p (?c m3) h3 s)" "puts ?R h2 m2 body h3 m3"
    using writes_bodyD [OF w s1] by auto
  obtain m4 h4 where e: "end_message h3 m3 (Some bm) = Inr (m4, h4)"
    "sends ?R ?h ?o (packet (enc_v64 xid @ enc_v32 err @ body)) h4 m4"
    using fin [OF puts_trans [OF h(2) w3(2)]] by auto
  obtain pw where pw: "end_reply p (set_conn p (?c m3) h3 s)
      = Inr (set_conn p (c\<lparr>sc_out := m4, sc_bmark := None\<rparr>) h4 (s\<lparr>ss_poll := pw\<rparr>))" "spare k pw p"
    using end_reply_ok [OF e(1) sp] by blast
  from sent_reply_ok [OF c e(2) pw(2)] h(1) w3(1) pw(1) show ?thesis by fastforce
qed

text \<open>Deleting a request gives its arrays back and touches nothing else.\<close>

lemma delete_request_ok:
  assumes ok: "srv_ok k (refs (req_m req) + R) s p" and wf: "wf_marshal (ss_heap s) (req_m req)"
  shows "\<exists>s'. delete_request req s = Inr s' \<and> srv_ok k R s' p \<and> replies R s s' p []
    \<and> ss_missing s' = ss_missing s \<and> sstate.more s' = sstate.more s"
proof -
  obtain c where c: "ss_conns s p = Some c" "bufs_ok (refs (req_m req) + R) (ss_heap s) c"
    using ok by (auto simp: srv_ok_def)
  let ?R = "refs (sc_out c) + (refs (sc_in c) + R)"
  have "buf_ok (ss_heap s) (req_m req) ?R" using c(2) wf by (simp add: bufs_ok_def buf_ok_def ac_simps)
  from Marshal_delete_ok [OF this] obtain h' where h': "Marshal_delete (req_m req) (ss_heap s) = Inr h'"
    "heap_ok h' ?R" "\<forall>b. set_mset (refs b) \<subseteq> set_mset ?R \<longrightarrow> same_buf (ss_heap s) h' b" by blast
  then have keep: "keeps_bufs ?R (ss_heap s) h'" by (intro keeps_bufs_same) blast
  have io: "wf_marshal h' (sc_out c)" "bytes h' (sc_out c) = bytes (ss_heap s) (sc_out c)"
    "wf_marshal h' (sc_in c)" "bytes h' (sc_in c) = bytes (ss_heap s) (sc_in c)"
    using keeps_bufsD [OF keep, of "sc_out c"] keeps_bufsD [OF keep, of "sc_in c"] c(2)
    by (auto simp: bufs_ok_def)
  then have "bufs_ok R h' c" using c(2) h'(2) by (auto simp: bufs_ok_def)
  moreover have "delete_request req s = Inr (s\<lparr>ss_heap := h'\<rparr>)" using h'(1) by (simp add: delete_request_def)
  moreover have "keeps_bufs R (ss_heap s) h'" using keep by (rule keeps_bufs_mono) auto
  ultimately show ?thesis
    using ok c(1) io by (auto simp: srv_ok_def replies_def out_bytes_def same_server_def)
qed

lemma replies_trans:
  assumes "replies R s s1 p a" "replies R s1 s2 p b"
  shows "replies R s s2 p (a @ b)"
proof -
  have "keeps_bufs R (ss_heap s) (ss_heap s2)" "same_server s s2 p"
    using assms keeps_bufs_trans same_server_trans unfolding replies_def by blast+
  with assms show ?thesis by (simp add: replies_def)
qed

lemma replies_mono: "replies (Q + R) s s' p b \<Longrightarrow> replies R s s' p b"
  unfolding replies_def using keeps_bufs_mono [of "Q + R" _ _ R] by auto

lemma reply_error_ok:
  assumes ok: "srv_ok k (refs (req_m req) + R) s p" and wf: "wf_marshal (ss_heap s) (req_m req)"
  shows "\<exists>s'. reply_error p req err s = Inr s' \<and> srv_ok k R s' p
    \<and> replies R s s' p (packet (enc_v64 (req_xid req) @ enc_v32 err))
    \<and> ss_missing s' = ss_missing s \<and> sstate.more s' = sstate.more s"
proof -
  obtain s1 s3 where r: "begin_reply p (req_xid req) err s = Inr s1" "end_reply p s1 = Inr s3"
    "srv_ok k (refs (req_m req) + R) s3 p"
    "replies (refs (req_m req) + R) s s3 p (packet (enc_v64 (req_xid req) @ enc_v32 err))"
    "ss_missing s3 = ss_missing s" "sstate.more s3 = sstate.more s"
    using reply_ok [OF ok writes_nothing, of "req_xid req" err] by auto
  have "wf_marshal (ss_heap s3) (req_m req)"
    using r(4) wf by (auto simp: replies_def dest!: keeps_bufsD [of _ _ _ "req_m req"])
  from delete_request_ok [OF r(3) this] obtain s4 where d: "delete_request req s3 = Inr s4" "srv_ok k R s4 p"
    "replies R s3 s4 p []" "ss_missing s4 = ss_missing s3" "sstate.more s4 = sstate.more s3" by blast
  have "replies R s s4 p (packet (enc_v64 (req_xid req) @ enc_v32 err))"
    using replies_trans [OF replies_mono [OF r(4)] d(3)] by simp
  with r d show ?thesis by (simp add: reply_error_def)
qed

lemma conn_release_ok:
  assumes "srv_ok (Suc k) R s p"
  shows "\<exists>s'. conn_release p s = Inr s' \<and> srv_ok k R s' p \<and> replies R s s' p []
    \<and> ss_missing s' = ss_missing s \<and> sstate.more s' = sstate.more s"
proof -
  obtain c where c: "ss_conns s p = Some c" "bufs_ok R (ss_heap s) c" and sp: "spare (Suc k) (ss_poll s) p"
    using assms by (auto simp: srv_ok_def)
  obtain pw where pw: "Pollable_release p (ss_poll s) = Inr pw" "spare k pw p" "pobjs pw p \<noteq> None"
    using release_spare [OF sp] by blast
  then have "conn_release p s = Inr (s\<lparr>ss_poll := pw\<rparr>)" using c(1) by (auto simp: conn_release_def)
  with c pw(2) show ?thesis by (auto simp: srv_ok_def replies_def out_bytes_def same_server_def)
qed

text \<open>Reading from the request buffer.\<close>

lemma consume_request_ok:
  assumes ok: "srv_ok k (refs m + R) s p" and wf: "wf_marshal (ss_heap s) m"
  shows "\<exists>Q. buf_ok (ss_heap s) m Q \<and> (\<forall>n h' m'. consumes Q (ss_heap s) m n h' m' \<longrightarrow>
      srv_ok k (refs m' + R) (s\<lparr>ss_heap := h'\<rparr>) p \<and> replies R s (s\<lparr>ss_heap := h'\<rparr>) p []
      \<and> wf_marshal h' m' \<and> bytes h' m' = drop n (bytes (ss_heap s) m))"
proof -
  obtain c where c: "ss_conns s p = Some c" "bufs_ok (refs m + R) (ss_heap s) c" and sp: "spare k (ss_poll s) p"
    using ok by (auto simp: srv_ok_def)
  let ?Q = "refs (sc_out c) + (refs (sc_in c) + R)"
  have "srv_ok k (refs m' + R) (s\<lparr>ss_heap := h'\<rparr>) p \<and> replies R s (s\<lparr>ss_heap := h'\<rparr>) p []
      \<and> wf_marshal h' m' \<and> bytes h' m' = drop n (bytes (ss_heap s) m)"
    if g: "consumes ?Q (ss_heap s) m n h' m'" for n h' m'
  proof -
    have keep: "keeps_bufs ?Q (ss_heap s) h'" using g by (intro keeps_bufs_same) (simp add: consumes_def)
    have io: "wf_marshal h' (sc_out c)" "bytes h' (sc_out c) = bytes (ss_heap s) (sc_out c)"
      "wf_marshal h' (sc_in c)" "bytes h' (sc_in c) = bytes (ss_heap s) (sc_in c)"
      using keeps_bufsD [OF keep, of "sc_out c"] keeps_bufsD [OF keep, of "sc_in c"] c(2)
      by (auto simp: bufs_ok_def)
    have "set_mset (refs m') \<subseteq> set_mset (refs m)" using g by (simp add: consumes_def)
    then have "set_mset (refs (sc_out c)) \<inter> set_mset (refs (sc_in c) + (refs m' + R)) = {}"
      using c(2) unfolding bufs_ok_def by fastforce
    then have "bufs_ok (refs m' + R) h' c"
      using c(2) io g by (simp add: bufs_ok_def consumes_def buf_ok_def ac_simps)
    moreover have "keeps_bufs R (ss_heap s) h'" using keep by (rule keeps_bufs_mono) auto
    moreover have "wf_marshal h' m'" "bytes h' m' = drop n (bytes (ss_heap s) m)"
      using g by (simp_all add: consumes_def buf_ok_def)
    ultimately show ?thesis
      using c(1) sp io by (auto simp: srv_ok_def replies_def out_bytes_def same_server_def)
  qed
  moreover have "buf_ok (ss_heap s) m ?Q" using c(2) wf by (simp add: bufs_ok_def buf_ok_def ac_simps)
  ultimately show ?thesis by blast
qed

lemma parse_arg_ok:
  assumes get: "wire_get valid enc get" and v: "valid v"
    and ok: "srv_ok k (refs m + R) s p" and wf: "wf_marshal (ss_heap s) m"
    and b: "bytes (ss_heap s) m = enc v @ rest"
  shows "\<exists>m' h. get (ss_heap s) m = Inr (v, m', h) \<and> srv_ok k (refs m' + R) (s\<lparr>ss_heap := h\<rparr>) p
    \<and> replies R s (s\<lparr>ss_heap := h\<rparr>) p [] \<and> wf_marshal h m' \<and> bytes h m' = rest"
proof -
  obtain Q where Q: "buf_ok (ss_heap s) m Q" and step: "\<And>n h' m'. consumes Q (ss_heap s) m n h' m' \<Longrightarrow>
      srv_ok k (refs m' + R) (s\<lparr>ss_heap := h'\<rparr>) p \<and> replies R s (s\<lparr>ss_heap := h'\<rparr>) p []
      \<and> wf_marshal h' m' \<and> bytes h' m' = drop n (bytes (ss_heap s) m)"
    using consume_request_ok [OF ok wf] by blast
  obtain m' h' where g: "get (ss_heap s) m = Inr (v, m', h')" "consumes Q (ss_heap s) m (length (enc v)) h' m'"
    using get Q v prefixI [OF b] unfolding wire_get_def by blast
  from g(1) step [OF g(2)] b show ?thesis by auto
qed

text \<open>A reply as \<open>DeferredReply::reply\<close> sends it, with the clean-up it ends in.\<close>

lemma DeferredReply_reply_ok:
  assumes ok: "srv_ok (Suc k) (refs (req_m req) + R) s p" and wf: "wf_marshal (ss_heap s) (req_m req)"
    and w: "writes_body p w body"
  shows "\<exists>s'. DeferredReply_reply req p w Inr s = Inr s' \<and> srv_ok k R s' p
    \<and> replies R s s' p (packet (enc_v64 (req_xid req) @ enc_v32 0 @ body)) \<and> sstate.more s' = sstate.more s"
proof -
  obtain s1 s2 s3 where r: "begin_reply p (req_xid req) 0 s = Inr s1" "w s1 = Inr s2" "end_reply p s2 = Inr s3"
    "srv_ok (Suc k) (refs (req_m req) + R) s3 p"
    "replies (refs (req_m req) + R) s s3 p (packet (enc_v64 (req_xid req) @ enc_v32 0 @ body))"
    "sstate.more s3 = sstate.more s"
    using reply_ok [OF ok w, of "req_xid req" 0] by blast
  have "wf_marshal (ss_heap s3) (req_m req)"
    using r(5) wf by (auto simp: replies_def dest!: keeps_bufsD [of _ _ _ "req_m req"])
  from delete_request_ok [OF r(4) this] obtain s4 where d: "delete_request req s3 = Inr s4"
    "srv_ok (Suc k) R s4 p" "replies R s3 s4 p []" "sstate.more s4 = sstate.more s3" by blast
  from conn_release_ok [OF d(2)] obtain s5 where e: "conn_release p s4 = Inr s5" "srv_ok k R s5 p"
    "replies R s4 s5 p []" "sstate.more s5 = sstate.more s4" by blast
  have "replies R s s5 p (packet (enc_v64 (req_xid req) @ enc_v32 0 @ body))"
    using replies_trans [OF replies_trans [OF replies_mono [OF r(5)] d(3)] e(3)] by simp
  moreover have "DeferredReply_reply req p w Inr s = Inr s5"
    using r(1-3) d(1) e(1) by (simp add: DeferredReply_reply_def DeferredReply_delete_def)
  ultimately show ?thesis using r(6) d(4) e(2,4) by auto
qed

section \<open>Services\<close>

text \<open>
  A method takes the bytes of its arguments and the state of the service, and gives the bytes of
  its results and the new state. \<open>answer\<close> is what the server owes a client for one request.
\<close>

type_synonym 'u rpc_method = "byte list \<Rightarrow> 'u \<Rightarrow> byte list \<times> 'u"

definition answer :: "(i32 \<Rightarrow> 'u rpc_method option) \<Rightarrow> wire_request \<Rightarrow> 'u \<Rightarrow> byte list \<times> 'u" where
  "answer M q u =
     (if length (snd q) < 4 then (packet (enc_v64 (fst q) @ enc_v32 EINVAL), u)
      else case M (from_le (take 4 (snd q))) of
          None \<Rightarrow> (packet (enc_v64 (fst q) @ enc_v32 ENOENT), u)
        | Some g \<Rightarrow> (packet (enc_v64 (fst q) @ enc_v32 0 @ fst (g (drop 4 (snd q)) u)), snd (g (drop 4 (snd q)) u)))"

fun answers :: "(i32 \<Rightarrow> 'u rpc_method option) \<Rightarrow> wire_request list \<Rightarrow> 'u \<Rightarrow> byte list \<times> 'u" where
  "answers M [] u = ([], u)"
| "answers M (q # qs) u =
     (let (b, u1) = answer M q u; (bs, u2) = answers M qs u1 in (b @ bs, u2))"

text \<open>
  The contract of a handler, as the comment in \<open>server.h\<close> asks for it: it sends exactly one reply,
  deletes the request and releases the connection.
\<close>

definition implements :: "'u rpc_handler \<Rightarrow> (byte list \<Rightarrow> bool) \<Rightarrow> 'u rpc_method \<Rightarrow> bool" where
  "implements f accepts g \<longleftrightarrow> (\<forall>k R s p req. srv_ok (Suc k) (refs (req_m req) + R) s p
       \<and> wf_marshal (ss_heap s) (req_m req) \<and> accepts (bytes (ss_heap s) (req_m req)) \<longrightarrow>
     (\<exists>s'. f req p s = Inr s' \<and> srv_ok k R s' p
       \<and> replies R s s' p (packet (enc_v64 (req_xid req) @ enc_v32 0
             @ fst (g (bytes (ss_heap s) (req_m req)) (sstate.more s))))
       \<and> sstate.more s' = snd (g (bytes (ss_heap s) (req_m req)) (sstate.more s))))"

text \<open>A request whose arguments the method it names can read.\<close>

definition servable ::
  "(i32 \<Rightarrow> 'u rpc_method option) \<Rightarrow> (i32 \<Rightarrow> byte list \<Rightarrow> bool) \<Rightarrow> wire_request \<Rightarrow> bool" where
  "servable M accepts q \<longleftrightarrow> (4 \<le> length (snd q) \<and> M (from_le (take 4 (snd q))) \<noteq> None \<longrightarrow>
     accepts (from_le (take 4 (snd q))) (drop 4 (snd q)))"

locale rpc_service =
  fixes handlers :: "i32 \<Rightarrow> 'u rpc_handler option" and meths :: "i32 \<Rightarrow> 'u rpc_method option"
    and accepts :: "i32 \<Rightarrow> byte list \<Rightarrow> bool"
  assumes same_ids: "handlers i = None \<longleftrightarrow> meths i = None"
    and handler_ok: "handlers i = Some f \<Longrightarrow> meths i = Some g \<Longrightarrow> implements f (accepts i) g"
begin

lemma serve_one_ok:
  assumes ok: "srv_ok k (refs (req_m req) + R) s p" and wf: "wf_marshal (ss_heap s) (req_m req)"
    and q: "req_view (ss_heap s) req = q" "servable meths accepts q"
  shows "\<exists>s'. serve_one handlers p req s = Inr s' \<and> srv_ok k R s' p
    \<and> replies R s s' p (fst (answer meths q (sstate.more s)))
    \<and> sstate.more s' = snd (answer meths q (sstate.more s))"
proof -
  let ?b = "bytes (ss_heap s) (req_m req)"
  have qv: "fst q = req_xid req" "snd q = ?b" using q(1) by (auto simp: req_view_def)
  show ?thesis
  proof (cases "length ?b < 4")
    case True
    then show ?thesis
      using reply_error_ok [OF ok wf, of EINVAL] wf qv by (auto simp: serve_one_def answer_def)
  next
    case False
    let ?id = "from_le (take 4 ?b) :: i32"
    obtain Q where Q: "buf_ok (ss_heap s) (req_m req) Q" and step:
      "\<And>n h' m'. consumes Q (ss_heap s) (req_m req) n h' m' \<Longrightarrow>
        srv_ok k (refs m' + R) (s\<lparr>ss_heap := h'\<rparr>) p \<and> replies R s (s\<lparr>ss_heap := h'\<rparr>) p []
        \<and> wf_marshal h' m' \<and> bytes h' m' = drop n ?b"
      using consume_request_ok [OF ok wf] by blast
    have "to_le 4 ?id = take 4 ?b" using False by (intro to_le_from_le) simp_all
    then have "prefix (to_le 4 ?id) ?b" by (simp add: take_is_prefix)
    then obtain m' h' where g: "get_i32 (ss_heap s) (req_m req) = Inr (?id, m', h')"
      "consumes Q (ss_heap s) (req_m req) 4 h' m'"
      using i32.get_ok [OF Q, of ?id] by auto
    let ?s = "s\<lparr>ss_heap := h'\<rparr>" and ?req = "req\<lparr>req_m := m'\<rparr>"
    have s1: "srv_ok k (refs m' + R) ?s p" "replies R s ?s p []" "wf_marshal h' m'" "bytes h' m' = drop 4 ?b"
      using step [OF g(2)] by simp_all
    show ?thesis
    proof (cases "handlers ?id")
      case None
      let ?s' = "?s\<lparr>ss_missing := insert ?id (ss_missing ?s)\<rparr>"
      have ok': "srv_ok k (refs (req_m ?req) + R) ?s' p" "wf_marshal (ss_heap ?s') (req_m ?req)"
        using s1 by (simp_all add: srv_ok_def)
      obtain s2 where e: "reply_error p ?req ENOENT ?s' = Inr s2" "srv_ok k R s2 p"
        "replies R ?s' s2 p (packet (enc_v64 (req_xid req) @ enc_v32 ENOENT))" "sstate.more s2 = sstate.more s"
        using reply_error_ok [OF ok', of ENOENT] by auto
      have "replies R s ?s' p []"
        using s1(2) by (auto simp: replies_def out_bytes_def same_server_def split: option.splits)
      from replies_trans [OF this e(3)] have "replies R s s2 p (packet (enc_v64 (req_xid req) @ enc_v32 ENOENT))"
        by simp
      moreover have "meths ?id = None" using None same_ids by simp
      moreover have "serve_one handlers p req s = Inr s2"
        using False wf g(1) None e(1) by (simp add: serve_one_def Let_def)
      ultimately show ?thesis using e(2,4) False qv by (auto simp: answer_def)
    next
      case (Some f)
      then obtain meth where meth: "meths ?id = Some meth" using same_ids [of ?id] by auto
      obtain c where sp: "spare k (ss_poll ?s) p" using s1(1) by (auto simp: srv_ok_def)
      obtain pw where pw: "Pollable_ref_copy p (ss_poll ?s) = Inr pw" "spare (Suc k) pw p"
        using ref_copy_spare [OF sp] by blast
      let ?s' = "?s\<lparr>ss_poll := pw\<rparr>"
      have "srv_ok (Suc k) (refs (req_m ?req) + R) ?s' p" "wf_marshal (ss_heap ?s') (req_m ?req)"
        using s1 pw(2) by (auto simp: srv_ok_def)
      moreover have "accepts ?id (bytes (ss_heap ?s') (req_m ?req))"
        using q(2) False qv meth s1(4) by (simp add: servable_def)
      ultimately obtain s2 where f: "f ?req p ?s' = Inr s2" "srv_ok k R s2 p"
        "replies R ?s' s2 p (packet (enc_v64 (req_xid req) @ enc_v32 0 @ fst (meth (drop 4 ?b) (sstate.more s))))"
        "sstate.more s2 = snd (meth (drop 4 ?b) (sstate.more s))"
        using handler_ok [OF Some meth] s1(4) unfolding implements_def by fastforce
      have "replies R s ?s' p []"
        using s1(2) by (auto simp: replies_def out_bytes_def same_server_def split: option.splits)
      from replies_trans [OF this f(3)] have
        "replies R s s2 p (packet (enc_v64 (req_xid req) @ enc_v32 0 @ fst (meth (drop 4 ?b) (sstate.more s))))"
        by simp
      moreover have "serve_one handlers p req s = Inr s2"
        using False wf g(1) Some pw(1) f(1) by (simp add: serve_one_def Let_def)
      ultimately show ?thesis using f(2,4) False qv meth by (auto simp: answer_def)
    qed
  qed
qed

lemma serve_all_ok:
  assumes "srv_ok k (reqs_refs rs + R) s p" and "\<forall>r \<in> set rs. wf_marshal (ss_heap s) (req_m r)"
    and "map (req_view (ss_heap s)) rs = qs" and "\<forall>q \<in> set qs. servable meths accepts q"
  shows "\<exists>s'. serve_all handlers p rs s = Inr s' \<and> srv_ok k R s' p
    \<and> replies R s s' p (fst (answers meths qs (sstate.more s)))
    \<and> sstate.more s' = snd (answers meths qs (sstate.more s))"
  using assms
proof (induction rs arbitrary: s qs)
  case Nil
  then show ?case by (simp add: replies_def same_server_def)
next
  case (Cons r rs)
  then obtain q qs' where qs: "qs = q # qs'" "req_view (ss_heap s) r = q" "map (req_view (ss_heap s)) rs = qs'"
    "servable meths accepts q" by (metis list.set_intros(1) list.simps(9))
  let ?R = "reqs_refs rs + R"
  have "srv_ok k (refs (req_m r) + ?R) s p" using Cons.prems(1) by (simp add: ac_simps)
  with serve_one_ok [OF this _ qs(2,4)] Cons.prems(2) obtain s1 where s1: "serve_one handlers p r s = Inr s1"
    "srv_ok k ?R s1 p" "replies ?R s s1 p (fst (answer meths q (sstate.more s)))"
    "sstate.more s1 = snd (answer meths q (sstate.more s))" by auto
  have keep: "wf_marshal (ss_heap s1) (req_m x) \<and> bytes (ss_heap s1) (req_m x) = bytes (ss_heap s) (req_m x)"
    if "x \<in> set rs" for x
  proof -
    have "set_mset (refs (req_m x)) \<subseteq> set_mset (reqs_refs rs)" using that by (induction rs) auto
    then have "set_mset (refs (req_m x)) \<subseteq> set_mset ?R" by auto
    with s1(3) Cons.prems(2) that show ?thesis by (intro keeps_bufsD) (auto simp: replies_def)
  qed
  then have "map (req_view (ss_heap s1)) rs = qs'" using qs(3) by (auto simp: req_view_def)
  then obtain s2 where s2: "serve_all handlers p rs s1 = Inr s2" "srv_ok k R s2 p"
    "replies R s1 s2 p (fst (answers meths qs' (sstate.more s1)))"
    "sstate.more s2 = snd (answers meths qs' (sstate.more s1))"
    using Cons.IH [OF s1(2), of qs'] keep Cons.prems(4) qs(1) by auto
  have "replies R s s2 p (fst (answer meths q (sstate.more s)) @ fst (answers meths qs' (sstate.more s1)))"
    using replies_trans [OF replies_mono [OF s1(3)] s2(3)] .
  with s1 s2 show ?case by (simp add: qs(1) case_prod_beta Let_def)
qed

end

text \<open>The received bytes join the input buffer, and nothing else notices.\<close>

lemma receive_ok:
  assumes ok: "bufs_ok R h c"
  shows "\<exists>got m h' fd'. Marshal_read_from_fd h (sc_in c) fd = Inr (length got, m, h', fd')
    \<and> rx fd = got @ rx fd' \<and> (delivers fd \<longrightarrow> rx fd' = []) \<and> bytes h' m = bytes h (sc_in c) @ got \<and> bufs_ok R h' (c\<lparr>sc_in := m\<rparr>)
    \<and> bytes h' (sc_out c) = bytes h (sc_out c)
    \<and> (\<forall>b. set_mset (refs b) \<subseteq> set_mset R \<and> clear (sc_in c) b \<longrightarrow> same_buf h h' b \<and> clear m b)"
proof -
  let ?Q = "refs (sc_out c) + R"
  have "buf_ok h (sc_in c) ?Q" using ok by (simp add: bufs_ok_def buf_ok_def ac_simps)
  from Marshal_read_from_fd_ok [OF this, of fd] obtain got m h' fd' where
    r: "Marshal_read_from_fd h (sc_in c) fd = Inr (length got, m, h', fd')" "appends ?Q h (sc_in c) got h' m"
      "rx fd = got @ rx fd'" "delivers fd \<longrightarrow> rx fd' = []" by blast
  have frame: "same_buf h h' b \<and> clear m b" if "set_mset (refs b) \<subseteq> set_mset ?Q" "clear (sc_in c) b" for b
    using r(2) that by (simp add: appends_def)
  have dis: "disjoint_bufs (sc_in c) (sc_out c)" using ok by (auto simp: bufs_ok_def disjoint_bufs_def)
  then have out: "same_buf h h' (sc_out c)" using frame [of "sc_out c"] clear_disjoint by auto
  have "set_mset (refs (sc_out c)) \<inter> set_mset (refs m + R) = {}"
    using disjoint_fresh [of "set_mset (refs (sc_out c))" "set_mset (refs (sc_in c))" "set_mset R" "set_mset (refs m)"]
      ok r(2) by (simp add: bufs_ok_def appends_def)
  then have "bufs_ok R h' (c\<lparr>sc_in := m\<rparr>)"
    using ok r(2) same_buf_view [OF out] by (simp add: bufs_ok_def appends_def buf_ok_def ac_simps)
  moreover have "same_buf h h' b \<and> clear m b" if "set_mset (refs b) \<subseteq> set_mset R" "clear (sc_in c) b" for b
    by (rule frame) (use that in auto)
  ultimately show ?thesis using r same_buf_view(1) [OF out] by (auto simp: appends_def)
qed

lemma collect_bufs_ok:
  assumes ok: "bufs_ok R h c" and t: "takes (reqs_refs rs) (refs (sc_out c) + R) h (sc_in c) h' m'"
  shows "bufs_ok (reqs_refs rs + R) h' (c\<lparr>sc_in := m'\<rparr>)" "bytes h' (sc_out c) = bytes h (sc_out c)"
proof -
  have dis: "disjoint_bufs (sc_in c) (sc_out c)" using ok by (auto simp: bufs_ok_def disjoint_bufs_def)
  note d = takesD(4,5) [OF t dis]
  have out: "same_buf h h' (sc_out c)" by (rule takesD(2) [OF t]) auto
  have "set_mset (refs (sc_out c)) \<inter> set_mset (refs m' + (reqs_refs rs + R)) = {}"
    using ok d by (auto simp: bufs_ok_def disjoint_bufs_def)
  then show "bufs_ok (reqs_refs rs + R) h' (c\<lparr>sc_in := m'\<rparr>)"
    using ok takesD(1) [OF t] same_buf_view [OF out] by (simp add: bufs_ok_def buf_ok_def ac_simps)
  show "bytes h' (sc_out c) = bytes h (sc_out c)" by (rule same_buf_view(1) [OF out])
qed

lemma no_packet:
  assumes "\<not> complete (concat (map (\<lambda>q. packet (enc_request q)) qs) @ rest)" "\<forall>q \<in> set qs. wire_ok q"
  shows "qs = []"
  using assms complete_packet(1) by (cases qs) (auto simp: wire_ok_def)

definition wire_stream :: "wire_request list \<Rightarrow> byte list \<Rightarrow> byte list" where
  "wire_stream qs rest = concat (map (\<lambda>q. packet (enc_request q)) qs) @ rest"

text \<open>
  The event handler of a connection, for any service that meets the contract: it answers, in
  order, every request that is complete with the bytes received now, and keeps the rest.
\<close>

context rpc_service
begin

lemma handle_read_ok:
  assumes ok: "srv_ok k R s p" and c: "ss_conns s p = Some c" "sc_status c = CONNECTED"
    and part: "\<not> complete (bytes (ss_heap s) (sc_in c))"
  shows "\<exists>got fd'. rx fd = got @ rx fd' \<and> (delivers fd \<longrightarrow> rx fd' = []) \<and> (\<forall>qs rest. bytes (ss_heap s) (sc_in c) @ got = wire_stream qs rest
      \<and> (\<forall>q \<in> set qs. wire_ok q \<and> servable meths accepts q) \<and> \<not> complete rest \<and> length got < 2 ^ 32 \<longrightarrow>
      (\<exists>s' c'. handle_read handlers p fd s = Inr (s', fd') \<and> srv_ok k R s' p
        \<and> out_bytes s' p = out_bytes s p @ fst (answers meths qs (sstate.more s))
        \<and> sstate.more s' = snd (answers meths qs (sstate.more s))
        \<and> ss_conns s' p = Some c' \<and> bytes (ss_heap s') (sc_in c') = rest
        \<and> sc_status c' = CONNECTED \<and> sc_sock c' = sc_sock c
        \<and> (\<forall>b. set_mset (refs b) \<subseteq> set_mset R \<and> clear (sc_in c) b \<and> wf_marshal (ss_heap s) b \<longrightarrow>
              bytes (ss_heap s') b = bytes (ss_heap s) b)))"
proof -
  have bo: "bufs_ok R (ss_heap s) c" and sp: "spare k (ss_poll s) p" using ok c by (auto simp: srv_ok_def)
  obtain got m h1 fd' where r: "Marshal_read_from_fd (ss_heap s) (sc_in c) fd = Inr (length got, m, h1, fd')"
    "rx fd = got @ rx fd'" "bytes h1 m = bytes (ss_heap s) (sc_in c) @ got" "bufs_ok R h1 (c\<lparr>sc_in := m\<rparr>)"
    "bytes h1 (sc_out c) = bytes (ss_heap s) (sc_out c)" "delivers fd \<longrightarrow> rx fd' = []"
    and fr: "\<And>b. set_mset (refs b) \<subseteq> set_mset R \<and> clear (sc_in c) b \<Longrightarrow> same_buf (ss_heap s) h1 b \<and> clear m b"
    using receive_ok [OF bo, of fd] by blast
  have "\<exists>s' c'. handle_read handlers p fd s = Inr (s', fd') \<and> srv_ok k R s' p
        \<and> out_bytes s' p = out_bytes s p @ fst (answers meths qs (sstate.more s))
        \<and> sstate.more s' = snd (answers meths qs (sstate.more s))
        \<and> ss_conns s' p = Some c' \<and> bytes (ss_heap s') (sc_in c') = rest
        \<and> sc_status c' = CONNECTED \<and> sc_sock c' = sc_sock c
        \<and> (\<forall>b. set_mset (refs b) \<subseteq> set_mset R \<and> clear (sc_in c) b \<and> wf_marshal (ss_heap s) b \<longrightarrow>
              bytes (ss_heap s') b = bytes (ss_heap s) b)"
    if st: "bytes (ss_heap s) (sc_in c) @ got = wire_stream qs rest"
      "\<forall>q \<in> set qs. wire_ok q \<and> servable meths accepts q" "\<not> complete rest" "length got < 2 ^ 32" for qs rest
  proof (cases "got = []")
    case True
    then have "qs = []" using no_packet [of qs rest] part st by (simp add: wire_stream_def)
    moreover have "handle_read handlers p fd s = Inr (set_conn p (c\<lparr>sc_in := m\<rparr>) h1 s, fd')"
      using c r(1) True by (simp add: handle_read_def)
    moreover have "bytes h1 b = bytes (ss_heap s) b" if "set_mset (refs b) \<subseteq> set_mset R" "clear (sc_in c) b" for b
      using fr that same_buf_view(1) by blast
    ultimately show ?thesis
      using c r sp st(1) True by (auto simp: srv_ok_def out_bytes_def wire_stream_def)
  next
    case False
    have n: "(of_nat (length got) :: i32) \<noteq> 0" by (rule received_nonzero [OF False st(4)])
    let ?c1 = "c\<lparr>sc_in := m\<rparr>"
    have bi: "buf_ok h1 m (refs (sc_out c) + R)" using r(4) by (simp add: bufs_ok_def buf_ok_def ac_simps)
    have bs: "bytes h1 m = concat (map (\<lambda>q. packet (enc_request q)) qs) @ rest"
      using r(3) st(1) by (simp add: wire_stream_def)
    obtain rs m2 h2 where co: "collect_requests h1 m = Inr (rs, m2, h2)"
      "takes (reqs_refs rs) (refs (sc_out c) + R) h1 m h2 m2" "reqs_ok h2 m2 rs" "map (req_view h2) rs = qs"
      "bytes h2 m2 = rest"
      using collect_requests_ok [OF bi bs _ st(3)] st(2) by blast
    have cb: "bufs_ok (reqs_refs rs + R) h2 (c\<lparr>sc_in := m2\<rparr>)" "bytes h2 (sc_out c) = bytes h1 (sc_out c)"
      using collect_bufs_ok [OF r(4), of rs h2 m2] co(2) by simp_all
    let ?s2 = "set_conn p (c\<lparr>sc_in := m2\<rparr>) h2 s"
    have "srv_ok k (reqs_refs rs + R) ?s2 p" using sp cb(1) by (simp add: srv_ok_def)
    from serve_all_ok [OF this, of qs] co(3,4) st(2) obtain s' where
      s': "serve_all handlers p rs ?s2 = Inr s'" "srv_ok k R s' p"
        "replies R ?s2 s' p (fst (answers meths qs (sstate.more s)))"
        "sstate.more s' = snd (answers meths qs (sstate.more s))"
      by (auto simp: reqs_ok_def)
    have hr: "handle_read handlers p fd s = Inr (s', fd')"
      using c r(1) n co(1) s'(1) by (simp add: handle_read_def)
    have keep: "bytes (ss_heap s') b = bytes (ss_heap s) b"
      if b: "set_mset (refs b) \<subseteq> set_mset R" "clear (sc_in c) b" "wf_marshal (ss_heap s) b" for b
    proof -
      have b1: "wf_marshal h1 b" "bytes h1 b = bytes (ss_heap s) b" using fr b same_buf_view by blast+
      have "same_buf h1 h2 b" by (rule takesD(2) [OF co(2)]) (use b(1) in auto)
      then have b2: "wf_marshal h2 b" "bytes h2 b = bytes (ss_heap s) b" using b1 by (simp_all add: same_buf_view)
      then show ?thesis using s'(3) b(1) by (auto simp: replies_def dest!: keeps_bufsD [of _ _ _ b])
    qed
    obtain c' where c': "ss_conns s' p = Some c'" "sc_in c' = m2" "sc_status c' = CONNECTED"
      "sc_sock c' = sc_sock c" "bytes (ss_heap s') m2 = rest"
      using s'(3) c co(5) by (auto simp: replies_def same_server_def)
    have "out_bytes s' p = out_bytes s p @ fst (answers meths qs (sstate.more s))"
      using s'(3) c(1) r(5) cb(2) by (simp add: replies_def out_bytes_def)
    with hr s'(2,4) c' keep show ?thesis by blast
  qed
  with r(2,6) show ?thesis by blast
qed

end

end
