(* ===== verification/Bench_Service.thy ===== *)
theory Bench_Service
  imports Server_Correct
begin

text \<open>
  The methods of the benchmark service (\<open>test/benchmark_service.h\<close>, generated by rpcgen, and
  \<open>test/benchmark_service.cc\<close>) that run in the poll thread: two \<open>fast\<close> ones and the deferred one.
  They are the handlers on which the contract of a service is interpreted. The state of the service
  is its counter of \<open>nop\<close> calls.
\<close>

section \<open>Definitions\<close>

definition FAST_ADD :: i32 where "FAST_ADD = 0x484806bf"
definition FAST_NOP :: i32 where "FAST_NOP = 0x4f29b7a5"
definition ADD_LATER :: i32 where "ADD_LATER = 0x64e0a594"

text \<open>Signed addition: overflow is undefined in C++.\<close>

definition fits_i32 :: "int \<Rightarrow> bool" where
  "fits_i32 x \<longleftrightarrow> - (2 ^ 31) \<le> x \<and> x < 2 ^ 31"

definition add_i32 :: "i32 \<Rightarrow> i32 \<Rightarrow> i32 res" where
  "add_i32 a b = (if fits_i32 (sint a + sint b) then Inr (a + b) else Inl IntOverflow)"

definition nop :: "i64 \<Rightarrow> i64" where
  "nop g_nop_counter = g_nop_counter + 1"

text \<open>The last steps of a generated wrapper.\<close>

definition send_and_clean ::
  "(pid \<Rightarrow> i64 sstate_scheme \<Rightarrow> i64 sstate_scheme res) \<Rightarrow> request \<Rightarrow> pid \<Rightarrow> i64 sstate_scheme \<Rightarrow> i64 sstate_scheme res"
  where
  "send_and_clean out req p s =
     rbind (begin_reply p (req_xid req) 0 s) (\<lambda>s1.
     rbind (out p s1) (\<lambda>s2.
     rbind (end_reply p s2) (\<lambda>s3.
     rbind (delete_request req s3) (conn_release p))))"

definition fast_add_wrapper :: "i64 rpc_handler" where
  "fast_add_wrapper req p s =
     rbind (get_v32 (ss_heap s) (req_m req)) (\<lambda>(in_0, m1, h1).
     rbind (get_v32 h1 m1) (\<lambda>(in_1, m2, h2).
     rbind (add_i32 in_0 in_1) (\<lambda>out_0.
       send_and_clean (\<lambda>p. conn_put put_v32 p out_0) (req\<lparr>req_m := m2\<rparr>) p (s\<lparr>ss_heap := h2\<rparr>))))"

definition fast_nop_wrapper :: "i64 rpc_handler" where
  "fast_nop_wrapper req p s =
     rbind (get_string (ss_heap s) (req_m req)) (\<lambda>(in_0, m1, h1).
       send_and_clean (\<lambda>_. Inr) (req\<lparr>req_m := m1\<rparr>) p (sstate.more_update nop (s\<lparr>ss_heap := h1\<rparr>)))"

text \<open>\<open>add_later\<close> replies before it returns; \<open>__cleanup__\<close> only frees the three integers.\<close>

definition add_later_wrapper :: "i64 rpc_handler" where
  "add_later_wrapper req p s =
     rbind (get_i32 (ss_heap s) (req_m req)) (\<lambda>(in_0, m1, h1).
     rbind (get_i32 h1 m1) (\<lambda>(in_1, m2, h2).
     rbind (add_i32 in_0 in_1) (\<lambda>sum.
       DeferredReply_reply (req\<lparr>req_m := m2\<rparr>) p (conn_put put_i32 p sum) Inr (s\<lparr>ss_heap := h2\<rparr>))))"

definition bench_handlers :: "i32 \<Rightarrow> i64 rpc_handler option" where
  "bench_handlers = snd (Server_reg ADD_LATER add_later_wrapper
     (snd (Server_reg FAST_NOP fast_nop_wrapper (snd (Server_reg FAST_ADD fast_add_wrapper Map.empty)))))"

section \<open>What the methods promise\<close>

text \<open>The methods on byte strings, and the arguments they take.\<close>

definition bench_accepts :: "i32 \<Rightarrow> byte list \<Rightarrow> bool" where
  "bench_accepts i b \<longleftrightarrow>
     (if i = FAST_NOP then \<exists>v. short_len (length v) \<and> b = enc_string v
      else \<exists>x y. fits_i32 (sint x + sint y) \<and>
        b = (if i = FAST_ADD then enc_v32 x @ enc_v32 y else to_le 4 x @ to_le 4 y))"

definition fast_add_method :: "i64 rpc_method" where
  "fast_add_method b u = (let n = buf_size (hd b) in (enc_v32 (load_i32 b + load_i32 (drop n b)), u))"

definition fast_nop_method :: "i64 rpc_method" where
  "fast_nop_method b u = ([], u + 1)"

definition add_later_method :: "i64 rpc_method" where
  "add_later_method b u = (to_le 4 (from_le (take 4 b) + from_le (drop 4 b) :: i32), u)"

definition bench_method :: "i32 \<Rightarrow> i64 rpc_method option" where
  "bench_method = [FAST_ADD \<mapsto> fast_add_method, FAST_NOP \<mapsto> fast_nop_method, ADD_LATER \<mapsto> add_later_method]"

lemma more_update_simps [simp]:
  "ss_heap (sstate.more_update f s) = ss_heap s" "ss_conns (sstate.more_update f s) = ss_conns s"
  "ss_poll (sstate.more_update f s) = ss_poll s" "ss_sconns (sstate.more_update f s) = ss_sconns s"
  "ss_ctr (sstate.more_update f s) = ss_ctr s" "sstate.more (sstate.more_update f s) = f (sstate.more s)"
  by (cases s; simp)+

lemma more_update_ok [simp]:
  "srv_ok k R (sstate.more_update f s) p = srv_ok k R s p"
  "replies R s (sstate.more_update f s) p []"
  by (auto simp: srv_ok_def replies_def out_bytes_def same_server_def split: option.split)

lemma send_and_clean_eq: "send_and_clean out req p s = DeferredReply_reply req p (out p) Inr s"
proof -
  have "DeferredReply_delete req p (Inr :: i64 sstate_scheme \<Rightarrow> _) = (\<lambda>s3. rbind (delete_request req s3) (conn_release p))"
    by (simp add: fun_eq_iff DeferredReply_delete_def)
  then show ?thesis unfolding send_and_clean_def DeferredReply_reply_def by (simp only:)
qed

lemma implementsI:
  fixes f :: "'u rpc_handler"
  assumes "\<And>k R s p req. srv_ok (Suc k) (refs (req_m req) + R) s p \<Longrightarrow> wf_marshal (ss_heap s) (req_m req) \<Longrightarrow>
      accepts (bytes (ss_heap s) (req_m req)) \<Longrightarrow>
      \<exists>t req' w. f req p s = DeferredReply_reply req' p w Inr t \<and> req_xid req' = req_xid req
        \<and> srv_ok (Suc k) (refs (req_m req') + R) t p \<and> wf_marshal (ss_heap t) (req_m req')
        \<and> replies R s t p [] \<and> writes_body p w (fst (g (bytes (ss_heap s) (req_m req)) (sstate.more s)))
        \<and> sstate.more t = snd (g (bytes (ss_heap s) (req_m req)) (sstate.more s))"
  shows "implements f accepts g"
  unfolding implements_def
proof (intro allI impI, elim conjE)
  fix k R p and req :: request and s :: "'u sstate_scheme"
  assume a: "srv_ok (Suc k) (refs (req_m req) + R) s p" "wf_marshal (ss_heap s) (req_m req)"
    "accepts (bytes (ss_heap s) (req_m req))"
  let ?b = "bytes (ss_heap s) (req_m req)"
  from assms [OF a] obtain t req' w where f: "f req p s = DeferredReply_reply req' p w Inr t"
    "req_xid req' = req_xid req" "srv_ok (Suc k) (refs (req_m req') + R) t p" "wf_marshal (ss_heap t) (req_m req')"
    "replies R s t p []" "writes_body p w (fst (g ?b (sstate.more s)))" "sstate.more t = snd (g ?b (sstate.more s))"
    by blast
  from DeferredReply_reply_ok [OF f(3,4,6)] obtain s' where s': "f req p s = Inr s'" "srv_ok k R s' p"
    "replies R t s' p (packet (enc_v64 (req_xid req) @ enc_v32 0 @ fst (g ?b (sstate.more s))))"
    "sstate.more s' = snd (g ?b (sstate.more s))" using f(1,2,7) by auto
  with replies_trans [OF f(5) s'(3)] show "\<exists>s'. f req p s = Inr s' \<and> srv_ok k R s' p
      \<and> replies R s s' p (packet (enc_v64 (req_xid req) @ enc_v32 0 @ fst (g ?b (sstate.more s))))
      \<and> sstate.more s' = snd (g ?b (sstate.more s))" by auto
qed

text \<open>Two arguments read one after the other.\<close>

lemma parse_two_ok:
  assumes get: "wire_get validA encA getA" "wire_get validB encB getB" and v: "validA x" "validB y"
    and ok: "srv_ok k (refs (req_m req) + R) s p" and wf: "wf_marshal (ss_heap s) (req_m req)"
    and b: "bytes (ss_heap s) (req_m req) = encA x @ encB y"
  shows "\<exists>m1 h1 m2 h2. getA (ss_heap s) (req_m req) = Inr (x, m1, h1) \<and> getB h1 m1 = Inr (y, m2, h2)
    \<and> srv_ok k (refs m2 + R) (s\<lparr>ss_heap := h2\<rparr>) p \<and> replies R s (s\<lparr>ss_heap := h2\<rparr>) p [] \<and> wf_marshal h2 m2"
proof -
  obtain m1 h1 where 1: "getA (ss_heap s) (req_m req) = Inr (x, m1, h1)"
    "srv_ok k (refs m1 + R) (s\<lparr>ss_heap := h1\<rparr>) p" "replies R s (s\<lparr>ss_heap := h1\<rparr>) p []" "wf_marshal h1 m1"
    "bytes h1 m1 = encB y" using parse_arg_ok [OF get(1) v(1) ok wf b] by blast
  let ?s = "s\<lparr>ss_heap := h1\<rparr>"
  have "wf_marshal (ss_heap ?s) m1" "bytes (ss_heap ?s) m1 = encB y @ []" using 1(4,5) by simp_all
  from parse_arg_ok [OF get(2) v(2) 1(2) this] obtain m2 h2 where 2: "getB h1 m1 = Inr (y, m2, h2)"
    "srv_ok k (refs m2 + R) (s\<lparr>ss_heap := h2\<rparr>) p" "replies R ?s (s\<lparr>ss_heap := h2\<rparr>) p []" "wf_marshal h2 m2"
    by auto
  from replies_trans [OF 1(3) 2(3)] have "replies R s (s\<lparr>ss_heap := h2\<rparr>) p []" by simp
  with 1(1) 2 show ?thesis by blast
qed

lemma ids_distinct: "FAST_ADD \<noteq> FAST_NOP" "FAST_ADD \<noteq> ADD_LATER" "FAST_NOP \<noteq> ADD_LATER"
  by (simp_all add: FAST_ADD_def FAST_NOP_def ADD_LATER_def)

lemma fast_add_implements: "implements fast_add_wrapper (bench_accepts FAST_ADD) fast_add_method"
proof (rule implementsI)
  fix k R p and req :: request and s :: "i64 sstate_scheme"
  assume ok: "srv_ok (Suc k) (refs (req_m req) + R) s p" and wf: "wf_marshal (ss_heap s) (req_m req)"
    and "bench_accepts FAST_ADD (bytes (ss_heap s) (req_m req))"
  then obtain x y where b: "bytes (ss_heap s) (req_m req) = enc_v32 x @ enc_v32 y" "fits_i32 (sint x + sint y)"
    using ids_distinct(1) by (auto simp: bench_accepts_def)
  obtain m1 h1 m2 h2 where g: "get_v32 (ss_heap s) (req_m req) = Inr (x, m1, h1)" "get_v32 h1 m1 = Inr (y, m2, h2)"
    "srv_ok (Suc k) (refs m2 + R) (s\<lparr>ss_heap := h2\<rparr>) p" "replies R s (s\<lparr>ss_heap := h2\<rparr>) p []" "wf_marshal h2 m2"
    using parse_two_ok [OF v32.get v32.get _ _ ok wf b(1)] by blast
  have "load_i32 (enc_v32 x @ enc_v32 y) = x" "load_i32 (enc_v32 y) = y"
    using load_i32_enc [of x "enc_v32 y"] load_i32_enc [of y "[]"] by simp_all
  moreover have "buf_size (hd (enc_v32 x @ enc_v32 y)) = length (enc_v32 x)"
    using buf_size_enc_v32 [of x] by (simp add: hd_append enc_neq_Nil length_enc_v32 hd_conv_nth)
  ultimately have m: "fast_add_method (enc_v32 x @ enc_v32 y) u = (enc_v32 (x + y), u)" for u
    by (simp add: fast_add_method_def Let_def)
  have "fast_add_wrapper req p s
      = DeferredReply_reply (req\<lparr>req_m := m2\<rparr>) p (conn_put put_v32 p (x + y)) Inr (s\<lparr>ss_heap := h2\<rparr>)"
    using g(1,2) b(2) by (simp add: fast_add_wrapper_def add_i32_def send_and_clean_eq)
  moreover have "writes_body p (conn_put put_v32 p (x + y)) (enc_v32 (x + y))"
    by (rule writes_put) (rule v32.put_ok, simp_all)
  ultimately show "\<exists>t req' w. fast_add_wrapper req p s = DeferredReply_reply req' p w Inr t
      \<and> req_xid req' = req_xid req \<and> srv_ok (Suc k) (refs (req_m req') + R) t p
      \<and> wf_marshal (ss_heap t) (req_m req') \<and> replies R s t p []
      \<and> writes_body p w (fst (fast_add_method (bytes (ss_heap s) (req_m req)) (sstate.more s)))
      \<and> sstate.more t = snd (fast_add_method (bytes (ss_heap s) (req_m req)) (sstate.more s))"
    using g(3-5) unfolding b(1) m
    by (intro exI [of _ "s\<lparr>ss_heap := h2\<rparr>"] exI [of _ "req\<lparr>req_m := m2\<rparr>"] exI [of _ "conn_put put_v32 p (x + y)"]) simp
qed

lemma add_later_implements: "implements add_later_wrapper (bench_accepts ADD_LATER) add_later_method"
proof (rule implementsI)
  fix k R p and req :: request and s :: "i64 sstate_scheme"
  assume ok: "srv_ok (Suc k) (refs (req_m req) + R) s p" and wf: "wf_marshal (ss_heap s) (req_m req)"
    and "bench_accepts ADD_LATER (bytes (ss_heap s) (req_m req))"
  then obtain x y :: i32 where b: "bytes (ss_heap s) (req_m req) = to_le 4 x @ to_le 4 y" "fits_i32 (sint x + sint y)"
    using ids_distinct by (auto simp: bench_accepts_def)
  obtain m1 h1 m2 h2 where g: "get_i32 (ss_heap s) (req_m req) = Inr (x, m1, h1)" "get_i32 h1 m1 = Inr (y, m2, h2)"
    "srv_ok (Suc k) (refs m2 + R) (s\<lparr>ss_heap := h2\<rparr>) p" "replies R s (s\<lparr>ss_heap := h2\<rparr>) p []" "wf_marshal h2 m2"
    using parse_two_ok [OF i32.get i32.get _ _ ok wf b(1)] by blast
  have m: "add_later_method (to_le 4 x @ to_le 4 y) u = (to_le 4 (x + y), u)" for u
    by (simp add: add_later_method_def)
  have "add_later_wrapper req p s
      = DeferredReply_reply (req\<lparr>req_m := m2\<rparr>) p (conn_put put_i32 p (x + y)) Inr (s\<lparr>ss_heap := h2\<rparr>)"
    using g(1,2) b(2) by (simp add: add_later_wrapper_def add_i32_def)
  moreover have "writes_body p (conn_put put_i32 p (x + y)) (to_le 4 (x + y))"
    by (rule writes_put) (rule i32.put_ok, simp_all)
  ultimately show "\<exists>t req' w. add_later_wrapper req p s = DeferredReply_reply req' p w Inr t
      \<and> req_xid req' = req_xid req \<and> srv_ok (Suc k) (refs (req_m req') + R) t p
      \<and> wf_marshal (ss_heap t) (req_m req') \<and> replies R s t p []
      \<and> writes_body p w (fst (add_later_method (bytes (ss_heap s) (req_m req)) (sstate.more s)))
      \<and> sstate.more t = snd (add_later_method (bytes (ss_heap s) (req_m req)) (sstate.more s))"
    using g(3-5) unfolding b(1) m
    by (intro exI [of _ "s\<lparr>ss_heap := h2\<rparr>"] exI [of _ "req\<lparr>req_m := m2\<rparr>"] exI [of _ "conn_put put_i32 p (x + y)"]) simp
qed

lemma fast_nop_implements: "implements fast_nop_wrapper (bench_accepts FAST_NOP) fast_nop_method"
proof (rule implementsI)
  fix k R p and req :: request and s :: "i64 sstate_scheme"
  assume ok: "srv_ok (Suc k) (refs (req_m req) + R) s p" and wf: "wf_marshal (ss_heap s) (req_m req)"
    and "bench_accepts FAST_NOP (bytes (ss_heap s) (req_m req))"
  then obtain v where v: "bytes (ss_heap s) (req_m req) = enc_string v @ []" "short_len (length v)"
    by (auto simp: bench_accepts_def)
  obtain m h where g: "get_string (ss_heap s) (req_m req) = Inr (v, m, h)"
    "srv_ok (Suc k) (refs m + R) (s\<lparr>ss_heap := h\<rparr>) p" "replies R s (s\<lparr>ss_heap := h\<rparr>) p []" "wf_marshal h m"
    using parse_arg_ok [OF str.get v(2) ok wf v(1)] by blast
  let ?t = "sstate.more_update nop (s\<lparr>ss_heap := h\<rparr>)"
  have "replies R s ?t p []" using replies_trans [OF g(3) more_update_ok(2) [of R _ nop p]] by simp
  moreover have "fast_nop_wrapper req p s = DeferredReply_reply (req\<lparr>req_m := m\<rparr>) p Inr Inr ?t"
    using g(1) by (simp add: fast_nop_wrapper_def send_and_clean_eq)
  ultimately show "\<exists>t req' w. fast_nop_wrapper req p s = DeferredReply_reply req' p w Inr t
      \<and> req_xid req' = req_xid req \<and> srv_ok (Suc k) (refs (req_m req') + R) t p
      \<and> wf_marshal (ss_heap t) (req_m req') \<and> replies R s t p []
      \<and> writes_body p w (fst (fast_nop_method (bytes (ss_heap s) (req_m req)) (sstate.more s)))
      \<and> sstate.more t = snd (fast_nop_method (bytes (ss_heap s) (req_m req)) (sstate.more s))"
    using g(2,4) writes_nothing unfolding fast_nop_method_def
    by (intro exI [of _ ?t] exI [of _ "req\<lparr>req_m := m\<rparr>"] exI [of _ Inr]) (simp add: nop_def)
qed

interpretation bench: rpc_service bench_handlers bench_method bench_accepts
proof unfold_locales
  have h: "bench_handlers = [FAST_ADD \<mapsto> fast_add_wrapper, FAST_NOP \<mapsto> fast_nop_wrapper, ADD_LATER \<mapsto> add_later_wrapper]"
    using ids_distinct by (auto simp: bench_handlers_def Server_reg_def)
  show "(bench_handlers i = None) = (bench_method i = None)" for i by (simp add: h bench_method_def)
  show "implements f (bench_accepts i) g" if "bench_handlers i = Some f" "bench_method i = Some g" for i f g
    using that fast_add_implements fast_nop_implements add_later_implements
    by (auto simp: h bench_method_def split: if_splits)
qed

end
