(* ===== verification/Server_Properties.thy ===== *)
theory Server_Properties
  imports Bench_Service
begin

text \<open>
  The properties of the server: the answers of a connection to a stream of requests, the form of a
  reply, datagrams, hostile packets, and the life of a connection from \<open>accept\<close> to its last release.
\<close>

section \<open>Opening and closing\<close>

lemma server_accept_ok:
  assumes "poll_ok (ss_poll s)" "pobjs (ss_poll s) p = None" "0 \<le> fd"
    and "mode (poll_threads (ss_poll s) ! tid_of (ss_poll s) fd) fd = None"
      "epoll (poll_threads (ss_poll s) ! tid_of (ss_poll s) fd) fd = None"
    and heap: "heap_ok (ss_heap s) R"
  shows "\<exists>s' c. server_accept p fd s = Inr s' \<and> srv_ok 0 R s' p \<and> \<not> spare 1 (ss_poll s') p
    \<and> ss_conns s' p = Some c \<and> sc_status c = CONNECTED \<and> sc_sock c = fd
    \<and> bytes (ss_heap s') (sc_in c) = [] \<and> out_bytes s' p = []
    \<and> registered (ss_poll s') p \<and> pobjs (ss_poll s') p = Some \<lparr>p_fd = fd, p_mode = READ, p_ref = 2\<rparr>
    \<and> p \<in> ss_sconns s' \<and> ss_ctr s' = ss_ctr s + 1 \<and> ss_heap s' = ss_heap s \<and> sstate.more s' = sstate.more s"
proof -
  obtain pw where pw: "PollMgr_add p ((ss_poll s)\<lparr>pobjs := (pobjs (ss_poll s))
      (p \<mapsto> \<lparr>p_fd = fd, p_mode = READ, p_ref = 1\<rparr>)\<rparr>) = Inr pw" "spare 0 pw p" "\<not> spare 1 pw p" "registered pw p"
    "pobjs pw p = Some \<lparr>p_fd = fd, p_mode = READ, p_ref = 2\<rparr>"
    using add_spare [OF assms(1-5), of READ] by blast
  with heap show ?thesis
    by (simp add: server_accept_def Let_def srv_ok_def bufs_ok_def out_bytes_def)
qed

text \<open>The last reference: the destructor counts the connection out and frees its two buffers.\<close>

lemma conn_last_release_ok:
  assumes ok: "srv_ok 0 R s p" and last: "\<not> spare 1 (ss_poll s) p"
    and q: "pobjs (ss_poll s) p = Some q" "held (poll_threads (ss_poll s) ! tid_of (ss_poll s) (p_fd q)) p = 0"
  shows "\<exists>s'. conn_release p s = Inr s' \<and> heap_ok (ss_heap s') R \<and> ss_conns s' p = None
    \<and> ss_ctr s' = ss_ctr s - 1 \<and> keeps_bufs R (ss_heap s) (ss_heap s')"
proof -
  obtain c where c: "ss_conns s p = Some c" "bufs_ok R (ss_heap s) c" and sp: "spare 0 (ss_poll s) p"
    using ok by (auto simp: srv_ok_def)
  obtain pw where pw: "Pollable_release p (ss_poll s) = Inr pw" "pobjs pw p = None"
    using release_last [OF sp q(1) last] q(2) by blast
  have o: "buf_ok (ss_heap s) (sc_out c) (refs (sc_in c) + R)" using c(2) by (simp add: bufs_ok_def buf_ok_def)
  obtain h1 where h1: "Marshal_delete (sc_out c) (ss_heap s) = Inr h1" "heap_ok h1 (refs (sc_in c) + R)"
    "\<forall>b. set_mset (refs b) \<subseteq> set_mset (refs (sc_in c) + R) \<longrightarrow> same_buf (ss_heap s) h1 b"
    using Marshal_delete_ok [OF o] by blast
  have "same_buf (ss_heap s) h1 (sc_in c)" using h1(3) by auto
  then have i: "buf_ok h1 (sc_in c) R" using c(2) h1(2) by (simp add: same_buf_view bufs_ok_def buf_ok_def)
  obtain h2 where h2: "Marshal_delete (sc_in c) h1 = Inr h2" "heap_ok h2 R"
    "\<forall>b. set_mset (refs b) \<subseteq> set_mset R \<longrightarrow> same_buf h1 h2 b"
    using Marshal_delete_ok [OF i] by blast
  have k: "keeps_bufs R (ss_heap s) h1" by (rule keeps_bufs_same) (use h1(3) in \<open>simp add: le_supI2\<close>)
  have "keeps_bufs R h1 h2" by (rule keeps_bufs_same) (use h2(3) in simp)
  from keeps_bufs_trans [OF k this] h1 h2 pw c(1) show ?thesis by (simp add: conn_release_def)
qed

lemma conn_close_ok:
  assumes ok: "srv_ok 0 R s p" and c: "ss_conns s p = Some c" "sc_status c = CONNECTED" "p \<in> ss_sconns s"
    and reg: "registered (ss_poll s) p" and q: "pobjs (ss_poll s) p = Some q" "p_fd q = sc_sock c"
  shows "\<exists>s'. conn_close p s = Inr s' \<and> poll_ok (ss_poll s') \<and> ss_sconns s' = ss_sconns s - {p} \<and> ss_heap s' = ss_heap s
    \<and> ss_ctr s' = ss_ctr s    \<and> ss_conns s' p = Some (c\<lparr>sc_status := CLOSED\<rparr>) \<and> \<not> registered (ss_poll s') p
    \<and> pobjs (ss_poll s') p = Some (q\<lparr>p_ref := p_ref q - 1\<rparr>) \<and> 0 < p_ref q - 1"
proof -
  have sp: "spare 0 (ss_poll s) p" using ok by (simp add: srv_ok_def)
  let ?fd = "sc_sock c"
  obtain w1 where w1: "PollMgr_remove p (ss_poll s) = Inr w1" "spare 0 w1 p" "pobjs w1 = pobjs (ss_poll s)"
    "mode (poll_threads w1 ! tid_of w1 ?fd) ?fd = None" "held (poll_threads w1 ! tid_of w1 ?fd) p = 1" "\<not> registered w1 p"
    using remove_spare [OF sp reg q(1)] q(2) by auto
  let ?w2 = "os_close ?fd w1"
  have q1: "pobjs w1 p = Some q" using w1(3) q(1) by simp
  note w2 = os_close_spare [OF w1(2) q1 w1(4)]
  have held2: "held (poll_threads ?w2 ! tid_of ?w2 (p_fd q)) p = 1" using w2(3) w1(5) q(2) by simp
  have ref: "1 < p_ref q" using w2(1,2) q1 held2 by (auto simp: spare_def)
  let ?w3 = "?w2\<lparr>pobjs := (pobjs ?w2)(p \<mapsto> q\<lparr>p_ref := p_ref q - 1\<rparr>)\<rparr>"
  have rel: "Pollable_release p ?w2 = Inr ?w3"
    using ref q1 w2(2) by (simp add: Pollable_release_def obj_def Let_def)
  have "poll_ok ?w2" "pobjs ?w2 p = Some q" using w2(1,2) q1 by (simp_all add: spare_def)
  from release_keeps [OF this _ rel] held2 ref have ok3: "poll_ok ?w3" by simp
  have "\<not> registered ?w3 p"
    using os_close_registered [OF w1(2), of ?fd p] w1(6) q1 w2(2) by (simp add: registered_def tid_of_def)
  with rel ok3 ref c w1(1) w2(2) show ?thesis by (simp add: conn_close_def conn_release_def)
qed

section \<open>Hostile packets\<close>

lemma negative_size:
  assumes "- 4 \<le> sint n" "sint (n :: i32) < 0"
  shows "with_header n < 4" "2 ^ 63 \<le> as_size n"
proof -
  have n: "n = word_of_int (sint n)" by simp
  consider "sint n = - 4" | "sint n = - 3" | "sint n = - 2" | "sint n = - 1" using assms by linarith
  then have "with_header n < 4 \<and> 2 ^ 63 \<le> as_size n"
    by cases (subst (1 2) n, simp add: with_header_def as_size_def scast_eq unsigned_minus_1_eq_mask
        mask_eq_exp_minus_1)+
  then show "with_header n < 4" "2 ^ 63 \<le> as_size n" by simp_all
qed

lemma empty_packet_fails:
  assumes ok: "buf_ok h m R" and b: "bytes h m = packet [] @ rest"
  shows "collect_requests h m = Inl VerifyFailed"
proof -
  have len: "short_len (length ([] :: byte list))" by (simp add: short_len_def)
  obtain t m' h' where t: "take_packet h m = Inr (t, m', h')" "takes (refs t) R h m h' m'" "wf_marshal h' t"
    "bytes h' t = []" using take_packet_ok [OF ok b len] by auto
  have okt: "buf_ok h' t (refs m' + R)" using t(2,3) by (simp add: takes_def buf_ok_def ac_simps)
  have "long_enough 0" by (simp add: long_enough_def val_size_def)
  then have "get_v64 h' t = Inl VerifyFailed"
    using v64.get_cut [OF okt, of 0] t(4) by (simp add: enc_neq_Nil(2) [symmetric] strict_prefix_def)
  moreover have "packet_waiting h m = Inr (Some (of_nat 0))"
    using complete_packet [of "[]" rest] len ok by (simp add: packet_waiting_ok buf_ok_def b)
  ultimately show ?thesis using t(1) by (simp add: collect_requests.simps [of h m])
qed

lemma negative_packet_fails:
  assumes ok: "buf_ok h m R" and b: "4 \<le> length (bytes h m)" "length (bytes h m) < 2 ^ 63"
    and n: "from_le (take 4 (bytes h m)) = n" "- 4 \<le> sint n" "sint (n :: i32) < 0"
  shows "collect_requests h m = Inl AssertFailed"
proof -
  note neg = negative_size [OF n(2,3)]
  have "packet_waiting h m = Inr (Some n)"
    using ok b(1) neg(1) n(1) by (simp add: packet_waiting_ok buf_ok_def complete_def)
  moreover obtain m1 h1 where r: "Marshal_read h m 4 = Inr (take 4 (bytes h m), m1, h1)" "consumes R h m 4 h1 m1"
    using Marshal_read_ok [OF ok, of 4] b(1) by (auto simp: min_def)
  have m1: "wf_marshal h1 m1" "length (bytes h1 m1) < as_size n"
    using consumes_buf_ok [OF r(2)] b(2) neg(2) by (simp_all add: buf_ok_def)
  then have "read_from_marshal h1 Marshal_new m1 (as_size n) = Inl AssertFailed"
    by (simp add: read_from_marshal.simps [of h1 Marshal_new m1])
  then have "take_packet h m = Inl AssertFailed" using r(1) b(1) n(1) by (simp add: take_packet_def Let_def)
  ultimately show ?thesis by (simp add: collect_requests.simps [of h m])
qed

lemma receive_then_fail:
  assumes ok: "srv_ok k R s p" and c: "ss_conns s p = Some c" "sc_status c = CONNECTED"
  shows "\<exists>got (fd' :: in_fd). rx fd = got @ rx fd' \<and> (delivers fd \<longrightarrow> rx fd' = [])
    \<and> (\<forall>e. got \<noteq> [] \<and> length got < 2 ^ 32
        \<and> (\<forall>h m Q. buf_ok h m Q \<and> bytes h m = bytes (ss_heap s) (sc_in c) @ got \<longrightarrow> collect_requests h m = Inl e) \<longrightarrow>
        handle_read handlers p fd s = Inl e)"
proof -
  have bo: "bufs_ok R (ss_heap s) c" using ok c by (auto simp: srv_ok_def)
  obtain got m h fd' where r: "Marshal_read_from_fd (ss_heap s) (sc_in c) fd = Inr (length got, m, h, fd')"
    "rx fd = got @ rx fd'" "bytes h m = bytes (ss_heap s) (sc_in c) @ got" "bufs_ok R h (c\<lparr>sc_in := m\<rparr>)"
    "delivers fd \<longrightarrow> rx fd' = []"
    using receive_ok [OF bo, of fd] by blast
  have bi: "buf_ok h m (refs (sc_out c) + R)" using r(4) by (simp add: bufs_ok_def buf_ok_def ac_simps)
  have "handle_read handlers p fd s = Inl e"
    if e: "got \<noteq> []" "length got < 2 ^ 32"
      "\<forall>h m Q. buf_ok h m Q \<and> bytes h m = bytes (ss_heap s) (sc_in c) @ got \<longrightarrow> collect_requests h m = Inl e" for e
  proof -
    have "(of_nat (length got) :: i32) \<noteq> 0" by (rule received_nonzero [OF e(1,2)])
    moreover have "collect_requests h m = Inl e" using e(3) bi r(3) by blast
    ultimately show ?thesis using c r(1) by (simp add: handle_read_def)
  qed
  with r(2,5) show ?thesis by (intro exI [of _ got] exI [of _ fd']) simp
qed

section \<open>A server to look at\<close>

definition demo_server :: "i64 sstate_scheme" where
  "demo_server = \<lparr>ss_heap = \<lparr>cells = Map.empty, brk = 1, garbage = (\<lambda>_ _. 0)\<rparr>, ss_poll = demo_poll0,
     ss_conns = Map.empty, ss_sconns = {}, ss_ctr = 0, ss_missing = {}, \<dots> = 41\<rparr>"

lemma demo_accept:
  "\<exists>s c. server_accept 7 5 demo_server = Inr s \<and> srv_ok 0 {#} s 7 \<and> \<not> spare 1 (ss_poll s) 7
    \<and> ss_conns s 7 = Some c \<and> sc_status c = CONNECTED \<and> sc_sock c = 5 \<and> bytes (ss_heap s) (sc_in c) = []
    \<and> out_bytes s 7 = [] \<and> registered (ss_poll s) 7
    \<and> pobjs (ss_poll s) 7 = Some \<lparr>p_fd = 5, p_mode = READ, p_ref = 2\<rparr> \<and> 7 \<in> ss_sconns s \<and> sstate.more s = 41"
proof -
  have "PollMgr_new 1 (\<lambda>_. None) = Inr demo_poll0" by (simp add: PollMgr_new_def demo_poll0_def)
  then have "poll_ok demo_poll0" by (rule new_ok) simp_all
  moreover have "heap_ok (ss_heap demo_server) {#}" by (simp add: demo_server_def heap_ok_def)
  ultimately show ?thesis
    using server_accept_ok [of demo_server 7 5 "{#}"]
    by (auto simp: demo_server_def demo_poll0_def PollThread_new_def tid_of_def)
qed

definition demo_requests :: "wire_request list" where
  "demo_requests = [(5, to_le 4 FAST_ADD @ enc_v32 3 @ enc_v32 4), (6, to_le 4 FAST_NOP @ enc_string [104, 105]),
     (7, to_le 4 (99 :: i32)), (8, [1])]"

lemma demo_fast_add:
  "bench_accepts FAST_ADD (enc_v32 3 @ enc_v32 4)" "fast_add_method (enc_v32 3 @ enc_v32 4) u = (enc_v32 7, u)"
proof -
  have "fits_i32 (sint (3 :: i32) + sint (4 :: i32))" by (simp add: fits_i32_def)
  then show "bench_accepts FAST_ADD (enc_v32 3 @ enc_v32 4)"
    unfolding bench_accepts_def if_not_P [OF ids_distinct(1)] if_P [OF refl] by blast
  have "load_i32 (enc_v32 3 @ enc_v32 4) = 3" "load_i32 (enc_v32 4) = 4"
    using load_i32_enc [of 3 "enc_v32 4"] load_i32_enc [of 4 "[]"] by simp_all
  moreover have "buf_size (hd (enc_v32 3 @ enc_v32 4)) = length (enc_v32 3)"
    using buf_size_enc_v32 [of 3] by (simp add: hd_append enc_neq_Nil length_enc_v32 hd_conv_nth)
  ultimately show "fast_add_method (enc_v32 3 @ enc_v32 4) u = (enc_v32 7, u)"
    by (simp add: fast_add_method_def Let_def)
qed

lemma demo_requests_ok: "\<forall>q \<in> set demo_requests. wire_ok q \<and> servable bench_method bench_accepts q"
proof -
  have l: "long_enough 5" "long_enough 6" "long_enough 7" "long_enough 8"
    by (simp_all add: long_enough_def val_size_def)
  have v: "v32_val_size 3 = 1" "v32_val_size 4 = 1" "val_size 5 = 1" "val_size 6 = 1" "val_size 7 = 1" "val_size 8 = 1"
    "val_size 2 = 1" by (simp_all add: v32_val_size_def val_size_def)
  have "bench_accepts FAST_NOP (enc_string [104, 105])"
    unfolding bench_accepts_def by (auto simp: short_len_def intro!: exI [of _ "[104, 105 :: byte]"])
  note a = this demo_fast_add(1)
  show ?thesis
    using l a v by (simp add: demo_requests_def wire_ok_def servable_def enc_request_def short_len_def
        enc_string_def length_enc_v64 length_enc_v32 bench_method_def FAST_ADD_def FAST_NOP_def ADD_LATER_def)
qed

section \<open>Properties\<close>

text \<open>
  C5. Whatever service is registered, as long as its handlers meet the contract of \<open>server.h\<close>: one
  readable event on a connection answers, in order, exactly the requests that are complete with the
  bytes received so far, each by one packet with its number, and the code of the method, EINVAL for
  a request without a method number, ENOENT for a method nobody registered; an incomplete packet
  stays for later, and requests still being worked on are not touched.
\<close>

theorem server_answers_in_order:
  assumes "rpc_service handlers meths accepts"
    and "srv_ok k R s p" "ss_conns s p = Some c" "sc_status c = CONNECTED"
    and "\<not> complete (bytes (ss_heap s) (sc_in c))"
  shows "\<exists>got fd'. rx fd = got @ rx fd' \<and> (delivers fd \<longrightarrow> rx fd' = [])
    \<and> (\<forall>qs rest. bytes (ss_heap s) (sc_in c) @ got = wire_stream qs rest
      \<and> (\<forall>q \<in> set qs. wire_ok q \<and> servable meths accepts q) \<and> \<not> complete rest \<and> length got < 2 ^ 32 \<longrightarrow>
      (\<exists>s' c'. handle_read handlers p fd s = Inr (s', fd') \<and> srv_ok k R s' p
        \<and> out_bytes s' p = out_bytes s p @ fst (answers meths qs (sstate.more s))
        \<and> sstate.more s' = snd (answers meths qs (sstate.more s))
        \<and> ss_conns s' p = Some c' \<and> bytes (ss_heap s') (sc_in c') = rest
        \<and> sc_status c' = CONNECTED \<and> sc_sock c' = sc_sock c
        \<and> (\<forall>b. set_mset (refs b) \<subseteq> set_mset R \<and> clear (sc_in c) b \<and> wf_marshal (ss_heap s) b \<longrightarrow>
              bytes (ss_heap s') b = bytes (ss_heap s) b)))"
  by (rule rpc_service.handle_read_ok [OF assms])

theorem server_answers_in_order_witness:
  "\<exists>s s' fd'. server_accept 7 5 demo_server = Inr s
     \<and> handle_read bench_handlers 7 \<lparr>rx = wire_stream demo_requests [9, 9], rd_sched = replicate 90 100\<rparr> s = Inr (s', fd')
     \<and> out_bytes s' 7 = packet (enc_v64 5 @ enc_v32 0 @ enc_v32 7) @ packet (enc_v64 6 @ enc_v32 0)
         @ packet (enc_v64 7 @ enc_v32 ENOENT) @ packet (enc_v64 8 @ enc_v32 EINVAL)
     \<and> sstate.more s' = 42"
proof -
  let ?fd = "\<lparr>rx = wire_stream demo_requests [9, 9], rd_sched = replicate 90 100\<rparr> :: in_fd"
  obtain s c where s: "server_accept 7 5 demo_server = Inr s" "srv_ok 0 {#} s 7" "ss_conns s 7 = Some c"
    "sc_status c = CONNECTED" "bytes (ss_heap s) (sc_in c) = []" "out_bytes s 7 = []" "sstate.more s = 41"
    using demo_accept by blast
  have v: "v32_val_size 3 = 1" "v32_val_size 4 = 1" "val_size 5 = 1" "val_size 6 = 1" "val_size 7 = 1" "val_size 8 = 1"
    "val_size 2 = 1" by (simp_all add: v32_val_size_def val_size_def)
  have len: "length (rx ?fd) = 40"
    by (simp add: wire_stream_def demo_requests_def packet_def enc_request_def enc_string_def length_enc_v64 length_enc_v32 v)
  have nc: "\<not> complete (bytes (ss_heap s) (sc_in c))" "\<not> complete [9, 9]" by (simp_all add: s(5) complete_def)
  obtain got fd' where g: "rx ?fd = got @ rx fd'" "delivers ?fd \<longrightarrow> rx fd' = []"
    and all: "\<forall>qs rest. bytes (ss_heap s) (sc_in c) @ got = wire_stream qs rest
      \<and> (\<forall>q \<in> set qs. wire_ok q \<and> servable bench_method bench_accepts q) \<and> \<not> complete rest \<and> length got < 2 ^ 32 \<longrightarrow>
      (\<exists>s' c'. handle_read bench_handlers 7 ?fd s = Inr (s', fd') \<and> srv_ok 0 {#} s' 7
        \<and> out_bytes s' 7 = out_bytes s 7 @ fst (answers bench_method qs (sstate.more s))
        \<and> sstate.more s' = snd (answers bench_method qs (sstate.more s))
        \<and> ss_conns s' 7 = Some c' \<and> bytes (ss_heap s') (sc_in c') = rest
        \<and> sc_status c' = CONNECTED \<and> sc_sock c' = sc_sock c
        \<and> (\<forall>b. set_mset (refs b) \<subseteq> set_mset {#} \<and> clear (sc_in c) b \<and> wf_marshal (ss_heap s) b \<longrightarrow>
              bytes (ss_heap s') b = bytes (ss_heap s) b))"
    using server_answers_in_order [OF bench.rpc_service_axioms s(2-4) nc(1), of ?fd] by (elim exE conjE) (rule that)
  have "delivers ?fd" using len by (simp add: delivers_def)
  then have got: "got = wire_stream demo_requests [9, 9]" using g by simp
  then obtain s' where s': "handle_read bench_handlers 7 ?fd s = Inr (s', fd')"
    "out_bytes s' 7 = fst (answers bench_method demo_requests 41)"
    "sstate.more s' = snd (answers bench_method demo_requests 41)"
    using all [THEN spec, THEN spec, of demo_requests "[9, 9]"] s(5-7) len nc(2) demo_requests_ok by auto
  have "answers bench_method demo_requests 41 =
      (packet (enc_v64 5 @ enc_v32 0 @ enc_v32 7) @ packet (enc_v64 6 @ enc_v32 0)
         @ packet (enc_v64 7 @ enc_v32 ENOENT) @ packet (enc_v64 8 @ enc_v32 EINVAL), 42)"
    using ids_distinct demo_fast_add(2) [of 41]
    by (simp add: demo_requests_def answer_def bench_method_def fast_nop_method_def FAST_ADD_def FAST_NOP_def ADD_LATER_def)
  with s(1) s' show ?thesis by auto
qed

text \<open>
  C13. The size in front of a packet is not checked. A packet of size 0 has no number to read, so that
  the receive loop stops the server with a failed \<open>verify\<close>; a size from -4 to -1 passes the test
  for a complete packet, because the sum with the size of the header wraps around, and the loop
  then asks its buffer for nearly \<open>2 ^ 64\<close> bytes, which an assertion refuses. Any client can send either.
\<close>

theorem hostile_packet_size_stops_server:
  assumes "srv_ok k R s p" "ss_conns s p = Some c" "sc_status c = CONNECTED"
  shows "\<exists>got (fd' :: in_fd). rx fd = got @ rx fd' \<and> (delivers fd \<longrightarrow> rx fd' = [])
    \<and> (got \<noteq> [] \<and> length got < 2 ^ 32 \<longrightarrow>
        (\<forall>rest. bytes (ss_heap s) (sc_in c) @ got = packet [] @ rest \<longrightarrow> handle_read handlers p fd s = Inl VerifyFailed)
      \<and> (\<forall>n rest. bytes (ss_heap s) (sc_in c) @ got = to_le 4 (n :: i32) @ rest \<and> - 4 \<le> sint n \<and> sint n < 0
          \<and> length rest < 2 ^ 62 \<longrightarrow> handle_read handlers p fd s = Inl AssertFailed))"
proof -
  obtain got and fd' :: in_fd where g: "rx fd = got @ rx fd'" "delivers fd \<longrightarrow> rx fd' = []"
    and all: "\<forall>e. got \<noteq> [] \<and> length got < 2 ^ 32
        \<and> (\<forall>h m Q. buf_ok h m Q \<and> bytes h m = bytes (ss_heap s) (sc_in c) @ got \<longrightarrow> collect_requests h m = Inl e) \<longrightarrow>
        handle_read handlers p fd s = Inl e"
    using receive_then_fail [OF assms, of fd handlers] by (elim exE conjE) (rule that)
  have fail: "handle_read handlers p fd s = Inl e" if "got \<noteq> []" "length got < 2 ^ 32"
      "\<And>h m Q. buf_ok h m Q \<Longrightarrow> bytes h m = bytes (ss_heap s) (sc_in c) @ got \<Longrightarrow> collect_requests h m = Inl e" for e
    using all [THEN spec, of e] that by blast
  have "handle_read handlers p fd s = Inl AssertFailed"
    if r: "got \<noteq> []" "length got < 2 ^ 32" "bytes (ss_heap s) (sc_in c) @ got = to_le 4 n @ rest"
      "- 4 \<le> sint n" "sint n < 0" "length rest < 2 ^ 62" for n :: i32 and rest
    by (rule fail [OF r(1,2)], rule negative_packet_fails [where n = n]) (use r in simp_all)
  moreover have "handle_read handlers p fd s = Inl VerifyFailed"
    if r: "got \<noteq> []" "length got < 2 ^ 32" "bytes (ss_heap s) (sc_in c) @ got = packet [] @ rest" for rest
    by (rule fail [OF r(1,2)], rule empty_packet_fails [where rest = rest]) (use r in simp_all)
  ultimately show ?thesis using g by (intro exI [of _ got] exI [of _ fd']) simp
qed

theorem hostile_packet_size_stops_server_witness:
  "\<exists>s. server_accept 7 5 demo_server = Inr s
     \<and> handle_read bench_handlers 7 \<lparr>rx = [0, 0, 0, 0, 9], rd_sched = replicate 9 100\<rparr> s = Inl VerifyFailed
     \<and> handle_read bench_handlers 7 \<lparr>rx = [255, 255, 255, 255, 9], rd_sched = replicate 9 100\<rparr> s = Inl AssertFailed"
proof -
  let ?z = "\<lparr>rx = [0, 0, 0, 0, 9], rd_sched = replicate 9 100\<rparr> :: in_fd"
  let ?n = "\<lparr>rx = [255, 255, 255, 255, 9], rd_sched = replicate 9 100\<rparr> :: in_fd"
  obtain s c where s: "server_accept 7 5 demo_server = Inr s" "srv_ok 0 {#} s 7" "ss_conns s 7 = Some c"
    "sc_status c = CONNECTED" "bytes (ss_heap s) (sc_in c) = []"
    using demo_accept by blast
  have d: "delivers ?z" "delivers ?n" by (simp_all add: delivers_def)
  have z: "packet [] = [0, 0, 0, 0]" and n: "to_le 4 (4294967295 :: i32) = [255, 255, 255, 255]"
    by (simp_all add: packet_def to_le_def upt_rec byte_at_def)
  have run: "got = rx fd" if "rx fd = got @ rx fd'" "delivers fd \<longrightarrow> rx fd' = []" "delivers fd" for fd fd' :: in_fd and got
    using that by simp
  have "handle_read bench_handlers 7 ?z s = Inl VerifyFailed"
  proof -
    obtain got and fd' :: in_fd where g: "rx ?z = got @ rx fd'" "delivers ?z \<longrightarrow> rx fd' = []"
      "got \<noteq> [] \<and> length got < 2 ^ 32 \<longrightarrow> (\<forall>rest. bytes (ss_heap s) (sc_in c) @ got = packet [] @ rest \<longrightarrow>
         handle_read bench_handlers 7 ?z s = Inl VerifyFailed)"
      using hostile_packet_size_stops_server [OF s(2-4), of ?z bench_handlers] by blast
    show ?thesis using g(3) [unfolded run [OF g(1,2) d(1)] s(5)] by (simp add: z)
  qed
  moreover have "handle_read bench_handlers 7 ?n s = Inl AssertFailed"
  proof -
    obtain got and fd' :: in_fd where g: "rx ?n = got @ rx fd'" "delivers ?n \<longrightarrow> rx fd' = []"
      "got \<noteq> [] \<and> length got < 2 ^ 32 \<longrightarrow> (\<forall>n rest. bytes (ss_heap s) (sc_in c) @ got = to_le 4 (n :: i32) @ rest
         \<and> - 4 \<le> sint n \<and> sint n < 0 \<and> length rest < 2 ^ 62 \<longrightarrow> handle_read bench_handlers 7 ?n s = Inl AssertFailed)"
      using hostile_packet_size_stops_server [OF s(2-4), of ?n bench_handlers] by blast
    have "sint (4294967295 :: i32) = - 1" by simp
    then show ?thesis
      using mp [OF g(3) [unfolded run [OF g(1,2) d(2)] s(5)], THEN spec, THEN spec, of 4294967295 "[9]"] by (simp add: n)
  qed
  ultimately show ?thesis using s(1) by blast
qed

text \<open>
  Between \<open>begin_reply\<close> and \<open>end_reply\<close> the values written with the operators become the body of one
  packet behind whatever was waiting to be sent, with the number of the request and the error code
  in front, and the connection is ready for the next reply. Neither the bytes still to be read
  nor the buffers of anybody else change.
\<close>

theorem reply_is_one_packet:
  assumes "srv_ok k R s p" "writes_body p w body"
  shows "\<exists>s1 s2 s3. begin_reply p xid err s = Inr s1 \<and> w s1 = Inr s2 \<and> end_reply p s2 = Inr s3
    \<and> out_bytes s3 p = out_bytes s p @ packet (enc_v64 xid @ enc_v32 err @ body)
    \<and> srv_ok k R s3 p \<and> keeps_bufs R (ss_heap s) (ss_heap s3) \<and> same_server s s3 p
    \<and> ss_missing s3 = ss_missing s \<and> sstate.more s3 = sstate.more s"
  using reply_ok [OF assms, of xid err] unfolding replies_def by blast

theorem reply_is_one_packet_witness:
  "\<exists>s s1 s2 s3. server_accept 7 5 demo_server = Inr s \<and> begin_reply 7 5 0 s = Inr s1
     \<and> conn_put put_v32 7 9 s1 = Inr s2 \<and> end_reply 7 s2 = Inr s3
     \<and> out_bytes s3 7 = packet (enc_v64 5 @ enc_v32 0 @ enc_v32 9)"
proof -
  obtain s where s: "server_accept 7 5 demo_server = Inr s" "srv_ok 0 {#} s 7" "out_bytes s 7 = []"
    using demo_accept by blast
  have "writes_body 7 (conn_put put_v32 7 9 :: i64 sstate_scheme \<Rightarrow> _) (enc_v32 9)"
    by (rule writes_put) (rule v32.put_ok, simp_all)
  from reply_is_one_packet [OF s(2) this, of 5 0] s(1,3) show ?thesis by auto
qed

text \<open>
  C24. Closing a connection takes it out of the set of open connections and of the poll manager,
  gives up exactly the server's own reference, and leaves the object to the poll thread and to the
  handlers that still hold it, with its buffers; after that a second close, a readable event and a
  writable event do nothing.
\<close>

theorem connection_closed_once:
  assumes "srv_ok 0 R s p" "ss_conns s p = Some c" "sc_status c = CONNECTED" "p \<in> ss_sconns s"
    and "registered (ss_poll s) p" "pobjs (ss_poll s) p = Some q" "p_fd q = sc_sock c"
  shows "\<exists>s'. conn_close p s = Inr s' \<and> poll_ok (ss_poll s') \<and> \<not> registered (ss_poll s') p
    \<and> ss_sconns s' = ss_sconns s - {p} \<and> ss_heap s' = ss_heap s \<and> ss_ctr s' = ss_ctr s
    \<and> ss_conns s' p = Some (c\<lparr>sc_status := CLOSED\<rparr>)
    \<and> pobjs (ss_poll s') p = Some (q\<lparr>p_ref := p_ref q - 1\<rparr>) \<and> 0 < p_ref q - 1
    \<and> conn_close p s' = Inr s' \<and> handle_error p s' = Inr s'
    \<and> handle_read handlers p fd s' = Inr (s', fd) \<and> handle_write p ofd s' = Inr (s', ofd)"
proof -
  obtain s' where s': "conn_close p s = Inr s'" "poll_ok (ss_poll s')" "ss_sconns s' = ss_sconns s - {p}"
    "ss_heap s' = ss_heap s" "ss_ctr s' = ss_ctr s" "ss_conns s' p = Some (c\<lparr>sc_status := CLOSED\<rparr>)"
    "\<not> registered (ss_poll s') p"
    "pobjs (ss_poll s') p = Some (q\<lparr>p_ref := p_ref q - 1\<rparr>)" "0 < p_ref q - 1"
    using conn_close_ok [OF assms] by blast
  then show ?thesis
    by (simp add: conn_close_def [of p s'] handle_error_def handle_read_def handle_write_def)
qed

theorem connection_closed_once_witness:
  "\<exists>s s'. server_accept 7 5 demo_server = Inr s \<and> conn_close 7 s = Inr s' \<and> 7 \<in> ss_sconns s \<and> 7 \<notin> ss_sconns s'
     \<and> conn_close 7 s' = Inr s'"
proof -
  obtain s c where s: "server_accept 7 5 demo_server = Inr s" "srv_ok 0 {#} s 7"
    "ss_conns s 7 = Some c" "sc_status c = CONNECTED" "sc_sock c = 5" "registered (ss_poll s) 7"
    "pobjs (ss_poll s) 7 = Some \<lparr>p_fd = 5, p_mode = READ, p_ref = 2\<rparr>" "7 \<in> ss_sconns s"
    using demo_accept by blast
  from connection_closed_once [OF s(2-4,8,6,7), of undefined undefined undefined] s show ?thesis by auto
qed

text \<open>
  When the last reference on a connection is given up and no poll thread holds it any more, its
  destructor runs once: the connection is counted out, both its buffers give back their arrays, and
  if nothing else lives on the heap, the heap is empty.
\<close>

theorem last_release_frees_connection:
  assumes "srv_ok 0 R s p" "\<not> spare 1 (ss_poll s) p" "pobjs (ss_poll s) p = Some q"
    and "held (poll_threads (ss_poll s) ! tid_of (ss_poll s) (p_fd q)) p = 0"
  shows "\<exists>s'. conn_release p s = Inr s' \<and> ss_conns s' p = None \<and> ss_ctr s' = ss_ctr s - 1
    \<and> heap_ok (ss_heap s') R \<and> keeps_bufs R (ss_heap s) (ss_heap s')
    \<and> (R = {#} \<longrightarrow> cells (ss_heap s') = Map.empty) \<and> conn_release p s' = Inl UseAfterFree"
proof -
  obtain s' where s': "conn_release p s = Inr s'" "heap_ok (ss_heap s') R" "ss_conns s' p = None"
    "ss_ctr s' = ss_ctr s - 1" "keeps_bufs R (ss_heap s) (ss_heap s')"
    using conn_last_release_ok [OF assms] by blast
  moreover have "conn_release p s' = Inl UseAfterFree" using s'(3) by (simp add: conn_release_def conn_def)
  ultimately show ?thesis using heap_ok_empty by auto
qed

theorem last_release_frees_connection_witness:
  "\<exists>s. conn_release 7 (demo_server\<lparr>ss_poll := demo_poll0\<lparr>pobjs := [7 \<mapsto> \<lparr>p_fd = 5, p_mode = READ, p_ref = 1\<rparr>]\<rparr>,
       ss_conns := [7 \<mapsto> \<lparr>sc_in = Marshal_new, sc_out = Marshal_new, sc_bmark = None, sc_status = CLOSED, sc_sock = 5\<rparr>]\<rparr>) = Inr s
     \<and> ss_conns s 7 = None"
proof -
  let ?q = "\<lparr>p_fd = 5, p_mode = READ, p_ref = 1\<rparr> :: pollable"
  let ?c = "\<lparr>sc_in = Marshal_new, sc_out = Marshal_new, sc_bmark = None, sc_status = CLOSED, sc_sock = 5\<rparr> :: tcp_conn"
  let ?pw = "demo_poll0\<lparr>pobjs := [7 \<mapsto> ?q]\<rparr>"
  let ?s = "demo_server\<lparr>ss_poll := ?pw, ss_conns := [7 \<mapsto> ?c]\<rparr>"
  have h: "held (poll_threads ?pw ! tid_of ?pw 5) 7 = 0"
    by (simp add: demo_poll0_def tid_of_def PollThread_new_def held_def)
  have "PollMgr_new 1 (pobjs ?pw) = Inr ?pw" by (simp add: PollMgr_new_def demo_poll0_def)
  then have ok: "poll_ok ?pw" by (rule new_ok) simp_all
  have "srv_ok 0 {#} ?s 7"
    using ok h by (simp add: srv_ok_def spare_def bufs_ok_def demo_server_def heap_ok_def)
  moreover have "\<not> spare 1 (ss_poll ?s) 7" using h by (simp add: spare_def)
  ultimately show ?thesis using last_release_frees_connection [of "{#}" ?s 7 ?q] h by auto
qed

end
