(* ===== verification/Base_Utils.thy ===== *)
theory Base_Utils
  imports Rpc_Prelude "HOL-Library.Multiset" "HOL-Library.Sublist" "HOL-Library.Signed_Division"
begin

text \<open>
  The helpers of \<open>base/strop.cc\<close>, \<open>base/misc.cc\<close> and \<open>base/basetypes.h\<close> that compute something:
  prefixes and suffixes of strings, grouping of decimal digits, splitting at a separator, the time
  stamp of a log line, the atomic counter, and the enumerator that merges sorted sources. C strings are
  lists of characters without the final zero.
\<close>

section \<open>Definitions\<close>

subsection \<open>Strings\<close>

text \<open>\<open>strncmp(a, b, n) == 0\<close> on strings without zero characters.\<close>

definition strncmp_eq :: "string \<Rightarrow> string \<Rightarrow> nat \<Rightarrow> bool" where
  "strncmp_eq a b n \<longleftrightarrow> take n a = take n b"

definition startswith :: "string \<Rightarrow> string \<Rightarrow> bool" where
  "startswith str head = (if length head > length str then False else strncmp_eq str head (length head))"

definition endswith :: "string \<Rightarrow> string \<Rightarrow> bool" where
  "endswith str tail = (if length tail > length str then False
     else strncmp_eq (drop (length str - length tail) str) tail (length tail))"

text \<open>\<open>ostream << int\<close>\<close>

definition digit :: "nat \<Rightarrow> char" where
  "digit d = char_of (48 + d)"

fun decimal :: "nat \<Rightarrow> string" where
  "decimal n = (if n < 10 then [digit n] else decimal (n div 10) @ [digit (n mod 10)])"

declare decimal.simps [simp del]

definition show_int :: "i32 \<Rightarrow> string" where
  "show_int v = (if sint v < 0 then CHR ''-'' # decimal (nat (- sint v)) else decimal (nat (sint v)))"

text \<open>The loop of both \<open>format_decimal\<close>: characters \<open>i\<close> to \<open>idx\<close> of \<open>s\<close> go behind \<open>str\<close>.\<close>

definition comma_before :: "string \<Rightarrow> nat \<Rightarrow> nat \<Rightarrow> bool" where
  "comma_before s idx i \<longleftrightarrow> (idx - i) mod 3 = 0 \<and> i \<noteq> 0 \<and> s ! (i - 1) \<noteq> CHR ''-''"

function group_loop :: "string \<Rightarrow> nat \<Rightarrow> nat \<Rightarrow> string \<Rightarrow> string" where
  "group_loop s idx i str =
     (if i < idx then group_loop s idx (Suc i) (str @ (if comma_before s idx i then '','' else []) @ [s ! i]) else str)"
  by pat_completeness auto
termination by (relation "measure (\<lambda>(s, idx, i, str). idx - i)") auto

declare group_loop.simps [simp del]

definition format_decimal_int :: "i32 \<Rightarrow> string" where
  "format_decimal_int val = (let s = show_int val in group_loop s (length s) 0 [])"

text \<open>\<open>s\<close> is what the stream made of the number, fixed with two decimals.\<close>

fun find_dot :: "string \<Rightarrow> nat \<Rightarrow> nat" where
  "find_dot [] idx = idx"
| "find_dot (c # s) idx = (if c = CHR ''.'' then idx else find_dot s (Suc idx))"

definition format_decimal_double :: "string \<Rightarrow> string" where
  "format_decimal_double s =
     (let idx = find_dot s 0; str = group_loop s idx 0 [] @ drop idx s in
      if str = ''-0.00'' then ''0.00'' else str)"

text \<open>\<open>find\<close> and \<open>find_first_not_of\<close> from a position on; \<open>None\<close> is \<open>npos\<close>.\<close>

fun find_from :: "(char \<Rightarrow> bool) \<Rightarrow> string \<Rightarrow> nat \<Rightarrow> nat option" where
  "find_from P [] pos = None"
| "find_from P (c # s) pos = (if P c then Some pos else find_from P s (Suc pos))"

definition find_at :: "(char \<Rightarrow> bool) \<Rightarrow> string \<Rightarrow> nat option \<Rightarrow> nat option" where
  "find_at P str pos = (case pos of None \<Rightarrow> None | Some p \<Rightarrow> find_from P (drop p str) p)"

lemma find_from_ge: "find_from P s pos = Some e \<Longrightarrow> pos \<le> e \<and> e < pos + length s \<and> P (s ! (e - pos))"
proof (induction s arbitrary: pos)
  case (Cons c s)
  then show ?case by (cases "P c") (fastforce simp: nth_Cons' Suc_diff_le)+
qed simp

function strsplit_loop :: "string \<Rightarrow> char \<Rightarrow> nat option \<Rightarrow> string list \<Rightarrow> nat option \<times> string list" where
  "strsplit_loop str sep begin split =
     (case find_at (\<lambda>c. c = sep) str begin of
         None \<Rightarrow> (begin, split)
       | Some e \<Rightarrow> strsplit_loop str sep (find_at (\<lambda>c. c \<noteq> sep) str (Some e))
           (split @ [take (e - the begin) (drop (the begin) str)]))"
  by pat_completeness auto
termination
proof (relation "measure (\<lambda>(str, sep, b, split). case b of None \<Rightarrow> 0 | Some p \<Rightarrow> Suc (length str) - p)", goal_cases)
  case (2 str sep b split e)
  then obtain p where p: "b = Some p" "find_from (\<lambda>c. c = sep) (drop p str) p = Some e"
    by (auto simp: find_at_def split: option.splits)
  have e: "p \<le> e" "e < length str" "str ! e = sep" using find_from_ge [OF p(2)] by auto
  have "e < e'" if "find_from (\<lambda>c. c \<noteq> sep) (drop e str) e = Some e'" for e'
    using find_from_ge [OF that] e by (cases "e' = e") auto
  with e p(1) show ?case by (fastforce simp: find_at_def split: option.split)
qed simp

declare strsplit_loop.simps [simp del]

definition strsplit :: "string \<Rightarrow> char \<Rightarrow> string list" where
  "strsplit str sep =
     (let (begin, split) = strsplit_loop str sep (find_at (\<lambda>c. c \<noteq> sep) str (Some 0)) [] in
      case begin of
          None \<Rightarrow> split
        | Some b \<Rightarrow> if b < length str then split @ [drop b str] else split)"

subsection \<open>Time stamps and lines\<close>

text \<open>The digits of \<open>val\<close> from the right, with the division of C, written into the array from \<open>off\<close> on.\<close>

fun make_int_digits :: "int \<Rightarrow> nat \<Rightarrow> string" where
  "make_int_digits val 0 = []"
| "make_int_digits val (Suc digits) = make_int_digits (val sdiv 10) digits @ [char_of (48 + val smod 10)]"

definition write_at :: "nat \<Rightarrow> string \<Rightarrow> string \<Rightarrow> string res" where
  "write_at off cs now = (if off + length cs \<le> length now
     then Inr (take off now @ cs @ drop (off + length cs) now) else Inl OutOfBounds)"

definition make_int :: "nat \<Rightarrow> int \<Rightarrow> nat \<Rightarrow> string \<Rightarrow> string res" where
  "make_int off val digits now = write_at off (make_int_digits val digits) now"

record tm =
  tm_year :: int
  tm_mon :: int
  tm_mday :: int
  tm_hour :: int
  tm_min :: int
  tm_sec :: int

definition TIME_NOW_STR_SIZE :: nat where "TIME_NOW_STR_SIZE = 27"

definition time_now_str :: "tm \<Rightarrow> int \<Rightarrow> string \<Rightarrow> string res" where
  "time_now_str t usec now =
     rbind (make_int 0 (tm_year t + 1900) 4 now) (\<lambda>now.
     rbind (write_at 4 ''-'' now) (\<lambda>now.
     rbind (make_int 5 (tm_mon t + 1) 2 now) (\<lambda>now.
     rbind (write_at 7 ''-'' now) (\<lambda>now.
     rbind (make_int 8 (tm_mday t) 2 now) (\<lambda>now.
     rbind (write_at 10 '' '' now) (\<lambda>now.
     rbind (make_int 11 (tm_hour t) 2 now) (\<lambda>now.
     rbind (write_at 13 '':'' now) (\<lambda>now.
     rbind (make_int 14 (tm_min t) 2 now) (\<lambda>now.
     rbind (write_at 16 '':'' now) (\<lambda>now.
     rbind (make_int 17 (tm_sec t) 2 now) (\<lambda>now.
     rbind (write_at 19 ''.'' now) (\<lambda>now.
     rbind (make_int 20 usec 6 now) (\<lambda>now.
     write_at 26 [char_of (0 :: nat)] now)))))))))))))"

text \<open>
  \<open>getdelim\<close> gives the characters up to and with the delimiter, or -1 at the end of the file; the
  -1 becomes the length of a string.
\<close>

definition getline :: "string option \<Rightarrow> char \<Rightarrow> string res" where
  "getline rd delim = (case rd of
       None \<Rightarrow> Inl BadAlloc
     | Some buf \<Rightarrow> Inr (if buf \<noteq> [] \<and> last buf = delim then butlast buf else buf))"

subsection \<open>Counters and merged enumerators\<close>

definition Counter_peek_next :: "i64 \<Rightarrow> i64" where
  "Counter_peek_next next = next"

definition Counter_next :: "i64 \<Rightarrow> i64 \<Rightarrow> i64 \<times> i64" where
  "Counter_next step next = (next, next + step)"

definition Counter_reset :: "i64 \<Rightarrow> i64 \<Rightarrow> i64" where
  "Counter_reset start next = start"

text \<open>
  The state of a \<open>MergedEnumerator\<close> beside its sources: what each source still has to give, and the
  entries of the priority queue, an element with the number of its source. \<open>pick\<close> is the choice the
  priority queue makes among its smallest entries.
\<close>

type_synonym 'a merged = "'a list list \<times> ('a \<times> nat) list"

definition add_source :: "nat \<Rightarrow> 'a merged \<Rightarrow> 'a merged" where
  "add_source i m = (let (srcs, q) = m in
     case srcs ! i of [] \<Rightarrow> (srcs, q) | x # xs \<Rightarrow> (srcs[i := xs], (x, i) # q))"

definition merged_has_next :: "'a merged \<Rightarrow> bool" where
  "merged_has_next m = (snd m \<noteq> [])"

definition merged_next :: "(('a \<times> nat) list \<Rightarrow> nat) \<Rightarrow> 'a merged \<Rightarrow> ('a \<times> 'a merged) res" where
  "merged_next pick m = (let (srcs, q) = m; k = pick q in
     if k < length q \<and> snd (q ! k) < length srcs
     then Inr (fst (q ! k), add_source (snd (q ! k)) (srcs, take k q @ drop (Suc k) q))
     else Inl OutOfBounds)"

definition merged_left :: "'a merged \<Rightarrow> nat" where
  "merged_left m = length (snd m) + sum_list (map length (fst m))"

text \<open>What a loop \<open>while (e.has_next()) e.next()\<close> sees.\<close>

lemma add_source_left: "i < length (fst m) \<Longrightarrow> merged_left (add_source i m) = merged_left m"
proof (cases m)
  case (Pair srcs q)
  assume i: "i < length (fst m)"
  show ?thesis
  proof (cases "srcs ! i")
    case (Cons x xs)
    have "Suc (sum_list (map length (srcs[i := xs]))) = sum_list (map length srcs)"
      using i Cons sum_list_update_add [of i srcs length xs] Pair by simp
    then show ?thesis using Cons Pair by (simp add: add_source_def merged_left_def)
  qed (simp add: add_source_def merged_left_def Pair)
qed

lemma merged_next_left: "merged_next pick m = Inr (x, m') \<Longrightarrow> merged_left m' < merged_left m"
  by (cases m) (auto simp: merged_next_def Let_def add_source_left split: if_splits, auto simp: merged_left_def)

function enumerate :: "(('a \<times> nat) list \<Rightarrow> nat) \<Rightarrow> 'a merged \<Rightarrow> 'a list res" where
  "enumerate pick m = (if merged_has_next m
     then rbind (merged_next pick m) (\<lambda>(x, m'). rbind (enumerate pick m') (\<lambda>xs. Inr (x # xs)))
     else Inr [])"
  by pat_completeness auto
termination by (relation "measure (\<lambda>(pick, m). merged_left m)") (auto dest: merged_next_left)

declare enumerate.simps [simp del]

definition merge_sources :: "(('a \<times> nat) list \<Rightarrow> nat) \<Rightarrow> 'a list list \<Rightarrow> 'a list res" where
  "merge_sources pick srcs = enumerate pick (fold add_source [0..<length srcs] (srcs, []))"

section \<open>Strings\<close>

lemma startswith_prefix: "startswith str head \<longleftrightarrow> prefix head str"
proof
  assume "startswith str head"
  then have "take (length head) str = head" by (auto simp: startswith_def strncmp_eq_def split: if_splits)
  then show "prefix head str" by (metis take_is_prefix)
qed (auto simp: startswith_def strncmp_eq_def prefix_def)

lemma endswith_suffix: "endswith str tail \<longleftrightarrow> suffix tail str"
proof
  assume "endswith str tail"
  then have "drop (length str - length tail) str = tail" by (auto simp: endswith_def strncmp_eq_def split: if_splits)
  then show "suffix tail str" by (metis suffix_drop)
qed (auto simp: endswith_def strncmp_eq_def suffix_def)

text \<open>Groups of three, as one writes numbers.\<close>

function grouped :: "string \<Rightarrow> string" where
  "grouped ds = (if length ds \<le> 3 then ds
     else grouped (take (length ds - 3) ds) @ CHR '','' # drop (length ds - 3) ds)"
  by pat_completeness auto
termination by (relation "measure length") auto

declare grouped.simps [simp del]

definition comma_char :: "string \<Rightarrow> nat \<Rightarrow> nat \<Rightarrow> string" where
  "comma_char s idx i = (if comma_before s idx i then [CHR '','', s ! i] else [s ! i])"

lemma group_loop_concat: "group_loop s idx i str = str @ concat (map (comma_char s idx) [i..<idx])"
proof (induction s idx i str rule: group_loop.induct)
  case (1 s idx i str)
  then show ?case
    by (subst group_loop.simps) (cases "comma_before s idx i"; simp add: upt_rec [of i idx] comma_char_def [of s idx i])
qed

lemma comma_char_cong: "i < idx \<Longrightarrow> (\<And>j. j < idx \<Longrightarrow> s ! j = t ! j) \<Longrightarrow> comma_char s idx i = comma_char t idx i"
  by (auto simp: comma_char_def comma_before_def)

lemma group_prefix: "idx \<le> length s \<Longrightarrow> group_loop s idx 0 [] = group_loop (take idx s) idx 0 []"
  unfolding group_loop_concat by (auto intro!: arg_cong [of _ _ concat] comma_char_cong)

lemma group_digits: "CHR ''-'' \<notin> set ds \<Longrightarrow> concat (map (comma_char ds (length ds)) [0..<length ds]) = grouped ds"
proof (induction ds rule: grouped.induct)
  case (1 ds)
  let ?n = "length ds" and ?c = "comma_char ds (length ds)"
  have sign: "ds ! j \<noteq> CHR ''-''" if "j < ?n" for j using 1(2) that by (metis nth_mem)
  show ?case
  proof (cases "?n \<le> 3")
    case True
    have "?c i = [ds ! i]" if "i < ?n" for i
    proof -
      have "?n - i = 1 \<or> ?n - i = 2 \<or> i = 0" using that True by linarith
      then have "i = 0 \<or> (?n - i) mod 3 \<noteq> 0" by auto
      then show ?thesis by (auto simp: comma_char_def comma_before_def)
    qed
    then have "map ?c [0..<?n] = map (\<lambda>i. [ds ! i]) [0..<?n]" by simp
    from arg_cong [OF this, of concat] have "concat (map ?c [0..<?n]) = map ((!) ds) [0..<?n]" by simp
    with True show ?thesis by (simp add: grouped.simps [of ds] map_nth)
  next
    case False
    define k where "k = ?n - 3"
    have n: "?n = k + 3" "0 < k" using False by (simp_all add: k_def)
    have low: "?c i = comma_char (take k ds) k i" if "i < k" for i
    proof -
      have "k + 3 - i = (k - i) + 3" using that by simp
      then have m: "(k + 3 - i) mod 3 = (k - i) mod 3" by (simp only: mod_add_self2)
      have "take k ds ! (i - 1) = ds ! (i - 1)" "take k ds ! i = ds ! i" using that by simp_all
      then show ?thesis unfolding comma_char_def comma_before_def n(1) m by (simp only:)
    qed
    have "[k..<?n] = [k, k + 1, k + 2]" unfolding n(1) by (simp add: upt_rec)
    moreover have "?c k = [CHR '','', ds ! k]" "?c (k + 1) = [ds ! (k + 1)]" "?c (k + 2) = [ds ! (k + 2)]"
      using sign [of "k - 1"] n by (simp_all add: comma_char_def comma_before_def)
    ultimately have high: "map ?c [k..<?n] = [[CHR '','', ds ! k], [ds ! (k + 1)], [ds ! (k + 2)]]" by simp
    have "drop k ds = map ((!) ds) [k..<?n]" by (metis drop_map drop_upt map_nth add.left_neutral)
    also have "\<dots> = [ds ! k, ds ! (k + 1), ds ! (k + 2)]" unfolding \<open>[k..<?n] = _\<close> by simp
    finally have "drop k ds = [ds ! k, ds ! (k + 1), ds ! (k + 2)]" .
    moreover have "concat (map ?c [0..<k]) = grouped (take k ds)"
    proof -
      have "CHR ''-'' \<notin> set (take k ds)" "length (take k ds) = k" using 1(2) n(1) by (auto dest: in_set_takeD)
      with 1(1) [OF False, folded k_def] have "concat (map (comma_char (take k ds) k) [0..<k]) = grouped (take k ds)" by simp
      moreover have "map ?c [0..<k] = map (comma_char (take k ds) k) [0..<k]" using low by (intro map_cong) auto
      ultimately show ?thesis by (simp only:)
    qed
    moreover have "[0..<?n] = [0..<k] @ [k..<?n]" using n upt_add_eq_append [of 0 k 3] by simp
    ultimately show ?thesis using False high by (simp add: grouped.simps [of ds] k_def [symmetric])
  qed
qed

lemma group_signed:
  assumes "CHR ''-'' \<notin> set ds"
  shows "group_loop (CHR ''-'' # ds) (Suc (length ds)) 0 [] = CHR ''-'' # grouped ds"
proof -
  have "comma_char (CHR ''-'' # ds) (Suc (length ds)) (Suc i) = comma_char ds (length ds) i" if "i < length ds" for i
    using that assms by (cases i) (auto simp: comma_char_def comma_before_def)
  then have "map (\<lambda>i. comma_char (CHR ''-'' # ds) (Suc (length ds)) (Suc i)) [0..<length ds]
      = map (comma_char ds (length ds)) [0..<length ds]" by simp
  moreover have "[0..<Suc (length ds)] = 0 # map Suc [0..<length ds]" by (simp add: map_Suc_upt upt_conv_Cons del: upt_Suc)
  moreover have "comma_char (CHR ''-'' # ds) (Suc (length ds)) 0 = ''-''" by (simp add: comma_char_def comma_before_def)
  ultimately show ?thesis using group_digits [OF assms]
    by (simp add: group_loop_concat comp_def del: upt_Suc map_eq_conv)
qed

lemma decimal_digits: "c \<in> set (decimal n) \<Longrightarrow> \<exists>d < 10. c = digit d"
proof (induction n rule: decimal.induct)
  case (1 n)
  from 1(2) consider "n < 10" "c = digit n" | "c = digit (n mod 10)" | "\<not> n < 10" "c \<in> set (decimal (n div 10))"
    by (subst (asm) decimal.simps) (auto split: if_splits)
  then show ?case
  proof cases
    case 2
    then show ?thesis by (intro exI [of _ "n mod 10"]) simp
  qed (use 1(1) in auto)
qed

lemma digit_no_sign: "d < 10 \<Longrightarrow> digit d \<noteq> CHR ''-''" "d < 10 \<Longrightarrow> digit d \<noteq> CHR ''.''"
proof -
  have code: "of_char (digit d) = 48 + d" if "d < 10" for d :: nat using that by (simp add: digit_def)
  have "of_char (CHR ''-'') = (45 :: nat)" "of_char (CHR ''.'') = (46 :: nat)" by simp_all
  then show "d < 10 \<Longrightarrow> digit d \<noteq> CHR ''-''" "d < 10 \<Longrightarrow> digit d \<noteq> CHR ''.''" using code [of d] by auto
qed

lemma decimal_no_sign [simp]: "CHR ''-'' \<notin> set (decimal n)"
  using decimal_digits digit_no_sign(1) by fastforce

lemma grouped_hd: "ds \<noteq> [] \<Longrightarrow> grouped ds \<noteq> [] \<and> hd (grouped ds) = hd ds"
proof (induction ds rule: grouped.induct)
  case (1 ds)
  show ?case
  proof (cases "length ds \<le> 3")
    case False
    then have "take (length ds - 3) ds \<noteq> []" by auto
    with 1(1) False show ?thesis by (simp add: grouped.simps [of ds] hd_take)
  qed (use 1(2) in \<open>simp add: grouped.simps [of ds]\<close>)
qed

lemma grouped_zero: "CHR ''.'' \<notin> set ds \<Longrightarrow> grouped ds @ CHR ''.'' # fs = ''0.00'' \<longleftrightarrow> ds = ''0'' \<and> fs = ''00''"
proof -
  assume "CHR ''.'' \<notin> set ds"
  then have no: "CHR ''.'' \<notin> set (grouped ds)"
  proof (induction ds rule: grouped.induct)
    case (1 ds)
    then show ?case by (subst grouped.simps) (auto dest: in_set_takeD in_set_dropD)
  qed
  have "grouped ds = ''0'' \<longleftrightarrow> ds = ''0''"
  proof (cases "length ds \<le> 3")
    case False
    then have "length (grouped ds) > 3" by (simp add: grouped.simps [of ds])
    with False show ?thesis by auto
  qed (simp add: grouped.simps)
  moreover have "grouped ds @ CHR ''.'' # fs = ''0'' @ CHR ''.'' # ''00'' \<longleftrightarrow> grouped ds = ''0'' \<and> fs = ''00''"
    using no by (cases "grouped ds"; cases "tl (grouped ds)") auto
  ultimately show ?thesis by simp
qed

lemma find_dot_takeWhile: "find_dot s idx = idx + length (takeWhile (\<lambda>c. c \<noteq> CHR ''.'') s)"
  by (induction s arbitrary: idx) auto

text \<open>
  Formatting groups the digits by three. A number is printed with the sign of its value and the
  decimal digits of its absolute value, with a comma before every third digit counted from the right, and
  nowhere else; the overload for floating-point numbers does this with the digits in front of the
  point, keeps the rest, and prints no minus sign in front of zero.
\<close>

theorem format_decimal_groups:
  assumes "CHR ''-'' \<notin> set ds" "CHR ''.'' \<notin> set ds" "ds \<noteq> []"
  shows "format_decimal_int v =
      (if sint v < 0 then CHR ''-'' # grouped (decimal (nat (- sint v))) else grouped (decimal (nat (sint v))))
    \<and> format_decimal_double (ds @ CHR ''.'' # fs) = grouped ds @ CHR ''.'' # fs
    \<and> format_decimal_double (CHR ''-'' # ds @ CHR ''.'' # fs)
        = (if ds = ''0'' \<and> fs = ''00'' then ''0.00'' else CHR ''-'' # grouped ds @ CHR ''.'' # fs)"
proof (intro conjI)
  show "format_decimal_int v =
      (if sint v < 0 then CHR ''-'' # grouped (decimal (nat (- sint v))) else grouped (decimal (nat (sint v))))"
    using group_digits [OF decimal_no_sign, of "nat (sint v)"]
    by (simp add: format_decimal_int_def show_int_def group_signed) (simp add: group_loop_concat)
  have idx: "find_dot (ds @ CHR ''.'' # fs) 0 = length ds" "find_dot (CHR ''-'' # ds @ CHR ''.'' # fs) 0 = Suc (length ds)"
    using assms(2) by (simp_all add: find_dot_takeWhile takeWhile_append)
  have loop: "group_loop (ds @ CHR ''.'' # fs) (length ds) 0 [] = grouped ds"
    "group_loop (CHR ''-'' # ds @ CHR ''.'' # fs) (Suc (length ds)) 0 [] = CHR ''-'' # grouped ds"
    using group_prefix [of "length ds" "ds @ CHR ''.'' # fs"] group_digits [OF assms(1)] group_signed [OF assms(1)]
      group_prefix [of "Suc (length ds)" "CHR ''-'' # ds @ CHR ''.'' # fs"]
    by (simp_all add: group_loop_concat)
  have hd: "hd (grouped ds) \<noteq> CHR ''-''" "grouped ds \<noteq> []"
    using assms(1) grouped_hd [OF assms(3)] hd_in_set [OF assms(3)] by metis+
  show "format_decimal_double (ds @ CHR ''.'' # fs) = grouped ds @ CHR ''.'' # fs"
    using hd by (cases "grouped ds") (simp_all add: format_decimal_double_def idx loop)
  have zero: "grouped ds @ CHR ''.'' # fs = ''0.00'' \<longleftrightarrow> ds = ''0'' \<and> fs = ''00''"
    using grouped_zero [OF assms(2)] by simp
  show "format_decimal_double (CHR ''-'' # ds @ CHR ''.'' # fs)
        = (if ds = ''0'' \<and> fs = ''00'' then ''0.00'' else CHR ''-'' # grouped ds @ CHR ''.'' # fs)"
    unfolding format_decimal_double_def idx(2) Let_def loop(2) using zero by simp
qed

theorem format_decimal_groups_witness:
  "format_decimal_int (- 1234567) = ''-1,234,567'' \<and> format_decimal_double ''-1234.50'' = ''-1,234.50''
    \<and> format_decimal_double ''-0.00'' = ''0.00''"
proof -
  have dec: "decimal 1234567 = ''1234567''" by (simp add: decimal.simps digit_def char_of_def bit_simps)
  have gr: "grouped ''1234567'' = ''1,234,567''" "grouped ''1234'' = ''1,234''"
    by (simp_all add: grouped.simps)
  show ?thesis
    using format_decimal_groups [of "''1234''" "- 1234567" "''50''"] format_decimal_groups [of "''0''" 0 "''00''"]
    by (simp add: dec gr)
qed

text \<open>The pieces of a string between its separators, without the empty ones.\<close>

function pieces :: "char \<Rightarrow> string \<Rightarrow> string list" where
  "pieces sep s = (let t = dropWhile (\<lambda>c. c = sep) s in
     if t = [] then [] else takeWhile (\<lambda>c. c \<noteq> sep) t # pieces sep (dropWhile (\<lambda>c. c \<noteq> sep) t))"
  by pat_completeness auto
termination
proof (relation "measure (\<lambda>(sep, s). length s)", goal_cases)
  case (2 sep s t)
  then obtain c u where t: "t = c # u" "c \<noteq> sep"
    using hd_dropWhile [of "\<lambda>c. c = sep" s] by (metis hd_Cons_tl)
  have "length (dropWhile (\<lambda>c. c \<noteq> sep) t) < length t"
    using length_dropWhile_le [of "\<lambda>c. c \<noteq> sep" u] t by simp
  with 2 length_dropWhile_le [of "\<lambda>c. c = sep" s] show ?case by simp
qed simp

declare pieces.simps [simp del]

lemma pieces_Nil [simp]: "pieces sep [] = []"
  by (simp add: pieces.simps)

lemma find_from_eq:
  "find_from P s pos = (if \<exists>c \<in> set s. P c then Some (pos + length (takeWhile (\<lambda>c. \<not> P c) s)) else None)"
  by (induction s arbitrary: pos) auto

definition finish_split :: "string \<Rightarrow> nat option \<times> string list \<Rightarrow> string list" where
  "finish_split str r = (case fst r of None \<Rightarrow> snd r
     | Some b \<Rightarrow> if b < length str then snd r @ [drop b str] else snd r)"

lemma drop_takeWhile: "drop (length (takeWhile P xs)) xs = dropWhile P xs"
  by (metis dropWhile_eq_drop)

lemma pieces_dropWhile: "pieces sep (dropWhile (\<lambda>c. c = sep) s) = pieces sep s"
  by (simp add: pieces.simps [of sep s] pieces.simps [of sep "dropWhile (\<lambda>c. c = sep) s"])

text \<open>The start of the next piece, from a position on.\<close>

lemma next_piece:
  assumes "find_at (\<lambda>c. c \<noteq> sep) str (Some e) = b"
  shows "\<forall>p. b = Some p \<longrightarrow> p < length str \<and> str ! p \<noteq> sep"
    and "pieces sep (drop e str) = (case b of None \<Rightarrow> [] | Some p \<Rightarrow> pieces sep (drop p str))"
proof -
  have b: "b = find_from (\<lambda>c. c \<noteq> sep) (drop e str) e" using assms by (simp add: find_at_def)
  show "\<forall>p. b = Some p \<longrightarrow> p < length str \<and> str ! p \<noteq> sep"
    using find_from_ge [of "\<lambda>c. c \<noteq> sep" "drop e str" e] by (auto simp: b)
  show "pieces sep (drop e str) = (case b of None \<Rightarrow> [] | Some p \<Rightarrow> pieces sep (drop p str))"
  proof (cases "\<exists>c \<in> set (drop e str). c \<noteq> sep")
    case True
    have "drop (e + length (takeWhile (\<lambda>c. c = sep) (drop e str))) str = dropWhile (\<lambda>c. c = sep) (drop e str)"
      by (metis drop_drop drop_takeWhile add.commute)
    with True show ?thesis by (simp add: b find_from_eq pieces_dropWhile)
  next
    case False
    then have "dropWhile (\<lambda>c. c = sep) (drop e str) = []" by simp
    with False show ?thesis by (simp add: b find_from_eq pieces.simps [of sep "drop e str"])
  qed
qed

text \<open>From the start of a piece on.\<close>

lemma strsplit_loop_pieces:
  assumes "\<forall>p. b = Some p \<longrightarrow> p < length str \<and> str ! p \<noteq> sep"
  shows "finish_split str (strsplit_loop str sep b acc) = acc @ (case b of None \<Rightarrow> [] | Some p \<Rightarrow> pieces sep (drop p str))"
  using assms
proof (induction str sep b acc rule: strsplit_loop.induct)
  case (1 str sep b acc)
  show ?case
  proof (cases b)
    case None
    then show ?thesis by (simp add: strsplit_loop.simps find_at_def finish_split_def)
  next
    case (Some q)
    let ?u = "drop q str" and ?w = "takeWhile (\<lambda>c. c \<noteq> sep) (drop q str)"
    have q: "q < length str" "str ! q \<noteq> sep" using 1(2) Some by auto
    then have "dropWhile (\<lambda>c. c = sep) ?u = ?u" "?u \<noteq> []" by (auto simp: dropWhile_eq_self_iff hd_drop_conv_nth)
    then have p: "pieces sep ?u = ?w # pieces sep (dropWhile (\<lambda>c. c \<noteq> sep) ?u)" by (simp add: pieces.simps [of sep ?u] Let_def)
    have f: "find_at (\<lambda>c. c = sep) str b = (if sep \<in> set ?u then Some (q + length ?w) else None)"
      by (simp add: find_at_def Some find_from_eq)
    show ?thesis
    proof (cases "sep \<in> set ?u")
      case True
      let ?e = "q + length ?w"
      have e: "find_at (\<lambda>c. c = sep) str b = Some ?e" using f True by simp
      have d: "drop ?e str = dropWhile (\<lambda>c. c \<noteq> sep) ?u" by (metis drop_drop drop_takeWhile add.commute)
      have t: "take (?e - q) ?u = ?w" by (simp add: takeWhile_eq_take [symmetric])
      have "finish_split str (strsplit_loop str sep b acc)
          = finish_split str (strsplit_loop str sep (find_at (\<lambda>c. c \<noteq> sep) str (Some ?e)) (acc @ [?w]))"
        unfolding strsplit_loop.simps [of str sep b] e using t by (simp add: Some)
      also have "\<dots> = acc @ [?w] @ pieces sep (drop ?e str)"
        using 1(1) [OF e next_piece(1) [OF refl]] t next_piece(2) [of sep str ?e] by (simp add: Some)
      finally show ?thesis by (simp add: Some p d)
    next
      case False
      then have w: "?w = ?u" "dropWhile (\<lambda>c. c \<noteq> sep) ?u = []" by auto
      have "finish_split str (strsplit_loop str sep b acc) = acc @ [?u]"
        using q f False by (subst strsplit_loop.simps) (simp add: Some finish_split_def)
      then show ?thesis unfolding Some option.case p w by simp
    qed
  qed
qed

lemma pieces_concat: "concat (pieces sep s) = filter (\<lambda>c. c \<noteq> sep) s"
proof (induction sep s rule: pieces.induct)
  case (1 sep s)
  let ?t = "dropWhile (\<lambda>c. c = sep) s"
  have s: "filter (\<lambda>c. c \<noteq> sep) s = filter (\<lambda>c. c \<noteq> sep) ?t"
    by (induction s) auto
  have t: "filter (\<lambda>c. c \<noteq> sep) t = takeWhile (\<lambda>c. c \<noteq> sep) t @ filter (\<lambda>c. c \<noteq> sep) (dropWhile (\<lambda>c. c \<noteq> sep) t)" for t
    by (induction t) auto
  show ?case
  proof (cases "?t = []")
    case True
    then show ?thesis using s by (simp add: pieces.simps [of sep s])
  next
    case False
    with 1 [OF refl] t [of ?t] show ?thesis
      unfolding s by (simp add: pieces.simps [of sep s] Let_def del: dropWhile_eq_Nil_conv)
  qed
qed

lemma pieces_proper: "p \<in> set (pieces sep s) \<Longrightarrow> p \<noteq> [] \<and> sep \<notin> set p"
proof (induction sep s rule: pieces.induct)
  case (1 sep s)
  let ?t = "dropWhile (\<lambda>c. c = sep) s"
  have "takeWhile (\<lambda>c. c \<noteq> sep) ?t \<noteq> []" if "?t \<noteq> []"
    using that hd_dropWhile [of "\<lambda>c. c = sep" s] by (cases ?t) auto
  moreover have "sep \<notin> set (takeWhile (\<lambda>c. c \<noteq> sep) ?t)" by (auto dest: set_takeWhileD)
  ultimately show ?case using 1 by (auto simp: pieces.simps [of sep s] Let_def split: if_splits)
qed

lemma strsplit_pieces: "strsplit str sep = pieces sep str"
proof -
  let ?b = "find_at (\<lambda>c. c \<noteq> sep) str (Some 0)"
  have "strsplit str sep = finish_split str (strsplit_loop str sep ?b [])"
    by (simp add: strsplit_def finish_split_def case_prod_beta Let_def)
  also have "\<dots> = pieces sep str"
    using strsplit_loop_pieces [OF next_piece(1) [OF refl], of str sep 0 "[]"] next_piece(2) [of sep str 0] by simp
  finally show ?thesis .
qed

text \<open>
  C38. Splitting gives the pieces. \<open>strsplit\<close>, which walks over the string with positions that may be
  \<open>npos\<close>, returns the maximal runs of characters other than the separator, in order: no piece is
  empty or contains the separator, and together they hold every other character of the string.
\<close>

theorem strsplit_gives_pieces:
  "strsplit str sep = pieces sep str \<and> concat (strsplit str sep) = filter (\<lambda>c. c \<noteq> sep) str
    \<and> list_all (\<lambda>p. p \<noteq> [] \<and> sep \<notin> set p) (strsplit str sep)"
  using pieces_concat pieces_proper by (auto simp: strsplit_pieces list_all_iff)

section \<open>Time stamps\<close>

text \<open>The lowest \<open>n\<close> decimal digits of a number, with leading zeros.\<close>

fun padded :: "nat \<Rightarrow> nat \<Rightarrow> string" where
  "padded v 0 = []"
| "padded v (Suc n) = padded (v div 10) n @ [digit (v mod 10)]"

lemma make_int_padded: "make_int_digits (int v) n = padded v n"
proof (induction n arbitrary: v)
  case (Suc n)
  have "int v sdiv 10 = int (v div 10)" "int v smod 10 = int (v mod 10)"
    by (cases "v = 0"; simp add: signed_divide_int_def signed_modulo_int_def zdiv_int zmod_int)+
  moreover have "char_of (48 + int d) = digit d" for d
  proof -
    have "48 + int d = int (48 + d)" by simp
    then show ?thesis by (simp only: digit_def char_of_def bit_of_nat_iff_bit even_of_nat_iff)
  qed
  ultimately show ?case using Suc by simp
qed simp

lemma length_make_int_digits [simp]: "length (make_int_digits v n) = n"
  by (induction v n rule: make_int_digits.induct) auto

lemma write_at_next:
  "length a = off \<Longrightarrow> length cs \<le> length r \<Longrightarrow> write_at off cs (a @ r) = Inr ((a @ cs) @ drop (length cs) r)"
  by (simp add: write_at_def)

lemma make_int_next:
  "length a = off \<Longrightarrow> n \<le> length r \<Longrightarrow> make_int off v n (a @ r) = Inr ((a @ make_int_digits v n) @ drop n r)"
  by (simp add: make_int_def write_at_next)

text \<open>Whatever the array held, exactly its 27 bytes are written.\<close>

lemma time_now_str_written:
  assumes "length now = TIME_NOW_STR_SIZE"
  shows "time_now_str t usec now = Inr (make_int_digits (tm_year t + 1900) 4 @ ''-'' @ make_int_digits (tm_mon t + 1) 2 @ ''-''
    @ make_int_digits (tm_mday t) 2 @ '' '' @ make_int_digits (tm_hour t) 2 @ '':'' @ make_int_digits (tm_min t) 2 @ '':''
    @ make_int_digits (tm_sec t) 2 @ ''.'' @ make_int_digits usec 6 @ [char_of (0 :: nat)])"
proof -
  have first: "make_int 0 v 4 now = Inr (make_int_digits v 4 @ drop 4 now)" for v
    using make_int_next [of "[]" 0 4 now v] assms by (simp add: TIME_NOW_STR_SIZE_def)
  show ?thesis using assms
    by (simp add: time_now_str_def first make_int_next write_at_next TIME_NOW_STR_SIZE_def del: append_assoc append.simps)
qed

section \<open>Merging\<close>

text \<open>The choice of the priority queue: any of the entries with the smallest element.\<close>

definition picks_least :: "(('a::linorder \<times> nat) list \<Rightarrow> nat) \<Rightarrow> bool" where
  "picks_least pick \<longleftrightarrow> (\<forall>q. q \<noteq> [] \<longrightarrow> pick q < length q \<and> (\<forall>e \<in> set q. fst (q ! pick q) \<le> fst e))"

text \<open>Every entry is no larger than what its source still has, and every source that has something has an entry.\<close>

definition merge_ok :: "nat set \<Rightarrow> 'a::linorder merged \<Rightarrow> bool" where
  "merge_ok I m \<longleftrightarrow> (\<forall>(x, i) \<in> set (snd m). i < length (fst m) \<and> (\<forall>y \<in> set (fst m ! i). x \<le> y))
     \<and> (\<forall>xs \<in> set (fst m). sorted xs) \<and> (\<forall>i \<in> I. i < length (fst m) \<longrightarrow> fst m ! i = [] \<or> (\<exists>x. (x, i) \<in> set (snd m)))"

lemma merge_okD:
  assumes "merge_ok I m"
  shows "(x, i) \<in> set (snd m) \<Longrightarrow> i < length (fst m) \<and> (\<forall>y \<in> set (fst m ! i). x \<le> y)"
    and "xs \<in> set (fst m) \<Longrightarrow> sorted xs"
    and "i \<in> I \<Longrightarrow> i < length (fst m) \<Longrightarrow> fst m ! i \<noteq> [] \<Longrightarrow> \<exists>x. (x, i) \<in> set (snd m)"
  using assms by (auto simp: merge_ok_def)

lemma merge_okI:
  assumes "\<And>x i. (x, i) \<in> set (snd m) \<Longrightarrow> i < length (fst m) \<and> (\<forall>y \<in> set (fst m ! i). x \<le> y)"
    and "\<And>xs. xs \<in> set (fst m) \<Longrightarrow> sorted xs"
    and "\<And>i. i \<in> I \<Longrightarrow> i < length (fst m) \<Longrightarrow> fst m ! i \<noteq> [] \<Longrightarrow> \<exists>x. (x, i) \<in> set (snd m)"
  shows "merge_ok I m"
  using assms by (auto simp: merge_ok_def)

definition merged_mset :: "'a merged \<Rightarrow> 'a multiset" where
  "merged_mset m = mset (map fst (snd m)) + mset (concat (fst m))"

lemma add_source_mset: "i < length (fst m) \<Longrightarrow> merged_mset (add_source i m) = merged_mset m"
proof (cases m)
  case (Pair srcs q)
  assume i: "i < length (fst m)"
  show ?thesis
  proof (cases "srcs ! i")
    case (Cons x xs)
    have "mset (concat srcs) = add_mset x (mset (concat (srcs[i := xs])))"
    proof -
      have "srcs = take i srcs @ (x # xs) # drop (Suc i) srcs" using i Pair Cons id_take_nth_drop [of i srcs] by simp
      moreover have "srcs[i := xs] = take i srcs @ xs # drop (Suc i) srcs" using i Pair by (simp add: upd_conv_take_nth_drop)
      ultimately show ?thesis by (metis (no_types, lifting) concat.simps(2) concat_append mset_append append_Cons
          mset.simps(2) union_mset_add_mset_left union_mset_add_mset_right)
    qed
    then show ?thesis using Cons Pair by (simp add: add_source_def merged_mset_def)
  qed (simp add: add_source_def merged_mset_def Pair)
qed

lemma add_source_ok:
  assumes "merge_ok (I - {i}) m" "i < length (fst m)"
  shows "merge_ok I (add_source i m)" "length (fst (add_source i m)) = length (fst m)"
proof -
  obtain srcs q where m: "m = (srcs, q)" by (cases m)
  show "length (fst (add_source i m)) = length (fst m)"
    by (simp add: m add_source_def split: list.split)
  show "merge_ok I (add_source i m)"
  proof (cases "srcs ! i")
    case Nil
    with assms m show ?thesis by (force simp: add_source_def merge_ok_def)
  next
    case (Cons x xs)
    have i: "i < length srcs" using assms(2) by (simp add: m)
    then have "sorted (x # xs)" using assms(1) Cons nth_mem [OF i] by (auto simp: m merge_ok_def)
    then have x: "\<forall>y \<in> set xs. x \<le> y" "sorted xs" by auto
    have a: "add_source i m = (srcs[i := xs], (x, i) # q)" by (simp add: m add_source_def Cons)
    show ?thesis unfolding a
    proof (rule merge_okI)
      fix y j assume "(y, j) \<in> set (snd (srcs[i := xs], (x, i) # q))"
      then consider "y = x" "j = i" | "(y, j) \<in> set q" by auto
      then show "j < length (fst (srcs[i := xs], (x, i) # q)) \<and> (\<forall>z \<in> set (fst (srcs[i := xs], (x, i) # q) ! j). y \<le> z)"
      proof cases
        case 2
        then have "j < length srcs" "\<forall>z \<in> set (srcs ! j). y \<le> z" using merge_okD(1) [OF assms(1), of y j] by (simp_all add: m)
        then show ?thesis using Cons by (cases "j = i") simp_all
      qed (use x(1) i in simp)
    next
      fix ys assume "ys \<in> set (fst (srcs[i := xs], (x, i) # q))"
      then show "sorted ys"
        using merge_okD(2) [OF assms(1), of ys] x(2) set_update_subset_insert [of srcs i xs] by (auto simp: m)
    next
      fix j assume j: "j \<in> I" "j < length (fst (srcs[i := xs], (x, i) # q))" "fst (srcs[i := xs], (x, i) # q) ! j \<noteq> []"
      then show "\<exists>y. (y, j) \<in> set (snd (srcs[i := xs], (x, i) # q))"
        using merge_okD(3) [OF assms(1), of j] by (cases "j = i") (auto simp: m)
    qed
  qed
qed

lemma merged_least:
  assumes ok: "merge_ok {..<length (fst m)} m" and x: "\<forall>e \<in> set (snd m). x \<le> fst e" and y: "y \<in># merged_mset m"
  shows "x \<le> y"
proof -
  from y consider e where "e \<in> set (snd m)" "y = fst e" | xs where "xs \<in> set (fst m)" "y \<in> set xs"
    by (auto simp: merged_mset_def)
  then show ?thesis
  proof cases
    case 2
    then obtain i where i: "i < length (fst m)" "fst m ! i = xs" by (auto simp: in_set_conv_nth)
    have "fst m ! i \<noteq> []" using i 2 by auto
    with merge_okD(3) [OF ok, of i] i obtain z where z: "(z, i) \<in> set (snd m)" by auto
    from merge_okD(1) [OF ok z] i 2 have "z \<le> y" by simp
    moreover have "x \<le> z" using x z by force
    ultimately show ?thesis by simp
  qed (use x in auto)
qed

lemma merged_next_ok:
  assumes pick: "picks_least pick" and ok: "merge_ok {..<length (fst m)} m" and q: "snd m \<noteq> []"
  shows "\<exists>x m'. merged_next pick m = Inr (x, m') \<and> merge_ok {..<length (fst m')} m'
    \<and> merged_mset m = add_mset x (merged_mset m') \<and> (\<forall>y \<in># merged_mset m. x \<le> y)"
proof -
  obtain srcs es where m: "m = (srcs, es)" by (cases m)
  define k where "k = pick es"
  define x where "x = fst (es ! k)"
  define i where "i = snd (es ! k)"
  let ?q = "take k es @ drop (Suc k) es"
  have k: "k < length es" "\<forall>e \<in> set es. x \<le> fst e"
    using pick q by (auto simp: picks_least_def k_def x_def m)
  have e: "es ! k = (x, i)" by (simp add: x_def i_def)
  then have es: "es = take k es @ (x, i) # drop (Suc k) es" using k(1) by (metis id_take_nth_drop)
  then have set: "set es = insert (x, i) (set ?q)" by (metis set_append list.simps(15) Un_insert_right)
  have i: "i < length srcs" using ok set by (auto simp: m merge_ok_def)
  have "merge_ok ({..<length srcs} - {i}) (srcs, ?q)"
  proof (rule merge_okI)
    fix j assume "j \<in> {..<length srcs} - {i}" "j < length (fst (srcs, ?q))" "fst (srcs, ?q) ! j \<noteq> []"
    then show "\<exists>y. (y, j) \<in> set (snd (srcs, ?q))" using merge_okD(3) [OF ok, of j] set by (auto simp: m)
  qed (use merge_okD(1,2) [OF ok] set in \<open>auto simp: m\<close>)
  from add_source_ok [OF this] i have m': "merge_ok {..<length srcs} (add_source i (srcs, ?q))"
    "length (fst (add_source i (srcs, ?q))) = length srcs" by simp_all
  have "mset (map fst es) = add_mset x (mset (map fst ?q))" by (subst es) simp
  then have "merged_mset m = add_mset x (merged_mset (srcs, ?q))" by (simp add: merged_mset_def m)
  moreover have "merged_next pick m = Inr (x, add_source i (srcs, ?q))"
    using k(1) i by (simp add: merged_next_def m k_def [symmetric] e)
  ultimately show ?thesis
    using m' add_source_mset [of i "(srcs, ?q)"] i merged_least [OF ok, of x] k(2) by (auto simp: m)
qed

lemma enumerate_sorted:
  assumes "picks_least pick" "merge_ok {..<length (fst m)} m"
  shows "\<exists>out. enumerate pick m = Inr out \<and> sorted out \<and> mset out = merged_mset m"
  using assms
proof (induction pick m rule: enumerate.induct)
  case (1 pick m)
  show ?case
  proof (cases "merged_has_next m")
    case False
    then have "snd m = []" by (simp add: merged_has_next_def)
    with 1(3) have "concat (fst m) = []" by (auto simp: merge_ok_def in_set_conv_nth)
    with False show ?thesis by (subst enumerate.simps) (simp add: merged_mset_def merged_has_next_def)
  next
    case True
    then obtain x m' where n: "merged_next pick m = Inr (x, m')" "merge_ok {..<length (fst m')} m'"
      "merged_mset m = add_mset x (merged_mset m')" "\<forall>y \<in># merged_mset m. x \<le> y"
      using merged_next_ok [OF 1(2,3)] by (auto simp: merged_has_next_def)
    from 1(1) [OF True n(1) refl 1(2) n(2)] obtain out where
      out: "enumerate pick m' = Inr out" "sorted out" "mset out = merged_mset m'" by blast
    have "\<forall>y \<in> set out. x \<le> y" using n(3,4) out(3) by (metis set_mset_mset union_iff add_mset_add_single)
    with True n(1,3) out show ?thesis by (subst enumerate.simps) simp
  qed
qed

lemma fold_add_source:
  assumes "merge_ok {..<k} m" "k \<le> n" "n \<le> length (fst m)"
  shows "merge_ok {..<n} (fold add_source [k..<n] m) \<and> length (fst (fold add_source [k..<n] m)) = length (fst m)
    \<and> merged_mset (fold add_source [k..<n] m) = merged_mset m"
  using assms(2,1,3)
proof (induction k arbitrary: m rule: inc_induct)
  case (step k)
  have "{..<Suc k} - {k} = {..<k}" by auto
  then have "merge_ok {..<Suc k} (add_source k m)" "length (fst (add_source k m)) = length (fst m)"
    using add_source_ok [of "{..<Suc k}" k m] step by simp_all
  with step show ?case by (simp add: upt_conv_Cons add_source_mset)
qed simp

text \<open>
  C37. The merged enumerator sorts. Sources that give their elements in order are merged into the
  sorted sequence of all their elements, nothing lost or repeated, whichever of several equal smallest entries the
  priority queue has on top; the loop that asks for elements until there are none ends.
\<close>

theorem merged_enumerator_sorts:
  assumes "picks_least pick" "\<forall>xs \<in> set srcs. sorted xs"
  shows "merge_sources pick srcs = Inr (sort (concat srcs))"
proof -
  let ?m = "fold add_source [0..<length srcs] (srcs, [])"
  have "merge_ok {..<0} (srcs, [])" using assms(2) by (simp add: merge_ok_def)
  from fold_add_source [OF this, of "length srcs"] have m: "merge_ok {..<length (fst ?m)} ?m" "merged_mset ?m = mset (concat srcs)"
    by (simp_all add: merged_mset_def)
  from enumerate_sorted [OF assms(1) m(1)] obtain out where
    out: "enumerate pick ?m = Inr out" "sorted out" "mset out = mset (concat srcs)" using m(2) by auto
  have "sort (concat srcs) = out" using out(2,3) by (intro properties_for_sort)
  with out(1) show ?thesis by (simp add: merge_sources_def)
qed

lemma takeWhile_stops: "x \<in> set xs \<Longrightarrow> \<not> P x \<Longrightarrow> length (takeWhile P xs) < length xs"
  by (induction xs) auto

definition first_least :: "(nat \<times> nat) list \<Rightarrow> nat" where
  "first_least q = length (takeWhile (\<lambda>e. \<exists>d \<in> set q. fst d < fst e) q)"

lemma first_least_picks: "picks_least first_least"
  unfolding picks_least_def
proof (intro allI impI)
  fix q :: "(nat \<times> nat) list"
  assume q: "q \<noteq> []"
  let ?P = "\<lambda>e. \<exists>d \<in> set q. fst d < fst e"
  obtain e where e: "e \<in> set q" "\<not> ?P e"
    using q ex_min_if_finite [of "fst ` set q"] by auto
  then have less: "first_least q < length q"
    unfolding first_least_def by (rule takeWhile_stops)
  then have "\<not> ?P (q ! first_least q)" unfolding first_least_def by (rule nth_length_takeWhile)
  with less show "first_least q < length q \<and> (\<forall>e \<in> set q. fst (q ! first_least q) \<le> fst e)" by (auto simp: not_less)
qed

theorem merged_enumerator_sorts_witness:
  "merge_sources first_least [[1, 5, 5], [], [2, 5 :: nat]] = Inr [1, 2, 5, 5, 5]"
  using merged_enumerator_sorts [OF first_least_picks, of "[[1, 5, 5], [], [2, 5]]"] by simp

end
