(* ===== verification/Sockets.thy ===== *)
theory Sockets
  imports Base_Utils
begin

text \<open>
  Opening sockets: \<open>rpc/utils.cc\<close>. The system calls are arguments, collected in a record; what the
  process holds of the system is a state: the open descriptors, and how many lists of addresses
  \<open>getaddrinfo\<close> gave that were not freed. An address in such a list comes with what \<open>socket()\<close> answers
  for it, -1 or a descriptor.
\<close>

section \<open>Definitions\<close>

record hints =
  ai_family :: int
  ai_socktype :: int
  ai_protocol :: int
  ai_flags :: int

record candidate =
  ca_socket :: int
  ca_addr :: "byte list"

datatype sockopt = SO_REUSEADDR | TCP_NODELAY

record os_calls =
  os_getaddrinfo :: "string option \<Rightarrow> string \<Rightarrow> hints \<Rightarrow> candidate list option"
  os_setsockopt :: "int \<Rightarrow> sockopt \<Rightarrow> int"
  os_connect :: "int \<Rightarrow> byte list \<Rightarrow> int"
  os_bind :: "int \<Rightarrow> byte list \<Rightarrow> int"
  os_listen :: "int \<Rightarrow> int"
  os_getfl :: "int \<Rightarrow> i32"
  os_setfl :: "int \<Rightarrow> i32 \<Rightarrow> i32"

record os_state =
  os_fds :: "int set"
  os_gai :: nat

definition AF_INET :: int where "AF_INET = 2"
definition SOCK_STREAM :: int where "SOCK_STREAM = 1"
definition SOCK_DGRAM :: int where "SOCK_DGRAM = 2"
definition IPPROTO_UDP :: int where "IPPROTO_UDP = 17"
definition O_NONBLOCK :: i32 where "O_NONBLOCK = 0x800"

definition set_nonblocking :: "os_calls \<Rightarrow> int \<Rightarrow> bool \<Rightarrow> i32" where
  "set_nonblocking os fd nonblocking =
     (let ret = os_getfl os fd in
      if ret \<noteq> - 1 then
        if nonblocking then os_setfl os fd (ret OR O_NONBLOCK) else os_setfl os fd (ret AND NOT O_NONBLOCK)
      else ret)"

type_synonym sock_filter = "int \<Rightarrow> byte list \<Rightarrow> bool res"

definition open_fd :: "int \<Rightarrow> os_state \<Rightarrow> os_state" where
  "open_fd fd st = st\<lparr>os_fds := insert fd (os_fds st)\<rparr>"

definition close_fd :: "int \<Rightarrow> os_state \<Rightarrow> os_state" where
  "close_fd fd st = st\<lparr>os_fds := os_fds st - {fd}\<rparr>"

text \<open>The loop over the addresses: the socket and the address it was opened for.\<close>

fun try_addresses :: "sock_filter option \<Rightarrow> candidate list \<Rightarrow> os_state \<Rightarrow> (int \<times> candidate option \<times> os_state) res" where
  "try_addresses flt [] st = Inr (- 1, None, st)"
| "try_addresses flt (rp # rest) st =
     (let sock = ca_socket rp in
      if sock = - 1 then try_addresses flt rest st
      else
        let st1 = open_fd sock st in
        rbind (case flt of None \<Rightarrow> Inr True | Some g \<Rightarrow> g sock (ca_addr rp)) (\<lambda>ok.
          if ok then Inr (sock, Some rp, st1) else try_addresses flt rest (close_fd sock st1)))"

definition host_port :: "string \<Rightarrow> nat \<Rightarrow> string option \<times> string" where
  "host_port addr idx = (let host = take idx addr in
     (if host = ''0.0.0.0'' then None else Some host, drop (idx + 1) addr))"

definition open_socket ::
  "os_calls \<Rightarrow> string \<Rightarrow> hints \<Rightarrow> sock_filter option \<Rightarrow> bool \<Rightarrow> os_state \<Rightarrow> (int \<times> byte list option \<times> os_state) res" where
  "open_socket os addr hs flt want_addr st =
     (case find_at (\<lambda>c. c = CHR '':'') addr (Some 0) of
         None \<Rightarrow> Inr (- 1, None, st)
       | Some idx \<Rightarrow>
           let (host, port) = host_port addr idx in
           case os_getaddrinfo os host port hs of
               None \<Rightarrow> Inr (- 1, None, st)
             | Some result \<Rightarrow>
                 rbind (try_addresses flt result (st\<lparr>os_gai := os_gai st + 1\<rparr>)) (\<lambda>(sock, rp, st1).
                   let st2 = st1\<lparr>os_gai := os_gai st1 - 1\<rparr> in
                   case rp of
                       None \<Rightarrow> Inr (- 1, None, st2)
                     | Some c \<Rightarrow> Inr (sock, if want_addr then Some (ca_addr c) else None, st2)))"

definition tcp_filter :: "os_calls \<Rightarrow> sock_filter" where
  "tcp_filter os sock sa =
     rbind (verify (os_setsockopt os sock SO_REUSEADDR = 0)) (\<lambda>_.
     rbind (verify (os_setsockopt os sock TCP_NODELAY = 0)) (\<lambda>_.
       Inr (os_connect os sock sa = 0)))"

definition tcp_connect :: "os_calls \<Rightarrow> string \<Rightarrow> os_state \<Rightarrow> (int \<times> os_state) res" where
  "tcp_connect os addr st =
     rbind (open_socket os addr \<lparr>ai_family = AF_INET, ai_socktype = SOCK_STREAM, ai_protocol = 0, ai_flags = 0\<rparr>
       (Some (tcp_filter os)) False st) (\<lambda>(sock, _, st'). Inr (sock, st'))"

definition udp_connect :: "os_calls \<Rightarrow> string \<Rightarrow> os_state \<Rightarrow> (int \<times> byte list option \<times> os_state) res" where
  "udp_connect os addr st =
     open_socket os addr \<lparr>ai_family = AF_INET, ai_socktype = SOCK_DGRAM, ai_protocol = IPPROTO_UDP, ai_flags = 0\<rparr> None True st"

definition udp_bind :: "os_calls \<Rightarrow> string \<Rightarrow> os_state \<Rightarrow> (int \<times> os_state) res" where
  "udp_bind os addr st =
     rbind (open_socket os addr \<lparr>ai_family = AF_INET, ai_socktype = SOCK_DGRAM, ai_protocol = IPPROTO_UDP, ai_flags = 0\<rparr>
       (Some (\<lambda>sock sa. Inr (os_bind os sock sa = 0))) False st) (\<lambda>(sock, _, st'). Inr (sock, st'))"

section \<open>Nothing leaks\<close>

text \<open>The first address for which a socket opens and the filter agrees.\<close>

definition usable :: "sock_filter option \<Rightarrow> candidate \<Rightarrow> bool" where
  "usable flt c \<longleftrightarrow> ca_socket c \<noteq> - 1 \<and> (case flt of None \<Rightarrow> True | Some g \<Rightarrow> g (ca_socket c) (ca_addr c) = Inr True)"

text \<open>\<open>socket()\<close> gives a descriptor that is not open, and the filter does not abort.\<close>

definition answers_fresh :: "sock_filter option \<Rightarrow> candidate list \<Rightarrow> os_state \<Rightarrow> bool" where
  "answers_fresh flt cs st \<longleftrightarrow> (\<forall>c \<in> set cs. ca_socket c \<noteq> - 1 \<longrightarrow> ca_socket c \<notin> os_fds st
     \<and> (case flt of None \<Rightarrow> True | Some g \<Rightarrow> \<exists>b. g (ca_socket c) (ca_addr c) = Inr b))"

definition os_fresh :: "os_calls \<Rightarrow> hints \<Rightarrow> sock_filter option \<Rightarrow> os_state \<Rightarrow> bool" where
  "os_fresh os hs flt st \<longleftrightarrow> (\<forall>host port cs. os_getaddrinfo os host port hs = Some cs \<longrightarrow> answers_fresh flt cs st)"

lemma close_open_fd: "fd \<notin> os_fds st \<Longrightarrow> close_fd fd (open_fd fd st) = st"
  by (simp add: close_fd_def open_fd_def)

lemma try_addresses_first:
  "answers_fresh flt cs st \<Longrightarrow> try_addresses flt cs st = Inr (case find (usable flt) cs of
       None \<Rightarrow> (- 1, None, st) | Some c \<Rightarrow> (ca_socket c, Some c, open_fd (ca_socket c) st))"
proof (induction cs)
  case (Cons c cs)
  have ih: "try_addresses flt cs st = Inr (case find (usable flt) cs of
       None \<Rightarrow> (- 1, None, st) | Some c \<Rightarrow> (ca_socket c, Some c, open_fd (ca_socket c) st))"
    using Cons by (simp add: answers_fresh_def)
  show ?case
  proof (cases "ca_socket c = - 1 \<or> flt = None")
    case True
    then show ?thesis using ih by (auto simp: usable_def [of flt c] usable_def [of None c] Let_def)
  next
    case False
    then obtain g b where "flt = Some g" "g (ca_socket c) (ca_addr c) = Inr b" "ca_socket c \<notin> os_fds st"
      using Cons(2) by (auto simp: answers_fresh_def)
    with False ih show ?thesis by (cases b) (simp_all add: usable_def [of "Some g" c] close_open_fd Let_def)
  qed
qed simp

lemma open_socket_first:
  assumes "os_fresh os hs flt st"
  shows "open_socket os addr hs flt want st = Inr
    (if CHR '':'' \<notin> set addr then (- 1, None, st)
     else let host = takeWhile (\<lambda>c. c \<noteq> CHR '':'') addr in
       case os_getaddrinfo os (if host = ''0.0.0.0'' then None else Some host) (drop (length host + 1) addr) hs of
           None \<Rightarrow> (- 1, None, st)
         | Some cs \<Rightarrow> case find (usable flt) cs of
               None \<Rightarrow> (- 1, None, st)
             | Some c \<Rightarrow> (ca_socket c, if want then Some (ca_addr c) else None, st\<lparr>os_fds := insert (ca_socket c) (os_fds st)\<rparr>))"
proof -
  have find: "find_at (\<lambda>c. c = CHR '':'') addr (Some 0) = (if CHR '':'' \<in> set addr
      then Some (length (takeWhile (\<lambda>c. c \<noteq> CHR '':'') addr)) else None)"
    by (simp add: find_at_def find_from_eq)
  have take: "take (length (takeWhile P addr)) addr = takeWhile P addr" for P
    by (metis takeWhile_eq_take)
  have gai: "try_addresses flt cs (st\<lparr>os_gai := os_gai st + 1\<rparr>) = Inr (case find (usable flt) cs of
       None \<Rightarrow> (- 1, None, st\<lparr>os_gai := os_gai st + 1\<rparr>)
     | Some c \<Rightarrow> (ca_socket c, Some c, open_fd (ca_socket c) (st\<lparr>os_gai := os_gai st + 1\<rparr>)))"
    if "os_getaddrinfo os host port hs = Some cs" for host port cs
  proof -
    have "answers_fresh flt cs st" using assms that by (auto simp: os_fresh_def)
    then show ?thesis by (intro try_addresses_first) (simp add: answers_fresh_def)
  qed
  show ?thesis
  proof (cases "CHR '':'' \<in> set addr")
    case True
    define host where "host = takeWhile (\<lambda>c. c \<noteq> CHR '':'') addr"
    let ?g = "os_getaddrinfo os (if host = ''0.0.0.0'' then None else Some host) (drop (length host + 1) addr) hs"
    have f: "find_at (\<lambda>c. c = CHR '':'') addr (Some 0) = Some (length host)" "take (length host) addr = host"
      using True by (simp_all add: find host_def take)
    show ?thesis
    proof (cases ?g)
      case (Some cs)
      with gai [OF this] True f show ?thesis
        by (cases "find (usable flt) cs") (simp_all add: open_socket_def host_port_def host_def [symmetric] Let_def open_fd_def)
    qed (use True f in \<open>simp add: open_socket_def host_port_def host_def [symmetric] Let_def\<close>)
  qed (simp add: open_socket_def find)
qed

text \<open>
  Opening a socket leaks nothing. For an address with a colon that resolves to a list of addresses, \<open>open_socket\<close> returns
  the socket of the first one that opens and passes the filter, and that socket is the only
  descriptor that is open afterwards and was not before; it returns -1 with nothing opened when none does, and for an
  address that does not resolve or has no colon. The list of addresses is freed on every path.
\<close>

theorem open_socket_first_or_nothing:
  assumes "os_fresh os hs flt st"
  shows "open_socket os addr hs flt want st = Inr
    (if CHR '':'' \<notin> set addr then (- 1, None, st)
     else let host = takeWhile (\<lambda>c. c \<noteq> CHR '':'') addr in
       case os_getaddrinfo os (if host = ''0.0.0.0'' then None else Some host) (drop (length host + 1) addr) hs of
           None \<Rightarrow> (- 1, None, st)
         | Some cs \<Rightarrow> case find (usable flt) cs of
               None \<Rightarrow> (- 1, None, st)
             | Some c \<Rightarrow> (ca_socket c, if want then Some (ca_addr c) else None, st\<lparr>os_fds := insert (ca_socket c) (os_fds st)\<rparr>))"
  using assms by (rule open_socket_first)

definition demo_os :: os_calls where
  "demo_os = \<lparr>os_getaddrinfo = (\<lambda>host port hs. if port = ''80'' then Some [\<lparr>ca_socket = - 1, ca_addr = [1]\<rparr>,
       \<lparr>ca_socket = 3, ca_addr = [2]\<rparr>, \<lparr>ca_socket = 4, ca_addr = [3]\<rparr>] else None),
     os_setsockopt = (\<lambda>_ _. 0), os_connect = (\<lambda>fd _. if fd = 4 then 0 else - 1), os_bind = (\<lambda>fd _. if fd = 4 then 0 else - 1),
     os_listen = (\<lambda>_. 0), os_getfl = (\<lambda>_. 2), os_setfl = (\<lambda>_ _. 0)\<rparr>"

definition demo_hints :: hints where
  "demo_hints = \<lparr>ai_family = AF_INET, ai_socktype = SOCK_STREAM, ai_protocol = 0, ai_flags = 0\<rparr>"

theorem open_socket_first_or_nothing_witness:
  "open_socket demo_os ''h:80'' demo_hints (Some (tcp_filter demo_os)) True \<lparr>os_fds = {0, 1, 2}, os_gai = 0\<rparr>
     = Inr (4, Some [3], \<lparr>os_fds = {4, 0, 1, 2}, os_gai = 0\<rparr>)
   \<and> open_socket demo_os ''h:81'' demo_hints (Some (tcp_filter demo_os)) True \<lparr>os_fds = {0, 1, 2}, os_gai = 0\<rparr>
     = Inr (- 1, None, \<lparr>os_fds = {0, 1, 2}, os_gai = 0\<rparr>)"
proof -
  let ?st = "\<lparr>os_fds = {0, 1, 2}, os_gai = 0\<rparr>"
  have fresh: "os_fresh demo_os demo_hints (Some (tcp_filter demo_os)) ?st"
    by (auto simp: os_fresh_def demo_os_def answers_fresh_def tcp_filter_def split: if_splits)
  show ?thesis
    using open_socket_first_or_nothing [OF fresh, where addr = "''h:80''" and want = True]
      open_socket_first_or_nothing [OF fresh, where addr = "''h:81''" and want = True]
    by (simp add: demo_os_def usable_def tcp_filter_def)
qed

end
