(* ===== verification/Poll_Frames.thy ===== *)
theory Poll_Frames
  imports Poll_Refs
begin

text \<open>
  What the operations of the poll manager on one pollable leave as it was: the other pollables, who holds them, and the
  descriptors nobody uses. Owners of many pollables (the accepting thread of a server, a pool of clients) go through lists with these.
\<close>

definition free_fd :: "poll_world \<Rightarrow> int \<Rightarrow> bool" where
  "free_fd w fd \<longleftrightarrow> mode (poll_threads w ! tid_of w fd) fd = None \<and> epoll (poll_threads w ! tid_of w fd) fd = None"

lemma add_frame:
  assumes "poll_ok w" "PollMgr_add p (w\<lparr>pobjs := (pobjs w)(p \<mapsto> q)\<rparr>) = Inr w'" "fd \<noteq> p_fd q" "free_fd w fd"
  shows "free_fd w' fd"
proof -
  let ?w = "w\<lparr>pobjs := (pobjs w)(p \<mapsto> q)\<rparr>"
  have "tid_of w' x = tid_of w x" for x
    using assms(2) by (auto simp: PollMgr_add_def PollThread_add_def Pollable_ref_copy_def epoll_add_def obj_def Let_def
        tid_of_def set_thread_def rbind_eq_Inr_iff split: if_splits)
  then show ?thesis using assms(2-4) tid_of_less [OF assms(1), of "p_fd q"]
    by (cases "tid_of w fd = tid_of w (p_fd q)")
      (auto simp: PollMgr_add_def PollThread_add_def Pollable_ref_copy_def epoll_add_def obj_def Let_def free_fd_def
        tid_of_def set_thread_def rbind_eq_Inr_iff split: if_splits)
qed

text \<open>Pollables outside of \<open>P\<close> are as before, and so are the references of the poll threads on them.\<close>

definition others_kept :: "pid set \<Rightarrow> poll_world \<Rightarrow> poll_world \<Rightarrow> bool" where
  "others_kept P w w' \<longleftrightarrow> length (poll_threads w') = length (poll_threads w) \<and> (\<forall>x. x \<notin> P \<longrightarrow> pobjs w' x = pobjs w x
     \<and> (\<forall>t < length (poll_threads w). held (poll_threads w' ! t) x = held (poll_threads w ! t) x
          \<and> (x \<in> poll_set (poll_threads w' ! t)) = (x \<in> poll_set (poll_threads w ! t))))"

lemma others_kept_refl [simp]: "others_kept P w w"
  by (simp add: others_kept_def)

lemma others_kept_trans: "others_kept P w w1 \<Longrightarrow> others_kept Q w1 w2 \<Longrightarrow> others_kept (P \<union> Q) w w2"
  by (simp add: others_kept_def)

lemma others_kept_mono: "others_kept P w w' \<Longrightarrow> P \<subseteq> Q \<Longrightarrow> others_kept Q w w'"
  by (auto simp: others_kept_def)

lemma others_keptD:
  assumes "others_kept P w w'" "poll_ok w" "poll_ok w'" "x \<notin> P"
  shows "pobjs w' x = pobjs w x" "registered w' x = registered w x" "spare k w' x = spare k w x"
proof -
  have t: "tid_of w' = tid_of w" using assms(1) by (auto simp: others_kept_def tid_of_def)
  have h: "held (poll_threads w' ! tid_of w fd) x = held (poll_threads w ! tid_of w fd) x"
    "(x \<in> poll_set (poll_threads w' ! tid_of w fd)) = (x \<in> poll_set (poll_threads w ! tid_of w fd))" for fd
    using assms(1,4) tid_of_less [OF assms(2), of fd] unfolding others_kept_def by blast+
  show o: "pobjs w' x = pobjs w x" using assms(1,4) by (simp add: others_kept_def)
  show "registered w' x = registered w x" by (simp add: registered_def o t h)
  show "spare k w' x = spare k w x" using assms(2,3) by (simp add: spare_def o t h)
qed

lemma others_kept_thread:
  assumes "poll_threads w' = (poll_threads w)[t := th]" "\<forall>x. x \<notin> P \<longrightarrow> pobjs w' x = pobjs w x"
    and "\<forall>x. x \<notin> P \<longrightarrow> held th x = held (poll_threads w ! t) x \<and> (x \<in> poll_set th) = (x \<in> poll_set (poll_threads w ! t))"
  shows "others_kept P w w'"
proof -
  have "held ((poll_threads w)[t := th] ! i) x = held (poll_threads w ! i) x
      \<and> (x \<in> poll_set ((poll_threads w)[t := th] ! i)) = (x \<in> poll_set (poll_threads w ! i))"
    if "i < length (poll_threads w)" "x \<notin> P" for i x
    using that assms(3) by (cases "i = t") auto
  with assms(1,2) show ?thesis by (simp add: others_kept_def)
qed

lemma add_others: "PollMgr_add p (w\<lparr>pobjs := (pobjs w)(p \<mapsto> q)\<rparr>) = Inr w' \<Longrightarrow> others_kept {p} w w'"
  by (auto simp: PollMgr_add_def PollThread_add_def Pollable_ref_copy_def epoll_add_def obj_def Let_def held_def
      tid_of_def set_thread_def rbind_eq_Inr_iff split: if_splits intro!: others_kept_thread)

lemma remove_others: "PollMgr_remove p w = Inr w' \<Longrightarrow> others_kept {p} w w'"
  by (auto simp: PollMgr_remove_def PollThread_remove_def obj_def Let_def held_def set_thread_def rbind_eq_Inr_iff
      split: if_splits option.splits intro!: others_kept_thread)

lemma close_others: "others_kept P w (os_close fd w)"
  by (rule others_kept_thread [of _ _ "tid_of w fd"]) (auto simp: os_close_def set_thread_def Let_def held_def)

lemma release_others: "Pollable_release p w = Inr w' \<Longrightarrow> others_kept {p} w w'"
  by (auto simp: Pollable_release_def obj_def Let_def rbind_eq_Inr_iff others_kept_def split: option.splits)

lemma create_others: "others_kept {p} w (w\<lparr>pobjs := (pobjs w)(p := q)\<rparr>)"
  by (simp add: others_kept_def)

end
