(* ===== verification/Server_Life.thy ===== *)
theory Server_Life
  imports Server_Properties Sockets Poll_Frames
begin

text \<open>
  The life of a server: \<open>Server::start\<close>, the thread that accepts connections, and \<open>~Server\<close> of
  \<open>rpc/server.cc\<close>. The accepting thread and the destructor share \<open>status_\<close>, which the thread looks at three
  times in each turn of its loop; a turn says what \<open>select\<close> and \<open>accept\<close> answer and at which look the
  assignment of the destructor is first visible.
\<close>

section \<open>Definitions\<close>

datatype server_status = SV_NEW | SV_RUNNING | SV_STOPPING | SV_STOPPED

record server =
  sv_sock :: int
  sv_udp :: bool
  sv_udp_sock :: int
  sv_udp_conn :: "pid option"
  sv_status :: server_status

record 'u world =
  w_sv :: server
  w_os :: os_state
  w_s :: "'u sstate_scheme"

definition AI_PASSIVE :: int where "AI_PASSIVE = 1"

definition Server_new :: server where
  "Server_new = \<lparr>sv_sock = - 1, sv_udp = False, sv_udp_sock = - 1, sv_udp_conn = None, sv_status = SV_NEW\<rparr>"

definition enable_udp :: "server \<Rightarrow> server" where
  "enable_udp sv = sv\<lparr>sv_udp := True\<rparr>"

definition stream_hints :: hints where
  "stream_hints = \<lparr>ai_family = AF_INET, ai_socktype = SOCK_STREAM, ai_protocol = 0, ai_flags = AI_PASSIVE\<rparr>"

text \<open>What the loop of \<open>start\<close> asks of each socket: the body of its loop behind \<open>socket()\<close>.\<close>

definition bind_filter :: "os_calls \<Rightarrow> sock_filter" where
  "bind_filter os sock sa =
     rbind (verify (os_setsockopt os sock SO_REUSEADDR = 0)) (\<lambda>_.
     rbind (verify (os_setsockopt os sock TCP_NODELAY = 0)) (\<lambda>_.
       Inr (os_bind os sock sa = 0)))"

text \<open>The addresses \<open>getaddrinfo\<close> gave stay allocated for the accepting thread, and also when \<open>udp_bind\<close> fails.\<close>

definition Server_start :: "os_calls \<Rightarrow> string \<Rightarrow> server \<Rightarrow> os_state \<Rightarrow> (i32 \<times> server \<times> os_state) res" where
  "Server_start os bind_addr sv st =
     (case find_at (\<lambda>c. c = CHR '':'') bind_addr (Some 0) of
         None \<Rightarrow> Inr (EINVAL, sv, st)
       | Some idx \<Rightarrow>
           let (host, port) = host_port bind_addr idx in
           case os_getaddrinfo os host port stream_hints of
               None \<Rightarrow> Inr (EINVAL, sv, st)
             | Some result \<Rightarrow>
                 rbind (try_addresses (Some (bind_filter os)) result (st\<lparr>os_gai := os_gai st + 1\<rparr>)) (\<lambda>(sock, rp, st1).
                   let sv1 = sv\<lparr>sv_sock := sock\<rparr> in
                   if rp = None then Inr (EINVAL, sv1, st1\<lparr>os_gai := os_gai st1 - 1\<rparr>)
                   else
                     rbind (verify (os_listen os sock = 0)) (\<lambda>_.
                     rbind (verify (set_nonblocking os sock True = 0)) (\<lambda>_.
                       if sv_udp sv then
                         rbind (udp_bind os bind_addr st1) (\<lambda>(udp, st2).
                           if udp = - 1 then
                             Inr (EINVAL, sv1\<lparr>sv_udp_sock := - 1, sv_sock := - 1\<rparr>, close_fd sock st2)
                           else Inr (0, sv1\<lparr>sv_udp_sock := udp, sv_status := SV_RUNNING\<rparr>, st2))
                       else Inr (0, sv1\<lparr>sv_status := SV_RUNNING\<rparr>, st1)))))"

record turn =
  t_stop_head :: bool
  t_idle :: bool
  t_stop_select :: bool
  t_client :: int
  t_stop_accept :: bool
  t_addr :: pid

definition see_stop :: "bool \<Rightarrow> 'u world \<Rightarrow> 'u world" where
  "see_stop b w = (if b then w\<lparr>w_sv := (w_sv w)\<lparr>sv_status := SV_STOPPING\<rparr>\<rparr> else w)"

text \<open>Behind the loop: the listening sockets are closed.\<close>

definition stop_listening :: "'u world \<Rightarrow> 'u world" where
  "stop_listening w =
     (let sv = w_sv w; st1 = close_fd (sv_sock sv) (w_os w) in
      if sv_udp sv
      then w\<lparr>w_os := close_fd (sv_udp_sock sv) st1, w_sv := sv\<lparr>sv_sock := - 1, sv_udp_sock := - 1, sv_status := SV_STOPPED\<rparr>\<rparr>
      else w\<lparr>w_os := st1, w_sv := sv\<lparr>sv_sock := - 1, sv_status := SV_STOPPED\<rparr>\<rparr>)"

text \<open>\<open>accept\<close> opens a descriptor, whatever is done with it.\<close>

definition take_client :: "os_calls \<Rightarrow> turn \<Rightarrow> 'u world \<Rightarrow> 'u world res" where
  "take_client os t w =
     (let clnt_socket = t_client t; w1 = see_stop (t_stop_accept t)
            (if 0 \<le> clnt_socket then w\<lparr>w_os := open_fd clnt_socket (w_os w)\<rparr> else w) in
      if 0 \<le> clnt_socket \<and> sv_status (w_sv w1) = SV_RUNNING then
        rbind (verify (set_nonblocking os clnt_socket True = 0)) (\<lambda>_.
        rbind (server_accept (t_addr t) clnt_socket (w_s w1)) (\<lambda>s. Inr (w1\<lparr>w_s := s\<rparr>)))
      else Inr w1)"

fun server_loop :: "os_calls \<Rightarrow> turn list \<Rightarrow> 'u world \<Rightarrow> 'u world option res" where
  "server_loop os [] w = (if sv_status (w_sv w) = SV_RUNNING then Inr None else Inr (Some (stop_listening w)))"
| "server_loop os (t # ts) w =
     (let w1 = see_stop (t_stop_head t) w in
      if sv_status (w_sv w1) \<noteq> SV_RUNNING then Inr (Some (stop_listening w1))
      else if t_idle t then server_loop os ts w1
      else
        let w2 = see_stop (t_stop_select t) w1 in
        if sv_status (w_sv w2) \<noteq> SV_RUNNING then Inr (Some (stop_listening w2))
        else rbind (take_client os t w2) (server_loop os ts))"

text \<open>The thread: the connection for datagrams, the loop, and the addresses of \<open>getaddrinfo\<close>.\<close>

definition start_server_loop :: "os_calls \<Rightarrow> pid \<Rightarrow> turn list \<Rightarrow> 'u world \<Rightarrow> 'u world option res" where
  "start_server_loop os udp_conn ts w =
     rbind (if sv_udp (w_sv w) then
              rbind (PollMgr_add udp_conn ((ss_poll (w_s w))\<lparr>pobjs := (pobjs (ss_poll (w_s w)))
                  (udp_conn \<mapsto> \<lparr>p_fd = sv_udp_sock (w_sv w), p_mode = READ, p_ref = 1\<rparr>)\<rparr>)) (\<lambda>pw.
                Inr (w\<lparr>w_s := (w_s w)\<lparr>ss_poll := pw\<rparr>, w_sv := (w_sv w)\<lparr>sv_udp_conn := Some udp_conn\<rparr>\<rparr>))
            else Inr w) (\<lambda>w1.
     rbind (server_loop os ts w1) (\<lambda>r. case r of
         None \<Rightarrow> Inr None
       | Some w2 \<Rightarrow> Inr (Some (w2\<lparr>w_os := (w_os w2)\<lparr>os_gai := os_gai (w_os w2) - 1\<rparr>\<rparr>))))"

text \<open>
  \<open>~Server\<close>. \<open>ts\<close> are the turns of the accepting thread until it was joined, \<open>order\<close> is the order of the set of
  connections, and \<open>others\<close> is what other threads make of the state in each pause of the last loop; \<open>None\<close> means that the
  destructor still waits.
\<close>

fun close_all :: "pid list \<Rightarrow> 'u sstate_scheme \<Rightarrow> 'u sstate_scheme res" where
  "close_all [] s = Inr s"
| "close_all (p # ps) s = rbind (conn_close p s) (close_all ps)"

fun wait_connections :: "('u sstate_scheme \<Rightarrow> 'u sstate_scheme) list \<Rightarrow> 'u sstate_scheme \<Rightarrow> 'u sstate_scheme option res" where
  "wait_connections others s =
     (if sint (scast (ss_ctr s) :: i32) \<le> 0 then rbind (verify (ss_ctr s = 0)) (\<lambda>_. Inr (Some s))
      else case others of [] \<Rightarrow> Inr None | g # gs \<Rightarrow> wait_connections gs (g s))"

declare wait_connections.simps [simp del]

definition Server_delete ::
  "os_calls \<Rightarrow> turn list \<Rightarrow> (pid set \<Rightarrow> pid list) \<Rightarrow> ('u sstate_scheme \<Rightarrow> 'u sstate_scheme) list \<Rightarrow> 'u world \<Rightarrow> 'u world option res" where
  "Server_delete os ts order others w =
     rbind (if sv_status (w_sv w) = SV_RUNNING then
              rbind (server_loop os ts w) (\<lambda>r. case r of
                  None \<Rightarrow> Inr None
                | Some w1 \<Rightarrow> rbind (verify (sv_sock (w_sv w1) = - 1 \<and> sv_status (w_sv w1) = SV_STOPPED)) (\<lambda>_.
                    Inr (Some (w1\<lparr>w_os := (w_os w1)\<lparr>os_gai := os_gai (w_os w1) - 1\<rparr>\<rparr>))))
            else Inr (Some w)) (\<lambda>r. case r of
         None \<Rightarrow> Inr None
       | Some w1 \<Rightarrow>
           rbind (close_all (order (ss_sconns (w_s w1))) (w_s w1)) (\<lambda>s1.
           rbind (if sv_udp (w_sv w1) then
                    case sv_udp_conn (w_sv w1) of
                        None \<Rightarrow> Inl NullDeref
                      | Some p \<Rightarrow> rbind (PollMgr_remove p (ss_poll s1)) (\<lambda>pw.
                          rbind (Pollable_release p pw) (\<lambda>pw'. Inr (s1\<lparr>ss_poll := pw'\<rparr>)))
                  else Inr s1) (\<lambda>s2.
           rbind (wait_connections others s2) (\<lambda>done. case done of
               None \<Rightarrow> Inr None
             | Some s3 \<Rightarrow> Inr (Some (w1\<lparr>w_s := s3\<rparr>))))))"

section \<open>Starting\<close>

definition dgram_hints :: hints where
  "dgram_hints = \<lparr>ai_family = AF_INET, ai_socktype = SOCK_DGRAM, ai_protocol = IPPROTO_UDP, ai_flags = 0\<rparr>"

definition udp_filter :: "os_calls \<Rightarrow> sock_filter" where
  "udp_filter os sock sa = Inr (os_bind os sock sa = 0)"

text \<open>What the system is asked for: new descriptors are not open yet, and the calls that are verified work.\<close>

definition os_works :: "os_calls \<Rightarrow> os_state \<Rightarrow> bool" where
  "os_works os st \<longleftrightarrow> os_fresh os stream_hints (Some (bind_filter os)) st
     \<and> (\<forall>fd. os_listen os fd = 0 \<and> set_nonblocking os fd True = 0)
     \<and> (\<forall>host port cs. os_getaddrinfo os host port stream_hints = Some cs \<longrightarrow>
          (\<forall>c \<in> set cs. os_fresh os dgram_hints (Some (udp_filter os)) (open_fd (ca_socket c) st)))"

text \<open>The address for the stream socket, if there is one that can be bound.\<close>

definition bindable :: "os_calls \<Rightarrow> string \<Rightarrow> candidate option" where
  "bindable os addr = (if CHR '':'' \<notin> set addr then None else
     let (host, port) = host_port addr (length (takeWhile (\<lambda>c. c \<noteq> CHR '':'') addr)) in
     case os_getaddrinfo os host port stream_hints of None \<Rightarrow> None | Some cs \<Rightarrow> find (usable (Some (bind_filter os))) cs)"

lemma udp_bind_result:
  assumes "os_fresh os dgram_hints (Some (udp_filter os)) st"
  shows "\<exists>fd st'. udp_bind os addr st = Inr (fd, st') \<and>
    (fd = - 1 \<and> st' = st \<or> fd \<noteq> - 1 \<and> fd \<notin> os_fds st \<and> st' = open_fd fd st)"
proof -
  have udp: "udp_bind os addr st = rbind (open_socket os addr dgram_hints (Some (udp_filter os)) False st) (\<lambda>(sock, _, st'). Inr (sock, st'))"
    by (simp add: udp_bind_def dgram_hints_def udp_filter_def [abs_def])
  have pass: "ca_socket c \<noteq> - 1" "ca_socket c \<notin> os_fds st"
    if "os_getaddrinfo os h p dgram_hints = Some cs" "find (usable (Some (udp_filter os))) cs = Some c" for h p cs c
    using that assms by (auto simp: os_fresh_def answers_fresh_def usable_def find_Some_iff nth_mem)
  show ?thesis unfolding udp open_socket_first [OF assms]
    using pass by (auto simp: Let_def open_fd_def split: option.split)
qed

text \<open>
  C23. Starting a server leaves it running or leaves nothing open. When \<open>start\<close> returns 0 the server is running, with
  a listening socket and, for a server with datagrams, a second one, that were not open before; those and no
  others. When it returns \<open>EINVAL\<close> the status is what it was and no socket stays open. The addresses of \<open>getaddrinfo\<close> are then freed,
  except when a stream socket could be bound and the one for datagrams not.
\<close>

theorem server_start_running_or_clean:
  assumes "os_works os st"
  shows "\<exists>r sv' st'. Server_start os addr sv st = Inr (r, sv', st') \<and> (r = 0 \<or> r = EINVAL)
    \<and> (r = 0 \<longrightarrow> sv_status sv' = SV_RUNNING \<and> sv_sock sv' \<notin> insert (- 1) (os_fds st) \<and> os_gai st' = os_gai st + 1
        \<and> (if sv_udp sv then sv_udp_sock sv' \<notin> {- 1, sv_sock sv'} \<union> os_fds st \<and> os_fds st' = {sv_sock sv', sv_udp_sock sv'} \<union> os_fds st
           else os_fds st' = insert (sv_sock sv') (os_fds st)))
    \<and> (r = EINVAL \<longrightarrow> sv_status sv' = sv_status sv \<and> os_fds st' = os_fds st
        \<and> os_gai st' = os_gai st + (if bindable os addr = None then 0 else 1))"
proof (cases "CHR '':'' \<in> set addr")
  case True
  define i where "i = length (takeWhile (\<lambda>c. c \<noteq> CHR '':'') addr)"
  obtain host port where hp: "host_port addr i = (host, port)" by (cases "host_port addr i")
  have find: "find_at (\<lambda>c. c = CHR '':'') addr (Some 0) = Some i" using True by (simp add: find_at_def find_from_eq i_def)
  show ?thesis
  proof (cases "os_getaddrinfo os host port stream_hints")
    case None
    with True hp show ?thesis by (simp add: Server_start_def find bindable_def i_def [symmetric] EINVAL_def)
  next
    case (Some cs)
    let ?st = "st\<lparr>os_gai := os_gai st + 1\<rparr>"
    have b: "bindable os addr = find (usable (Some (bind_filter os))) cs"
      using True hp Some by (simp add: bindable_def i_def [symmetric])
    have fr: "answers_fresh (Some (bind_filter os)) cs st" "answers_fresh (Some (bind_filter os)) cs ?st"
      using assms Some by (auto simp: os_works_def os_fresh_def answers_fresh_def)
    note tr = try_addresses_first [OF fr(2)]
    show ?thesis
    proof (cases "find (usable (Some (bind_filter os))) cs")
      case None
      with Some hp tr b show ?thesis by (simp add: Server_start_def find EINVAL_def)
    next
      case found: (Some c)
      then have c: "c \<in> set cs" "ca_socket c \<noteq> - 1" "ca_socket c \<notin> os_fds st"
        using fr(1) by (auto simp: find_Some_iff usable_def answers_fresh_def)
      let ?st1 = "open_fd (ca_socket c) ?st"
      have "os_fresh os dgram_hints (Some (udp_filter os)) ?st1"
        using assms Some c(1) by (auto simp: os_works_def os_fresh_def answers_fresh_def open_fd_def)
      then obtain fd st' where u: "udp_bind os addr ?st1 = Inr (fd, st')"
        "fd = - 1 \<and> st' = ?st1 \<or> fd \<noteq> - 1 \<and> fd \<notin> os_fds ?st1 \<and> st' = open_fd fd ?st1"
        using udp_bind_result by blast
      have ok: "os_listen os x = 0" "set_nonblocking os x True = 0" for x using assms by (auto simp: os_works_def)
      show ?thesis
      proof (cases "sv_udp sv")
        case False
        with Some hp tr found c ok show ?thesis by (simp add: Server_start_def find EINVAL_def open_fd_def)
      next
        case True
        with Some hp tr found c ok u b show ?thesis
          by (cases "fd = - 1") (auto simp: Server_start_def find EINVAL_def open_fd_def close_fd_def)
      qed
    qed
  qed
qed (simp add: Server_start_def find_at_def find_from_eq bindable_def EINVAL_def)

definition demo_net :: os_calls where
  "demo_net = \<lparr>os_getaddrinfo = (\<lambda>host port hs. Some (if ai_socktype hs = SOCK_STREAM
       then [\<lparr>ca_socket = 3, ca_addr = [1]\<rparr>, \<lparr>ca_socket = 4, ca_addr = [2]\<rparr>] else [\<lparr>ca_socket = 5, ca_addr = [3]\<rparr>])),
     os_setsockopt = (\<lambda>_ _. 0), os_connect = (\<lambda>_ _. 0), os_bind = (\<lambda>fd _. if fd = 3 then - 1 else 0),
     os_listen = (\<lambda>_. 0), os_getfl = (\<lambda>_. 2), os_setfl = (\<lambda>_ _. 0)\<rparr>"

lemma demo_net_works: "os_works demo_net \<lparr>os_fds = {0, 1, 2}, os_gai = 0\<rparr>"
  by (auto simp: os_works_def os_fresh_def answers_fresh_def demo_net_def stream_hints_def dgram_hints_def SOCK_STREAM_def
      SOCK_DGRAM_def bind_filter_def udp_filter_def set_nonblocking_def open_fd_def)

theorem server_start_running_or_clean_witness:
  "\<exists>sv' st'. Server_start demo_net ''h:80'' (enable_udp Server_new) \<lparr>os_fds = {0, 1, 2}, os_gai = 0\<rparr> = Inr (0, sv', st')
    \<and> sv_status sv' = SV_RUNNING \<and> sv_sock sv' = 4 \<and> os_fds st' = {4, 5, 0, 1, 2}"
proof -
  let ?st = "\<lparr>os_fds = {0, 1, 2}, os_gai = 0\<rparr>"
  obtain r sv' st' where s: "Server_start demo_net ''h:80'' (enable_udp Server_new) ?st = Inr (r, sv', st')"
    and r: "r = 0 \<longrightarrow> sv_status sv' = SV_RUNNING \<and> sv_udp_sock sv' \<notin> {- 1, sv_sock sv'} \<union> {0, 1, 2}
      \<and> os_fds st' = {sv_sock sv', sv_udp_sock sv'} \<union> {0, 1, 2}"
    using server_start_running_or_clean [OF demo_net_works, of "''h:80''" "enable_udp Server_new"]
    by (auto simp: enable_udp_def)
  moreover have "r = 0 \<and> sv_sock sv' = 4 \<and> sv_udp_sock sv' = 5"
    using s by (auto simp: Server_start_def find_at_def host_port_def demo_net_def stream_hints_def bind_filter_def open_fd_def close_fd_def
        enable_udp_def Server_new_def udp_bind_def open_socket_def set_nonblocking_def SOCK_STREAM_def SOCK_DGRAM_def)
  ultimately show ?thesis by auto
qed

section \<open>The accepting thread\<close>

text \<open>
  The turns in which a client is taken over: those before the one in which the thread sees the end. A client that was accepted
  in the very turn in which the thread sees the end behind \<open>accept\<close> is dropped.
\<close>

fun served :: "turn list \<Rightarrow> turn list" where
  "served [] = []"
| "served (t # ts) = (if t_stop_head t then [] else if t_idle t then served ts else if t_stop_select t \<or> t_stop_accept t then []
     else if 0 \<le> t_client t then t # served ts else served ts)"

fun dropped :: "turn list \<Rightarrow> int set" where
  "dropped [] = {}"
| "dropped (t # ts) = (if t_stop_head t then {} else if t_idle t then dropped ts else if t_stop_select t then {}
     else if t_stop_accept t then {fd. fd = t_client t \<and> 0 \<le> fd} else dropped ts)"

definition ends_loop :: "turn \<Rightarrow> bool" where
  "ends_loop t \<longleftrightarrow> t_stop_head t \<or> \<not> t_idle t \<and> (t_stop_select t \<or> t_stop_accept t)"

text \<open>Clients come with descriptors and at addresses that are not in use.\<close>

definition turns_fresh :: "turn list \<Rightarrow> 'u sstate_scheme \<Rightarrow> bool" where
  "turns_fresh ts s \<longleftrightarrow> poll_ok (ss_poll s) \<and> (\<exists>R. heap_ok (ss_heap s) R)
     \<and> distinct (map t_client (filter (\<lambda>t. 0 \<le> t_client t) ts)) \<and> distinct (map t_addr ts)
     \<and> (\<forall>t \<in> set ts. pobjs (ss_poll s) (t_addr t) = None \<and> (0 \<le> t_client t \<longrightarrow> free_fd (ss_poll s) (t_client t)))"

lemma accept_fresh:
  assumes fr: "turns_fresh (t # ts) s" and fd: "0 \<le> t_client t"
  shows "\<exists>s'. server_accept (t_addr t) (t_client t) s = Inr s' \<and> turns_fresh ts s'
    \<and> ss_sconns s' = insert (t_addr t) (ss_sconns s) \<and> ss_ctr s' = ss_ctr s + 1
    \<and> (\<forall>p. p \<noteq> t_addr t \<longrightarrow> ss_conns s' p = ss_conns s p)
    \<and> (\<exists>c. ss_conns s' (t_addr t) = Some c \<and> sc_status c = CONNECTED \<and> sc_sock c = t_client t)"
proof -
  let ?p = "t_addr t" and ?fd = "t_client t" and ?w = "ss_poll s"
  let ?q = "\<lparr>p_fd = ?fd, p_mode = READ, p_ref = 1\<rparr>"
  obtain R where f: "poll_ok ?w" "heap_ok (ss_heap s) R" "pobjs ?w ?p = None" "free_fd ?w ?fd"
    "\<forall>u \<in> set ts. 0 \<le> t_client u \<longrightarrow> ?fd \<noteq> t_client u" "?p \<notin> t_addr ` set ts"
    using fr fd by (auto simp: turns_fresh_def image_iff)
  obtain w' where w': "PollMgr_add ?p (?w\<lparr>pobjs := (pobjs ?w)(?p \<mapsto> ?q)\<rparr>) = Inr w'"
    "spare 0 w' ?p" "\<forall>x. x \<noteq> ?p \<longrightarrow> pobjs w' x = pobjs ?w x"
    using add_spare [OF f(1,3) fd, of READ] f(4) by (auto simp: free_fd_def)
  let ?s = "s\<lparr>ss_conns := (ss_conns s)(?p \<mapsto> \<lparr>sc_in = Marshal_new, sc_out = Marshal_new, sc_bmark = None, sc_status = CONNECTED,
      sc_sock = ?fd\<rparr>), ss_ctr := ss_ctr s + 1, ss_sconns := insert ?p (ss_sconns s), ss_poll := w'\<rparr>"
  have a: "server_accept ?p ?fd s = Inr ?s" by (simp add: server_accept_def w'(1))
  have free: "free_fd w' fd" if "free_fd ?w fd" "fd \<noteq> ?fd" for fd
    using add_frame [OF f(1) w'(1), of fd] that by simp
  have "poll_ok w'" using w'(2) by (simp add: spare_def)
  moreover have "\<forall>u \<in> set ts. pobjs w' (t_addr u) = None \<and> (0 \<le> t_client u \<longrightarrow> free_fd w' (t_client u))"
  proof
    fix u assume u: "u \<in> set ts"
    then have "pobjs ?w (t_addr u) = None" "0 \<le> t_client u \<longrightarrow> free_fd ?w (t_client u)"
      using fr by (auto simp: turns_fresh_def)
    moreover have "t_addr u \<noteq> ?p" using u f(6) by (metis image_eqI)
    moreover note u
    ultimately show "pobjs w' (t_addr u) = None \<and> (0 \<le> t_client u \<longrightarrow> free_fd w' (t_client u))"
      using w'(3) f(5) free by auto
  qed
  ultimately have "turns_fresh ts ?s" using fr f(2) by (auto simp: turns_fresh_def split: if_splits)
  with a show ?thesis by simp
qed

lemma turns_fresh_tl: "turns_fresh (t # ts) s \<Longrightarrow> turns_fresh ts s"
  by (auto simp: turns_fresh_def split: if_splits)

definition listening :: "server \<Rightarrow> int set" where
  "listening sv = (if sv_udp sv then {sv_sock sv, sv_udp_sock sv} else {sv_sock sv})"

definition loop_result :: "turn list \<Rightarrow> int set \<Rightarrow> 'u world \<Rightarrow> 'u world \<Rightarrow> bool" where
  "loop_result ts lost w w' \<longleftrightarrow> sv_status (w_sv w') = SV_STOPPED \<and> sv_sock (w_sv w') = - 1 \<and> sv_udp (w_sv w') = sv_udp (w_sv w)
     \<and> os_fds (w_os w') = os_fds (w_os w) \<union> t_client ` set ts \<union> lost - listening (w_sv w) \<and> os_gai (w_os w') = os_gai (w_os w)
     \<and> ss_sconns (w_s w') = ss_sconns (w_s w) \<union> t_addr ` set ts \<and> ss_ctr (w_s w') = ss_ctr (w_s w) + of_nat (length ts)
     \<and> (\<forall>t \<in> set ts. \<exists>c. ss_conns (w_s w') (t_addr t) = Some c \<and> sc_status c = CONNECTED \<and> sc_sock c = t_client t)
     \<and> (\<forall>p. p \<notin> t_addr ` set ts \<longrightarrow> ss_conns (w_s w') p = ss_conns (w_s w) p)"

lemma stop_listening_result:
  "loop_result [] {} w (stop_listening w)"
  by (simp add: loop_result_def stop_listening_def listening_def close_fd_def Let_def) auto

lemma served_subset: "set (served ts) \<subseteq> set ts"
  by (induction ts rule: served.induct) auto

lemma see_stop_simps [simp]:
  "see_stop False w = w" "w_os (see_stop b w) = w_os w" "w_s (see_stop b w) = w_s w"
  "sv_status (w_sv (see_stop True w)) = SV_STOPPING" "listening (w_sv (see_stop b w)) = listening (w_sv w)"
  "loop_result ts lost (see_stop b w) w' = loop_result ts lost w w'"
  by (auto simp: see_stop_def listening_def loop_result_def)

lemma stop_listening_see_stop [simp]: "stop_listening (see_stop b w) = stop_listening w"
  by (simp add: stop_listening_def see_stop_def Let_def)

lemma server_loop_stopping: "sv_status (w_sv w) = SV_STOPPING \<Longrightarrow> server_loop os ts w = Inr (Some (stop_listening w))"
proof (cases ts)
  case (Cons t us)
  assume "sv_status (w_sv w) = SV_STOPPING"
  then have "sv_status (w_sv (see_stop (t_stop_head t) w)) = SV_STOPPING" by (simp add: see_stop_def)
  then show ?thesis by (simp add: Cons)
qed simp

text \<open>One turn that goes on.\<close>

lemma loop_result_Cons:
  assumes "loop_result ts lost (w\<lparr>w_os := open_fd (t_client t) (w_os w), w_s := s\<rparr>) w'"
    and "ss_sconns s = insert (t_addr t) (ss_sconns (w_s w))" "ss_ctr s = ss_ctr (w_s w) + 1"
    and "\<forall>p. p \<noteq> t_addr t \<longrightarrow> ss_conns s p = ss_conns (w_s w) p"
    and "\<exists>c. ss_conns s (t_addr t) = Some c \<and> sc_status c = CONNECTED \<and> sc_sock c = t_client t" "t_addr t \<notin> t_addr ` set ts"
  shows "loop_result (t # ts) lost w w'"
  using assms by (auto simp: loop_result_def open_fd_def)

lemma server_loop_result:
  assumes "turns_fresh ts (w_s w)" "\<forall>fd. set_nonblocking os fd True = 0" "sv_status (w_sv w) = SV_RUNNING"
  shows "if \<exists>t \<in> set ts. ends_loop t then \<exists>w'. server_loop os ts w = Inr (Some w') \<and> loop_result (served ts) (dropped ts) w w'
    else server_loop os ts w = Inr None"
  using assms
proof (induction ts arbitrary: w)
  case (Cons t ts)
  let ?w = "w\<lparr>w_os := open_fd (t_client t) (w_os w)\<rparr>"
  have stop: "\<exists>w'. server_loop os us (see_stop True v) = Inr (Some w') \<and> loop_result [] {} v w'" for us v
    using stop_listening_result [of "see_stop True v"] by (simp add: server_loop_stopping)
  consider (head) "t_stop_head t" | (idle) "\<not> t_stop_head t" "t_idle t"
    | (sel) "\<not> t_stop_head t" "\<not> t_idle t" "t_stop_select t"
    | (late) "\<not> t_stop_head t" "\<not> t_idle t" "\<not> t_stop_select t" "t_stop_accept t"
    | (go) "\<not> t_stop_head t" "\<not> t_idle t" "\<not> t_stop_select t" "\<not> t_stop_accept t" by blast
  then show ?case
  proof cases
    case head
    then show ?thesis using stop_listening_result [of "see_stop True w"] by (simp add: ends_loop_def)
  next
    case idle
    with Cons(1) [OF turns_fresh_tl [OF Cons(2)] Cons(3,4)] Cons(4) show ?thesis by (simp add: ends_loop_def)
  next
    case sel
    with Cons(4) show ?thesis using stop_listening_result [of "see_stop True w"] by (simp add: ends_loop_def)
  next
    case late
    have lost: "loop_result [] {} ?w w' \<Longrightarrow> loop_result [] {fd. fd = t_client t \<and> 0 \<le> fd} w w'" if "0 \<le> t_client t" for w'
      using that by (auto simp: loop_result_def open_fd_def)
    have none: "{fd. fd = t_client t \<and> 0 \<le> fd} = {}" if "\<not> 0 \<le> t_client t" using that by auto
    show ?thesis
    proof (cases "0 \<le> t_client t")
      case True
      with stop [of ts ?w] lost late Cons(4) show ?thesis by (auto simp: ends_loop_def take_client_def Let_def)
    next
      case False
      with stop [of ts w] late Cons(4) show ?thesis by (simp add: none ends_loop_def take_client_def Let_def)
    qed
  next
    case go
    show ?thesis
    proof (cases "0 \<le> t_client t")
      case True
      obtain s where s: "server_accept (t_addr t) (t_client t) (w_s w) = Inr s" "turns_fresh ts s"
        "ss_sconns s = insert (t_addr t) (ss_sconns (w_s w))" "ss_ctr s = ss_ctr (w_s w) + 1"
        "\<forall>p. p \<noteq> t_addr t \<longrightarrow> ss_conns s p = ss_conns (w_s w) p"
        "\<exists>c. ss_conns s (t_addr t) = Some c \<and> sc_status c = CONNECTED \<and> sc_sock c = t_client t"
        using accept_fresh [OF Cons(2) True] by blast
      let ?w' = "w\<lparr>w_os := open_fd (t_client t) (w_os w), w_s := s\<rparr>"
      have step: "server_loop os (t # ts) w = server_loop os ts ?w'"
        using go True s(1) Cons(3,4) by (simp add: take_client_def)
      have "t_addr t \<notin> t_addr ` set (served ts)" using Cons(2) served_subset [of ts] by (auto simp: turns_fresh_def)
      note cons = loop_result_Cons [OF _ s(3-6) this]
      have "if \<exists>t \<in> set ts. ends_loop t
          then \<exists>w'. server_loop os ts ?w' = Inr (Some w') \<and> loop_result (served ts) (dropped ts) ?w' w'
          else server_loop os ts ?w' = Inr None"
        using s(2) Cons(3,4) by (intro Cons(1)) simp_all
      then show ?thesis using go True cons unfolding step by (auto simp: ends_loop_def split: if_splits)
    next
      case False
      have step: "server_loop os (t # ts) w = server_loop os ts w" using go False Cons(4) by (simp add: take_client_def)
      from Cons(1) [OF turns_fresh_tl [OF Cons(2)] Cons(3,4)] go False show ?thesis unfolding step by (simp add: ends_loop_def)
    qed
  qed
qed simp

text \<open>
  C22. The accepting thread takes over clients until the server is to stop, and stops then. As long as no turn sees the end,
  the loop goes on. Otherwise it ends: the listening sockets are closed and the server is stopped; every client accepted before has
  a connection that is open, counted and in the set of connections; no connection that was there is touched. A client accepted in the turn in which the
  thread sees the end only behind \<open>accept\<close> is dropped, and its descriptor stays open.
\<close>

theorem accepting_thread_stops:
  assumes "turns_fresh ts (w_s w)" "\<forall>fd. set_nonblocking os fd True = 0" "sv_status (w_sv w) = SV_RUNNING"
  shows "if \<exists>t \<in> set ts. ends_loop t
    then \<exists>w'. server_loop os ts w = Inr (Some w') \<and> sv_status (w_sv w') = SV_STOPPED \<and> sv_sock (w_sv w') = - 1
      \<and> os_fds (w_os w') = os_fds (w_os w) \<union> t_client ` set (served ts) \<union> dropped ts - listening (w_sv w)
      \<and> ss_sconns (w_s w') = ss_sconns (w_s w) \<union> t_addr ` set (served ts)
      \<and> ss_ctr (w_s w') = ss_ctr (w_s w) + of_nat (length (served ts))
      \<and> (\<forall>t \<in> set (served ts). \<exists>c. ss_conns (w_s w') (t_addr t) = Some c \<and> sc_status c = CONNECTED \<and> sc_sock c = t_client t)
      \<and> (\<forall>p. p \<notin> t_addr ` set (served ts) \<longrightarrow> ss_conns (w_s w') p = ss_conns (w_s w) p)
    else server_loop os ts w = Inr None"
  using server_loop_result [OF assms] unfolding loop_result_def by (auto split: if_splits)

definition demo_turns :: "turn list" where
  "demo_turns = map (\<lambda>(idle, fd, stop, p). \<lparr>t_stop_head = False, t_idle = idle, t_stop_select = False, t_client = fd, t_stop_accept = stop, t_addr = p\<rparr>)
     [(False, 8, False, 1), (True, - 1, False, 2), (False, - 1, False, 3), (False, 9, True, 4), (True, - 1, False, 5)]"

definition demo_world :: "i64 world" where
  "demo_world = \<lparr>w_sv = Server_new\<lparr>sv_sock := 4, sv_status := SV_RUNNING\<rparr>, w_os = \<lparr>os_fds = {0, 1, 2, 4}, os_gai = 1\<rparr>, w_s = demo_server\<rparr>"

theorem accepting_thread_stops_witness:
  "\<exists>w'. server_loop demo_net demo_turns demo_world = Inr (Some w') \<and> sv_status (w_sv w') = SV_STOPPED
    \<and> os_fds (w_os w') = {0, 1, 2, 8, 9} \<and> ss_ctr (w_s w') = 1 \<and> ss_conns (w_s w') 1 \<noteq> None"
proof -
  have "PollMgr_new 1 (\<lambda>_. None) = Inr demo_poll0" by (simp add: PollMgr_new_def demo_poll0_def)
  then have ok: "poll_ok demo_poll0" by (rule new_ok) simp_all
  have heap: "heap_ok (ss_heap demo_server) {#}" by (simp add: demo_server_def heap_ok_def)
  have "free_fd demo_poll0 fd" for fd by (simp add: free_fd_def demo_poll0_def PollThread_new_def tid_of_def)
  moreover have "pobjs demo_poll0 p = None" for p by (simp add: demo_poll0_def)
  ultimately have "turns_fresh demo_turns (w_s demo_world)"
    using ok heap by (auto simp: turns_fresh_def demo_world_def demo_turns_def) (auto simp: demo_server_def)
  moreover have "\<forall>fd. set_nonblocking demo_net fd True = 0" by (simp add: set_nonblocking_def demo_net_def)
  moreover have "sv_status (w_sv demo_world) = SV_RUNNING" by (simp add: demo_world_def)
  moreover have "\<exists>t \<in> set demo_turns. ends_loop t" by (simp add: demo_turns_def ends_loop_def)
  ultimately obtain w' where w': "server_loop demo_net demo_turns demo_world = Inr (Some w')" "sv_status (w_sv w') = SV_STOPPED"
     "os_fds (w_os w') = os_fds (w_os demo_world) \<union> t_client ` set (served demo_turns) \<union> dropped demo_turns - listening (w_sv demo_world)"
     "ss_ctr (w_s w') = ss_ctr (w_s demo_world) + of_nat (length (served demo_turns))"
     "\<forall>t \<in> set (served demo_turns). \<exists>c. ss_conns (w_s w') (t_addr t) = Some c \<and> sc_status c = CONNECTED \<and> sc_sock c = t_client t"
    using accepting_thread_stops [of demo_turns demo_world demo_net] by (auto split: if_splits)
  have "t_client ` set (served demo_turns) = {8}" "t_addr ` set (served demo_turns) = {1}" "length (served demo_turns) = 1"
    "dropped demo_turns = {9}" by (auto simp: demo_turns_def)
  moreover have "os_fds (w_os demo_world) = {0, 1, 2, 4}" "listening (w_sv demo_world) = {4}" "ss_ctr (w_s demo_world) = 0"
    by (simp_all add: demo_world_def listening_def Server_new_def demo_server_def)
  ultimately have "os_fds (w_os w') = {0, 1, 2, 8, 9}" "ss_ctr (w_s w') = 1" using w'(3,4) by auto
  moreover have "ss_conns (w_s w') 1 \<noteq> None" using w'(5) by (auto simp: demo_turns_def)
  ultimately show ?thesis using w'(1,2) by blast
qed

section \<open>The destructor\<close>

lemma wait_connections_zero: "wait_connections others s = Inr (Some s') \<Longrightarrow> ss_ctr s' = 0"
proof (induction others s rule: wait_connections.induct)
  case (1 others s)
  from 1(2) show ?case
    by (subst (asm) wait_connections.simps) (auto simp: rbind_eq_Inr_iff split: if_splits list.splits intro: 1(1))
qed



end
