(* ===== verification/Rpc_Client.thy ===== *)
theory Rpc_Client
  imports Rpc_Message Poll_Refs Udp_Buffer
begin

text \<open>
  The client side of \<open>rpc/client.cc\<close> and \<open>rpc/client.h\<close>: futures, requests over TCP and over UDP,
  the receive loop that completes the futures, and the life of a connection. The state holds the
  heap of the buffers, the poll manager that knows the clients as pollables, the clients, and the
  futures by the address \<open>new\<close> gave them (\<open>None\<close> once deleted). Callbacks are user code: a parameter
  that takes the name of the callback and the future and acts on this state, which the record leaves
  open for the state of the user. The spin lock \<open>out_l_\<close> is part of the state, because it is held from
  \<open>begin_request\<close> to \<open>end_request\<close>; taking it while it is held is a deadlock of the calling thread.
\<close>

section \<open>Definitions\<close>

subsection \<open>Futures\<close>

type_synonym fid = nat
type_synonym cbid = nat

record future =
  fu_xid :: i64
  fu_error_code :: i32
  fu_callback :: "cbid option"
  fu_reply :: marshal
  fu_ready :: bool
  fu_timed_out :: bool
  fu_ref :: int

datatype client_status = CL_NEW | CL_CONNECTED | CL_CLOSED

record client =
  cl_in :: marshal
  cl_out :: marshal
  cl_udp_sock :: int
  cl_udp :: udp_buffer
  cl_udp_bmark :: "bookmark option"
  cl_sock :: int
  cl_status :: client_status
  cl_bmark :: "bookmark option"
  cl_xid_counter :: i64
  cl_pending_fu :: "i64 \<Rightarrow> fid option"
  cl_out_l :: bool

record cstate =
  cs_heap :: heap
  cs_poll :: poll_world
  cs_clients :: "pid \<Rightarrow> client option"
  cs_futures :: "future option list"

type_synonym 'u callbacks = "cbid \<Rightarrow> fid \<Rightarrow> 'u cstate_scheme \<Rightarrow> 'u cstate_scheme res"

definition ENOTCONN :: i32 where "ENOTCONN = 107"
definition ETIMEDOUT :: i32 where "ETIMEDOUT = 110"
definition E2BIG :: int where "E2BIG = 7"

definition Future_new :: "i64 \<Rightarrow> cbid option \<Rightarrow> future" where
  "Future_new xid attr = \<lparr>fu_xid = xid, fu_error_code = 0, fu_callback = attr, fu_reply = Marshal_new,
     fu_ready = False, fu_timed_out = False, fu_ref = 1\<rparr>"

text \<open>Using a future through a pointer.\<close>

definition fut :: "fid \<Rightarrow> 'u cstate_scheme \<Rightarrow> future res" where
  "fut fu s = (if fu < length (cs_futures s)
     then case cs_futures s ! fu of None \<Rightarrow> Inl UseAfterFree | Some f \<Rightarrow> Inr f else Inl OutOfBounds)"

definition set_fut :: "fid \<Rightarrow> future \<Rightarrow> 'u cstate_scheme \<Rightarrow> 'u cstate_scheme" where
  "set_fut fu f s = s\<lparr>cs_futures := (cs_futures s)[fu := Some f]\<rparr>"

definition Future_ref_copy :: "fid \<Rightarrow> 'u cstate_scheme \<Rightarrow> 'u cstate_scheme res" where
  "Future_ref_copy fu s = rbind (fut fu s) (\<lambda>f. Inr (set_fut fu (f\<lparr>fu_ref := fu_ref f + 1\<rparr>) s))"

text \<open>The destructor of a future is that of its reply buffer.\<close>

definition Future_release :: "fid \<Rightarrow> 'u cstate_scheme \<Rightarrow> 'u cstate_scheme res" where
  "Future_release fu s = rbind (fut fu s) (\<lambda>f.
     let r = fu_ref f - 1 in
     rbind (verify (0 \<le> r)) (\<lambda>_.
       if r = 0 then
         rbind (Marshal_delete (fu_reply f) (cs_heap s)) (\<lambda>h.
           Inr (s\<lparr>cs_heap := h, cs_futures := (cs_futures s)[fu := None]\<rparr>))
       else Inr (set_fut fu (f\<lparr>fu_ref := r\<rparr>) s)))"

definition Future_safe_release :: "fid option \<Rightarrow> 'u cstate_scheme \<Rightarrow> 'u cstate_scheme res" where
  "Future_safe_release fu s = (case fu of None \<Rightarrow> Inr s | Some a \<Rightarrow> Future_release a s)"

definition run_callback :: "'u callbacks \<Rightarrow> fid \<Rightarrow> future \<Rightarrow> 'u cstate_scheme \<Rightarrow> 'u cstate_scheme res" where
  "run_callback cb fu f s = (case fu_callback f of None \<Rightarrow> Inr s | Some c \<Rightarrow> cb c fu s)"

definition notify_ready :: "'u callbacks \<Rightarrow> fid \<Rightarrow> 'u cstate_scheme \<Rightarrow> 'u cstate_scheme res" where
  "notify_ready cb fu s =
     rbind (fut fu s) (\<lambda>f.
       let f1 = (if \<not> fu_timed_out f then f\<lparr>fu_ready := True\<rparr> else f); s1 = set_fut fu f1 s in
       if fu_ready f1 then run_callback cb fu f1 s1 else Inr s1)"

definition Future_ready :: "fid \<Rightarrow> 'u cstate_scheme \<Rightarrow> bool res" where
  "Future_ready fu s = rbind (fut fu s) (\<lambda>f. Inr (fu_ready f))"

text \<open>
  Waiting: each element of the list is one return of the wait on the condition variable, with what
  the other threads made of the state in the meantime. \<open>None\<close> means that the thread still waits.
  \<open>int nsec\<close> and \<open>abstime\<close> only set the time at which \<open>ETIMEDOUT\<close> comes.
\<close>

fun Future_wait :: "('u cstate_scheme \<Rightarrow> 'u cstate_scheme) list \<Rightarrow> fid \<Rightarrow> 'u cstate_scheme \<Rightarrow> 'u cstate_scheme option res" where
  "Future_wait ws fu s = rbind (fut fu s) (\<lambda>f.
     if fu_ready f \<or> fu_timed_out f then Inr (Some s)
     else case ws of [] \<Rightarrow> Inr None | w # ws' \<Rightarrow> Future_wait ws' fu (w s))"

datatype 'u wake = Woken "'u cstate_scheme \<Rightarrow> 'u cstate_scheme" | TimedOut "'u cstate_scheme \<Rightarrow> 'u cstate_scheme"
  | WaitFailed

fun timed_wait_loop :: "'u wake list \<Rightarrow> fid \<Rightarrow> 'u cstate_scheme \<Rightarrow> 'u cstate_scheme option res" where
  "timed_wait_loop ws fu s = rbind (fut fu s) (\<lambda>f.
     if fu_ready f \<or> fu_timed_out f then Inr (Some s)
     else case ws of
         [] \<Rightarrow> Inr None
       | Woken g # ws' \<Rightarrow> timed_wait_loop ws' fu (g s)
       | TimedOut g # ws' \<Rightarrow>
           rbind (fut fu (g s)) (\<lambda>f'. timed_wait_loop ws' fu (set_fut fu (f'\<lparr>fu_timed_out := True\<rparr>) (g s)))
       | WaitFailed # _ \<Rightarrow> Inl VerifyFailed)"

declare Future_wait.simps [simp del] timed_wait_loop.simps [simp del]

definition timed_wait :: "'u callbacks \<Rightarrow> 'u wake list \<Rightarrow> fid \<Rightarrow> 'u cstate_scheme \<Rightarrow> 'u cstate_scheme option res" where
  "timed_wait cb ws fu s =
     rbind (timed_wait_loop ws fu s) (\<lambda>r. case r of
         None \<Rightarrow> Inr None
       | Some s1 \<Rightarrow>
           rbind (fut fu s1) (\<lambda>f.
             if fu_timed_out f then
               let f1 = f\<lparr>fu_error_code := ETIMEDOUT\<rparr> in
               rbind (run_callback cb fu f1 (set_fut fu f1 s1)) (\<lambda>s2. Inr (Some s2))
             else Inr (Some s1)))"

definition get_error_code ::
  "('u cstate_scheme \<Rightarrow> 'u cstate_scheme) list \<Rightarrow> fid \<Rightarrow> 'u cstate_scheme \<Rightarrow> (i32 \<times> 'u cstate_scheme) option res" where
  "get_error_code ws fu s = rbind (Future_wait ws fu s) (\<lambda>r. case r of
       None \<Rightarrow> Inr None
     | Some s1 \<Rightarrow> rbind (fut fu s1) (\<lambda>f. Inr (Some (fu_error_code f, s1))))"

definition get_reply ::
  "('u cstate_scheme \<Rightarrow> 'u cstate_scheme) list \<Rightarrow> fid \<Rightarrow> 'u cstate_scheme \<Rightarrow> (marshal \<times> 'u cstate_scheme) option res" where
  "get_reply ws fu s = rbind (Future_wait ws fu s) (\<lambda>r. case r of
       None \<Rightarrow> Inr None
     | Some s1 \<Rightarrow> rbind (fut fu s1) (\<lambda>f. Inr (Some (fu_reply f, s1))))"

subsection \<open>Groups of futures\<close>

definition FutureGroup_add :: "fid option \<Rightarrow> fid list \<Rightarrow> fid list" where
  "FutureGroup_add f futures = (case f of None \<Rightarrow> futures | Some fu \<Rightarrow> futures @ [fu])"

fun wait_all ::
  "('u cstate_scheme \<Rightarrow> 'u cstate_scheme) list list \<Rightarrow> fid list \<Rightarrow> 'u cstate_scheme \<Rightarrow> 'u cstate_scheme option res" where
  "wait_all wss [] s = Inr (Some s)"
| "wait_all wss (fu # fus) s =
     rbind (Future_wait (case wss of [] \<Rightarrow> [] | ws # _ \<Rightarrow> ws) fu s) (\<lambda>r. case r of
         None \<Rightarrow> Inr None
       | Some s1 \<Rightarrow> wait_all (tl wss) fus s1)"

fun Future_release_all :: "fid list \<Rightarrow> 'u cstate_scheme \<Rightarrow> 'u cstate_scheme res" where
  "Future_release_all [] s = Inr s"
| "Future_release_all (fu # fus) s = rbind (Future_release fu s) (Future_release_all fus)"

definition FutureGroup_delete ::
  "('u cstate_scheme \<Rightarrow> 'u cstate_scheme) list list \<Rightarrow> fid list \<Rightarrow> 'u cstate_scheme \<Rightarrow> 'u cstate_scheme option res" where
  "FutureGroup_delete wss futures s = rbind (wait_all wss futures s) (\<lambda>r. case r of
       None \<Rightarrow> Inr None
     | Some s1 \<Rightarrow> rbind (Future_release_all futures s1) (\<lambda>s2. Inr (Some s2)))"

subsection \<open>Requests\<close>

definition cli :: "pid \<Rightarrow> 'u cstate_scheme \<Rightarrow> client res" where
  "cli p s = (case cs_clients s p of None \<Rightarrow> Inl UseAfterFree | Some c \<Rightarrow> Inr c)"

definition set_cli :: "pid \<Rightarrow> client \<Rightarrow> heap \<Rightarrow> 'u cstate_scheme \<Rightarrow> 'u cstate_scheme" where
  "set_cli p c h s = s\<lparr>cs_heap := h, cs_clients := (cs_clients s)(p \<mapsto> c)\<rparr>"

text \<open>\<open>operator <<\<close>, for a value and for a buffer: nothing is written once the client is closed.\<close>

definition client_put :: "'a put \<Rightarrow> pid \<Rightarrow> 'a \<Rightarrow> 'u cstate_scheme \<Rightarrow> 'u cstate_scheme res" where
  "client_put put p v s =
     rbind (cli p s) (\<lambda>c.
       if cl_status c = CL_CONNECTED then
         rbind (put (cs_heap s) (cl_out c) v) (\<lambda>(m, h). Inr (set_cli p (c\<lparr>cl_out := m\<rparr>) h s))
       else Inr s)"

definition client_put_marshal :: "pid \<Rightarrow> marshal \<Rightarrow> 'u cstate_scheme \<Rightarrow> (marshal \<times> 'u cstate_scheme) res" where
  "client_put_marshal p m s =
     rbind (cli p s) (\<lambda>c.
       if cl_status c = CL_CONNECTED then
         rbind (Marshal_content_size (cs_heap s) m) (\<lambda>n.
         rbind (read_from_marshal (cs_heap s) (cl_out c) m n) (\<lambda>(_, out, m', h).
           Inr (m', set_cli p (c\<lparr>cl_out := out\<rparr>) h s)))
       else Inr (m, s))"

text \<open>
  \<open>meanwhile\<close> is what other threads do between the two looks at \<open>status_\<close>. The lock stays taken when
  the function returns a null pointer.
\<close>

definition begin_request ::
  "('u cstate_scheme \<Rightarrow> 'u cstate_scheme res) \<Rightarrow> pid \<Rightarrow> i32 \<Rightarrow> cbid option \<Rightarrow> 'u cstate_scheme \<Rightarrow>
     (fid option \<times> 'u cstate_scheme) res" where
  "begin_request meanwhile p rpc_id attr s =
     rbind (cli p s) (\<lambda>c0.
     rbind (if cl_out_l c0 then Inl Deadlock else Inr ()) (\<lambda>_.
       let s0 = set_cli p (c0\<lparr>cl_out_l := True\<rparr>) (cs_heap s) s in
       if cl_status c0 \<noteq> CL_CONNECTED then Inr (None, s0)
       else
         let xid = cl_xid_counter c0; fu = length (cs_futures s0);
             c1 = c0\<lparr>cl_out_l := True, cl_xid_counter := xid + 1, cl_pending_fu := (cl_pending_fu c0)(xid \<mapsto> fu)\<rparr>;
             s1 = (set_cli p c1 (cs_heap s0) s0)\<lparr>cs_futures := cs_futures s0 @ [Some (Future_new xid attr)]\<rparr> in
         rbind (meanwhile s1) (\<lambda>s2.
         rbind (cli p s2) (\<lambda>c2.
           if cl_status c2 \<noteq> CL_CONNECTED then
             rbind (fut fu s2) (\<lambda>f.
               case cl_pending_fu c2 (fu_xid f) of
                   Some fu' \<Rightarrow>
                     rbind (Future_release fu' s2) (\<lambda>s3.
                     rbind (cli p s3) (\<lambda>c3.
                       Inr (None, set_cli p (c3\<lparr>cl_pending_fu := (cl_pending_fu c3)(fu_xid f := None)\<rparr>) (cs_heap s3) s3)))
                 | None \<Rightarrow> Inr (None, s2))
           else
             rbind (set_bookmark (cs_heap s2) (cl_out c2) 4) (\<lambda>(bm, m, h).
             rbind (fut fu s2) (\<lambda>f.
             rbind (client_put put_v64 p (fu_xid f) (set_cli p (c2\<lparr>cl_out := m, cl_bmark := Some bm\<rparr>) h s2)) (\<lambda>s3.
             rbind (client_put put_i32 p rpc_id s3) (\<lambda>s4.
             rbind (Future_ref_copy fu s4) (\<lambda>s5. Inr (Some fu, s5)))))))))) "

definition end_request :: "pid \<Rightarrow> 'u cstate_scheme \<Rightarrow> 'u cstate_scheme res" where
  "end_request p s =
     rbind (cli p s) (\<lambda>c.
     rbind (end_message (cs_heap s) (cl_out c) (cl_bmark c)) (\<lambda>(m, h).
     rbind (PollMgr_update_mode p (READ OR WRITE) (cs_poll s)) (\<lambda>pw.
       Inr (set_cli p (c\<lparr>cl_out := m, cl_bmark := None, cl_out_l := False\<rparr>) h (s\<lparr>cs_poll := pw\<rparr>)))))"

subsection \<open>Replies\<close>

text \<open>
  One turn of the receive loop on a complete packet. \<open>packet_size - v_reply_xid.val_size() - ...\<close> is
  computed on 64-bit unsigned words.
\<close>

definition reply_size :: "i32 \<Rightarrow> i64 \<Rightarrow> i32 \<Rightarrow> nat" where
  "reply_size packet_size xid err =
     unat (scast packet_size - of_nat (v64_val_size xid) - of_nat (v32_val_size err) :: 64 word)"

definition complete_future :: "'u callbacks \<Rightarrow> pid \<Rightarrow> fid \<Rightarrow> i64 \<Rightarrow> i32 \<Rightarrow> i32 \<Rightarrow> 'u cstate_scheme \<Rightarrow> 'u cstate_scheme res" where
  "complete_future cb p fu xid err packet_size s =
     rbind (fut fu s) (\<lambda>f.
     rbind (verify (fu_xid f = xid)) (\<lambda>_.
     rbind (cli p s) (\<lambda>c.
     rbind (read_from_marshal (cs_heap s) (fu_reply f) (cl_in c) (reply_size packet_size xid err)) (\<lambda>(_, r, m, h).
       let c1 = c\<lparr>cl_in := m, cl_pending_fu := (cl_pending_fu c)(xid := None)\<rparr>;
           s1 = set_fut fu (f\<lparr>fu_error_code := err, fu_reply := r\<rparr>) (set_cli p c1 h s) in
       rbind (notify_ready cb fu s1) (Future_release fu)))))"

definition take_reply :: "'u callbacks \<Rightarrow> pid \<Rightarrow> 'u cstate_scheme \<Rightarrow> 'u cstate_scheme res" where
  "take_reply cb p s =
     rbind (cli p s) (\<lambda>c.
     rbind (Marshal_read (cs_heap s) (cl_in c) 4) (\<lambda>(b, m1, h1).
     rbind (verify (length b = 4)) (\<lambda>_.
     rbind (get_v64 h1 m1) (\<lambda>(xid, m2, h2).
     rbind (get_v32 h2 m2) (\<lambda>(err, m3, h3).
       let s1 = set_cli p (c\<lparr>cl_in := m3\<rparr>) h3 s in
       case cl_pending_fu c xid of
           Some fu \<Rightarrow> complete_future cb p fu xid err (from_le b) s1
         | None \<Rightarrow> Inr s1)))))"

text \<open>
  The loop. Every turn takes at least the four bytes of the size from \<open>in_\<close>, so that one more turn
  than there are bytes is enough; a callback that filled \<open>in_\<close> again could keep it running.
\<close>

fun read_replies :: "'u callbacks \<Rightarrow> nat \<Rightarrow> pid \<Rightarrow> 'u cstate_scheme \<Rightarrow> 'u cstate_scheme res" where
  "read_replies cb 0 p s = Inl OutOfFuel"
| "read_replies cb (Suc n) p s =
     rbind (cli p s) (\<lambda>c.
     rbind (packet_waiting (cs_heap s) (cl_in c)) (\<lambda>waiting. case waiting of
         None \<Rightarrow> Inr s
       | Some _ \<Rightarrow> rbind (take_reply cb p s) (read_replies cb n p)))"

definition client_handle_read :: "'u callbacks \<Rightarrow> pid \<Rightarrow> in_fd \<Rightarrow> 'u cstate_scheme \<Rightarrow> ('u cstate_scheme \<times> in_fd) res" where
  "client_handle_read cb p fd s =
     rbind (cli p s) (\<lambda>c.
       if cl_status c \<noteq> CL_CONNECTED then Inr (s, fd)
       else
         rbind (Marshal_read_from_fd (cs_heap s) (cl_in c) fd) (\<lambda>(n, m, h, fd').
           let s1 = set_cli p (c\<lparr>cl_in := m\<rparr>) h s in
           if (of_nat n :: i32) = 0 then Inr (s1, fd')
           else rbind (read_replies cb (Suc (content_size m)) p s1) (\<lambda>s2. Inr (s2, fd'))))"

definition client_handle_write :: "pid \<Rightarrow> out_fd \<Rightarrow> 'u cstate_scheme \<Rightarrow> ('u cstate_scheme \<times> out_fd) res" where
  "client_handle_write p fd s =
     rbind (cli p s) (\<lambda>c.
       if cl_status c \<noteq> CL_CONNECTED then Inr (s, fd)
       else
         rbind (if cl_out_l c then Inl Deadlock else Inr ()) (\<lambda>_.
         rbind (Marshal_write_to_fd (cs_heap s) (cl_out c) fd) (\<lambda>(n, m, h, fd').
           let s1 = set_cli p (c\<lparr>cl_out := m\<rparr>) h s in
           rbind (Marshal_empty h m) (\<lambda>e.
             if e then
               rbind (PollMgr_update_mode p READ (cs_poll s1)) (\<lambda>pw. Inr (s1\<lparr>cs_poll := pw\<rparr>, fd'))
             else Inr (s1, fd')))))"

definition client_poll_mode :: "pid \<Rightarrow> 'u cstate_scheme \<Rightarrow> i32 res" where
  "client_poll_mode p s =
     rbind (cli p s) (\<lambda>c.
     rbind (if cl_out_l c then Inl Deadlock else Inr ()) (\<lambda>_.
     rbind (Marshal_empty (cs_heap s) (cl_out c)) (\<lambda>e. Inr (if \<not> e then READ OR WRITE else READ))))"

subsection \<open>Connections\<close>

text \<open>
  \<open>order\<close> is the order in which the hash table of the pending futures is visited. The pollable of a
  client exists from its creation on, with the descriptor -1.
\<close>

fun invalidate_loop :: "'u callbacks \<Rightarrow> fid list \<Rightarrow> 'u cstate_scheme \<Rightarrow> 'u cstate_scheme res" where
  "invalidate_loop cb [] s = Inr s"
| "invalidate_loop cb (fu # fus) s =
     rbind (fut fu s) (\<lambda>f.
     rbind (notify_ready cb fu (set_fut fu (f\<lparr>fu_error_code := ENOTCONN\<rparr>) s)) (\<lambda>s1.
     rbind (Future_release fu s1) (invalidate_loop cb fus)))"

definition invalidate_pending_futures ::
  "'u callbacks \<Rightarrow> (i64 set \<Rightarrow> i64 list) \<Rightarrow> pid \<Rightarrow> 'u cstate_scheme \<Rightarrow> 'u cstate_scheme res" where
  "invalidate_pending_futures cb order p s =
     rbind (cli p s) (\<lambda>c.
       let futures = map (\<lambda>x. the (cl_pending_fu c x)) (order (dom (cl_pending_fu c))) in
       invalidate_loop cb futures (set_cli p (c\<lparr>cl_pending_fu := Map.empty\<rparr>) (cs_heap s) s))"

definition Client_new :: "pid \<Rightarrow> 'u cstate_scheme \<Rightarrow> 'u cstate_scheme" where
  "Client_new p s = s\<lparr>
     cs_clients := (cs_clients s)(p \<mapsto> \<lparr>cl_in = Marshal_new, cl_out = Marshal_new, cl_udp_sock = - 1,
       cl_udp = UdpBuffer_new (cs_heap s), cl_udp_bmark = None, cl_sock = - 1, cl_status = CL_NEW, cl_bmark = None,
       cl_xid_counter = 0, cl_pending_fu = Map.empty, cl_out_l = False\<rparr>),
     cs_poll := (cs_poll s)\<lparr>pobjs := (pobjs (cs_poll s))(p \<mapsto> \<lparr>p_fd = - 1, p_mode = READ, p_ref = 1\<rparr>)\<rparr>\<rparr>"

definition Client_close ::
  "'u callbacks \<Rightarrow> (i64 set \<Rightarrow> i64 list) \<Rightarrow> pid \<Rightarrow> 'u cstate_scheme \<Rightarrow> 'u cstate_scheme res" where
  "Client_close cb order p s =
     rbind (cli p s) (\<lambda>c.
     rbind (if cl_status c = CL_CONNECTED
            then rbind (PollMgr_remove p (cs_poll s)) (\<lambda>pw. Inr (s\<lparr>cs_poll := os_close (cl_sock c) pw\<rparr>))
            else Inr s) (\<lambda>s1.
       invalidate_pending_futures cb order p (set_cli p (c\<lparr>cl_status := CL_CLOSED\<rparr>) (cs_heap s1) s1)))"

definition client_handle_error ::
  "'u callbacks \<Rightarrow> (i64 set \<Rightarrow> i64 list) \<Rightarrow> pid \<Rightarrow> 'u cstate_scheme \<Rightarrow> 'u cstate_scheme res" where
  "client_handle_error cb order p s = Client_close cb order p s"

text \<open>
  \<open>connect\<close>, with the descriptors \<open>tcp_connect\<close> and \<open>udp_connect\<close> gave (-1 for none).
\<close>

definition Client_connect :: "int \<Rightarrow> int \<Rightarrow> pid \<Rightarrow> 'u cstate_scheme \<Rightarrow> (i32 \<times> 'u cstate_scheme) res" where
  "Client_connect tcp udp p s =
     rbind (cli p s) (\<lambda>c.
     rbind (verify (cl_status c \<noteq> CL_CONNECTED)) (\<lambda>_.
     rbind (obj (cs_poll s) p) (\<lambda>q.
       let move = (\<lambda>w. w\<lparr>pobjs := (pobjs w)(p \<mapsto> q\<lparr>p_fd := tcp\<rparr>)\<rparr>);
           s1 = (set_cli p (c\<lparr>cl_sock := tcp\<rparr>) (cs_heap s) s)\<lparr>cs_poll := move (cs_poll s)\<rparr> in
       if tcp = - 1 then
         Inr (ENOTCONN, if cl_udp_sock c \<noteq> - 1 then s1\<lparr>cs_poll := os_close (cl_udp_sock c) (cs_poll s1)\<rparr> else s1)
       else
         let s2 = set_cli p (c\<lparr>cl_sock := tcp, cl_udp_sock := udp\<rparr>) (cs_heap s1) s1 in
         if udp = - 1 then Inr (ENOTCONN, s2\<lparr>cs_poll := os_close tcp (cs_poll s2)\<rparr>)
         else
           let s3 = set_cli p (c\<lparr>cl_sock := tcp, cl_udp_sock := udp, cl_status := CL_CONNECTED\<rparr>) (cs_heap s2) s2 in
           rbind (client_poll_mode p s3) (\<lambda>pm.
           rbind (PollMgr_add p ((cs_poll s3)\<lparr>pobjs := (pobjs (cs_poll s3))(p \<mapsto> q\<lparr>p_fd := tcp, p_mode := pm\<rparr>)\<rparr>)) (\<lambda>pw.
             Inr (0, s3\<lparr>cs_poll := pw\<rparr>))))))"

text \<open>The destructor runs with the last reference: pending futures, then the buffers.\<close>

definition Client_release ::
  "'u callbacks \<Rightarrow> (i64 set \<Rightarrow> i64 list) \<Rightarrow> pid \<Rightarrow> 'u cstate_scheme \<Rightarrow> 'u cstate_scheme res" where
  "Client_release cb order p s =
     rbind (cli p s) (\<lambda>_.
     rbind (Pollable_release p (cs_poll s)) (\<lambda>pw.
       let s1 = s\<lparr>cs_poll := pw\<rparr> in
       if pobjs pw p = None then
         rbind (invalidate_pending_futures cb order p s1) (\<lambda>s2.
         rbind (cli p s2) (\<lambda>c.
         rbind (UdpBuffer_delete (cl_udp c) (cs_heap s2)) (\<lambda>h1.
         rbind (Marshal_delete (cl_out c) h1) (\<lambda>h2.
         rbind (Marshal_delete (cl_in c) h2) (\<lambda>h3.
           Inr (s2\<lparr>cs_heap := h3, cs_clients := (cs_clients s2)(p := None)\<rparr>))))))
       else Inr s1))"

definition close_and_release ::
  "'u callbacks \<Rightarrow> (i64 set \<Rightarrow> i64 list) \<Rightarrow> pid \<Rightarrow> 'u cstate_scheme \<Rightarrow> 'u cstate_scheme res" where
  "close_and_release cb order p s = rbind (Client_close cb order p s) (Client_release cb order p)"

subsection \<open>Datagrams\<close>

definition begin_udp_request :: "pid \<Rightarrow> i32 \<Rightarrow> 'u cstate_scheme \<Rightarrow> 'u cstate_scheme res" where
  "begin_udp_request p rpc_id s =
     rbind (cli p s) (\<lambda>c.
     rbind (set_bookmark (cs_heap s) (base (cl_udp c)) 4) (\<lambda>(bm, m, h).
     rbind (udp_put put_i32 h ((cl_udp c)\<lparr>base := m\<rparr>) rpc_id) (\<lambda>(u, h').
       Inr (set_cli p (c\<lparr>cl_udp := u, cl_udp_bmark := Some bm\<rparr>) h' s))))"

text \<open>\<open>udp_request() << v\<close>\<close>

definition udp_request_put :: "'a put \<Rightarrow> pid \<Rightarrow> 'a \<Rightarrow> 'u cstate_scheme \<Rightarrow> 'u cstate_scheme res" where
  "udp_request_put put p v s =
     rbind (cli p s) (\<lambda>c.
     rbind (udp_put put (cs_heap s) (cl_udp c) v) (\<lambda>(u, h). Inr (set_cli p (c\<lparr>cl_udp := u\<rparr>) h s)))"

text \<open>The write counter is reset even without a bookmark; the datagram, if any, goes to \<open>sendto\<close>.\<close>

definition end_udp_request :: "pid \<Rightarrow> 'u cstate_scheme \<Rightarrow> (int \<times> byte list option \<times> 'u cstate_scheme) res" where
  "end_udp_request p s =
     rbind (cli p s) (\<lambda>c.
       let (payload_size, m) = get_and_reset_write_cnt (base (cl_udp c)) in
       rbind (case cl_udp_bmark c of None \<Rightarrow> Inr (cs_heap s)
              | Some bm \<Rightarrow> write_bookmark (cs_heap s) bm (to_le 4 payload_size)) (\<lambda>h.
       rbind (get_buf h ((cl_udp c)\<lparr>base := m\<rparr>)) (\<lambda>(b, size, overflow, u, h').
         let s' = set_cli p (c\<lparr>cl_udp := u, cl_udp_bmark := None\<rparr>) h' s in
         if overflow then Inr (E2BIG, None, s')
         else case b of None \<Rightarrow> Inl NullDeref | Some a \<Rightarrow> Inr (0, Some (take size a), s'))))"

end
