(* ===== verification/Client_Correct.thy ===== *)
theory Client_Correct
  imports Rpc_Client
begin

text \<open>
  Proofs about the client: a request becomes one packet and one pending future, replies complete
  the futures they belong to, and closing the connection completes all that are left.
\<close>

section \<open>The buffers of a client\<close>

text \<open>
  \<open>R\<close> are the references of everybody else on the heap. The buffers for sending share no array with
  anything; the replies share arrays with \<open>in_\<close>, which does not write below what they see.
\<close>

definition fut_refs :: "future option \<Rightarrow> addr multiset" where
  "fut_refs x = (case x of None \<Rightarrow> {#} | Some f \<Rightarrow> refs (fu_reply f))"

definition futs_refs :: "future option list \<Rightarrow> addr multiset" where
  "futs_refs fs = sum_list (map fut_refs fs)"

definition futs_ok :: "heap \<Rightarrow> marshal \<Rightarrow> future option list \<Rightarrow> bool" where
  "futs_ok h m fs \<longleftrightarrow> (\<forall>f. Some f \<in> set fs \<longrightarrow> wf_marshal h (fu_reply f) \<and> clear m (fu_reply f))"

definition shared_refs :: "addr multiset \<Rightarrow> client \<Rightarrow> future option list \<Rightarrow> addr multiset" where
  "shared_refs R c fs = refs (cl_in c) + (futs_refs fs + R)"

definition cbufs_ok :: "addr multiset \<Rightarrow> heap \<Rightarrow> client \<Rightarrow> future option list \<Rightarrow> bool" where
  "cbufs_ok R h c fs \<longleftrightarrow> heap_ok h (refs (cl_out c) + (refs (base (cl_udp c)) + shared_refs R c fs))
     \<and> wf_marshal h (cl_out c) \<and> wf_marshal h (base (cl_udp c)) \<and> wf_marshal h (cl_in c)
     \<and> set_mset (refs (cl_out c)) \<inter> set_mset (refs (base (cl_udp c)) + shared_refs R c fs) = {}
     \<and> set_mset (refs (base (cl_udp c))) \<inter> set_mset (shared_refs R c fs) = {}
     \<and> futs_ok h (cl_in c) fs"

text \<open>A pending future is alive, referenced, still without a reply, and knows its number.\<close>

definition pend_ok :: "(i64 \<Rightarrow> fid option) \<Rightarrow> future option list \<Rightarrow> bool" where
  "pend_ok pend fs \<longleftrightarrow> (\<forall>x fu. pend x = Some fu \<longrightarrow> fu < length fs \<and> (\<exists>f. fs ! fu = Some f \<and> fu_xid f = x
     \<and> 0 < fu_ref f \<and> fu_reply f = Marshal_new \<and> \<not> fu_ready f))"

text \<open>No request is half written.\<close>

definition cli_ok :: "addr multiset \<Rightarrow> 'u cstate_scheme \<Rightarrow> pid \<Rightarrow> bool" where
  "cli_ok R s p \<longleftrightarrow> spare 0 (cs_poll s) p \<and> (\<exists>c. cs_clients s p = Some c \<and> cbufs_ok R (cs_heap s) c (cs_futures s)
     \<and> pend_ok (cl_pending_fu c) (cs_futures s) \<and> write_cnt (cl_out c) = 0 \<and> cl_bmark c = None)"

lemma futs_refs_snoc [simp]: "futs_refs (fs @ [x]) = futs_refs fs + fut_refs x"
  by (simp add: futs_refs_def)

lemma fut_refs_simps [simp]: "fut_refs None = {#}" "fut_refs (Some f) = refs (fu_reply f)"
  by (simp_all add: fut_refs_def)

lemma futs_refs_update:
  "fu < length fs \<Longrightarrow> fut_refs (fs ! fu) + futs_refs (fs[fu := x]) = fut_refs x + futs_refs fs"
  unfolding futs_refs_def by (rule sum_list_update_add)

lemma futs_refs_drop: "set_mset (futs_refs (fs[fu := None])) \<subseteq> set_mset (futs_refs fs)"
proof (cases "fu < length fs")
  case True
  from futs_refs_update [OF this, of None] show ?thesis by (metis add_0 fut_refs_simps(1) set_mset_union sup_ge2)
qed (simp add: list_update_beyond)

lemma futs_refs_member: "Some f \<in> set fs \<Longrightarrow> set_mset (refs (fu_reply f)) \<subseteq> set_mset (futs_refs fs)"
  by (induction fs) (auto simp: futs_refs_def)

lemma set_cli_simps [simp]:
  "cs_heap (set_cli p c h s) = h" "cs_clients (set_cli p c h s) = (cs_clients s)(p \<mapsto> c)"
  "cs_poll (set_cli p c h s) = cs_poll s" "cs_futures (set_cli p c h s) = cs_futures s"
  "set_cli p c' h' (set_cli p c h s) = set_cli p c' h' s" "cstate.more (set_cli p c h s) = cstate.more s"
  by (simp_all add: set_cli_def)

lemma set_fut_simps [simp]:
  "cs_heap (set_fut fu f s) = cs_heap s" "cs_clients (set_fut fu f s) = cs_clients s"
  "cs_poll (set_fut fu f s) = cs_poll s" "cs_futures (set_fut fu f s) = (cs_futures s)[fu := Some f]"
  "cstate.more (set_fut fu f s) = cstate.more s"
  by (simp_all add: set_fut_def)

lemma cli_Some [simp]: "cs_clients s p = Some c \<Longrightarrow> cli p s = Inr c"
  by (simp add: cli_def)

lemma fut_Some [simp]: "fu < length (cs_futures s) \<Longrightarrow> cs_futures s ! fu = Some f \<Longrightarrow> fut fu s = Inr f"
  by (simp add: fut_def)

lemma futs_ok_keeps:
  assumes "futs_ok h m fs" "keeps_bufs (futs_refs fs) h h'" "\<And>f. Some f \<in> set fs \<Longrightarrow> clear m (fu_reply f) \<Longrightarrow> clear m' (fu_reply f)"
  shows "futs_ok h' m' fs"
  unfolding futs_ok_def
proof (intro allI impI)
  fix f assume f: "Some f \<in> set fs"
  then have "wf_marshal h (fu_reply f)" "clear m (fu_reply f)" using assms(1) by (auto simp: futs_ok_def)
  with keeps_bufsD [OF assms(2) futs_refs_member [OF f]] assms(3) [OF f]
  show "wf_marshal h' (fu_reply f) \<and> clear m' (fu_reply f)" by simp
qed

section \<open>Sending\<close>

definition writes_args :: "pid \<Rightarrow> ('u cstate_scheme \<Rightarrow> 'u cstate_scheme res) \<Rightarrow> byte list \<Rightarrow> bool" where
  "writes_args p w body \<longleftrightarrow> (\<forall>R s c. cs_clients s p = Some c \<and> cl_status c = CL_CONNECTED
       \<and> buf_ok (cs_heap s) (cl_out c) R \<longrightarrow>
     (\<exists>m h. w s = Inr (set_cli p (c\<lparr>cl_out := m\<rparr>) h s) \<and> puts R (cs_heap s) (cl_out c) body h m))"

lemma writes_argsD:
  "writes_args p w body \<Longrightarrow> cs_clients s p = Some c \<Longrightarrow> cl_status c = CL_CONNECTED \<Longrightarrow> buf_ok (cs_heap s) (cl_out c) R \<Longrightarrow>
     \<exists>m h. w s = Inr (set_cli p (c\<lparr>cl_out := m\<rparr>) h s) \<and> puts R (cs_heap s) (cl_out c) body h m"
  unfolding writes_args_def by blast

lemma writes_arg:
  assumes "\<And>h m R. buf_ok h m R \<Longrightarrow> \<exists>m' h'. put h m v = Inr (m', h') \<and> puts R h m e h' m'"
  shows "writes_args p (client_put put p v :: 'u cstate_scheme \<Rightarrow> _) e"
  unfolding writes_args_def
proof (intro allI impI, elim conjE)
  fix R and s :: "'u cstate_scheme" and c :: client
  assume a: "cs_clients s p = Some c" "cl_status c = CL_CONNECTED" "buf_ok (cs_heap s) (cl_out c) R"
  then obtain m h where "put (cs_heap s) (cl_out c) v = Inr (m, h)" "puts R (cs_heap s) (cl_out c) e h m"
    using assms by blast
  with a show "\<exists>m h. client_put put p v s = Inr (set_cli p (c\<lparr>cl_out := m\<rparr>) h s)
      \<and> puts R (cs_heap s) (cl_out c) e h m" by (auto simp: client_put_def)
qed

lemma writes_args_seq:
  fixes v :: "'u cstate_scheme \<Rightarrow> 'u cstate_scheme res"
  assumes "writes_args p v a" "writes_args p w b"
  shows "writes_args p (\<lambda>s. rbind (v s) w) (a @ b)"
  unfolding writes_args_def
proof (intro allI impI, elim conjE)
  fix R and s :: "'u cstate_scheme" and c :: client
  assume c: "cs_clients s p = Some c" "cl_status c = CL_CONNECTED" "buf_ok (cs_heap s) (cl_out c) R"
  obtain m h where v: "v s = Inr (set_cli p (c\<lparr>cl_out := m\<rparr>) h s)" "puts R (cs_heap s) (cl_out c) a h m"
    using writes_argsD [OF assms(1) c] by blast
  let ?s = "set_cli p (c\<lparr>cl_out := m\<rparr>) h s"
  have c1: "cs_clients ?s p = Some (c\<lparr>cl_out := m\<rparr>)" "cl_status (c\<lparr>cl_out := m\<rparr>) = CL_CONNECTED"
    "buf_ok (cs_heap ?s) (cl_out (c\<lparr>cl_out := m\<rparr>)) R"
    using puts_buf_ok [OF v(2)] c(2) by simp_all
  obtain m' h' where w: "w ?s = Inr (set_cli p (c\<lparr>cl_out := m'\<rparr>) h' s)" "puts R h m b h' m'"
    using writes_argsD [OF assms(2) c1] by auto
  with v puts_trans [OF v(2) w(2)] show "\<exists>m h. rbind (v s) w = Inr (set_cli p (c\<lparr>cl_out := m\<rparr>) h s)
      \<and> puts R (cs_heap s) (cl_out c) (a @ b) h m" by auto
qed

lemma writes_no_args: "writes_args p (Inr :: 'u cstate_scheme \<Rightarrow> _) []"
  unfolding writes_args_def
proof (intro allI impI, elim conjE)
  fix R and s :: "'u cstate_scheme" and c :: client
  assume c: "cs_clients s p = Some c" "buf_ok (cs_heap s) (cl_out c) R"
  then have "set_cli p (c\<lparr>cl_out := cl_out c\<rparr>) (cs_heap s) s = s" by (simp add: set_cli_def fun_upd_idem)
  with puts_refl [OF c(2)] show "\<exists>m h. Inr s = Inr (set_cli p (c\<lparr>cl_out := m\<rparr>) h s)
      \<and> puts R (cs_heap s) (cl_out c) [] h m" by metis
qed

text \<open>\<open>E\<close>: references that the heap has lost on the way.\<close>

lemma sends_cbufs_ok:
  assumes ok: "cbufs_ok (E + R) h c fs" and snd: "sends (refs (base (cl_udp c)) + shared_refs R c fs) h (cl_out c) b h' m'"
  shows "cbufs_ok R h' (c\<lparr>cl_out := m'\<rparr>) fs" "keeps_bufs (refs (base (cl_udp c)) + shared_refs R c fs) h h'"
proof -
  let ?Q = "refs (base (cl_udp c)) + shared_refs R c fs"
  have dis: "disjoint_bufs (cl_out c) b" if "set_mset (refs b) \<subseteq> set_mset ?Q" for b
    using ok that by (auto simp: cbufs_ok_def disjoint_bufs_def shared_refs_def)
  then show keep: "keeps_bufs ?Q h h'" using snd unfolding keeps_bufs_def sends_def by blast
  have "keeps_bufs (futs_refs fs) h h'" by (rule keeps_bufs_mono [OF keep]) (auto simp: shared_refs_def)
  then have "futs_ok h' (cl_in c) fs" using ok futs_ok_keeps [of h "cl_in c" fs h' "cl_in c"] by (simp add: cbufs_ok_def)
  moreover have "wf_marshal h' (base (cl_udp c))" "wf_marshal h' (cl_in c)"
    using keeps_bufsD [OF keep, of "base (cl_udp c)"] keeps_bufsD [OF keep, of "cl_in c"] ok
    by (auto simp: cbufs_ok_def shared_refs_def)
  moreover have "set_mset (refs (cl_out c)) \<inter> set_mset ?Q = {}" "set_mset (refs (base (cl_udp c))) \<inter> set_mset (shared_refs R c fs) = {}"
    using ok by (auto simp: cbufs_ok_def shared_refs_def)
  moreover from this(1) have "set_mset (refs m') \<inter> set_mset ?Q = {}" using snd unfolding sends_def by blast
  moreover have "shared_refs R (c\<lparr>cl_out := m'\<rparr>) fs = shared_refs R c fs" by (simp add: shared_refs_def)
  ultimately show "cbufs_ok R h' (c\<lparr>cl_out := m'\<rparr>) fs"
    using ok snd by (simp add: cbufs_ok_def sends_def buf_ok_def)
qed

lemma new_future_bufs:
  "cbufs_ok R h c (fs @ [Some (Future_new xid attr)]) \<longleftrightarrow> cbufs_ok R h c fs"
  by (auto simp: cbufs_ok_def shared_refs_def futs_ok_def Future_new_def clear_def)

lemma same_reply_bufs:
  assumes "fu < length fs" "fs ! fu = Some f" "fu_reply g = fu_reply f"
  shows "cbufs_ok R h c (fs[fu := Some g]) \<longleftrightarrow> cbufs_ok R h c fs" "shared_refs R c (fs[fu := Some g]) = shared_refs R c fs"
proof -
  have r: "futs_refs (fs[fu := Some g]) = futs_refs fs"
    using futs_refs_update [OF assms(1), of "Some g"] assms by simp
  then show sh: "shared_refs R c (fs[fu := Some g]) = shared_refs R c fs" by (simp add: shared_refs_def)
  have "futs_ok h m (fs[fu := Some g]) \<longleftrightarrow> futs_ok h m fs" for m
  proof -
    have "set (fs[fu := Some g]) \<subseteq> insert (Some g) (set fs)" by (rule set_update_subset_insert)
    moreover have "set fs \<subseteq> insert (Some f) (set (fs[fu := Some g]))"
      using set_update_subset_insert [of "fs[fu := Some g]" fu "Some f"] assms(2) by (metis list_update_id list_update_overwrite)
    moreover have "Some f \<in> set fs" "Some g \<in> set (fs[fu := Some g])"
      using assms(1,2) nth_mem set_update_memI by metis+
    ultimately show ?thesis unfolding futs_ok_def using assms(3) by (metis (no_types, lifting) insert_iff option.inject subset_iff)
  qed
  then show "cbufs_ok R h c (fs[fu := Some g]) \<longleftrightarrow> cbufs_ok R h c fs" by (simp add: cbufs_ok_def sh)
qed

lemma cbufs_ok_cong:
  assumes "cl_in c' = cl_in c" "cl_out c' = cl_out c" "base (cl_udp c') = base (cl_udp c)"
  shows "cbufs_ok R h c' fs = cbufs_ok R h c fs"
  using assms by (simp add: cbufs_ok_def shared_refs_def)

text \<open>
  A request from \<open>begin_request\<close> to \<open>end_request\<close>, when nobody closes the client in between:
  \<open>opened\<close> is the state while the arguments are written, \<open>closed\<close> the state afterwards.
\<close>

definition opened :: "pid \<Rightarrow> client \<Rightarrow> cbid option \<Rightarrow> bookmark \<Rightarrow> marshal \<Rightarrow> heap \<Rightarrow> 'u cstate_scheme \<Rightarrow> 'u cstate_scheme" where
  "opened p c attr bm m h s =
     (set_cli p (c\<lparr>cl_out_l := True, cl_xid_counter := cl_xid_counter c + 1,
        cl_pending_fu := (cl_pending_fu c)(cl_xid_counter c \<mapsto> length (cs_futures s)), cl_bmark := Some bm, cl_out := m\<rparr>) h s)
     \<lparr>cs_futures := cs_futures s @ [Some ((Future_new (cl_xid_counter c) attr)\<lparr>fu_ref := 2\<rparr>)]\<rparr>"

definition closed :: "pid \<Rightarrow> client \<Rightarrow> cbid option \<Rightarrow> marshal \<Rightarrow> heap \<Rightarrow> poll_world \<Rightarrow> 'u cstate_scheme \<Rightarrow> 'u cstate_scheme" where
  "closed p c attr m h pw s =
     (set_cli p (c\<lparr>cl_out := m, cl_xid_counter := cl_xid_counter c + 1,
        cl_pending_fu := (cl_pending_fu c)(cl_xid_counter c \<mapsto> length (cs_futures s))\<rparr>) h s)
     \<lparr>cs_poll := pw, cs_futures := cs_futures s @ [Some ((Future_new (cl_xid_counter c) attr)\<lparr>fu_ref := 2\<rparr>)]\<rparr>"

lemma opened_out:
  assumes "cl_status c = CL_CONNECTED"
  shows "\<exists>d. cs_clients (opened p c attr bm m h s) p = Some d \<and> cl_status d = CL_CONNECTED \<and> cl_out d = m
    \<and> cs_heap (opened p c attr bm m h s) = h
    \<and> (\<forall>m' h'. set_cli p (d\<lparr>cl_out := m'\<rparr>) h' (opened p c attr bm m h s) = opened p c attr bm m' h' s)"
  using assms by (simp add: opened_def set_cli_def)

lemma writes_heading:
  "writes_args p (\<lambda>s. rbind (client_put put_v64 p xid s) (client_put put_i32 p rpc_id)) (enc_v64 xid @ to_le 4 rpc_id)"
  by (intro writes_args_seq writes_arg) (simp_all only: put_v64_eq put_bytes_ok enc_neq_Nil not_False_eq_True, rule i32.put_ok, simp_all)

lemma begin_request_ok:
  assumes c: "cs_clients s p = Some c" "cl_status c = CL_CONNECTED" "\<not> cl_out_l c"
    and b: "set_bookmark (cs_heap s) (cl_out c) 4 = Inr (bm, m1, h1)" "buf_ok h1 m1 Q"
  shows "\<exists>m2 h2. begin_request Inr p rpc_id attr s = Inr (Some (length (cs_futures s)), opened p c attr bm m2 h2 s)
    \<and> puts Q h1 m1 (enc_v64 (cl_xid_counter c) @ to_le 4 rpc_id) h2 m2"
proof -
  define xid fu f where "xid = cl_xid_counter c" and "fu = length (cs_futures s)" and "f = Future_new xid attr"
  define c1 where "c1 = c\<lparr>cl_out_l := True, cl_xid_counter := xid + 1, cl_pending_fu := (cl_pending_fu c)(xid \<mapsto> fu)\<rparr>"
  define s1 where "s1 = (set_cli p c1 (cs_heap s) s)\<lparr>cs_futures := cs_futures s @ [Some f]\<rparr>"
  define c2 where "c2 = c1\<lparr>cl_out := m1, cl_bmark := Some bm\<rparr>"
  have f1: "fut fu s1 = Inr f" "fu_xid f = xid" by (simp_all add: fut_def s1_def fu_def f_def Future_new_def)
  have c2: "cs_clients (set_cli p c2 h1 s1) p = Some c2" "cl_status c2 = CL_CONNECTED"
    "buf_ok (cs_heap (set_cli p c2 h1 s1)) (cl_out c2) Q" "cl_out c2 = m1"
    using c(2) b(2) by (simp_all add: c2_def c1_def)
  from writes_argsD [OF writes_heading c2(1-3), of xid rpc_id] obtain m2 h2 where
    h: "rbind (client_put put_v64 p xid (set_cli p c2 h1 s1)) (client_put put_i32 p rpc_id)
      = Inr (set_cli p (c2\<lparr>cl_out := m2\<rparr>) h2 s1)" "puts Q h1 m1 (enc_v64 xid @ to_le 4 rpc_id) h2 m2"
    unfolding c2(4) set_cli_simps by blast
  let ?s4 = "set_cli p (c2\<lparr>cl_out := m2\<rparr>) h2 s1"
  have c2m: "c2\<lparr>cl_out := m2\<rparr> = c1\<lparr>cl_bmark := Some bm, cl_out := m2\<rparr>" by (cases c) (simp add: c2_def c1_def)
  have "Future_ref_copy fu ?s4 = Inr (opened p c attr bm m2 h2 s)"
    unfolding c2m by (simp add: Future_ref_copy_def fut_def set_fut_def s1_def fu_def f_def Future_new_def
        opened_def c1_def xid_def set_cli_def)
  moreover have "rbind (client_put put_v64 p xid (set_cli p c2 h1 s1)) (\<lambda>s3. rbind (client_put put_i32 p rpc_id s3)
        (\<lambda>s4. rbind (Future_ref_copy fu s4) (\<lambda>s5. Inr (Some fu, s5))))
      = rbind (Future_ref_copy fu ?s4) (\<lambda>s5. Inr (Some fu, s5))"
    by (simp only: rbind_assoc [symmetric] h(1) rbind_Inr)
  moreover have "cs_heap s1 = cs_heap s" "cs_clients s1 p = Some c1" "cl_status c1 = CL_CONNECTED" "cl_out c1 = cl_out c"
    using c(2) by (simp_all add: s1_def c1_def)
  ultimately have "begin_request Inr p rpc_id attr s = Inr (Some fu, opened p c attr bm m2 h2 s)"
    using c b(1) f1 unfolding begin_request_def
    by (simp add: Let_def xid_def [symmetric] fu_def [symmetric] f_def [symmetric] c1_def [symmetric] s1_def [symmetric] c2_def [symmetric])
  with h(2) show ?thesis unfolding xid_def fu_def by blast
qed

lemma end_request_ok:
  assumes "\<not> cl_out_l c" "cl_bmark c = None" "end_message h m (Some bm) = Inr (m', h')" "spare 0 (cs_poll s) p"
  shows "\<exists>pw. end_request p (opened p c attr bm m h s) = Inr (closed p c attr m' h' pw s) \<and> spare 0 pw p"
proof -
  obtain pw where pw: "PollMgr_update_mode p (READ OR WRITE) (cs_poll s) = Inr pw" "spare 0 pw p"
    using update_mode_spare [OF assms(4)] by blast
  have "end_request p (opened p c attr bm m h s) = Inr (closed p c attr m' h' pw s)"
    using assms(1-3) pw(1) by (cases c) (simp add: end_request_def opened_def closed_def set_cli_def cli_def)
  with pw(2) show ?thesis by blast
qed

lemma sent_request_ok:
  assumes ok: "cbufs_ok (E + R) (cs_heap s) c (cs_futures s)" "pend_ok (cl_pending_fu c) (cs_futures s)" "cl_bmark c = None"
    and snd: "sends (refs (base (cl_udp c)) + shared_refs R c (cs_futures s)) (cs_heap s) (cl_out c) b h m" and pw: "spare 0 pw p"
  shows "cli_ok R (closed p c attr m h pw s) p" "bytes h m = bytes (cs_heap s) (cl_out c) @ b"
    "keeps_bufs (refs (base (cl_udp c)) + shared_refs R c (cs_futures s)) (cs_heap s) h"
proof -
  let ?fs = "cs_futures s" and ?f = "Future_new (cl_xid_counter c) attr"
  let ?g = "?f\<lparr>fu_ref := 2\<rparr>" and ?fu = "length (cs_futures s)"
  let ?c = "c\<lparr>cl_out := m, cl_xid_counter := cl_xid_counter c + 1, cl_pending_fu := (cl_pending_fu c)(cl_xid_counter c \<mapsto> ?fu)\<rparr>"
  note sb = sends_cbufs_ok [OF ok(1) snd]
  have "cbufs_ok R h ?c (?fs @ [Some ?g])"
    using sb(1) new_future_bufs [of R h ?c ?fs "cl_xid_counter c" attr]
      same_reply_bufs(1) [of ?fu "?fs @ [Some ?f]" ?f ?g R h ?c] cbufs_ok_cong [of ?c "c\<lparr>cl_out := m\<rparr>"] by simp
  moreover have "pend_ok (cl_pending_fu ?c) (?fs @ [Some ?g])"
    using ok(2) by (auto simp: pend_ok_def Future_new_def nth_append intro: less_SucI)
  ultimately show "cli_ok R (closed p c attr m h pw s) p" using pw snd ok(3) by (simp add: cli_ok_def closed_def sends_def)
  show "bytes h m = bytes (cs_heap s) (cl_out c) @ b" using snd by (simp add: sends_def)
  show "keeps_bufs (refs (base (cl_udp c)) + shared_refs R c (cs_futures s)) (cs_heap s) h" by (rule sb(2))
qed

lemma request_ok:
  assumes ok: "cli_ok R s p" and c: "cs_clients s p = Some c" "cl_status c = CL_CONNECTED" and free: "\<not> cl_out_l c"
    and w: "writes_args p w body"
  defines "xid \<equiv> cl_xid_counter c" and "fu \<equiv> length (cs_futures s)"
  shows "\<exists>s1 s2 s3 m. begin_request Inr p rpc_id attr s = Inr (Some fu, s1) \<and> w s1 = Inr s2 \<and> end_request p s2 = Inr s3
    \<and> cli_ok R s3 p \<and> cs_futures s3 = cs_futures s @ [Some ((Future_new xid attr)\<lparr>fu_ref := 2\<rparr>)]
    \<and> cs_clients s3 = (cs_clients s)(p \<mapsto> c\<lparr>cl_out := m, cl_xid_counter := xid + 1,
          cl_pending_fu := (cl_pending_fu c)(xid \<mapsto> fu)\<rparr>)
    \<and> bytes (cs_heap s3) m = bytes (cs_heap s) (cl_out c) @ packet (enc_v64 xid @ to_le 4 rpc_id @ body)
    \<and> keeps_bufs (refs (base (cl_udp c)) + shared_refs R c (cs_futures s)) (cs_heap s) (cs_heap s3)
    \<and> cstate.more s3 = cstate.more s"
proof -
  let ?h = "cs_heap s" and ?o = "cl_out c" and ?Q = "refs (base (cl_udp c)) + shared_refs R c (cs_futures s)"
  have sp: "spare 0 (cs_poll s) p" and bo: "cbufs_ok ({#} + R) ?h c (cs_futures s)" and pe: "pend_ok (cl_pending_fu c) (cs_futures s)"
    and idle: "write_cnt ?o = 0" "cl_bmark c = None"
    using ok c(1) by (auto simp: cli_ok_def)
  have out: "buf_ok ?h ?o ?Q" using bo by (simp add: cbufs_ok_def buf_ok_def)
  obtain bm m1 h1 where b: "set_bookmark ?h ?o 4 = Inr (bm, m1, h1)" "buf_ok h1 m1 ?Q"
    and fin: "\<And>b h2 m2. puts ?Q h1 m1 b h2 m2 \<Longrightarrow>
        \<exists>m3 h3. end_message h2 m2 (Some bm) = Inr (m3, h3) \<and> sends ?Q ?h ?o (packet b) h3 m3"
    using message_ok [OF out idle(1)] by blast
  obtain m2 h2 where be: "begin_request Inr p rpc_id attr s = Inr (Some fu, opened p c attr bm m2 h2 s)"
    "puts ?Q h1 m1 (enc_v64 xid @ to_le 4 rpc_id) h2 m2"
    using begin_request_ok [OF c free b] unfolding xid_def fu_def by blast
  let ?s1 = "opened p c attr bm m2 h2 s"
  obtain d where d: "cs_clients ?s1 p = Some d" "cl_status d = CL_CONNECTED" "cl_out d = m2" "cs_heap ?s1 = h2"
    "\<forall>m' h'. set_cli p (d\<lparr>cl_out := m'\<rparr>) h' ?s1 = opened p c attr bm m' h' s"
    using opened_out [OF c(2)] by blast
  have "buf_ok (cs_heap ?s1) (cl_out d) ?Q" using puts_buf_ok [OF be(2)] d(3,4) by simp
  from writes_argsD [OF w d(1,2) this] obtain m3 h3 where
    w3: "w ?s1 = Inr (opened p c attr bm m3 h3 s)" "puts ?Q h2 m2 body h3 m3" unfolding d(3,4) using d(5) by auto
  obtain m4 h4 where e: "end_message h3 m3 (Some bm) = Inr (m4, h4)"
    "sends ?Q ?h ?o (packet (enc_v64 xid @ to_le 4 rpc_id @ body)) h4 m4"
    using fin [OF puts_trans [OF be(2) w3(2)]] by auto
  obtain pw where pw: "end_request p (opened p c attr bm m3 h3 s) = Inr (closed p c attr m4 h4 pw s)" "spare 0 pw p"
    using end_request_ok [OF free idle(2) e(1) sp] by blast
  note snt = sent_request_ok(1) [OF bo pe idle(2) e(2) pw(2), of attr] sent_request_ok(2,3) [OF bo pe idle(2) e(2) pw(2)]
  have "cs_futures (closed p c attr m4 h4 pw s) = cs_futures s @ [Some ((Future_new xid attr)\<lparr>fu_ref := 2\<rparr>)]"
    "cs_clients (closed p c attr m4 h4 pw s) = (cs_clients s)(p \<mapsto> c\<lparr>cl_out := m4, cl_xid_counter := xid + 1,
          cl_pending_fu := (cl_pending_fu c)(xid \<mapsto> fu)\<rparr>)"
    "cs_heap (closed p c attr m4 h4 pw s) = h4" "cstate.more (closed p c attr m4 h4 pw s) = cstate.more s"
    by (simp_all add: closed_def xid_def fu_def)
  with be(1) w3(1) pw(1) snt show ?thesis by metis
qed

section \<open>Receiving\<close>

text \<open>Callbacks that keep to the state of the user.\<close>

definition quiet :: "'u callbacks \<Rightarrow> bool" where
  "quiet cb \<longleftrightarrow> (\<forall>c fu s. \<exists>u. cb c fu s = Inr (cstate.more_update (\<lambda>_. u) s))"

lemma cs_more_simps [simp]:
  "cs_heap (cstate.more_update g s) = cs_heap s" "cs_clients (cstate.more_update g s) = cs_clients s"
  "cs_poll (cstate.more_update g s) = cs_poll s" "cs_futures (cstate.more_update g s) = cs_futures s"
  "cli_ok R (cstate.more_update g s) p = cli_ok R s p"
  by (cases s; simp add: cli_ok_def)+

text \<open>Two states that differ in the futures and in the user's state only.\<close>

definition same_but_futures :: "'u cstate_scheme \<Rightarrow> 'u cstate_scheme \<Rightarrow> bool" where
  "same_but_futures s s' \<longleftrightarrow> cs_heap s' = cs_heap s \<and> cs_clients s' = cs_clients s \<and> cs_poll s' = cs_poll s"

lemma notify_ready_ok:
  assumes "quiet cb" "fu < length (cs_futures s)" "cs_futures s ! fu = Some f"
  shows "\<exists>s'. notify_ready cb fu s = Inr s' \<and> same_but_futures s s'
    \<and> cs_futures s' = (cs_futures s)[fu := Some (f\<lparr>fu_ready := fu_ready f \<or> \<not> fu_timed_out f\<rparr>)]"
proof -
  define g where "g = f\<lparr>fu_ready := fu_ready f \<or> \<not> fu_timed_out f\<rparr>"
  have f1: "(if \<not> fu_timed_out f then f\<lparr>fu_ready := True\<rparr> else f) = g" by (cases f) (auto simp: g_def)
  have "notify_ready cb fu s = (if fu_ready g then run_callback cb fu g (set_fut fu g s) else Inr (set_fut fu g s))"
    unfolding notify_ready_def fut_Some [OF assms(2,3)] by (simp only: rbind_Inr Let_def f1)
  moreover have "\<exists>u. run_callback cb fu g t = Inr u \<and> same_but_futures s u \<and> cs_futures u = cs_futures t"
    if t: "t = set_fut fu g s" for t
  proof (cases "fu_callback g")
    case (Some c)
    obtain u where "cb c fu t = Inr (cstate.more_update (\<lambda>_. u) t)" using assms(1) unfolding quiet_def by blast
    with Some show ?thesis by (simp add: run_callback_def same_but_futures_def t)
  qed (simp add: run_callback_def same_but_futures_def t)
  ultimately show ?thesis unfolding g_def [symmetric] by (cases "fu_ready g") (auto simp: same_but_futures_def)
qed

lemma pend_ok_update:
  assumes "pend_ok pend fs" "\<And>x. pend x \<noteq> Some fu"
  shows "pend_ok pend (fs[fu := y])"
proof -
  have "fs[fu := y] ! i = fs ! i" if "pend x = Some i" for x i using that assms(2) by (metis nth_list_update_neq)
  with assms(1) show ?thesis unfolding pend_ok_def by (metis length_list_update)
qed

lemma same_but_futures_ok:
  assumes "same_but_futures s s'" "cs_futures s' = (cs_futures s)[fu := Some g]"
    and "fu < length (cs_futures s)" "cs_futures s ! fu = Some f" "fu_reply g = fu_reply f"
    and "\<And>c x. cs_clients s p = Some c \<Longrightarrow> cl_pending_fu c x \<noteq> Some fu"
    and "cli_ok R s p"
  shows "cli_ok R s' p"
  using assms same_reply_bufs(1) [OF assms(3-5), of R "cs_heap s"]
  by (auto simp: cli_ok_def same_but_futures_def pend_ok_update)

text \<open>Releasing a future: the last reference frees the reply.\<close>

lemma last_future_bufs:
  assumes ok: "cbufs_ok R h c fs" and f: "fu < length fs" "fs ! fu = Some f"
  shows "\<exists>h'. Marshal_delete (fu_reply f) h = Inr h' \<and> cbufs_ok R h' c (fs[fu := None])
    \<and> keeps_bufs (refs (cl_out c) + (refs (base (cl_udp c)) + shared_refs R c (fs[fu := None]))) h h'"
proof -
  let ?fs = "fs[fu := None]"
  let ?Q = "refs (cl_out c) + (refs (base (cl_udp c)) + shared_refs R c ?fs)"
  have r: "shared_refs R c fs = refs (fu_reply f) + shared_refs R c ?fs"
    using futs_refs_update [OF f(1), of None] f(2) by (simp add: shared_refs_def ac_simps)
  have mem: "Some f \<in> set fs" using f nth_mem by metis
  then have "buf_ok h (fu_reply f) ?Q" using ok by (simp add: cbufs_ok_def buf_ok_def futs_ok_def r ac_simps)
  from Marshal_delete_ok [OF this] obtain h' where h': "Marshal_delete (fu_reply f) h = Inr h'" "heap_ok h' ?Q"
    "\<forall>b. set_mset (refs b) \<subseteq> set_mset ?Q \<longrightarrow> same_buf h h' b" by blast
  then have keep: "keeps_bufs ?Q h h'" by (intro keeps_bufs_same) blast
  have fo: "futs_ok h (cl_in c) ?fs" using ok set_update_subset_insert [of fs fu None] by (auto simp: cbufs_ok_def futs_ok_def)
  have "futs_ok h' (cl_in c) ?fs"
    by (rule futs_ok_keeps [OF fo keeps_bufs_mono [OF keep]]) (auto simp: shared_refs_def)
  moreover have "wf_marshal h' (cl_out c)" "wf_marshal h' (base (cl_udp c))" "wf_marshal h' (cl_in c)"
    using keeps_bufsD [OF keep, of "cl_out c"] keeps_bufsD [OF keep, of "base (cl_udp c)"] keeps_bufsD [OF keep, of "cl_in c"] ok
    by (auto simp: cbufs_ok_def shared_refs_def)
  ultimately have "cbufs_ok R h' c ?fs" using ok h'(2) by (auto simp: cbufs_ok_def r)
  with h'(1) keep show ?thesis by blast
qed

definition released :: "future \<Rightarrow> future option" where
  "released f = (if fu_ref f = 1 then None else Some (f\<lparr>fu_ref := fu_ref f - 1\<rparr>))"

text \<open>What an operation on one future leaves alone: the bytes to be sent, the other replies, and strangers.\<close>

definition cframe :: "addr multiset \<Rightarrow> heap \<Rightarrow> client \<Rightarrow> future option list \<Rightarrow> fid \<Rightarrow> heap \<Rightarrow> bool" where
  "cframe R h c fs fu h' \<longleftrightarrow> keeps_bufs R h h' \<and> bytes h' (cl_out c) = bytes h (cl_out c)
     \<and> (\<forall>i f. i < length fs \<and> i \<noteq> fu \<and> fs ! i = Some f \<longrightarrow> bytes h' (fu_reply f) = bytes h (fu_reply f))"

lemma cframeI:
  assumes ok: "cbufs_ok R h c fs" and k: "keeps_bufs (refs (cl_out c) + (futs_refs (fs[fu := None]) + R)) h h'"
  shows "cframe R h c fs fu h'"
proof -
  have "bytes h' (fu_reply g) = bytes h (fu_reply g)"
    if "i < length fs" "i \<noteq> fu" "fs ! i = Some g" for i g
  proof -
    have "Some g \<in> set (fs[fu := None])" using that nth_mem [of i "fs[fu := None]"] by simp
    from futs_refs_member [OF this]
    have "set_mset (refs (fu_reply g)) \<subseteq> set_mset (refs (cl_out c) + (futs_refs (fs[fu := None]) + R))" by auto
    moreover have "wf_marshal h (fu_reply g)" using ok that nth_mem [of i fs] by (auto simp: cbufs_ok_def futs_ok_def)
    ultimately show ?thesis using keeps_bufsD [OF k] by simp
  qed
  moreover have "bytes h' (cl_out c) = bytes h (cl_out c)"
    using keeps_bufsD [OF k, of "cl_out c"] ok by (simp add: cbufs_ok_def)
  moreover have "keeps_bufs R h h'" using k by (rule keeps_bufs_mono) auto
  ultimately show ?thesis unfolding cframe_def by blast
qed

lemma cframe_trans:
  assumes "cframe R h c fs fu h1" "cframe R h1 c' fs' fu h2" "cl_out c' = cl_out c" "length fs' = length fs"
    "\<And>i. i \<noteq> fu \<Longrightarrow> fs' ! i = fs ! i"
  shows "cframe R h c fs fu h2"
proof -
  have "bytes h2 (fu_reply f) = bytes h (fu_reply f)" if "i < length fs" "i \<noteq> fu" "fs ! i = Some f" for i f
    using assms(1,2,4) assms(5) [OF that(2)] that unfolding cframe_def by metis
  moreover have "keeps_bufs R h h2" "bytes h2 (cl_out c) = bytes h (cl_out c)"
    using assms(1-3) keeps_bufs_trans [of R h h1 h2] by (simp_all add: cframe_def)
  ultimately show ?thesis unfolding cframe_def by blast
qed

lemma Future_release_ok:
  assumes ok: "cli_ok R s p" and c: "cs_clients s p = Some c"
    and f: "fu < length (cs_futures s)" "cs_futures s ! fu = Some f" "0 < fu_ref f"
    and np: "\<And>x. cl_pending_fu c x \<noteq> Some fu"
  shows "\<exists>s'. Future_release fu s = Inr s' \<and> cli_ok R s' p \<and> cs_clients s' = cs_clients s \<and> cs_poll s' = cs_poll s
    \<and> cframe R (cs_heap s) c (cs_futures s) fu (cs_heap s') \<and> bytes (cs_heap s') (cl_in c) = bytes (cs_heap s) (cl_in c)
    \<and> cs_futures s' = (cs_futures s)[fu := released f]
    \<and> (fu_ref f \<noteq> 1 \<longrightarrow> bytes (cs_heap s') (fu_reply f) = bytes (cs_heap s) (fu_reply f))"
proof (cases "fu_ref f = 1")
  case False
  let ?s = "set_fut fu (f\<lparr>fu_ref := fu_ref f - 1\<rparr>) s"
  have "cli_ok R ?s p"
    by (rule same_but_futures_ok [OF _ _ f(1,2) _ _ ok, where g = "f\<lparr>fu_ref := fu_ref f - 1\<rparr>"])
      (use np c in \<open>simp_all add: same_but_futures_def\<close>)
  with False f show ?thesis by (simp add: Future_release_def Let_def released_def cframe_def)
next
  case True
  let ?fs = "(cs_futures s)[fu := None]"
  have bo: "cbufs_ok R (cs_heap s) c (cs_futures s)" using ok c by (simp add: cli_ok_def)
  obtain h' where h': "Marshal_delete (fu_reply f) (cs_heap s) = Inr h'" "cbufs_ok R h' c ?fs"
    "keeps_bufs (refs (cl_out c) + (refs (base (cl_udp c)) + shared_refs R c ?fs)) (cs_heap s) h'"
    using last_future_bufs [OF bo f(1,2)] by blast
  let ?s = "s\<lparr>cs_heap := h', cs_futures := ?fs\<rparr>"
  have "cli_ok R ?s p" using ok c h'(2) np by (auto simp: cli_ok_def pend_ok_update)
  moreover have "cframe R (cs_heap s) c (cs_futures s) fu h'"
    by (rule cframeI [OF bo keeps_bufs_mono [OF h'(3)]]) (auto simp: shared_refs_def)
  moreover have "bytes h' (cl_in c) = bytes (cs_heap s) (cl_in c)"
    using keeps_bufsD [OF h'(3), of "cl_in c"] bo by (auto simp: cbufs_ok_def shared_refs_def)
  ultimately show ?thesis using True f h'(1) by (simp add: Future_release_def released_def)
qed

text \<open>The header of a reply.\<close>

lemma reply_header_ok:
  assumes ok: "buf_ok h m Q" and b: "bytes h m = packet (enc_v64 x @ enc_v32 e @ body) @ rest" and x: "long_enough x"
  shows "\<exists>m1 h1 m2 h2 m3 h3 k.
    Marshal_read h m 4 = Inr (to_le 4 (of_nat (length (enc_v64 x @ enc_v32 e @ body)) :: i32), m1, h1)
    \<and> get_v64 h1 m1 = Inr (x, m2, h2) \<and> get_v32 h2 m2 = Inr (e, m3, h3) \<and> consumes Q h m k h3 m3
    \<and> bytes h3 m3 = body @ rest"
proof -
  let ?n = "of_nat (length (enc_v64 x @ enc_v32 e @ body)) :: i32"
  have t4: "take 4 (bytes h m) = to_le 4 ?n" "4 \<le> length (bytes h m)" by (simp_all add: b packet_def)
  obtain m1 h1 where r: "Marshal_read h m 4 = Inr (to_le 4 ?n, m1, h1)" "consumes Q h m 4 h1 m1"
    using Marshal_read_ok [OF ok, of 4] t4 by (auto simp: min_def)
  have o1: "buf_ok h1 m1 Q" "bytes h1 m1 = enc_v64 x @ enc_v32 e @ body @ rest"
    using consumes_buf_ok [OF r(2)] by (simp_all add: b packet_def)
  obtain m2 h2 where g: "get_v64 h1 m1 = Inr (x, m2, h2)" "consumes Q h1 m1 (length (enc_v64 x)) h2 m2"
    using v64.get_ok [OF o1(1) x] o1(2) by auto
  have o2: "buf_ok h2 m2 Q" "bytes h2 m2 = enc_v32 e @ body @ rest"
    using consumes_buf_ok [OF g(2)] by (simp_all add: o1(2))
  obtain m3 h3 where g3: "get_v32 h2 m2 = Inr (e, m3, h3)" "consumes Q h2 m2 (length (enc_v32 e)) h3 m3"
    using v32.get_ok [OF o2(1), of e] o2(2) by auto
  have "bytes h3 m3 = body @ rest" using consumes_buf_ok [OF g3(2)] by (simp add: o2(2))
  with r(1) g(1) g3(1) consumes_trans [OF consumes_trans [OF r(2) g(2)] g3(2)] show ?thesis by blast
qed

lemma reply_size_ok:
  assumes "short_len (length (enc_v64 x @ enc_v32 e @ body))"
  shows "reply_size (of_nat (length (enc_v64 x @ enc_v32 e @ body))) x e = length body"
proof -
  let ?n = "length (enc_v64 x @ enc_v32 e @ body)"
  have n: "int ?n < 2 ^ 31" using assms by (simp add: short_len_def)
  have "sint (of_nat k :: i32) = int k" if "int k < 2 ^ 31" for k
    using that by (simp add: signed_of_nat signed_take_bit_int_eq_self)
  from this [OF n] have "(scast (of_nat ?n :: i32) :: 64 word) = of_nat ?n" by (simp only: scast_eq) simp
  moreover have "(of_nat ?n - of_nat (v64_val_size x) - of_nat (v32_val_size e) :: 64 word) = of_nat (length body)"
    by (simp add: length_enc_v64 length_enc_v32 v64_val_size_def)
  moreover have "length body < 2 ^ 64" using n by simp
  ultimately show ?thesis unfolding reply_size_def by (simp add: unsigned_of_nat take_bit_nat_eq_self)
qed

text \<open>A change below which the buffers for sending stay.\<close>

lemma cbufs_ok_shrink:
  assumes "cbufs_ok R h c fs" "cl_out c' = cl_out c" "base (cl_udp c') = base (cl_udp c)"
    and "set_mset (shared_refs R' c' fs') \<subseteq> set_mset (shared_refs R c fs)"
    and "heap_ok h' (refs (cl_out c) + (refs (base (cl_udp c)) + shared_refs R' c' fs'))"
    and "wf_marshal h' (cl_out c)" "wf_marshal h' (base (cl_udp c))" "wf_marshal h' (cl_in c')" "futs_ok h' (cl_in c') fs'"
  shows "cbufs_ok R' h' c' fs'"
proof -
  have sub: "A \<inter> (B \<union> S) = {} \<Longrightarrow> T \<subseteq> S \<Longrightarrow> A \<inter> (B \<union> T) = {}" "A \<inter> S = {} \<Longrightarrow> T \<subseteq> S \<Longrightarrow> A \<inter> T = {}"
    for A B S T :: "addr set" by blast+
  from assms(1) have dis: "set_mset (refs (cl_out c)) \<inter> (set_mset (refs (base (cl_udp c))) \<union> set_mset (shared_refs R c fs)) = {}"
    "set_mset (refs (base (cl_udp c))) \<inter> set_mset (shared_refs R c fs) = {}"
    by (simp_all only: cbufs_ok_def set_mset_union)
  show ?thesis
    unfolding cbufs_ok_def set_mset_union assms(2,3)
    by (intro conjI assms(5-9) sub(1) [OF dis(1) assms(4)] sub(2) [OF dis(2) assms(4)])
qed

text \<open>Reading from \<open>in_\<close>, and moving a reply from \<open>in_\<close> into its future.\<close>

lemma consume_in_ok:
  assumes ok: "cbufs_ok R h c fs"
    and g: "consumes (refs (cl_out c) + (refs (base (cl_udp c)) + (futs_refs fs + R))) h (cl_in c) k h' m"
  shows "cbufs_ok R h' (c\<lparr>cl_in := m\<rparr>) fs" "cframe R h c fs fu h'"
proof -
  let ?Q = "refs (cl_out c) + (refs (base (cl_udp c)) + (futs_refs fs + R))"
  have keep: "keeps_bufs ?Q h h'" using g by (intro keeps_bufs_same) (simp add: consumes_def)
  have sub: "set_mset (refs m) \<subseteq> set_mset (refs (cl_in c))" and cl: "\<And>b. clear (cl_in c) b \<Longrightarrow> clear m b"
    and hm: "buf_ok h' m ?Q" using g by (simp_all add: consumes_def)
  have "keeps_bufs (futs_refs fs) h h'" by (rule keeps_bufs_mono [OF keep]) auto
  from futs_ok_keeps [OF _ this, of "cl_in c" m] have "futs_ok h' m fs" using ok cl by (simp add: cbufs_ok_def)
  moreover have "wf_marshal h' (cl_out c)" "wf_marshal h' (base (cl_udp c))"
    using keeps_bufsD [OF keep, of "cl_out c"] keeps_bufsD [OF keep, of "base (cl_udp c)"] ok by (auto simp: cbufs_ok_def)
  moreover have "set_mset (shared_refs R (c\<lparr>cl_in := m\<rparr>) fs) \<subseteq> set_mset (shared_refs R c fs)"
    using sub by (auto simp: shared_refs_def)
  ultimately show "cbufs_ok R h' (c\<lparr>cl_in := m\<rparr>) fs"
    using hm by (intro cbufs_ok_shrink [OF ok]) (simp_all add: buf_ok_def shared_refs_def ac_simps)
  have "set_mset (futs_refs (fs[fu := None])) \<subseteq> set_mset (futs_refs fs)" by (rule futs_refs_drop)
  then show "cframe R h c fs fu h'" by (intro cframeI [OF ok keeps_bufs_mono [OF keep]]) auto
qed

lemma fill_reply_ok:
  assumes ok: "cbufs_ok R h c fs" and f: "fu < length fs" "fs ! fu = Some f" "fu_reply f = Marshal_new"
    and n: "n \<le> length (bytes h (cl_in c))"
  shows "\<exists>r m h'. read_from_marshal h Marshal_new (cl_in c) n = Inr (n, r, m, h')
    \<and> (\<forall>g. fu_reply g = r \<longrightarrow> cbufs_ok R h' (c\<lparr>cl_in := m\<rparr>) (fs[fu := Some g])) \<and> cframe R h c fs fu h'
    \<and> bytes h' r = take n (bytes h (cl_in c)) \<and> bytes h' m = drop n (bytes h (cl_in c))"
proof -
  let ?Q = "refs (cl_out c) + (refs (base (cl_udp c)) + (futs_refs fs + R))"
  have "heap_ok h (refs Marshal_new + (refs (cl_in c) + ?Q))" "wf_marshal h (cl_in c)"
    using ok by (simp_all add: cbufs_ok_def shared_refs_def ac_simps)
  from read_from_marshal_ok [OF this(1) _ this(2) _ n] obtain r m h' where
    r: "read_from_marshal h Marshal_new (cl_in c) n = Inr (n, r, m, h')" "moves ?Q h Marshal_new (cl_in c) n h' r m"
    by auto
  have mv: "heap_ok h' (refs r + (refs m + ?Q))" "wf_marshal h' r" "wf_marshal h' m" "clear m r"
    "bytes h' r = take n (bytes h (cl_in c))" "bytes h' m = drop n (bytes h (cl_in c))"
    "set_mset (refs m) \<subseteq> set_mset (refs (cl_in c))" "set_mset (refs r) \<subseteq> set_mset (refs (cl_in c))"
    "\<And>b. set_mset (refs b) \<subseteq> set_mset ?Q \<Longrightarrow> same_buf h h' b"
    "\<And>b. set_mset (refs b) \<subseteq> set_mset ?Q \<Longrightarrow> clear (cl_in c) b \<Longrightarrow> clear m b"
    using r(2) by (simp_all add: moves_def)
  have keep: "keeps_bufs ?Q h h'" using mv(9) by (rule keeps_bufs_same)
  have oth: "futs_ok h' m fs"
  proof (rule futs_ok_keeps)
    show "futs_ok h (cl_in c) fs" using ok by (simp add: cbufs_ok_def)
    show "keeps_bufs (futs_refs fs) h h'" by (rule keeps_bufs_mono [OF keep]) auto
    show "clear m (fu_reply g)" if "Some g \<in> set fs" "clear (cl_in c) (fu_reply g)" for g
      by (rule mv(10) [OF _ that(2)]) (use futs_refs_member [OF that(1)] in auto)
  qed
  have "cbufs_ok R h' (c\<lparr>cl_in := m\<rparr>) (fs[fu := Some g])" if g: "fu_reply g = r" for g
  proof -
    have fr: "futs_refs (fs[fu := Some g]) = refs r + futs_refs fs"
      using futs_refs_update [OF f(1), of "Some g"] f g by simp
    have "futs_ok h' m (fs[fu := Some g])"
      using oth mv(2,4) g set_update_subset_insert [of fs fu "Some g"] by (fastforce simp: futs_ok_def)
    moreover have "set_mset (shared_refs R (c\<lparr>cl_in := m\<rparr>) (fs[fu := Some g])) \<subseteq> set_mset (shared_refs R c fs)"
      using mv(7,8) by (auto simp: shared_refs_def fr)
    moreover have "wf_marshal h' (cl_out c)" "wf_marshal h' (base (cl_udp c))"
      using keeps_bufsD [OF keep, of "cl_out c"] keeps_bufsD [OF keep, of "base (cl_udp c)"] ok by (auto simp: cbufs_ok_def)
    ultimately show ?thesis
      using mv(1,3) by (intro cbufs_ok_shrink [OF ok]) (simp_all add: shared_refs_def fr ac_simps)
  qed
  moreover have "cframe R h c fs fu h'"
    by (rule cframeI [OF ok keeps_bufs_mono [OF keep]]) (use futs_refs_drop [of fs fu] in auto)
  ultimately show ?thesis using r(1) mv(5,6) by blast
qed

text \<open>What becomes of a pending future when its reply arrives, besides the bytes of the reply.\<close>

definition completed :: "future \<Rightarrow> i32 \<Rightarrow> marshal \<Rightarrow> future option" where
  "completed f e r = released (f\<lparr>fu_error_code := e, fu_reply := r, fu_ready := \<not> fu_timed_out f\<rparr>)"

lemma completed_simps:
  "completed f e r = None \<longleftrightarrow> fu_ref f = 1"
  "completed f e r = Some g \<Longrightarrow> fu_reply g = r \<and> fu_error_code g = e \<and> fu_ready g = (\<not> fu_timed_out f)
     \<and> fu_timed_out g = fu_timed_out f \<and> fu_xid g = fu_xid f \<and> fu_ref g = fu_ref f - 1"
  by (auto simp: completed_def released_def split: if_splits)

lemma pend_okD:
  assumes "pend_ok pend fs" "pend x = Some fu"
  obtains f where "fu < length fs" "fs ! fu = Some f" "fu_xid f = x" "0 < fu_ref f" "fu_reply f = Marshal_new" "\<not> fu_ready f"
  using assms unfolding pend_ok_def by blast

lemma pend_ok_remove:
  assumes "pend_ok pend fs" "pend x = Some fu"
  shows "pend_ok (pend(x := None)) (fs[fu := y])" "(pend(x := None)) z \<noteq> Some fu"
proof -
  have ne: "i \<noteq> fu" if "(pend(x := None)) z = Some i" for z i
    using that assms unfolding pend_ok_def by (metis fun_upd_apply option.distinct(1) option.inject)
  then show "(pend(x := None)) z \<noteq> Some fu" by blast
  show "pend_ok (pend(x := None)) (fs[fu := y])"
  proof (rule pend_ok_update)
    show "pend_ok (pend(x := None)) fs" using assms(1) by (auto simp: pend_ok_def)
    show "(pend(x := None)) z \<noteq> Some fu" for z using ne by blast
  qed
qed

lemma take_reply_ok:
  assumes ok: "cli_ok R s p" and c: "cs_clients s p = Some c" and q: "quiet cb" and pend: "cl_pending_fu c x = Some fu"
    and b: "bytes (cs_heap s) (cl_in c) = packet (enc_v64 x @ enc_v32 e @ body) @ rest"
    and len: "short_len (length (enc_v64 x @ enc_v32 e @ body))" and x: "long_enough x"
  shows "\<exists>s' m r f. take_reply cb p s = Inr s' \<and> cli_ok R s' p \<and> fu < length (cs_futures s) \<and> cs_futures s ! fu = Some f
    \<and> cs_clients s' = (cs_clients s)(p \<mapsto> c\<lparr>cl_in := m, cl_pending_fu := (cl_pending_fu c)(x := None)\<rparr>)
    \<and> cs_poll s' = cs_poll s \<and> cs_futures s' = (cs_futures s)[fu := completed f e r]
    \<and> (fu_ref f \<noteq> 1 \<longrightarrow> bytes (cs_heap s') r = body) \<and> bytes (cs_heap s') m = rest
    \<and> cframe R (cs_heap s) c (cs_futures s) fu (cs_heap s')"
proof -
  let ?h = "cs_heap s" and ?fs = "cs_futures s" and ?n = "of_nat (length (enc_v64 x @ enc_v32 e @ body)) :: i32"
  have bo: "cbufs_ok R ?h c ?fs" and pe: "pend_ok (cl_pending_fu c) ?fs" and sp: "spare 0 (cs_poll s) p"
    and idle: "write_cnt (cl_out c) = 0" "cl_bmark c = None"
    using ok c by (auto simp: cli_ok_def)
  obtain f where f: "fu < length ?fs" "?fs ! fu = Some f" "fu_xid f = x" "0 < fu_ref f" "fu_reply f = Marshal_new" "\<not> fu_ready f"
    using pend_okD [OF pe pend] .
  let ?Q = "refs (cl_out c) + (refs (base (cl_udp c)) + (futs_refs ?fs + R))"
  have "buf_ok ?h (cl_in c) ?Q" using bo by (simp add: cbufs_ok_def buf_ok_def shared_refs_def ac_simps)
  from reply_header_ok [OF this b x] obtain m1 h1 m2 h2 m3 h3 k where
    hd: "Marshal_read ?h (cl_in c) 4 = Inr (to_le 4 ?n, m1, h1)" "get_v64 h1 m1 = Inr (x, m2, h2)"
      "get_v32 h2 m2 = Inr (e, m3, h3)" "consumes ?Q ?h (cl_in c) k h3 m3" "bytes h3 m3 = body @ rest" by blast
  define c3 where "c3 = c\<lparr>cl_in := m3\<rparr>"
  have b3: "cbufs_ok R h3 c3 ?fs" "cframe R ?h c ?fs fu h3" using consume_in_ok [OF bo hd(4)] by (simp_all add: c3_def)
  have n3: "length body \<le> length (bytes h3 (cl_in c3))" using hd(5) by (simp add: c3_def)
  obtain r m h4 where r: "read_from_marshal h3 Marshal_new m3 (length body) = Inr (length body, r, m, h4)"
    "\<And>g. fu_reply g = r \<Longrightarrow> cbufs_ok R h4 (c3\<lparr>cl_in := m\<rparr>) (?fs[fu := Some g])" "cframe R h3 c3 ?fs fu h4"
    "bytes h4 r = body" "bytes h4 m = rest"
    using fill_reply_ok [OF b3(1) f(1,2,5) n3] hd(5) by (auto simp: c3_def)
  define c4 where "c4 = c\<lparr>cl_in := m, cl_pending_fu := (cl_pending_fu c)(x := None)\<rparr>"
  define f4 where "f4 = f\<lparr>fu_error_code := e, fu_reply := r\<rparr>"
  define s4 where "s4 = set_fut fu f4 (set_cli p c4 h4 s)"
  have "cbufs_ok R h4 c4 (?fs[fu := Some f4])"
    using r(2) [of f4] cbufs_ok_cong [of c4 "c3\<lparr>cl_in := m\<rparr>"] by (simp add: f4_def c4_def c3_def)
  then have ok4: "cli_ok R s4 p"
    using sp idle pend_ok_remove(1) [OF pe pend] by (simp add: cli_ok_def s4_def) (simp add: c4_def)
  have c4: "cs_clients s4 p = Some c4" "cs_heap s4 = h4" "cs_futures s4 = ?fs[fu := Some f4]"
    "fu < length (cs_futures s4)" "cs_futures s4 ! fu = Some f4" using f(1) by (simp_all add: s4_def)
  have np: "cl_pending_fu c4 z \<noteq> Some fu" for z using pend_ok_remove(2) [OF pe pend] by (simp add: c4_def)
  obtain s5 where s5: "notify_ready cb fu s4 = Inr s5" "same_but_futures s4 s5"
    "cs_futures s5 = (cs_futures s4)[fu := Some (f4\<lparr>fu_ready := fu_ready f4 \<or> \<not> fu_timed_out f4\<rparr>)]"
    using notify_ready_ok [OF q c4(4,5)] by blast
  define f5 where "f5 = f4\<lparr>fu_ready := fu_ready f4 \<or> \<not> fu_timed_out f4\<rparr>"
  have ok5: "cli_ok R s5 p"
    by (rule same_but_futures_ok [OF s5(2,3) c4(4,5) _ _ ok4]) (use np c4(1) in simp_all)
  have c5: "cs_clients s5 p = Some c4" "cs_heap s5 = h4" "cs_futures s5 = ?fs[fu := Some f5]" "fu < length (cs_futures s5)"
    "cs_futures s5 ! fu = Some f5" "0 < fu_ref f5"
    using s5(2,3) c4 f(1,4) by (simp_all add: same_but_futures_def f5_def f4_def)
  obtain s6 where s6: "Future_release fu s5 = Inr s6" "cli_ok R s6 p" "cs_clients s6 = cs_clients s5" "cs_poll s6 = cs_poll s5"
    "cframe R h4 c4 (cs_futures s5) fu (cs_heap s6)" "bytes (cs_heap s6) (cl_in c4) = bytes h4 (cl_in c4)"
    "cs_futures s6 = (cs_futures s5)[fu := released f5]"
    "fu_ref f5 \<noteq> 1 \<longrightarrow> bytes (cs_heap s6) (fu_reply f5) = bytes h4 (fu_reply f5)"
    using Future_release_ok [OF ok5 c5(1,4,5,6) np] c5(2) by auto
  have comp: "released f5 = completed f e r" using f(6) by (simp add: completed_def f5_def f4_def)
  have "complete_future cb p fu x e ?n (set_cli p c3 h3 s) = Inr s6"
    using f(1-3) f(5) r(1) s5(1) s6(1) reply_size_ok [OF len]
    by (simp add: complete_future_def Let_def s4_def f4_def c4_def c3_def)
  then have "take_reply cb p s = Inr s6"
    using c hd(1-3) pend by (simp add: take_reply_def Let_def c3_def)
  moreover have "cframe R ?h c ?fs fu (cs_heap s6)"
    using b3(2) r(3) s6(5) c5(3)
    by (intro cframe_trans [OF cframe_trans [OF b3(2) r(3)] s6(5)]) (simp_all add: c3_def c4_def)
  moreover have "cs_clients s6 = (cs_clients s)(p \<mapsto> c4)" "cs_poll s6 = cs_poll s"
    using s6(3,4) s5(2) by (simp_all add: same_but_futures_def s4_def)
  moreover have "cs_futures s6 = ?fs[fu := completed f e r]" using s6(7) c5(3) comp by simp
  moreover have "fu_ref f \<noteq> 1 \<longrightarrow> bytes (cs_heap s6) r = body" "bytes (cs_heap s6) m = rest"
    using s6(6,8) r(4,5) by (simp_all add: f5_def f4_def c4_def)
  ultimately show ?thesis using s6(2) f(1,2) unfolding c4_def by blast
qed

text \<open>A reply on the wire, and what a batch of replies does to the futures.\<close>

type_synonym wire_reply = "i64 \<times> i32 \<times> byte list"

definition enc_reply :: "wire_reply \<Rightarrow> byte list" where
  "enc_reply q = enc_v64 (fst q) @ enc_v32 (fst (snd q)) @ snd (snd q)"

definition reply_ok_wire :: "wire_reply \<Rightarrow> bool" where
  "reply_ok_wire q \<longleftrightarrow> long_enough (fst q) \<and> short_len (length (enc_reply q))"

definition reply_stream :: "wire_reply list \<Rightarrow> byte list \<Rightarrow> byte list" where
  "reply_stream qs rest = concat (map (\<lambda>q. packet (enc_reply q)) qs) @ rest"

definition fulfilled :: "heap \<Rightarrow> (i64 \<Rightarrow> fid option) \<Rightarrow> future option list \<Rightarrow> future option list \<Rightarrow> wire_reply \<Rightarrow> bool" where
  "fulfilled h pend fs fs' q \<longleftrightarrow> (\<exists>fu f. pend (fst q) = Some fu \<and> fu < length fs \<and> fs ! fu = Some f
     \<and> (case fs' ! fu of None \<Rightarrow> fu_ref f = 1
        | Some g \<Rightarrow> fu_ref g = fu_ref f - 1 \<and> fu_error_code g = fst (snd q) \<and> bytes h (fu_reply g) = snd (snd q)
            \<and> fu_ready g = (\<not> fu_timed_out f) \<and> fu_timed_out g = fu_timed_out f \<and> fu_xid g = fst q))"

definition untouched :: "heap \<Rightarrow> future option list \<Rightarrow> heap \<Rightarrow> future option list \<Rightarrow> fid \<Rightarrow> bool" where
  "untouched h fs h' fs' i \<longleftrightarrow> fs' ! i = fs ! i \<and>
     (\<forall>f. i < length fs \<and> fs ! i = Some f \<longrightarrow> bytes h' (fu_reply f) = bytes h (fu_reply f))"

lemma untouched_refl [simp]: "untouched h fs h fs i"
  by (simp add: untouched_def)

lemma untouched_trans:
  "untouched h fs h1 fs1 i \<Longrightarrow> length fs1 = length fs \<Longrightarrow> untouched h1 fs1 h2 fs2 i \<Longrightarrow> untouched h fs h2 fs2 i"
  by (simp add: untouched_def)

lemma fulfilled_later:
  assumes "fulfilled h pend fs fs1 q" "pend (fst q) = Some fu" "untouched h fs1 h2 fs2 fu" "length fs1 = length fs"
  shows "fulfilled h2 pend fs fs2 q"
  using assms unfolding fulfilled_def untouched_def by (auto split: option.splits)

lemma cframe_untouched: "cframe R h c fs fu h' \<Longrightarrow> i \<noteq> fu \<Longrightarrow> untouched h fs h' (fs[fu := y]) i"
  unfolding cframe_def untouched_def by simp blast

lemma read_replies_ok:
  assumes "quiet cb" "cli_ok R s p" "cs_clients s p = Some c" "bytes (cs_heap s) (cl_in c) = reply_stream qs rest"
    and "\<forall>q \<in> set qs. reply_ok_wire q \<and> cl_pending_fu c (fst q) \<noteq> None" "distinct (map fst qs)" "\<not> complete rest"
    and "length qs \<le> n"
  shows "\<exists>s' m. read_replies cb (Suc n) p s = Inr s' \<and> cli_ok R s' p \<and> cs_poll s' = cs_poll s
    \<and> cs_clients s' = (cs_clients s)(p \<mapsto> c\<lparr>cl_in := m, cl_pending_fu := cl_pending_fu c |` (- (fst ` set qs))\<rparr>)
    \<and> bytes (cs_heap s') m = rest \<and> length (cs_futures s') = length (cs_futures s)
    \<and> (\<forall>q \<in> set qs. fulfilled (cs_heap s') (cl_pending_fu c) (cs_futures s) (cs_futures s') q)
    \<and> (\<forall>i. (\<forall>q \<in> set qs. cl_pending_fu c (fst q) \<noteq> Some i) \<longrightarrow>
          untouched (cs_heap s) (cs_futures s) (cs_heap s') (cs_futures s') i)
    \<and> keeps_bufs R (cs_heap s) (cs_heap s') \<and> bytes (cs_heap s') (cl_out c) = bytes (cs_heap s) (cl_out c)"
  using assms(2-)
proof (induction qs arbitrary: s c n)
  case Nil
  then have "packet_waiting (cs_heap s) (cl_in c) = Inr None"
    by (auto simp: packet_waiting_ok reply_stream_def cli_ok_def cbufs_ok_def)
  with Nil show ?case
    by (intro exI [of _ s] exI [of _ "cl_in c"]) (simp add: reply_stream_def fun_upd_idem)
next
  case (Cons q qs)
  let ?pend = "cl_pending_fu c" and ?fs = "cs_futures s"
  obtain n' where n: "n = Suc n'" "length qs \<le> n'" using Cons.prems(7) by (cases n) auto
  obtain fu where fu: "?pend (fst q) = Some fu" using Cons.prems(4) by auto
  have b: "bytes (cs_heap s) (cl_in c) = packet (enc_v64 (fst q) @ enc_v32 (fst (snd q)) @ snd (snd q)) @ reply_stream qs rest"
    using Cons.prems(3) by (simp add: reply_stream_def enc_reply_def)
  have w: "long_enough (fst q)" "short_len (length (enc_v64 (fst q) @ enc_v32 (fst (snd q)) @ snd (snd q)))"
    using Cons.prems(4) by (auto simp: reply_ok_wire_def enc_reply_def)
  have waiting: "\<exists>k. packet_waiting (cs_heap s) (cl_in c) = Inr (Some k)"
    using complete_packet(1) [OF w(2), of "reply_stream qs rest"] Cons.prems(1,2) b
    by (auto simp: packet_waiting_ok cli_ok_def cbufs_ok_def)
  obtain s1 m r f where s1: "take_reply cb p s = Inr s1" "cli_ok R s1 p" "fu < length ?fs" "?fs ! fu = Some f"
    "cs_clients s1 = (cs_clients s)(p \<mapsto> c\<lparr>cl_in := m, cl_pending_fu := ?pend(fst q := None)\<rparr>)"
    "cs_poll s1 = cs_poll s" "cs_futures s1 = ?fs[fu := completed f (fst (snd q)) r]"
    "fu_ref f \<noteq> 1 \<longrightarrow> bytes (cs_heap s1) r = snd (snd q)" "bytes (cs_heap s1) m = reply_stream qs rest"
    "cframe R (cs_heap s) c ?fs fu (cs_heap s1)"
    using take_reply_ok [OF Cons.prems(1,2) assms(1) fu b w(2,1)] by blast
  define c1 where "c1 = c\<lparr>cl_in := m, cl_pending_fu := ?pend(fst q := None)\<rparr>"
  have c1: "cs_clients s1 p = Some c1" "bytes (cs_heap s1) (cl_in c1) = reply_stream qs rest"
    "\<forall>q \<in> set qs. reply_ok_wire q \<and> cl_pending_fu c1 (fst q) \<noteq> None"
    using s1(5,9) Cons.prems(4,5) by (auto simp: c1_def image_iff)
  have dis: "distinct (map fst qs)" using Cons.prems(5) by simp
  obtain s' m' where s': "read_replies cb (Suc n') p s1 = Inr s'" "cli_ok R s' p" "cs_poll s' = cs_poll s1"
    "cs_clients s' = (cs_clients s1)(p \<mapsto> c1\<lparr>cl_in := m', cl_pending_fu := cl_pending_fu c1 |` (- (fst ` set qs))\<rparr>)"
    "bytes (cs_heap s') m' = rest" "length (cs_futures s') = length (cs_futures s1)"
    "\<forall>q \<in> set qs. fulfilled (cs_heap s') (cl_pending_fu c1) (cs_futures s1) (cs_futures s') q"
    "\<forall>i. (\<forall>q \<in> set qs. cl_pending_fu c1 (fst q) \<noteq> Some i) \<longrightarrow>
       untouched (cs_heap s1) (cs_futures s1) (cs_heap s') (cs_futures s') i"
    "keeps_bufs R (cs_heap s1) (cs_heap s')" "bytes (cs_heap s') (cl_out c1) = bytes (cs_heap s1) (cl_out c1)"
    using Cons.IH [OF s1(2) c1 dis Cons.prems(6) n(2)] by (elim exE conjE) (rule that)
  have np: "cl_pending_fu c1 z \<noteq> Some fu" for z
  proof -
    have "pend_ok ?pend ?fs" using Cons.prems(1,2) by (auto simp: cli_ok_def)
    from pend_ok_remove(2) [OF this fu] show ?thesis by (simp add: c1_def)
  qed
  have "read_replies cb (Suc n) p s = Inr s'" using Cons.prems(2) waiting s1(1) s'(1) n(1) by auto
  moreover have "cs_clients s' = (cs_clients s)(p \<mapsto> c\<lparr>cl_in := m', cl_pending_fu := ?pend |` (- (fst ` set (q # qs)))\<rparr>)"
  proof -
    have "(?pend(fst q := None)) |` (- (fst ` set qs)) = ?pend |` (- (fst ` set (q # qs)))"
      by (auto simp: fun_eq_iff restrict_map_def)
    then show ?thesis using s1(5) s'(4) by (simp add: c1_def)
  qed
  moreover have "fulfilled (cs_heap s') ?pend ?fs (cs_futures s') q"
  proof (rule fulfilled_later)
    show "?pend (fst q) = Some fu" by (rule fu)
    show "fulfilled (cs_heap s1) ?pend ?fs (cs_futures s1) q"
    proof (cases "completed f (fst (snd q)) r")
      case None
      moreover have "fu_ref f = 1" using None completed_simps(1) by metis
      ultimately show ?thesis using fu s1(3,4,7) by (simp add: fulfilled_def)
    next
      case (Some g)
      have pe: "pend_ok ?pend ?fs" using Cons.prems(1,2) by (auto simp: cli_ok_def)
      have "fu_xid f = fst q" by (rule pend_okD [OF pe fu]) (use s1(4) in simp)
      moreover have "fu_ref f \<noteq> 1" using Some by (metis completed_simps(1) option.distinct(1))
      ultimately show ?thesis using fu s1(3,4,7,8) completed_simps(2) [OF Some] Some by (simp add: fulfilled_def)
    qed
    show "untouched (cs_heap s1) (cs_futures s1) (cs_heap s') (cs_futures s') fu" using s'(8) np by blast
  qed (simp add: s1(7))
  moreover have "fulfilled (cs_heap s') ?pend ?fs (cs_futures s') q'" if q': "q' \<in> set qs" for q'
  proof -
    have ne: "fst q' \<noteq> fst q" using q' Cons.prems(5) by (auto simp: image_iff)
    obtain i where i: "?pend (fst q') = Some i" using Cons.prems(4) q' by auto
    then have "i \<noteq> fu" using np [of "fst q'"] ne by (auto simp: c1_def)
    with bspec [OF s'(7) q'] i ne show ?thesis by (simp add: fulfilled_def c1_def s1(7))
  qed
  moreover have "untouched (cs_heap s) ?fs (cs_heap s') (cs_futures s') i"
    if "\<forall>q \<in> set (q # qs). ?pend (fst q) \<noteq> Some i" for i
  proof (rule untouched_trans)
    show "untouched (cs_heap s) ?fs (cs_heap s1) (cs_futures s1) i"
      unfolding s1(7) by (rule cframe_untouched [OF s1(10)]) (use that fu in auto)
    show "untouched (cs_heap s1) (cs_futures s1) (cs_heap s') (cs_futures s') i"
      using s'(8) that by (auto simp: c1_def)
  qed (simp add: s1(7))
  moreover have "keeps_bufs R (cs_heap s) (cs_heap s')" "bytes (cs_heap s') (cl_out c) = bytes (cs_heap s) (cl_out c)"
    using s1(10) s'(9,10) keeps_bufs_trans by (auto simp: cframe_def c1_def)
  ultimately show ?case using s'(2,3,5,6) s1(6,7) by (intro exI [of _ s'] exI [of _ m']) simp
qed

lemma client_receive_ok:
  assumes ok: "cbufs_ok R h c fs"
  shows "\<exists>got m h' fd'. Marshal_read_from_fd h (cl_in c) fd = Inr (length got, m, h', fd') \<and> rx fd = got @ rx fd'
    \<and> (delivers fd \<longrightarrow> rx fd' = []) \<and> bytes h' m = bytes h (cl_in c) @ got \<and> cbufs_ok R h' (c\<lparr>cl_in := m\<rparr>) fs
    \<and> bytes h' (cl_out c) = bytes h (cl_out c) \<and> (\<forall>i. untouched h fs h' fs i)"
proof -
  let ?o = "refs (cl_out c)" and ?u = "refs (base (cl_udp c))" and ?F = "futs_refs fs + R"
  let ?Q = "?o + (?u + ?F)"
  have "buf_ok h (cl_in c) ?Q" using ok by (simp add: cbufs_ok_def buf_ok_def shared_refs_def ac_simps)
  from Marshal_read_from_fd_ok [OF this, of fd] obtain got m h' fd' where
    r: "Marshal_read_from_fd h (cl_in c) fd = Inr (length got, m, h', fd')" "appends ?Q h (cl_in c) got h' m"
      "rx fd = got @ rx fd'" "delivers fd \<longrightarrow> rx fd' = []" by blast
  have m: "buf_ok h' m ?Q" "bytes h' m = bytes h (cl_in c) @ got" "\<forall>a \<in># refs m. a \<in># ?Q \<longrightarrow> a \<in># refs (cl_in c)"
    using r(2) by (simp_all add: appends_def)
  have fr: "same_buf h h' b \<and> clear m b" if "set_mset (refs b) \<subseteq> set_mset ?Q" "clear (cl_in c) b" for b
    using r(2) that by (simp add: appends_def)
  have od: "set_mset ?o \<inter> (set_mset (refs (cl_in c)) \<union> set_mset (?u + ?F)) = {}"
    "set_mset ?u \<inter> (set_mset (refs (cl_in c)) \<union> set_mset ?F) = {}"
    using ok unfolding cbufs_ok_def shared_refs_def set_mset_union by blast+
  have dis: "set_mset ?o \<inter> (set_mset (refs m) \<union> set_mset (?u + ?F)) = {}"
    "set_mset ?u \<inter> (set_mset (refs m) \<union> set_mset ?F) = {}"
    by (rule disjoint_fresh [OF od(1)], use m(3) in simp, rule disjoint_fresh [OF od(2)], use m(3) in simp)
  have "disjoint_bufs (cl_in c) (cl_out c)" "disjoint_bufs (cl_in c) (base (cl_udp c))"
    using od unfolding disjoint_bufs_def set_mset_refs [symmetric] by blast+
  then have snd: "same_buf h h' (cl_out c)" "same_buf h h' (base (cl_udp c))"
    using fr [of "cl_out c"] fr [of "base (cl_udp c)"] clear_disjoint by auto
  have rep: "same_buf h h' (fu_reply f) \<and> clear m (fu_reply f)" if f: "Some f \<in> set fs" for f
    by (rule fr) (use futs_refs_member [OF f] ok f in \<open>auto simp: cbufs_ok_def futs_ok_def\<close>)
  have "futs_ok h' m fs"
    unfolding futs_ok_def
  proof (intro allI impI)
    fix f assume f: "Some f \<in> set fs"
    then have "wf_marshal h (fu_reply f)" using ok by (simp add: cbufs_ok_def futs_ok_def)
    with rep [OF f] same_buf_view [of h h' "fu_reply f"]
    show "wf_marshal h' (fu_reply f) \<and> clear m (fu_reply f)" by simp
  qed
  moreover have "wf_marshal h' (cl_out c)" "wf_marshal h' (base (cl_udp c))"
    using ok same_buf_view snd by (simp_all add: cbufs_ok_def)
  ultimately have "cbufs_ok R h' (c\<lparr>cl_in := m\<rparr>) fs"
    using m(1) dis by (simp add: cbufs_ok_def shared_refs_def buf_ok_def ac_simps)
  moreover have "untouched h fs h' fs i" for i
    using rep nth_mem [of i fs] same_buf_view(1) unfolding untouched_def by metis
  ultimately show ?thesis using r m(2) same_buf_view(1) [OF snd(1)] by blast
qed

lemma no_reply:
  assumes "\<not> complete (reply_stream qs rest)" "\<forall>q \<in> set qs. reply_ok_wire q"
  shows "qs = []"
  using assms complete_packet(1) by (cases qs) (auto simp: reply_ok_wire_def reply_stream_def)

lemma packets_bound: "length qs \<le> length (reply_stream qs rest)"
  by (induction qs) (simp_all add: reply_stream_def packet_def)

lemma client_handle_read_ok:
  assumes cb: "quiet cb" and ok: "cli_ok R s p" and c: "cs_clients s p = Some c" "cl_status c = CL_CONNECTED"
    and part: "\<not> complete (bytes (cs_heap s) (cl_in c))"
  shows "\<exists>got fd'. rx fd = got @ rx fd' \<and> (delivers fd \<longrightarrow> rx fd' = []) \<and>
    (\<forall>qs rest. bytes (cs_heap s) (cl_in c) @ got = reply_stream qs rest \<and> distinct (map fst qs) \<and> \<not> complete rest
      \<and> length got < 2 ^ 32 \<and> (\<forall>q \<in> set qs. reply_ok_wire q \<and> cl_pending_fu c (fst q) \<noteq> None) \<longrightarrow>
      (\<exists>s' m. client_handle_read cb p fd s = Inr (s', fd') \<and> cli_ok R s' p
        \<and> cs_clients s' = (cs_clients s)(p \<mapsto> c\<lparr>cl_in := m, cl_pending_fu := cl_pending_fu c |` (- (fst ` set qs))\<rparr>)
        \<and> bytes (cs_heap s') m = rest \<and> bytes (cs_heap s') (cl_out c) = bytes (cs_heap s) (cl_out c)
        \<and> length (cs_futures s') = length (cs_futures s)
        \<and> (\<forall>q \<in> set qs. fulfilled (cs_heap s') (cl_pending_fu c) (cs_futures s) (cs_futures s') q)
        \<and> (\<forall>i. (\<forall>q \<in> set qs. cl_pending_fu c (fst q) \<noteq> Some i) \<longrightarrow>
              untouched (cs_heap s) (cs_futures s) (cs_heap s') (cs_futures s') i)))"
proof -
  let ?h = "cs_heap s" and ?fs = "cs_futures s"
  have bo: "cbufs_ok R ?h c ?fs" and rest: "spare 0 (cs_poll s) p" "pend_ok (cl_pending_fu c) ?fs"
    "write_cnt (cl_out c) = 0" "cl_bmark c = None" using ok c by (auto simp: cli_ok_def)
  obtain got m h1 fd' where r: "Marshal_read_from_fd ?h (cl_in c) fd = Inr (length got, m, h1, fd')" "rx fd = got @ rx fd'"
    "delivers fd \<longrightarrow> rx fd' = []" "bytes h1 m = bytes ?h (cl_in c) @ got" "cbufs_ok R h1 (c\<lparr>cl_in := m\<rparr>) ?fs"
    "bytes h1 (cl_out c) = bytes ?h (cl_out c)" "\<forall>i. untouched ?h ?fs h1 ?fs i"
    using client_receive_ok [OF bo, of fd] by (elim exE conjE) (rule that)
  define c1 where "c1 = c\<lparr>cl_in := m\<rparr>"
  define s1 where "s1 = set_cli p c1 h1 s"
  have ok1: "cli_ok R s1 p" using r(5) rest by (simp add: cli_ok_def s1_def) (simp add: c1_def)
  have s1: "cs_clients s1 p = Some c1" "cs_heap s1 = h1" "cs_futures s1 = ?fs" "cl_pending_fu c1 = cl_pending_fu c"
    "cl_in c1 = m" "cl_out c1 = cl_out c" by (simp_all add: s1_def c1_def)
  have "\<exists>s' m'. client_handle_read cb p fd s = Inr (s', fd') \<and> cli_ok R s' p
        \<and> cs_clients s' = (cs_clients s)(p \<mapsto> c\<lparr>cl_in := m', cl_pending_fu := cl_pending_fu c |` (- (fst ` set qs))\<rparr>)
        \<and> bytes (cs_heap s') m' = rest \<and> bytes (cs_heap s') (cl_out c) = bytes ?h (cl_out c)
        \<and> length (cs_futures s') = length ?fs
        \<and> (\<forall>q \<in> set qs. fulfilled (cs_heap s') (cl_pending_fu c) ?fs (cs_futures s') q)
        \<and> (\<forall>i. (\<forall>q \<in> set qs. cl_pending_fu c (fst q) \<noteq> Some i) \<longrightarrow> untouched ?h ?fs (cs_heap s') (cs_futures s') i)"
    if st: "bytes ?h (cl_in c) @ got = reply_stream qs rest" "distinct (map fst qs)" "\<not> complete rest" "length got < 2 ^ 32"
      "\<forall>q \<in> set qs. reply_ok_wire q \<and> cl_pending_fu c (fst q) \<noteq> None" for qs rest
  proof (cases "got = []")
    case True
    then have "qs = []" using no_reply [of qs rest] part st by simp
    moreover have "client_handle_read cb p fd s = Inr (s1, fd')"
      using c r(1) True by (simp add: client_handle_read_def Let_def s1_def c1_def)
    ultimately show ?thesis
      using ok1 r(4,6,7) st(1) True by (intro exI [of _ s1] exI [of _ m]) (simp add: s1 reply_stream_def, simp add: s1_def c1_def restrict_map_def)
  next
    case False
    have n: "(of_nat (length got) :: i32) \<noteq> 0" by (rule received_nonzero [OF False st(4)])
    have b1: "bytes (cs_heap s1) (cl_in c1) = reply_stream qs rest" using r(4) st(1) by (simp add: s1)
    have "content_size m = length (bytes h1 m)" using r(5) by (simp add: cbufs_ok_def wf_marshal_def bytes_def)
    then have fuel: "length qs \<le> content_size m" using packets_bound [of qs rest] b1 by (simp add: s1)
    obtain s' m' where s': "read_replies cb (Suc (content_size m)) p s1 = Inr s'" "cli_ok R s' p"
      "cs_clients s' = (cs_clients s1)(p \<mapsto> c1\<lparr>cl_in := m', cl_pending_fu := cl_pending_fu c1 |` (- (fst ` set qs))\<rparr>)"
      "bytes (cs_heap s') m' = rest" "length (cs_futures s') = length (cs_futures s1)"
      "\<forall>q \<in> set qs. fulfilled (cs_heap s') (cl_pending_fu c1) (cs_futures s1) (cs_futures s') q"
      "\<forall>i. (\<forall>q \<in> set qs. cl_pending_fu c1 (fst q) \<noteq> Some i) \<longrightarrow>
         untouched (cs_heap s1) (cs_futures s1) (cs_heap s') (cs_futures s') i"
      "bytes (cs_heap s') (cl_out c1) = bytes (cs_heap s1) (cl_out c1)"
      using read_replies_ok [OF cb ok1 s1(1) b1 st(5) [folded s1(4)] st(2,3) fuel] by (elim exE conjE) (rule that)
    have "client_handle_read cb p fd s = Inr (s', fd')"
      using c r(1) n s'(1) by (simp add: client_handle_read_def Let_def s1_def c1_def)
    moreover have "cs_clients s' = (cs_clients s)(p \<mapsto> c\<lparr>cl_in := m', cl_pending_fu := cl_pending_fu c |` (- (fst ` set qs))\<rparr>)"
      using s'(3) by (simp add: s1_def c1_def)
    moreover have "untouched ?h ?fs (cs_heap s') (cs_futures s') i" if "\<forall>q \<in> set qs. cl_pending_fu c (fst q) \<noteq> Some i" for i
      by (rule untouched_trans [of _ _ h1 ?fs]) (use r(7) s'(7) that in \<open>simp_all add: s1\<close>)
    ultimately show ?thesis using s' r(6) unfolding s1(2-4,6) by (intro exI [of _ s'] exI [of _ m']) simp
  qed
  with r(2,3) show ?thesis by blast
qed

section \<open>Closing\<close>

text \<open>The hash table of pending futures is visited in some order, every entry once.\<close>

definition visits :: "(i64 set \<Rightarrow> i64 list) \<Rightarrow> bool" where
  "visits order \<longleftrightarrow> (\<forall>S. finite S \<longrightarrow> distinct (order S) \<and> set (order S) = S)"

lemma invalidate_one_ok:
  assumes cb: "quiet cb" and ok: "cli_ok R s p" and c: "cs_clients s p = Some c" and np: "\<And>x. cl_pending_fu c x \<noteq> Some fu"
    and f: "fu < length (cs_futures s)" "cs_futures s ! fu = Some f" "0 < fu_ref f" "\<not> fu_ready f"
  shows "\<exists>s1 s2. notify_ready cb fu (set_fut fu (f\<lparr>fu_error_code := e\<rparr>) s) = Inr s1 \<and> Future_release fu s1 = Inr s2
    \<and> cli_ok R s2 p \<and> cs_clients s2 = cs_clients s \<and> cs_poll s2 = cs_poll s
    \<and> cframe R (cs_heap s) c (cs_futures s) fu (cs_heap s2) \<and> bytes (cs_heap s2) (cl_in c) = bytes (cs_heap s) (cl_in c)
    \<and> cs_futures s2 = (cs_futures s)[fu := completed f e (fu_reply f)]"
proof -
  let ?g = "f\<lparr>fu_error_code := e\<rparr>" and ?s = "set_fut fu (f\<lparr>fu_error_code := e\<rparr>) s"
  have g: "fu < length (cs_futures ?s)" "cs_futures ?s ! fu = Some ?g" using f(1) by simp_all
  have ok0: "cli_ok R ?s p"
    by (rule same_but_futures_ok [OF _ _ f(1,2) _ _ ok, where g = ?g]) (use np c in \<open>simp_all add: same_but_futures_def\<close>)
  obtain s1 where s1: "notify_ready cb fu ?s = Inr s1" "same_but_futures ?s s1"
    "cs_futures s1 = (cs_futures ?s)[fu := Some (?g\<lparr>fu_ready := fu_ready ?g \<or> \<not> fu_timed_out ?g\<rparr>)]"
    using notify_ready_ok [OF cb g] by blast
  define f1 where "f1 = ?g\<lparr>fu_ready := fu_ready ?g \<or> \<not> fu_timed_out ?g\<rparr>"
  have ok1: "cli_ok R s1 p"
    by (rule same_but_futures_ok [OF s1(2,3) g _ _ ok0]) (use np c in simp_all)
  have c1: "cs_clients s1 p = Some c" "cs_heap s1 = cs_heap s" "cs_futures s1 = (cs_futures s)[fu := Some f1]"
    "fu < length (cs_futures s1)" "cs_futures s1 ! fu = Some f1" "0 < fu_ref f1"
    using s1(2,3) c f by (simp_all add: same_but_futures_def f1_def)
  obtain s2 where s2: "Future_release fu s1 = Inr s2" "cli_ok R s2 p" "cs_clients s2 = cs_clients s1" "cs_poll s2 = cs_poll s1"
    "cframe R (cs_heap s) c (cs_futures s1) fu (cs_heap s2)" "bytes (cs_heap s2) (cl_in c) = bytes (cs_heap s) (cl_in c)"
    "cs_futures s2 = (cs_futures s1)[fu := released f1]"
    using Future_release_ok [OF ok1 c1(1,4,5,6) np] c1(2) by auto
  have "released f1 = completed f e (fu_reply f)" using f(4) by (simp add: completed_def f1_def)
  then have "cs_futures s2 = (cs_futures s)[fu := completed f e (fu_reply f)]" using s2(7) c1(3) by simp
  moreover have "cframe R (cs_heap s) c (cs_futures s) fu (cs_heap s2)"
    using s2(5) unfolding cframe_def c1(3) by (metis length_list_update nth_list_update_neq)
  ultimately show ?thesis using s1(1,2) s2(1-4,6) by (auto simp: same_but_futures_def)
qed

lemma invalidate_loop_ok:
  assumes "quiet cb" "cli_ok R s p" "cs_clients s p = Some c" "distinct fus"
    and "\<forall>fu \<in> set fus. (\<forall>x. cl_pending_fu c x \<noteq> Some fu) \<and> fu < length (cs_futures s)
        \<and> (\<exists>f. cs_futures s ! fu = Some f \<and> 0 < fu_ref f \<and> \<not> fu_ready f)"
  shows "\<exists>s'. invalidate_loop cb fus s = Inr s' \<and> cli_ok R s' p \<and> cs_clients s' = cs_clients s \<and> cs_poll s' = cs_poll s
    \<and> length (cs_futures s') = length (cs_futures s) \<and> keeps_bufs R (cs_heap s) (cs_heap s')
    \<and> bytes (cs_heap s') (cl_out c) = bytes (cs_heap s) (cl_out c) \<and> bytes (cs_heap s') (cl_in c) = bytes (cs_heap s) (cl_in c)
    \<and> (\<forall>fu \<in> set fus. \<exists>f. cs_futures s ! fu = Some f \<and> cs_futures s' ! fu = completed f ENOTCONN (fu_reply f))
    \<and> (\<forall>i. i \<notin> set fus \<longrightarrow> untouched (cs_heap s) (cs_futures s) (cs_heap s') (cs_futures s') i)"
  using assms(2-)
proof (induction fus arbitrary: s)
  case (Cons fu fus)
  have np: "\<And>x. cl_pending_fu c x \<noteq> Some fu" and lf: "fu < length (cs_futures s)" using Cons.prems(4) by auto
  obtain f where f: "cs_futures s ! fu = Some f" "0 < fu_ref f" "\<not> fu_ready f" using Cons.prems(4) by auto
  obtain s1 s2 where s2: "notify_ready cb fu (set_fut fu (f\<lparr>fu_error_code := ENOTCONN\<rparr>) s) = Inr s1" "Future_release fu s1 = Inr s2"
    "cli_ok R s2 p" "cs_clients s2 = cs_clients s" "cs_poll s2 = cs_poll s"
    "cframe R (cs_heap s) c (cs_futures s) fu (cs_heap s2)" "bytes (cs_heap s2) (cl_in c) = bytes (cs_heap s) (cl_in c)"
    "cs_futures s2 = (cs_futures s)[fu := completed f ENOTCONN (fu_reply f)]"
    using invalidate_one_ok [OF assms(1) Cons.prems(1,2) np lf f] by blast
  have c2: "cs_clients s2 p = Some c" "distinct fus" using s2(4) Cons.prems(2,3) by simp_all
  have pre: "\<forall>i \<in> set fus. (\<forall>x. cl_pending_fu c x \<noteq> Some i) \<and> i < length (cs_futures s2)
      \<and> (\<exists>f. cs_futures s2 ! i = Some f \<and> 0 < fu_ref f \<and> \<not> fu_ready f)"
  proof
    fix i assume i: "i \<in> set fus"
    then have "i \<noteq> fu" using Cons.prems(3) by auto
    with Cons.prems(4) i show "(\<forall>x. cl_pending_fu c x \<noteq> Some i) \<and> i < length (cs_futures s2)
      \<and> (\<exists>f. cs_futures s2 ! i = Some f \<and> 0 < fu_ref f \<and> \<not> fu_ready f)" by (simp add: s2(8))
  qed
  obtain s' where s': "invalidate_loop cb fus s2 = Inr s'" "cli_ok R s' p" "cs_clients s' = cs_clients s2" "cs_poll s' = cs_poll s2"
    "length (cs_futures s') = length (cs_futures s2)" "keeps_bufs R (cs_heap s2) (cs_heap s')"
    "bytes (cs_heap s') (cl_out c) = bytes (cs_heap s2) (cl_out c)" "bytes (cs_heap s') (cl_in c) = bytes (cs_heap s2) (cl_in c)"
    "\<forall>fu \<in> set fus. \<exists>f. cs_futures s2 ! fu = Some f \<and> cs_futures s' ! fu = completed f ENOTCONN (fu_reply f)"
    "\<forall>i. i \<notin> set fus \<longrightarrow> untouched (cs_heap s2) (cs_futures s2) (cs_heap s') (cs_futures s') i"
    using Cons.IH [OF s2(3) c2 pre] by (elim exE conjE) (rule that)
  have "cs_futures s' ! fu = completed f ENOTCONN (fu_reply f)"
    using s'(10) Cons.prems(3) lf by (simp add: untouched_def s2(8))
  moreover have "\<exists>f. cs_futures s ! i = Some f \<and> cs_futures s' ! i = completed f ENOTCONN (fu_reply f)" if "i \<in> set fus" for i
  proof -
    have "i \<noteq> fu" using that Cons.prems(3) by auto
    with bspec [OF s'(9) that] show ?thesis by (simp add: s2(8))
  qed
  moreover have "untouched (cs_heap s) (cs_futures s) (cs_heap s') (cs_futures s') i" if "i \<notin> set (fu # fus)" for i
  proof (rule untouched_trans)
    show "untouched (cs_heap s) (cs_futures s) (cs_heap s2) (cs_futures s2) i"
      unfolding s2(8) by (rule cframe_untouched [OF s2(6)]) (use that in simp)
    show "untouched (cs_heap s2) (cs_futures s2) (cs_heap s') (cs_futures s') i" using s'(10) that by simp
  qed (simp add: s2(8))
  moreover have "keeps_bufs R (cs_heap s) (cs_heap s')" "bytes (cs_heap s') (cl_out c) = bytes (cs_heap s) (cl_out c)"
    using s2(6) s'(6,7) keeps_bufs_trans by (auto simp: cframe_def)
  ultimately show ?case
    using s2 s' lf f(1) by (intro exI [of _ s']) simp
qed (simp add: untouched_def)

lemma pending_inj:
  assumes "pend_ok pend fs"
  shows "inj_on (\<lambda>x. the (pend x)) (dom pend)" "finite (dom pend)"
proof -
  have xid: "pend x = Some fu \<Longrightarrow> \<exists>f. fu < length fs \<and> fs ! fu = Some f \<and> fu_xid f = x" for x fu
    using assms unfolding pend_ok_def by blast
  show inj: "inj_on (\<lambda>x. the (pend x)) (dom pend)"
  proof (rule inj_onI)
    fix x y assume "x \<in> dom pend" "y \<in> dom pend" "the (pend x) = the (pend y)"
    then obtain fu where "pend x = Some fu" "pend y = Some fu" by auto
    with xid [of x fu] xid [of y fu] show "x = y" by auto
  qed
  have "(\<lambda>x. the (pend x)) ` dom pend \<subseteq> {..<length fs}" using xid by (fastforce simp: dom_def)
  then show "finite (dom pend)" using inj inj_on_finite by blast
qed

lemma invalidate_ok:
  assumes cb: "quiet cb" "visits order" and ok: "cli_ok R s p" and c: "cs_clients s p = Some c"
  shows "\<exists>s'. invalidate_pending_futures cb order p s = Inr s' \<and> cli_ok R s' p \<and> cs_poll s' = cs_poll s
    \<and> cs_clients s' = (cs_clients s)(p \<mapsto> c\<lparr>cl_pending_fu := Map.empty\<rparr>)
    \<and> length (cs_futures s') = length (cs_futures s) \<and> keeps_bufs R (cs_heap s) (cs_heap s')
    \<and> bytes (cs_heap s') (cl_out c) = bytes (cs_heap s) (cl_out c)
    \<and> (\<forall>fu \<in> ran (cl_pending_fu c). \<exists>f. cs_futures s ! fu = Some f \<and> cs_futures s' ! fu = completed f ENOTCONN (fu_reply f))
    \<and> (\<forall>i. i \<notin> ran (cl_pending_fu c) \<longrightarrow> untouched (cs_heap s) (cs_futures s) (cs_heap s') (cs_futures s') i)"
proof -
  let ?pend = "cl_pending_fu c" and ?fs = "cs_futures s"
  define c1 where "c1 = c\<lparr>cl_pending_fu := Map.empty\<rparr>"
  let ?s = "set_cli p c1 (cs_heap s) s" and ?fus = "map (\<lambda>x. the (?pend x)) (order (dom ?pend))"
  have pe: "pend_ok ?pend ?fs" using ok c by (auto simp: cli_ok_def)
  note inj = pending_inj [OF pe]
  have o: "distinct (order (dom ?pend))" "set (order (dom ?pend)) = dom ?pend" using cb(2) inj(2) by (auto simp: visits_def)
  have d: "distinct ?fus" using o inj(1) by (simp add: distinct_map)
  have st: "set ?fus = ran ?pend" using o(2) by (auto simp: ran_def dom_def) (force simp: image_iff)
  have ok1: "cli_ok R ?s p"
    using ok c cbufs_ok_cong [of c1 c] by (auto simp: cli_ok_def c1_def pend_ok_def)
  have pre: "\<forall>fu \<in> set ?fus. (\<forall>x. cl_pending_fu c1 x \<noteq> Some fu) \<and> fu < length (cs_futures ?s)
      \<and> (\<exists>f. cs_futures ?s ! fu = Some f \<and> 0 < fu_ref f \<and> \<not> fu_ready f)"
    unfolding st using pe by (auto simp: c1_def ran_def pend_ok_def)
  have c1: "cs_clients ?s p = Some c1" by simp
  from invalidate_loop_ok [OF cb(1) ok1 c1 d pre] show ?thesis
    using c unfolding st by (auto simp: invalidate_pending_futures_def c1_def)
qed

lemma Client_close_ok:
  assumes cb: "quiet cb" "visits order" and ok: "cli_ok R s p" and c: "cs_clients s p = Some c" "cl_status c = CL_CONNECTED"
    and reg: "registered (cs_poll s) p" and q: "pobjs (cs_poll s) p = Some q" "p_fd q = cl_sock c"
  shows "\<exists>s'. Client_close cb order p s = Inr s' \<and> cli_ok R s' p \<and> \<not> registered (cs_poll s') p
    \<and> pobjs (cs_poll s') p = Some q
    \<and> cs_clients s' = (cs_clients s)(p \<mapsto> c\<lparr>cl_status := CL_CLOSED, cl_pending_fu := Map.empty\<rparr>)
    \<and> length (cs_futures s') = length (cs_futures s)
    \<and> (\<forall>fu \<in> ran (cl_pending_fu c). \<exists>f. cs_futures s ! fu = Some f \<and> cs_futures s' ! fu = completed f ENOTCONN (fu_reply f))
    \<and> (\<forall>i. i \<notin> ran (cl_pending_fu c) \<longrightarrow> untouched (cs_heap s) (cs_futures s) (cs_heap s') (cs_futures s') i)"
proof -
  let ?fd = "cl_sock c"
  have sp: "spare 0 (cs_poll s) p" using ok by (simp add: cli_ok_def)
  obtain w1 where w1: "PollMgr_remove p (cs_poll s) = Inr w1" "spare 0 w1 p" "pobjs w1 = pobjs (cs_poll s)"
    "mode (poll_threads w1 ! tid_of w1 ?fd) ?fd = None" "\<not> registered w1 p"
    using remove_spare [OF sp reg q(1)] q(2) by auto
  have q1: "pobjs w1 p = Some q" using w1(3) q(1) by simp
  note w2 = os_close_spare [OF w1(2) q1 w1(4)]
  have nreg: "\<not> registered (os_close ?fd w1) p" using os_close_registered [OF w1(2)] w1(5) by blast
  define c1 where "c1 = c\<lparr>cl_status := CL_CLOSED\<rparr>"
  define s1 where "s1 = set_cli p c1 (cs_heap s) (s\<lparr>cs_poll := os_close ?fd w1\<rparr>)"
  have ok1: "cli_ok R s1 p" and c1: "cs_clients s1 p = Some c1"
    using ok c w2(1) cbufs_ok_cong [of c1 c] by (auto simp: cli_ok_def s1_def c1_def)
  have "Client_close cb order p s = invalidate_pending_futures cb order p s1"
    using c w1(1) by (simp add: Client_close_def s1_def c1_def)
  with invalidate_ok [OF cb ok1 c1] nreg w2(2) q1 show ?thesis by (auto simp: s1_def c1_def)
qed

end
