(* ===== verification/Client_Properties.thy ===== *)
theory Client_Properties
  imports Client_Correct
begin

text \<open>
  The properties of the client: requests, replies, closing, time-outs and datagrams.
\<close>

section \<open>Connecting\<close>

lemma client_connect_ok:
  assumes "poll_ok (cs_poll s)" "pobjs (cs_poll s) p = None" "0 \<le> tcp" "0 \<le> udp"
    and "mode (poll_threads (cs_poll s) ! tid_of (cs_poll s) tcp) tcp = None"
      "epoll (poll_threads (cs_poll s) ! tid_of (cs_poll s) tcp) tcp = None"
    and "heap_ok (cs_heap s) (futs_refs (cs_futures s) + R)" "futs_ok (cs_heap s) Marshal_new (cs_futures s)"
  shows "\<exists>s' c. Client_connect tcp udp p (Client_new p s) = Inr (0, s') \<and> cli_ok R s' p \<and> cs_clients s' p = Some c
    \<and> cl_status c = CL_CONNECTED \<and> \<not> cl_out_l c \<and> cl_xid_counter c = 0 \<and> cl_pending_fu c = Map.empty
    \<and> cl_sock c = tcp \<and> bytes (cs_heap s') (cl_in c) = [] \<and> bytes (cs_heap s') (cl_out c) = []
    \<and> bytes (cs_heap s') (base (cl_udp c)) = [] \<and> length (buf (cl_udp c)) = max_udp_packet_size
    \<and> write_cnt (base (cl_udp c)) = 0
    \<and> registered (cs_poll s') p \<and> pobjs (cs_poll s') p = Some \<lparr>p_fd = tcp, p_mode = READ, p_ref = 2\<rparr>
    \<and> cs_futures s' = cs_futures s \<and> cs_heap s' = cs_heap s \<and> cstate.more s' = cstate.more s"
proof -
  let ?w = "(cs_poll s)\<lparr>pobjs := (pobjs (cs_poll s))(p \<mapsto> \<lparr>p_fd = tcp, p_mode = READ, p_ref = 1\<rparr>)\<rparr>"
  obtain pw where pw: "PollMgr_add p ?w = Inr pw" "spare 0 pw p" "registered pw p"
    "pobjs pw p = Some \<lparr>p_fd = tcp, p_mode = READ, p_ref = 2\<rparr>"
    using add_spare [OF assms(1-3,5,6), of READ] by blast
  with assms show ?thesis
    by (simp add: Client_connect_def Client_new_def client_poll_mode_def obj_def cli_ok_def cbufs_ok_def shared_refs_def
        pend_ok_def UdpBuffer_new_def Let_def cli_def length_stack_junk)
qed

section \<open>Datagrams\<close>

text \<open>The buffer for datagrams changes, and nothing else.\<close>

lemma udp_cbufs_ok:
  assumes ok: "cbufs_ok R h c fs" and m: "buf_ok h' m (refs (cl_out c) + shared_refs R c fs)"
    and keep: "keeps_bufs (refs (cl_out c) + shared_refs R c fs) h h'"
    and sub: "\<forall>a \<in># refs m. a \<in># refs (cl_out c) + shared_refs R c fs \<longrightarrow> a \<in># refs (base (cl_udp c))"
    and u: "base u = m"
  shows "cbufs_ok R h' (c\<lparr>cl_udp := u\<rparr>) fs"
proof -
  let ?o = "refs (cl_out c)" and ?S = "shared_refs R c fs"
  have sh: "shared_refs R (c\<lparr>cl_udp := u\<rparr>) fs = ?S" by (simp add: shared_refs_def)
  have od: "set_mset ?o \<inter> (set_mset (refs (base (cl_udp c))) \<union> set_mset ?S) = {}"
    "set_mset (refs (base (cl_udp c))) \<inter> set_mset ?S = {}"
    using ok unfolding cbufs_ok_def set_mset_union by blast+
  have "set_mset ?o \<inter> (set_mset (refs m) \<union> set_mset ?S) = {}"
    by (rule disjoint_fresh [OF od(1)]) (use sub in simp)
  moreover have "set_mset (refs m) \<inter> set_mset ?S = {}" using sub od(2) by (auto simp: disjoint_iff)
  moreover have "futs_ok h' (cl_in c) fs"
    by (rule futs_ok_keeps [OF _ keeps_bufs_mono [OF keep]]) (use ok in \<open>auto simp: cbufs_ok_def shared_refs_def\<close>)
  moreover have "wf_marshal h' (cl_out c)" "wf_marshal h' (cl_in c)"
    using keeps_bufsD [OF keep, of "cl_out c"] keeps_bufsD [OF keep, of "cl_in c"] ok by (auto simp: cbufs_ok_def shared_refs_def)
  ultimately show ?thesis using m u by (simp add: cbufs_ok_def sh buf_ok_def ac_simps)
qed

lemma udp_message_ok:
  fixes rpc_id :: i32
  assumes ok: "cli_ok R s p" and c: "cs_clients s p = Some c"
    and u: "length (buf (cl_udp c)) = max_udp_packet_size" "write_cnt (base (cl_udp c)) = 0" "bytes (cs_heap s) (base (cl_udp c)) = []"
    and put: "wire_put valid enc put" "valid v"
  defines "d \<equiv> packet (to_le 4 rpc_id @ enc v)"
  shows "\<exists>s1 s2 s3 u'. begin_udp_request p rpc_id s = Inr s1 \<and> udp_request_put put p v s1 = Inr s2
    \<and> end_udp_request p s2 = Inr (if length d \<le> max_udp_packet_size then (0, Some d, s3) else (E2BIG, None, s3))
    \<and> cli_ok R s3 p \<and> cs_clients s3 = (cs_clients s)(p \<mapsto> c\<lparr>cl_udp := u', cl_udp_bmark := None\<rparr>)
    \<and> bytes (cs_heap s3) (base u') = (if length d \<le> max_udp_packet_size then [] else d) \<and> write_cnt (base u') = 0
    \<and> length (buf u') = max_udp_packet_size \<and> cs_poll s3 = cs_poll s \<and> cs_futures s3 = cs_futures s"
proof -
  let ?h = "cs_heap s" and ?b = "base (cl_udp c)"
  have bo: "cbufs_ok R ?h c (cs_futures s)" using ok c by (simp add: cli_ok_def)
  define Q where "Q = refs (cl_out c) + shared_refs R c (cs_futures s)"
  have ub: "buf_ok ?h ?b Q" using bo by (simp add: cbufs_ok_def buf_ok_def Q_def ac_simps)
  obtain bm m1 h1 where b: "set_bookmark ?h ?b 4 = Inr (bm, m1, h1)" "buf_ok h1 m1 Q"
    and fin: "\<And>b h2 m2. puts Q h1 m1 b h2 m2 \<Longrightarrow>
        \<exists>m3 h3. end_message h2 m2 (Some bm) = Inr (m3, h3) \<and> sends Q ?h ?b (packet b) h3 m3"
    using message_ok [OF ub u(2)] by blast
  obtain m2 h2 where i: "put_i32 h1 m1 rpc_id = Inr (m2, h2)" "puts Q h1 m1 (to_le 4 rpc_id) h2 m2"
    using i32.put_ok [OF b(2), of rpc_id] by auto
  obtain m3 h3 where v: "put h2 m2 v = Inr (m3, h3)" "puts Q h2 m2 (enc v) h3 m3"
    using put puts_buf_ok [OF i(2)] unfolding wire_put_def by blast
  obtain m4 h4 where e: "end_message h3 m3 (Some bm) = Inr (m4, h4)" "sends Q ?h ?b d h4 m4"
    using fin [OF puts_trans [OF i(2) v(2)]] by (auto simp: d_def)
  then have w4: "get_and_reset_write_cnt m3 = (write_cnt m3, m4)" "write_bookmark h3 bm (to_le 4 (write_cnt m3)) = Inr h4"
    by (auto simp: end_message_def get_and_reset_write_cnt_def rbind_eq_Inr_iff)
  let ?u4 = "(cl_udp c)\<lparr>base := m4\<rparr>"
  have d4: "bytes h4 m4 = d" "buf_ok h4 m4 Q" "write_cnt m4 = 0" using e(2) u(3) by (simp_all add: sends_def)
  have "udp_ok h4 ?u4 Q" using d4(2) u(1) by (simp add: udp_ok_def)
  have b4: "base ?u4 = m4" by simp
  from get_buf_ok [OF \<open>udp_ok h4 ?u4 Q\<close>, unfolded b4 d4(1)] obtain bp sz u5 h5 k where
    g: "get_buf h4 ?u4 = Inr (bp, sz, max_udp_packet_size < length d, u5, h5)" "udp_ok h5 u5 Q" "consumes Q h4 m4 k h5 (base u5)"
      "if max_udp_packet_size < length d then bp = None \<and> u5 = ?u4 \<and> h5 = h4
       else (\<exists>b. bp = Some b \<and> b = buf u5 \<and> take sz b = d) \<and> bytes h5 (base u5) = []"
    by (elim exE conjE) (rule that)
  define s1 where "s1 = set_cli p (c\<lparr>cl_udp := (cl_udp c)\<lparr>base := m2\<rparr>, cl_udp_bmark := Some bm\<rparr>) h2 s"
  define s2 where "s2 = set_cli p (c\<lparr>cl_udp_bmark := Some bm, cl_udp := (cl_udp c)\<lparr>base := m3\<rparr>\<rparr>) h3 s"
  define s3 where "s3 = set_cli p (c\<lparr>cl_udp := u5, cl_udp_bmark := None\<rparr>) h5 s"
  have "begin_udp_request p rpc_id s = Inr s1" using c b(1) i(1) by (simp add: begin_udp_request_def udp_put_def s1_def)
  moreover have "udp_request_put put p v s1 = Inr s2"
    using v(1) by (simp add: udp_request_put_def udp_put_def s1_def s2_def)
  moreover have "end_udp_request p s2 = Inr (if length d \<le> max_udp_packet_size then (0, Some d, s3) else (E2BIG, None, s3))"
    using w4 g(1,4) by (auto simp: end_udp_request_def s2_def s3_def Let_def)
  moreover have "cli_ok R s3 p"
  proof -
    have sets: "B \<subseteq> C \<union> S \<Longrightarrow> C \<inter> (A \<union> S) = {} \<Longrightarrow> A \<inter> S = {} \<Longrightarrow> A \<inter> B = {}" for A B C S :: "addr set" by blast
    have dis: "disjoint_bufs ?b b" if "set_mset (refs b) \<subseteq> set_mset Q" for b
      using sets [of "set_mset (refs b)" "set_mset (refs (cl_out c))" "set_mset (shared_refs R c (cs_futures s))" "set_mset (refs ?b)"]
        bo that by (simp add: cbufs_ok_def disjoint_bufs_def Q_def)
    have "keeps_bufs Q ?h h4" using e(2) dis unfolding keeps_bufs_def sends_def by blast
    moreover have "keeps_bufs Q h4 h5" using g(3) by (intro keeps_bufs_same) (simp add: consumes_def)
    ultimately have k: "keeps_bufs Q ?h h5" by (rule keeps_bufs_trans)
    have "set_mset (refs (base u5)) \<subseteq> set_mset (refs m4)" using g(3) by (simp add: consumes_def)
    then have "\<forall>a \<in># refs (base u5). a \<in># Q \<longrightarrow> a \<in># refs ?b" using e(2) unfolding sends_def by blast
    then have "cbufs_ok R h5 (c\<lparr>cl_udp := u5\<rparr>) (cs_futures s)"
      using udp_cbufs_ok [OF bo _ k [unfolded Q_def], of "base u5" u5] g(2) by (simp add: udp_ok_def Q_def)
    then show ?thesis
      using ok c cbufs_ok_cong [of "c\<lparr>cl_udp := u5, cl_udp_bmark := None\<rparr>" "c\<lparr>cl_udp := u5\<rparr>"] by (auto simp: cli_ok_def s3_def)
  qed
  moreover have "bytes h5 (base u5) = (if length d \<le> max_udp_packet_size then [] else d)" "write_cnt (base u5) = 0"
    "length (buf u5) = max_udp_packet_size"
    using g(2,3,4) d4 by (auto simp: udp_ok_def consumes_def split: if_splits)
  ultimately show ?thesis
    by (intro exI [of _ s1] exI [of _ s2] exI [of _ s3] exI [of _ u5]) (simp add: s3_def)
qed

section \<open>Futures\<close>

text \<open>A pending future right after it was entered, and the client it belongs to.\<close>

lemma entered_ok:
  assumes ok: "cli_ok R s p" and c: "cs_clients s p = Some c"
  defines "fu \<equiv> length (cs_futures s)" and "xid \<equiv> cl_xid_counter c"
  shows "cli_ok R ((set_cli p (c\<lparr>cl_out_l := True, cl_xid_counter := xid + 1,
      cl_pending_fu := (cl_pending_fu c)(xid \<mapsto> fu)\<rparr>) (cs_heap s) s)\<lparr>cs_futures := cs_futures s @ [Some (Future_new xid attr)]\<rparr>) p"
proof -
  let ?c = "c\<lparr>cl_out_l := True, cl_xid_counter := xid + 1, cl_pending_fu := (cl_pending_fu c)(xid \<mapsto> fu)\<rparr>"
  have "cbufs_ok R (cs_heap s) ?c (cs_futures s @ [Some (Future_new xid attr)])"
    using ok c new_future_bufs [of R "cs_heap s" ?c "cs_futures s" xid attr] cbufs_ok_cong [of ?c c] by (simp add: cli_ok_def)
  moreover have "pend_ok (cl_pending_fu ?c) (cs_futures s @ [Some (Future_new xid attr)])"
    using ok c by (auto simp: cli_ok_def pend_ok_def fu_def Future_new_def nth_append intro: less_SucI)
  ultimately show ?thesis using ok c by (auto simp: cli_ok_def)
qed

section \<open>A client to look at\<close>

definition demo_cstate :: "nat list cstate_scheme" where
  "demo_cstate = \<lparr>cs_heap = \<lparr>cells = Map.empty, brk = 1, garbage = (\<lambda>_ _. 0)\<rparr>, cs_poll = demo_poll0,
     cs_clients = Map.empty, cs_futures = [], \<dots> = []\<rparr>"

text \<open>A callback that takes a note of the future it was called for.\<close>

definition note_cb :: "nat list callbacks" where
  "note_cb c fu s = Inr (cstate.more_update (\<lambda>_. cstate.more s @ [fu]) s)"

lemma note_cb_quiet: "quiet note_cb"
  by (auto simp: quiet_def note_cb_def)

lemma demo_connect:
  "\<exists>s c. Client_connect 5 6 7 (Client_new 7 demo_cstate) = Inr (0, s) \<and> cli_ok {#} s 7 \<and> cs_clients s 7 = Some c
    \<and> cl_status c = CL_CONNECTED \<and> \<not> cl_out_l c \<and> cl_xid_counter c = 0 \<and> cl_pending_fu c = Map.empty
    \<and> cl_sock c = 5 \<and> bytes (cs_heap s) (cl_in c) = [] \<and> bytes (cs_heap s) (cl_out c) = []
    \<and> bytes (cs_heap s) (base (cl_udp c)) = [] \<and> length (buf (cl_udp c)) = max_udp_packet_size
    \<and> write_cnt (base (cl_udp c)) = 0
    \<and> registered (cs_poll s) 7 \<and> pobjs (cs_poll s) 7 = Some \<lparr>p_fd = 5, p_mode = READ, p_ref = 2\<rparr>
    \<and> cs_futures s = [] \<and> cstate.more s = []"
proof -
  have "PollMgr_new 1 (\<lambda>_. None) = Inr demo_poll0" by (simp add: PollMgr_new_def demo_poll0_def)
  then have "poll_ok demo_poll0" by (rule new_ok) simp_all
  moreover have "heap_ok (cs_heap demo_cstate) (futs_refs (cs_futures demo_cstate) + {#})"
    by (simp add: demo_cstate_def heap_ok_def futs_refs_def)
  moreover have "futs_ok (cs_heap demo_cstate) Marshal_new (cs_futures demo_cstate)"
    by (simp add: futs_ok_def demo_cstate_def)
  ultimately show ?thesis
    using client_connect_ok [of demo_cstate 7 5 6 "{#}"]
    by (auto simp: demo_cstate_def demo_poll0_def PollThread_new_def tid_of_def)
qed

lemma demo_pending:
  "\<exists>s c. cli_ok {#} s 7 \<and> cs_clients s 7 = Some c \<and> cl_status c = CL_CONNECTED \<and> \<not> cl_out_l c
    \<and> cl_pending_fu c = [0 \<mapsto> 0] \<and> cl_sock c = 5 \<and> bytes (cs_heap s) (cl_in c) = []
    \<and> registered (cs_poll s) 7 \<and> pobjs (cs_poll s) 7 = Some \<lparr>p_fd = 5, p_mode = READ, p_ref = 2\<rparr>
    \<and> cs_futures s = [Some ((Future_new 0 (Some 4))\<lparr>fu_ref := 2\<rparr>)] \<and> cstate.more s = ([] :: nat list)"
proof -
  obtain s :: "nat list cstate_scheme" and c where
    s: "cli_ok {#} s 7" "cs_clients s 7 = Some c" "cl_status c = CL_CONNECTED" "\<not> cl_out_l c" "cl_xid_counter c = 0" "cl_pending_fu c = Map.empty" "cl_sock c = 5" "bytes (cs_heap s) (cl_in c) = []"
    "registered (cs_poll s) 7" "pobjs (cs_poll s) 7 = Some \<lparr>p_fd = 5, p_mode = READ, p_ref = 2\<rparr>"
    "cs_futures s = []" "cstate.more s = []"
    using demo_connect by blast
  let ?c = "c\<lparr>cl_xid_counter := 1, cl_pending_fu := [0 \<mapsto> 0]\<rparr>" and ?f = "(Future_new 0 (Some 4))\<lparr>fu_ref := 2\<rparr>"
  let ?s = "(set_cli 7 ?c (cs_heap s) s)\<lparr>cs_futures := [Some ?f]\<rparr>"
  have "cbufs_ok {#} (cs_heap s) ?c [Some ?f]"
    using s(1,2,11) new_future_bufs [of "{#}" "cs_heap s" ?c "[]" 0 "Some 4"] cbufs_ok_cong [of ?c c]
      same_reply_bufs(1) [of 0 "[Some (Future_new 0 (Some 4))]" "Future_new 0 (Some 4)" ?f "{#}" "cs_heap s" ?c]
    by (simp add: cli_ok_def)
  then have "cli_ok {#} ?s 7"
    using s(1,2) by (simp add: cli_ok_def pend_ok_def Future_new_def)
  with s show ?thesis by (intro exI [of _ ?s] exI [of _ ?c]) simp
qed

section \<open>Properties\<close>

text \<open>
  C14. A request is one packet behind the bytes waiting to be sent, with the number of the request, the
  number of the method and the arguments as they were written; the number is the next one of the
  counter, and the new future, held by the caller and by the table of pending futures, is entered
  under it. The lock on the output buffer is free again at the end.
\<close>

theorem request_is_one_packet:
  assumes "cli_ok R s p" "cs_clients s p = Some c" "cl_status c = CL_CONNECTED" "\<not> cl_out_l c" "writes_args p w body"
  shows "\<exists>s1 s2 s3 m. begin_request Inr p rpc_id attr s = Inr (Some (length (cs_futures s)), s1)
    \<and> w s1 = Inr s2 \<and> end_request p s2 = Inr s3 \<and> cli_ok R s3 p
    \<and> cs_futures s3 = cs_futures s @ [Some ((Future_new (cl_xid_counter c) attr)\<lparr>fu_ref := 2\<rparr>)]
    \<and> cs_clients s3 = (cs_clients s)(p \<mapsto> c\<lparr>cl_out := m, cl_xid_counter := cl_xid_counter c + 1,
          cl_pending_fu := (cl_pending_fu c)(cl_xid_counter c \<mapsto> length (cs_futures s))\<rparr>)
    \<and> bytes (cs_heap s3) m
        = bytes (cs_heap s) (cl_out c) @ packet (enc_v64 (cl_xid_counter c) @ to_le 4 rpc_id @ body)"
  using request_ok [OF assms, of rpc_id attr] by blast

theorem request_is_one_packet_witness:
  "\<exists>s s1 s2 s3 c3. Client_connect 5 6 7 (Client_new 7 demo_cstate) = Inr (0, s)
     \<and> begin_request Inr 7 9 (Some 4) s = Inr (Some 0, s1) \<and> client_put put_v32 7 3 s1 = Inr s2
     \<and> end_request 7 s2 = Inr s3 \<and> cs_clients s3 7 = Some c3 \<and> cl_pending_fu c3 0 = Some 0
     \<and> bytes (cs_heap s3) (cl_out c3) = packet (enc_v64 0 @ to_le 4 (9 :: i32) @ enc_v32 3)"
proof -
  obtain s c where s: "Client_connect 5 6 7 (Client_new 7 demo_cstate) = Inr (0, s)" "cli_ok {#} s 7" "cs_clients s 7 = Some c"
    "cl_status c = CL_CONNECTED" "\<not> cl_out_l c" "cl_xid_counter c = 0" "bytes (cs_heap s) (cl_out c) = []" "cs_futures s = []"
    using demo_connect by blast
  have "writes_args 7 (client_put put_v32 7 3 :: nat list cstate_scheme \<Rightarrow> _) (enc_v32 3)"
    by (rule writes_arg) (rule v32.put_ok, simp_all)
  from request_is_one_packet [OF s(2-5) this, of 9 "Some 4"] s(1,6-8) show ?thesis by auto
qed

text \<open>
  C15. One readable event completes exactly the futures whose replies are complete with the bytes
  received so far: each gets the error code and the result bytes of its own reply, becomes ready
  unless it had timed out, loses the reference of the table of pending futures (and is deleted
  if that was the last), and leaves the table. All other futures keep their state and
  their replies, an incomplete packet stays for later. The loop ends: one turn more than there are bytes
  is enough.
\<close>

theorem replies_complete_their_futures:
  assumes "quiet cb" "cli_ok R s p" "cs_clients s p = Some c" "cl_status c = CL_CONNECTED"
    and "\<not> complete (bytes (cs_heap s) (cl_in c))"
  shows "\<exists>got fd'. rx fd = got @ rx fd' \<and> (delivers fd \<longrightarrow> rx fd' = []) \<and>
    (\<forall>qs rest. bytes (cs_heap s) (cl_in c) @ got = reply_stream qs rest \<and> distinct (map fst qs) \<and> \<not> complete rest
      \<and> length got < 2 ^ 32 \<and> (\<forall>q \<in> set qs. reply_ok_wire q \<and> cl_pending_fu c (fst q) \<noteq> None) \<longrightarrow>
      (\<exists>s' m. client_handle_read cb p fd s = Inr (s', fd') \<and> cli_ok R s' p
        \<and> cs_clients s' = (cs_clients s)(p \<mapsto> c\<lparr>cl_in := m, cl_pending_fu := cl_pending_fu c |` (- (fst ` set qs))\<rparr>)
        \<and> bytes (cs_heap s') m = rest \<and> bytes (cs_heap s') (cl_out c) = bytes (cs_heap s) (cl_out c)
        \<and> length (cs_futures s') = length (cs_futures s)
        \<and> (\<forall>q \<in> set qs. fulfilled (cs_heap s') (cl_pending_fu c) (cs_futures s) (cs_futures s') q)
        \<and> (\<forall>i. (\<forall>q \<in> set qs. cl_pending_fu c (fst q) \<noteq> Some i) \<longrightarrow>
              untouched (cs_heap s) (cs_futures s) (cs_heap s') (cs_futures s') i)))"
  by (rule client_handle_read_ok [OF assms])

theorem replies_complete_their_futures_witness:
  "\<exists>s s' fd' f. cs_futures s = [Some ((Future_new 0 (Some 4))\<lparr>fu_ref := 2\<rparr>)]
     \<and> client_handle_read note_cb 7 \<lparr>rx = reply_stream [(0, 3, [1, 2])] [9], rd_sched = replicate 30 100\<rparr> s = Inr (s', fd')
     \<and> cs_futures s' ! 0 = Some f \<and> fu_error_code f = 3 \<and> bytes (cs_heap s') (fu_reply f) = [1, 2] \<and> fu_ready f \<and> fu_ref f = 1"
proof -
  let ?qs = "[(0, 3, [1, 2])] :: wire_reply list"
  let ?fd = "\<lparr>rx = reply_stream ?qs [9], rd_sched = replicate 30 100\<rparr> :: in_fd"
  obtain s :: "nat list cstate_scheme" and c where s: "cli_ok {#} s 7" "cs_clients s 7 = Some c" "cl_status c = CL_CONNECTED"
    "cl_pending_fu c = [0 \<mapsto> 0]" "bytes (cs_heap s) (cl_in c) = []" "cs_futures s = [Some ((Future_new 0 (Some 4))\<lparr>fu_ref := 2\<rparr>)]"
    using demo_pending by blast
  have nc: "\<not> complete (bytes (cs_heap s) (cl_in c))" "\<not> complete [9]" by (simp_all add: s(5) complete_def)
  have v: "v32_val_size 3 = 1" "val_size 0 = 1" "long_enough 0" by (simp_all add: v32_val_size_def val_size_def long_enough_def)
  have len: "length (rx ?fd) = 9" by (simp add: reply_stream_def packet_def enc_reply_def length_enc_v64 length_enc_v32 v)
  have wire: "\<forall>q \<in> set ?qs. reply_ok_wire q \<and> cl_pending_fu c (fst q) \<noteq> None"
    using v by (simp add: reply_ok_wire_def enc_reply_def short_len_def length_enc_v64 length_enc_v32 s(4))
  obtain got and fd' :: in_fd where g: "rx ?fd = got @ rx fd'" "delivers ?fd \<longrightarrow> rx fd' = []"
    and all: "\<forall>qs rest. bytes (cs_heap s) (cl_in c) @ got = reply_stream qs rest \<and> distinct (map fst qs) \<and> \<not> complete rest
      \<and> length got < 2 ^ 32 \<and> (\<forall>q \<in> set qs. reply_ok_wire q \<and> cl_pending_fu c (fst q) \<noteq> None) \<longrightarrow>
      (\<exists>s' m. client_handle_read note_cb 7 ?fd s = Inr (s', fd') \<and> cli_ok {#} s' 7
        \<and> cs_clients s' = (cs_clients s)(7 \<mapsto> c\<lparr>cl_in := m, cl_pending_fu := cl_pending_fu c |` (- (fst ` set qs))\<rparr>)
        \<and> bytes (cs_heap s') m = rest \<and> bytes (cs_heap s') (cl_out c) = bytes (cs_heap s) (cl_out c)
        \<and> length (cs_futures s') = length (cs_futures s)
        \<and> (\<forall>q \<in> set qs. fulfilled (cs_heap s') (cl_pending_fu c) (cs_futures s) (cs_futures s') q)
        \<and> (\<forall>i. (\<forall>q \<in> set qs. cl_pending_fu c (fst q) \<noteq> Some i) \<longrightarrow>
              untouched (cs_heap s) (cs_futures s) (cs_heap s') (cs_futures s') i))"
    using replies_complete_their_futures [OF note_cb_quiet s(1-3) nc(1), of ?fd] by (elim exE conjE) (rule that)
  have "delivers ?fd" using len by (simp add: delivers_def)
  then have got: "got = reply_stream ?qs [9]" using g by simp
  have pre: "bytes (cs_heap s) (cl_in c) @ got = reply_stream ?qs [9] \<and> distinct (map fst ?qs) \<and> \<not> complete [9]
      \<and> length got < 2 ^ 32 \<and> (\<forall>q \<in> set ?qs. reply_ok_wire q \<and> cl_pending_fu c (fst q) \<noteq> None)"
    using len wire nc(2) by (simp add: s(5) got)
  obtain s' where s': "client_handle_read note_cb 7 ?fd s = Inr (s', fd')"
    "fulfilled (cs_heap s') (cl_pending_fu c) (cs_futures s) (cs_futures s') (0, 3, [1, 2])"
    using mp [OF all [THEN spec, THEN spec, of ?qs "[9]"] pre] by auto
  have "\<exists>f. cs_futures s' ! 0 = Some f \<and> fu_error_code f = 3 \<and> bytes (cs_heap s') (fu_reply f) = [1, 2] \<and> fu_ready f \<and> fu_ref f = 1"
    using s'(2) by (cases "cs_futures s' ! 0") (simp_all add: fulfilled_def s(4,6) Future_new_def)
  with s(6) s'(1) show ?thesis by blast
qed

text \<open>
  C16. Closing a client completes everything that was pending: every pending future gets the error
  \<open>ENOTCONN\<close>, becomes ready unless it had timed out, and loses the reference of the table, in whatever order
  the hash table is visited; the table is empty afterwards, the client has left the poll manager
  and the other futures are as before. Closing again changes nothing.
\<close>

theorem client_close_completes_all:
  assumes "quiet cb" "visits order" "cli_ok R s p" "cs_clients s p = Some c" "cl_status c = CL_CONNECTED"
    and "registered (cs_poll s) p" "pobjs (cs_poll s) p = Some q" "p_fd q = cl_sock c"
  shows "\<exists>s'. Client_close cb order p s = Inr s' \<and> cli_ok R s' p \<and> \<not> registered (cs_poll s') p
    \<and> cs_clients s' = (cs_clients s)(p \<mapsto> c\<lparr>cl_status := CL_CLOSED, cl_pending_fu := Map.empty\<rparr>)
    \<and> (\<forall>x fu. cl_pending_fu c x = Some fu \<longrightarrow> (\<exists>f. cs_futures s ! fu = Some f
          \<and> (case cs_futures s' ! fu of None \<Rightarrow> fu_ref f = 1
             | Some g \<Rightarrow> fu_error_code g = ENOTCONN \<and> fu_ready g = (\<not> fu_timed_out f) \<and> fu_ref g = fu_ref f - 1)))
    \<and> (\<forall>i. i \<notin> ran (cl_pending_fu c) \<longrightarrow> untouched (cs_heap s) (cs_futures s) (cs_heap s') (cs_futures s') i)
    \<and> Client_close cb order p s' = Inr s'"
proof -
  obtain s' where s': "Client_close cb order p s = Inr s'" "cli_ok R s' p" "\<not> registered (cs_poll s') p"
    "cs_clients s' = (cs_clients s)(p \<mapsto> c\<lparr>cl_status := CL_CLOSED, cl_pending_fu := Map.empty\<rparr>)"
    "\<forall>fu \<in> ran (cl_pending_fu c). \<exists>f. cs_futures s ! fu = Some f \<and> cs_futures s' ! fu = completed f ENOTCONN (fu_reply f)"
    "\<forall>i. i \<notin> ran (cl_pending_fu c) \<longrightarrow> untouched (cs_heap s) (cs_futures s) (cs_heap s') (cs_futures s') i"
    using Client_close_ok [OF assms] by (elim exE conjE) (rule that)
  have "\<exists>f. cs_futures s ! fu = Some f \<and> (case cs_futures s' ! fu of None \<Rightarrow> fu_ref f = 1
      | Some g \<Rightarrow> fu_error_code g = ENOTCONN \<and> fu_ready g = (\<not> fu_timed_out f) \<and> fu_ref g = fu_ref f - 1)"
    if "cl_pending_fu c x = Some fu" for x fu
  proof -
    have "fu \<in> ran (cl_pending_fu c)" using that by (auto simp: ran_def)
    with s'(5) obtain f where "cs_futures s ! fu = Some f" "cs_futures s' ! fu = completed f ENOTCONN (fu_reply f)" by blast
    then show ?thesis by (auto simp: completed_def released_def)
  qed
  moreover have "Client_close cb order p s' = Inr s'"
  proof -
    have "order {} = []" using assms(2) unfolding visits_def by (metis finite.emptyI set_empty)
    moreover have "set_cli p (c\<lparr>cl_status := CL_CLOSED, cl_pending_fu := Map.empty\<rparr>) (cs_heap s') s' = s'"
      by (rule cstate.equality) (simp_all add: set_cli_def s'(4))
    ultimately show ?thesis using s'(4) by (simp add: Client_close_def invalidate_pending_futures_def)
  qed
  ultimately show ?thesis using s' by blast
qed

theorem client_close_completes_all_witness:
  "\<exists>s s' g. cs_futures s = [Some ((Future_new 0 (Some 4))\<lparr>fu_ref := 2\<rparr>)]
     \<and> Client_close note_cb sorted_list_of_set 7 s = Inr s' \<and> cs_futures s' ! 0 = Some g
     \<and> fu_error_code g = ENOTCONN \<and> fu_ready g \<and> fu_ref g = 1"
proof -
  obtain s :: "nat list cstate_scheme" and c where s: "cli_ok {#} s 7" "cs_clients s 7 = Some c" "cl_status c = CL_CONNECTED"
    "cl_pending_fu c = [0 \<mapsto> 0]" "cl_sock c = 5" "registered (cs_poll s) 7"
    "pobjs (cs_poll s) 7 = Some \<lparr>p_fd = 5, p_mode = READ, p_ref = 2\<rparr>"
    "cs_futures s = [Some ((Future_new 0 (Some 4))\<lparr>fu_ref := 2\<rparr>)]"
    using demo_pending by blast
  have "visits sorted_list_of_set" by (simp add: visits_def)
  from client_close_completes_all [OF note_cb_quiet this s(1-3,6,7)] s(4,5) obtain s' where
    s': "Client_close note_cb sorted_list_of_set 7 s = Inr s'" "\<exists>f. cs_futures s ! 0 = Some f \<and> (case cs_futures s' ! 0 of None \<Rightarrow> fu_ref f = 1
      | Some g \<Rightarrow> fu_error_code g = ENOTCONN \<and> fu_ready g = (\<not> fu_timed_out f) \<and> fu_ref g = fu_ref f - 1)"
    by auto
  then have "\<exists>g. cs_futures s' ! 0 = Some g \<and> fu_error_code g = ENOTCONN \<and> fu_ready g \<and> fu_ref g = 1"
    by (cases "cs_futures s' ! 0") (simp_all add: s(8) Future_new_def)
  with s(8) s'(1) show ?thesis by blast
qed

text \<open>
  C26. The second look at \<open>status_\<close> in \<open>begin_request\<close> comes too late: when another thread closes the client
  between the two, the pending futures are released, the new one among them, which nobody else
  holds yet; the code then asks the deleted future for its number.
\<close>

theorem close_inside_begin_request_uses_freed_future:
  assumes "quiet cb" "visits order" "cli_ok R s p" "cs_clients s p = Some c" "cl_status c = CL_CONNECTED" "\<not> cl_out_l c"
    and "registered (cs_poll s) p" "pobjs (cs_poll s) p = Some q" "p_fd q = cl_sock c"
  shows "begin_request (Client_close cb order p) p rpc_id attr s = Inl UseAfterFree"
proof -
  define fu where "fu = length (cs_futures s)"
  define xid where "xid = cl_xid_counter c"
  define c1 where "c1 = c\<lparr>cl_out_l := True, cl_xid_counter := xid + 1, cl_pending_fu := (cl_pending_fu c)(xid \<mapsto> fu)\<rparr>"
  define s1 where "s1 = (set_cli p c1 (cs_heap s) s)\<lparr>cs_futures := cs_futures s @ [Some (Future_new xid attr)]\<rparr>"
  have ok1: "cli_ok R s1 p" using entered_ok [OF assms(3,4), of attr] by (simp add: s1_def c1_def xid_def fu_def)
  have c1: "cs_clients s1 p = Some c1" "cl_status c1 = CL_CONNECTED" "registered (cs_poll s1) p"
    "pobjs (cs_poll s1) p = Some q" "p_fd q = cl_sock c1"
    using assms(5,7-9) by (simp_all add: s1_def c1_def)
  obtain s2 where s2: "Client_close cb order p s1 = Inr s2"
    "cs_clients s2 = (cs_clients s1)(p \<mapsto> c1\<lparr>cl_status := CL_CLOSED, cl_pending_fu := Map.empty\<rparr>)"
    "length (cs_futures s2) = length (cs_futures s1)"
    "\<forall>fu \<in> ran (cl_pending_fu c1). \<exists>f. cs_futures s1 ! fu = Some f \<and> cs_futures s2 ! fu = completed f ENOTCONN (fu_reply f)"
    using Client_close_ok [OF assms(1,2) ok1 c1] by (elim exE conjE) (rule that)
  have "fu \<in> ran (cl_pending_fu c1)" by (auto simp: c1_def ran_def)
  from bspec [OF s2(4) this] have "cs_futures s2 ! fu = completed (Future_new xid attr) ENOTCONN Marshal_new"
    by (auto simp: s1_def fu_def Future_new_def)
  then have "fut fu s2 = Inl UseAfterFree"
    using s2(3) by (simp add: fut_def completed_def released_def Future_new_def s1_def fu_def)
  with assms(4-6) s2(1,2) show ?thesis
    unfolding begin_request_def
    by (simp add: Let_def xid_def [symmetric] fu_def [symmetric] c1_def [symmetric] s1_def [symmetric])
qed

theorem close_inside_begin_request_uses_freed_future_witness:
  "\<exists>s. Client_connect 5 6 7 (Client_new 7 demo_cstate) = Inr (0, s)
     \<and> begin_request (Client_close note_cb sorted_list_of_set 7) 7 9 None s = Inl UseAfterFree"
proof -
  obtain s c where s: "Client_connect 5 6 7 (Client_new 7 demo_cstate) = Inr (0, s)" "cli_ok {#} s 7" "cs_clients s 7 = Some c"
    "cl_status c = CL_CONNECTED" "\<not> cl_out_l c" "cl_sock c = 5" "registered (cs_poll s) 7"
    "pobjs (cs_poll s) 7 = Some \<lparr>p_fd = 5, p_mode = READ, p_ref = 2\<rparr>"
    using demo_connect by blast
  have "visits sorted_list_of_set" by (simp add: visits_def)
  from close_inside_begin_request_uses_freed_future [OF note_cb_quiet this s(2-5,7,8)] s(1,6) show ?thesis by simp
qed

text \<open>
  C28. A reply whose number is not in the table (the code expects that, for a future that timed out)
  loses its size and its header, but its body stays in front of the next packet: the
  stream is cut at the wrong place from then on unless the body was empty.
\<close>

theorem unknown_reply_leaves_its_body:
  assumes "cli_ok R s p" "cs_clients s p = Some c" "cl_pending_fu c x = None" "long_enough x"
    and "bytes (cs_heap s) (cl_in c) = packet (enc_v64 x @ enc_v32 e @ body) @ rest"
  shows "\<exists>s' m. take_reply cb p s = Inr s' \<and> cli_ok R s' p \<and> cs_clients s' = (cs_clients s)(p \<mapsto> c\<lparr>cl_in := m\<rparr>)
    \<and> bytes (cs_heap s') m = body @ rest \<and> cs_futures s' = cs_futures s"
proof -
  let ?h = "cs_heap s" and ?fs = "cs_futures s"
  let ?Q = "refs (cl_out c) + (refs (base (cl_udp c)) + (futs_refs ?fs + R))"
  have bo: "cbufs_ok R ?h c ?fs" using assms(1,2) by (simp add: cli_ok_def)
  have "buf_ok ?h (cl_in c) ?Q" using bo by (simp add: cbufs_ok_def buf_ok_def shared_refs_def ac_simps)
  from reply_header_ok [OF this assms(5,4)] obtain m1 h1 m2 h2 m3 h3 k where
    hd: "Marshal_read ?h (cl_in c) 4 = Inr (to_le 4 (of_nat (length (enc_v64 x @ enc_v32 e @ body)) :: i32), m1, h1)"
      "get_v64 h1 m1 = Inr (x, m2, h2)" "get_v32 h2 m2 = Inr (e, m3, h3)" "consumes ?Q ?h (cl_in c) k h3 m3"
      "bytes h3 m3 = body @ rest" by blast
  let ?s = "set_cli p (c\<lparr>cl_in := m3\<rparr>) h3 s"
  have "take_reply cb p s = Inr ?s" using assms(2,3) hd(1-3) by (simp add: take_reply_def)
  moreover have "cli_ok R ?s p" using assms(1,2) consume_in_ok(1) [OF bo hd(4)] by (simp add: cli_ok_def)
  ultimately show ?thesis using hd(5) by (intro exI [of _ ?s] exI [of _ m3]) simp
qed

theorem unknown_reply_leaves_its_body_witness:
  "\<exists>s c s' m. cs_clients s 7 = Some c \<and> bytes (cs_heap s) (cl_in c) = packet (enc_v64 3 @ enc_v32 0 @ [8, 8]) @ [9]
     \<and> take_reply note_cb 7 s = Inr s' \<and> cs_clients s' 7 = Some (c\<lparr>cl_in := m\<rparr>) \<and> bytes (cs_heap s') m = [8, 8, 9]"
proof -
  obtain s :: "nat list cstate_scheme" and c where s: "cli_ok {#} s 7" "cs_clients s 7 = Some c" "cl_pending_fu c = [0 \<mapsto> 0]"
    "bytes (cs_heap s) (cl_in c) = []"
    using demo_pending by blast
  let ?b = "packet (enc_v64 3 @ enc_v32 0 @ [8, 8]) @ [9]"
  let ?fd = "\<lparr>rx = ?b, rd_sched = replicate 30 100\<rparr> :: in_fd"
  have v: "v32_val_size 0 = 1" "val_size 3 = 1" "long_enough 3" by (simp_all add: v32_val_size_def val_size_def long_enough_def)
  have "length (rx ?fd) = 9" by (simp add: packet_def length_enc_v64 length_enc_v32 v)
  then have d: "delivers ?fd" by (simp add: delivers_def)
  have bo: "cbufs_ok {#} (cs_heap s) c (cs_futures s)" using s(1,2) by (simp add: cli_ok_def)
  obtain got m h and fd' :: in_fd where r: "rx ?fd = got @ rx fd'" "delivers ?fd \<longrightarrow> rx fd' = []"
    "bytes h m = bytes (cs_heap s) (cl_in c) @ got" "cbufs_ok {#} h (c\<lparr>cl_in := m\<rparr>) (cs_futures s)"
    using client_receive_ok [OF bo, of ?fd] by (elim exE conjE) (rule that)
  let ?s = "set_cli 7 (c\<lparr>cl_in := m\<rparr>) h s"
  have ok: "cli_ok {#} ?s 7" using s(1,2) r(4) by (simp add: cli_ok_def)
  have "got = ?b" using r(1,2) d by simp
  then have b: "bytes (cs_heap ?s) (cl_in (c\<lparr>cl_in := m\<rparr>)) = ?b" using r(3) s(4) by simp
  from unknown_reply_leaves_its_body [OF ok _ _ v(3) b, of note_cb] s(3) obtain s' m' where
    "take_reply note_cb 7 ?s = Inr s'" "cs_clients s' = (cs_clients ?s)(7 \<mapsto> c\<lparr>cl_in := m'\<rparr>)" "bytes (cs_heap s') m' = [8, 8, 9]"
    by auto
  with b show ?thesis by (intro exI [of _ ?s] exI [of _ "c\<lparr>cl_in := m\<rparr>"] exI [of _ s'] exI [of _ m']) simp
qed



text \<open>
  C30. A request by UDP becomes one datagram: a packet with the number of the method and the
  arguments, or the error \<open>E2BIG\<close> when that is more than 65507 bytes. In the second case the
  request stays in the buffer.
\<close>

theorem udp_request_is_one_datagram:
  fixes rpc_id :: i32
  assumes "cli_ok R s p" "cs_clients s p = Some c" "length (buf (cl_udp c)) = max_udp_packet_size"
    and "write_cnt (base (cl_udp c)) = 0" "bytes (cs_heap s) (base (cl_udp c)) = []"
    and "wire_put valid enc put" "valid v"
  shows "\<exists>s1 s2 s3 u. begin_udp_request p rpc_id s = Inr s1 \<and> udp_request_put put p v s1 = Inr s2
    \<and> end_udp_request p s2 = Inr (if length (packet (to_le 4 rpc_id @ enc v)) \<le> max_udp_packet_size
         then (0, Some (packet (to_le 4 rpc_id @ enc v)), s3) else (E2BIG, None, s3))
    \<and> cli_ok R s3 p \<and> cs_clients s3 = (cs_clients s)(p \<mapsto> c\<lparr>cl_udp := u, cl_udp_bmark := None\<rparr>)
    \<and> bytes (cs_heap s3) (base u) = (if length (packet (to_le 4 rpc_id @ enc v)) \<le> max_udp_packet_size
         then [] else packet (to_le 4 rpc_id @ enc v))"
  using udp_message_ok [OF assms, of rpc_id] by blast

theorem udp_request_is_one_datagram_witness:
  "\<exists>s s1 s2 s3. Client_connect 5 6 7 (Client_new 7 demo_cstate) = Inr (0, s) \<and> begin_udp_request 7 9 s = Inr s1
     \<and> udp_request_put put_i32 7 3 s1 = Inr s2
     \<and> end_udp_request 7 s2 = Inr (0, Some (packet (to_le 4 (9 :: i32) @ to_le 4 (3 :: i32))), s3)"
proof -
  obtain s c where s: "Client_connect 5 6 7 (Client_new 7 demo_cstate) = Inr (0, s)" "cli_ok {#} s 7" "cs_clients s 7 = Some c"
    "length (buf (cl_udp c)) = max_udp_packet_size" "write_cnt (base (cl_udp c)) = 0" "bytes (cs_heap s) (base (cl_udp c)) = []"
    using demo_connect by blast
  from udp_request_is_one_datagram [OF s(2-6) i32.put, of 9 3] s(1) show ?thesis
    by (auto simp: max_udp_packet_size_def packet_def)
qed

end
