(* ===== verification/Client_Pool.thy ===== *)
theory Client_Pool
  imports Client_Properties Poll_Frames
begin

text \<open>
  The pool of connections, class \<open>ClientPool\<close> of \<open>rpc/client.cc\<close>: for each address an array of clients that were connected
  together, from which \<open>get_client\<close> picks one at random. \<open>slots i\<close> says what the \<open>i\<close>-th round of the loop meets: the address of the
  new client, and the descriptors that connecting gives it, -1 for none. \<open>r\<close> is the random number.
\<close>

section \<open>Definitions\<close>

type_synonym slot = "pid \<times> int \<times> int"

record client_pool =
  cp_cache :: "string \<Rightarrow> pid list option"
  cp_parallel :: int

definition ClientPool_new :: "int \<Rightarrow> client_pool res" where
  "ClientPool_new parallel_connections =
     rbind (verify (0 < parallel_connections)) (\<lambda>_. Inr \<lparr>cp_cache = Map.empty, cp_parallel = parallel_connections\<rparr>)"

text \<open>The loop that connects: whether all went well, and the clients created, the last one first.\<close>

fun connect_clients :: "slot list \<Rightarrow> pid list \<Rightarrow> 'u cstate_scheme \<Rightarrow> (bool \<times> pid list \<times> 'u cstate_scheme) res" where
  "connect_clients [] made s = Inr (True, made, s)"
| "connect_clients ((p, tcp, udp) # sls) made s =
     rbind (Client_connect tcp udp p (Client_new p s)) (\<lambda>(e, s1).
       if e \<noteq> 0 then Inr (False, p # made, s1) else connect_clients sls (p # made) s1)"

fun close_clients :: "'u callbacks \<Rightarrow> (i64 set \<Rightarrow> i64 list) \<Rightarrow> pid list \<Rightarrow> 'u cstate_scheme \<Rightarrow> 'u cstate_scheme res" where
  "close_clients cb order [] s = Inr s"
| "close_clients cb order (p # ps) s = rbind (close_and_release cb order p s) (close_clients cb order ps)"

definition pick :: "32 word \<Rightarrow> client_pool \<Rightarrow> pid list \<Rightarrow> pid" where
  "pick r pool clients = clients ! (unat r mod nat (cp_parallel pool))"

definition get_client ::
  "'u callbacks \<Rightarrow> (i64 set \<Rightarrow> i64 list) \<Rightarrow> (nat \<Rightarrow> slot) \<Rightarrow> 32 word \<Rightarrow> string \<Rightarrow> client_pool \<times> 'u cstate_scheme \<Rightarrow>
     (pid option \<times> client_pool \<times> 'u cstate_scheme) res" where
  "get_client cb order slots r addr ps = (let (pool, s) = ps in
     case cp_cache pool addr of
         Some clients \<Rightarrow> Inr (Some (pick r pool clients), pool, s)
       | None \<Rightarrow>
           rbind (connect_clients (map slots [0..<nat (cp_parallel pool)]) [] s) (\<lambda>(ok, made, s1).
             if ok then
               Inr (Some (pick r pool (rev made)), pool\<lparr>cp_cache := (cp_cache pool)(addr \<mapsto> rev made)\<rparr>, s1)
             else rbind (close_clients cb order made s1) (\<lambda>s2. Inr (None, pool, s2))))"

text \<open>The destructor goes through the addresses in the order of the map.\<close>

fun delete_cached ::
  "'u callbacks \<Rightarrow> (i64 set \<Rightarrow> i64 list) \<Rightarrow> string list \<Rightarrow> client_pool \<Rightarrow> 'u cstate_scheme \<Rightarrow> 'u cstate_scheme res" where
  "delete_cached cb order [] pool s = Inr s"
| "delete_cached cb order (a # as) pool s =
     rbind (case cp_cache pool a of None \<Rightarrow> Inr s | Some clients \<Rightarrow> close_clients cb order clients s)
       (delete_cached cb order as pool)"

definition ClientPool_delete ::
  "'u callbacks \<Rightarrow> (i64 set \<Rightarrow> i64 list) \<Rightarrow> (string set \<Rightarrow> string list) \<Rightarrow> client_pool \<Rightarrow> 'u cstate_scheme \<Rightarrow> 'u cstate_scheme res" where
  "ClientPool_delete cb order sorted_addrs pool s = delete_cached cb order (sorted_addrs (dom (cp_cache pool))) pool s"

section \<open>One client among others\<close>

text \<open>A client that was connected and has no request under way; one that was closed and given up.\<close>

definition idle_client :: "'u cstate_scheme \<Rightarrow> pid \<Rightarrow> bool" where
  "idle_client s p \<longleftrightarrow> spare 0 (cs_poll s) p \<and> registered (cs_poll s) p
     \<and> (\<exists>c q. cs_clients s p = Some c \<and> cl_status c = CL_CONNECTED \<and> cl_pending_fu c = Map.empty
          \<and> pobjs (cs_poll s) p = Some q \<and> p_fd q = cl_sock c \<and> p_ref q = 2)"

definition given_up :: "'u cstate_scheme \<Rightarrow> pid \<Rightarrow> bool" where
  "given_up s p \<longleftrightarrow> \<not> registered (cs_poll s) p \<and> (case cs_clients s p of
       None \<Rightarrow> pobjs (cs_poll s) p = None
     | Some c \<Rightarrow> cl_status c = CL_CLOSED \<and> (\<exists>q. pobjs (cs_poll s) p = Some q \<and> p_ref q = 1))"

text \<open>Everything but the clients \<open>P\<close> is as before.\<close>

definition clients_kept :: "pid set \<Rightarrow> 'u cstate_scheme \<Rightarrow> 'u cstate_scheme \<Rightarrow> bool" where
  "clients_kept P s s' \<longleftrightarrow> poll_ok (cs_poll s') \<and> others_kept P (cs_poll s) (cs_poll s')
     \<and> (\<forall>x. x \<notin> P \<longrightarrow> cs_clients s' x = cs_clients s x) \<and> cs_heap s' = cs_heap s \<and> cs_futures s' = cs_futures s
     \<and> cstate.more s' = cstate.more s"

lemma clients_kept_refl: "poll_ok (cs_poll s) \<Longrightarrow> clients_kept P s s"
  by (simp add: clients_kept_def)

lemma clients_kept_trans: "clients_kept P s s1 \<Longrightarrow> clients_kept Q s1 s2 \<Longrightarrow> clients_kept (P \<union> Q) s s2"
  using others_kept_trans by (auto simp: clients_kept_def)

lemma clients_kept_mono: "clients_kept P s s' \<Longrightarrow> P \<subseteq> Q \<Longrightarrow> clients_kept Q s s'"
  using others_kept_mono by (auto simp: clients_kept_def)

lemma clients_keptD:
  assumes "clients_kept P s s'" "poll_ok (cs_poll s)" "x \<notin> P"
  shows "idle_client s' x = idle_client s x" "given_up s' x = given_up s x"
proof -
  have c: "cs_clients s' x = cs_clients s x" using assms(1,3) by (simp add: clients_kept_def)
  have "others_kept P (cs_poll s) (cs_poll s')" "poll_ok (cs_poll s')" using assms(1) by (simp_all add: clients_kept_def)
  note o = others_keptD [OF this(1) assms(2) this(2) assms(3)]
  show "idle_client s' x = idle_client s x" by (simp add: idle_client_def c o)
  show "given_up s' x = given_up s x" by (simp add: given_up_def c o split: option.split)
qed

lemma visits_none: "visits order \<Longrightarrow> order {} = []"
  unfolding visits_def by (metis finite.emptyI set_empty)

lemma close_idle:
  assumes ok: "poll_ok (cs_poll s)" and idle: "idle_client s p" and v: "visits order"
  shows "\<exists>s'. close_and_release cb order p s = Inr s' \<and> given_up s' p \<and> clients_kept {p} s s'"
proof -
  obtain c q where c: "cs_clients s p = Some c" "cl_status c = CL_CONNECTED" "cl_pending_fu c = Map.empty"
    "pobjs (cs_poll s) p = Some q" "p_fd q = cl_sock c" "p_ref q = 2" "spare 0 (cs_poll s) p" "registered (cs_poll s) p"
    using idle by (auto simp: idle_client_def)
  note none = visits_none [OF v]
  obtain w1 where w1: "PollMgr_remove p (cs_poll s) = Inr w1" "spare 0 w1 p" "pobjs w1 = pobjs (cs_poll s)"
    "mode (poll_threads w1 ! tid_of w1 (cl_sock c)) (cl_sock c) = None" "\<not> registered w1 p"
    using remove_spare [OF c(7,8,4)] c(5) by auto
  let ?w2 = "os_close (cl_sock c) w1"
  have q1: "pobjs w1 p = Some q" using w1(3) c(4) by simp
  note w2 = os_close_spare [OF w1(2) q1 w1(4)]
  have nreg: "\<not> registered ?w2 p" using os_close_registered [OF w1(2)] w1(5) by blast
  let ?w3 = "?w2\<lparr>pobjs := (pobjs ?w2)(p \<mapsto> q\<lparr>p_ref := 1\<rparr>)\<rparr>"
  have q2: "pobjs ?w2 p = Some q" using w2(2) q1 by simp
  have r: "Pollable_release p ?w2 = Inr ?w3" using q2 c(6) by (simp add: Pollable_release_def obj_def Let_def)
  have "poll_ok ?w3" using release_keeps [OF _ q2 _ r] w2(1) q2 by (auto simp: spare_def)
  moreover have "others_kept {p} (cs_poll s) ?w3"
    using others_kept_trans [OF others_kept_trans [OF remove_others [OF w1(1)] close_others [of "{p}"]] release_others [OF r]] by simp
  moreover have "\<not> registered ?w3 p" using nreg q2 by (simp add: registered_def tid_of_def)
  moreover have "close_and_release cb order p s
      = Inr (set_cli p (c\<lparr>cl_status := CL_CLOSED, cl_pending_fu := Map.empty\<rparr>) (cs_heap s) (s\<lparr>cs_poll := ?w3\<rparr>))"
    using c(1-3) w1(1) r
    by (simp add: close_and_release_def Client_close_def Client_release_def invalidate_pending_futures_def cli_def none Let_def set_cli_def)
  ultimately show ?thesis by (simp add: given_up_def clients_kept_def set_cli_def)
qed

lemma close_clients_ok:
  assumes "poll_ok (cs_poll s)" "\<forall>p \<in> set ps. idle_client s p" "distinct ps" "visits order"
  shows "\<exists>s'. close_clients cb order ps s = Inr s' \<and> (\<forall>p \<in> set ps. given_up s' p) \<and> clients_kept (set ps) s s'"
  using assms
proof (induction ps arbitrary: s)
  case (Cons p ps)
  obtain s1 where s1: "close_and_release cb order p s = Inr s1" "given_up s1 p" "clients_kept {p} s s1"
    using close_idle [OF Cons(2) _ Cons(5), of p cb] Cons(3) by auto
  have ok: "poll_ok (cs_poll s1)" using s1(3) by (simp add: clients_kept_def)
  have "idle_client s1 x" if "x \<in> set ps" for x using clients_keptD(1) [OF s1(3) Cons(2), of x] Cons(3,4) that by auto
  then obtain s' where s': "close_clients cb order ps s1 = Inr s'" "\<forall>x \<in> set ps. given_up s' x" "clients_kept (set ps) s1 s'"
    using Cons(1) [OF ok] Cons(4,5) by auto
  have "given_up s' p" using clients_keptD(2) [OF s'(3) ok] s1(2) Cons(4) by simp
  with s1(1) s'(1,2) clients_kept_trans [OF s1(3) s'(3)] show ?case by simp
qed (simp add: clients_kept_refl)

text \<open>What \<open>connect\<close> makes of a new client: connected, or as good as new.\<close>

definition new_client :: "'u cstate_scheme \<Rightarrow> pid \<Rightarrow> bool" where
  "new_client s p \<longleftrightarrow> (\<exists>c q. cs_clients s p = Some c \<and> cl_status c = CL_NEW \<and> cl_pending_fu c = Map.empty
     \<and> cl_in c = Marshal_new \<and> cl_out c = Marshal_new \<and> base (cl_udp c) = Marshal_new
     \<and> pobjs (cs_poll s) p = Some q \<and> p_ref q = 1 \<and> held (poll_threads (cs_poll s) ! tid_of (cs_poll s) (p_fd q)) p = 0)"

definition connects :: "slot \<Rightarrow> bool" where
  "connects sl \<longleftrightarrow> (case sl of (p, tcp, udp) \<Rightarrow> tcp \<noteq> - 1 \<and> udp \<noteq> - 1)"

definition slots_fresh :: "slot list \<Rightarrow> 'u cstate_scheme \<Rightarrow> bool" where
  "slots_fresh sls s \<longleftrightarrow> poll_ok (cs_poll s) \<and> distinct (map fst sls)
     \<and> distinct (filter (\<lambda>fd. fd \<noteq> - 1) (map (\<lambda>sl. fst (snd sl)) sls))
     \<and> (\<forall>(p, tcp, udp) \<in> set sls. pobjs (cs_poll s) p = None \<and> cs_clients s p = None \<and> - 1 \<le> tcp
          \<and> (tcp \<noteq> - 1 \<longrightarrow> free_fd (cs_poll s) tcp))"

lemma unheld:
  assumes "poll_ok w" "pobjs w p = None" "t < length (poll_threads w)"
  shows "held (poll_threads w ! t) p = 0"
proof -
  have "owns_ok (length (poll_threads w)) t (fd_of w) (ref_of w) (poll_threads w ! t)"
    using assms(1,3) by (simp add: poll_ok_def thread_ok_def)
  from owns_okD(2) [OF this, of p] assms(2) show ?thesis by (auto simp: held_eq_0_iff fd_of_def)
qed

lemma connect_new:
  assumes ok: "poll_ok (cs_poll s)" "pobjs (cs_poll s) p = None" and fd: "- 1 \<le> tcp" "tcp \<noteq> - 1 \<longrightarrow> free_fd (cs_poll s) tcp"
  shows "\<exists>e s'. Client_connect tcp udp p (Client_new p s) = Inr (e, s') \<and> clients_kept {p} s s'
    \<and> (if connects (p, tcp, udp) then e = 0 \<and> idle_client s' p else e \<noteq> 0 \<and> new_client s' p)
    \<and> (\<forall>x. x \<noteq> tcp \<longrightarrow> free_fd (cs_poll s) x \<longrightarrow> e = 0 \<longrightarrow> free_fd (cs_poll s') x)"
proof -
  let ?w = "(cs_poll s)\<lparr>pobjs := (pobjs (cs_poll s))(p \<mapsto> \<lparr>p_fd = tcp, p_mode = READ, p_ref = 1\<rparr>)\<rparr>"
  note simps = Client_connect_def Client_new_def client_poll_mode_def obj_def UdpBuffer_new_def Let_def cli_def set_cli_def
  show ?thesis
  proof (cases "connects (p, tcp, udp)")
    case True
    then have t: "0 \<le> tcp" "tcp \<noteq> - 1" "udp \<noteq> - 1" using fd(1) by (auto simp: connects_def)
    then have fr: "free_fd (cs_poll s) tcp" using fd(2) by simp
    obtain pw where pw: "PollMgr_add p ?w = Inr pw" "spare 0 pw p" "registered pw p"
      "pobjs pw p = Some \<lparr>p_fd = tcp, p_mode = READ, p_ref = 2\<rparr>"
      using add_spare [OF ok t(1), of READ] fr by (auto simp: free_fd_def)
    have "poll_ok pw" using pw(2) by (simp add: spare_def)
    moreover note add_others [OF pw(1)]
    moreover have "free_fd pw x" if "x \<noteq> tcp" "free_fd (cs_poll s) x" for x using add_frame [OF ok(1) pw(1)] that by simp
    ultimately show ?thesis using True pw t by (simp add: simps idle_client_def clients_kept_def)
  next
    case False
    have w: "poll_ok ?w" by (rule create_keeps [OF ok])
    have spare: "spare 0 ?w p" using w unheld [OF ok tid_of_less [OF ok(1)]] by (simp add: spare_def tid_of_def)
    have h: "held (poll_threads ?w ! tid_of ?w tcp) p = 0" using unheld [OF ok tid_of_less [OF ok(1)]] by (simp add: tid_of_def)
    have e: "ENOTCONN \<noteq> 0" by (simp add: ENOTCONN_def)
    show ?thesis
    proof (cases "tcp = - 1")
      case True
      with False w h e show ?thesis
        by (simp add: simps new_client_def clients_kept_def create_others connects_def)
    next
      case tcp: False
      then have udp: "udp = - 1" using False by (simp add: connects_def)
      have m: "mode (poll_threads ?w ! tid_of ?w tcp) tcp = None" using fd(2) tcp by (simp add: free_fd_def tid_of_def)
      note cl = os_close_spare [OF spare _ m]
      have "others_kept {p} (cs_poll s) (os_close tcp ?w)"
        using others_kept_trans [OF create_others [of p] close_others [of "{p}"]] by simp
      moreover have "poll_ok (os_close tcp ?w)" using cl(1) by (simp add: spare_def)
      ultimately show ?thesis using False tcp udp h e cl(2,3)
        by (simp add: simps new_client_def clients_kept_def)
    qed
  qed
qed

lemma close_new:
  assumes ok: "poll_ok (cs_poll s)" and new: "new_client s p" and v: "visits order"
  shows "\<exists>s'. close_and_release cb order p s = Inr s' \<and> given_up s' p \<and> clients_kept {p} s s'"
proof -
  obtain c q where c: "cs_clients s p = Some c" "cl_status c = CL_NEW" "cl_pending_fu c = Map.empty" "cl_in c = Marshal_new"
    "cl_out c = Marshal_new" "base (cl_udp c) = Marshal_new" "pobjs (cs_poll s) p = Some q" "p_ref q = 1"
    "held (poll_threads (cs_poll s) ! tid_of (cs_poll s) (p_fd q)) p = 0"
    using new by (auto simp: new_client_def)
  note none = visits_none [OF v]
  let ?w = "(cs_poll s)\<lparr>pobjs := (pobjs (cs_poll s))(p := None)\<rparr>"
  have r: "Pollable_release p (cs_poll s) = Inr ?w" using c(7,8) by (simp add: Pollable_release_def obj_def Let_def)
  have "poll_ok ?w" using release_keeps [OF ok c(7) _ r] c(8,9) by simp
  moreover have "close_and_release cb order p s
      = Inr (s\<lparr>cs_poll := ?w, cs_clients := (cs_clients s)(p := None)\<rparr>)"
    using c(1-6) r
    by (simp add: close_and_release_def Client_close_def Client_release_def invalidate_pending_futures_def cli_def none Let_def set_cli_def
        UdpBuffer_delete_def Marshal_delete_def Marshal_new_def)
  moreover have "\<not> registered ?w p" by (simp add: registered_def)
  ultimately show ?thesis using release_others [OF r] by (simp add: given_up_def clients_kept_def)
qed

section \<open>All or nothing\<close>

lemma slots_fresh_step:
  assumes fr: "slots_fresh ((p, tcp, udp) # sls) s" and kept: "clients_kept {p} s s'"
    and free: "\<forall>x. x \<noteq> tcp \<longrightarrow> free_fd (cs_poll s) x \<longrightarrow> free_fd (cs_poll s') x"
  shows "slots_fresh sls s'"
proof -
  have ok: "poll_ok (cs_poll s)" "p \<notin> fst ` set sls" using fr by (auto simp: slots_fresh_def)
  have "pobjs (cs_poll s') x = None \<and> cs_clients s' x = None \<and> - 1 \<le> t \<and> (t \<noteq> - 1 \<longrightarrow> free_fd (cs_poll s') t)"
    if "(x, t, u) \<in> set sls" for x t u
  proof -
    have old: "pobjs (cs_poll s) x = None" "cs_clients s x = None" "- 1 \<le> t" "t \<noteq> - 1 \<longrightarrow> free_fd (cs_poll s) t"
      using fr that by (auto simp: slots_fresh_def)
    have x: "x \<notin> {p}" using ok(2) that by force
    have "t \<in> (\<lambda>sl. fst (snd sl)) ` set sls" using that by force
    then have "t \<noteq> tcp" if "t \<noteq> - 1" using fr that by (auto simp: slots_fresh_def split: if_splits)
    moreover have "pobjs (cs_poll s') x = pobjs (cs_poll s) x" "cs_clients s' x = cs_clients s x"
      using others_keptD(1) [OF _ ok(1) _ x] kept x by (simp_all add: clients_kept_def)
    ultimately show ?thesis using old free by auto
  qed
  then show ?thesis using fr kept by (auto simp: slots_fresh_def clients_kept_def split: if_splits)
qed

lemma connect_clients_ok:
  assumes "slots_fresh sls s" "\<forall>p \<in> set made. idle_client s p" "set made \<inter> fst ` set sls = {}"
  shows "\<exists>ok k s'. connect_clients sls made s = Inr (ok, rev (map fst (take k sls)) @ made, s') \<and> k \<le> length sls
    \<and> clients_kept (fst ` set (take k sls)) s s'
    \<and> (if \<forall>sl \<in> set sls. connects sl then ok \<and> k = length sls \<and> (\<forall>p \<in> fst ` set sls \<union> set made. idle_client s' p)
       else \<not> ok \<and> (\<exists>p ps. rev (map fst (take k sls)) @ made = p # ps \<and> new_client s' p \<and> (\<forall>x \<in> set ps. idle_client s' x)))"
  using assms
proof (induction sls arbitrary: made s)
  case Nil
  then show ?case by (auto simp: slots_fresh_def clients_kept_refl)
next
  case (Cons sl sls)
  obtain p tcp udp where sl: "sl = (p, tcp, udp)" by (cases sl)
  have f: "poll_ok (cs_poll s)" "pobjs (cs_poll s) p = None" "- 1 \<le> tcp" "tcp \<noteq> - 1 \<longrightarrow> free_fd (cs_poll s) tcp" "p \<notin> fst ` set sls"
    using Cons(2) by (auto simp: slots_fresh_def sl)
  obtain e s1 where c: "Client_connect tcp udp p (Client_new p s) = Inr (e, s1)" "clients_kept {p} s s1"
    "if connects sl then e = 0 \<and> idle_client s1 p else e \<noteq> 0 \<and> new_client s1 p"
    "\<forall>x. x \<noteq> tcp \<longrightarrow> free_fd (cs_poll s) x \<longrightarrow> e = 0 \<longrightarrow> free_fd (cs_poll s1) x"
    using connect_new [OF f(1-4), of udp] by (auto simp: sl)
  have made: "\<forall>x \<in> set made. idle_client s1 x"
  proof
    fix x assume "x \<in> set made"
    then show "idle_client s1 x" using Cons(3,4) clients_keptD(1) [OF c(2) f(1), of x] by (auto simp: sl)
  qed
  show ?case
  proof (cases "connects sl")
    case False
    then show ?thesis using c(1-3) made by (intro exI [of _ False] exI [of _ "Suc 0"] exI [of _ s1]) (simp add: sl)
  next
    case True
    have a: "slots_fresh sls s1" using slots_fresh_step [OF Cons(2) [unfolded sl] c(2)] c(3,4) True by auto
    have b: "\<forall>x \<in> set (p # made). idle_client s1 x" using made c(3) True by simp
    have "set (p # made) \<inter> fst ` set sls = {}" using Cons(4) f(5) by (auto simp: sl)
    from Cons(1) [OF a b this] obtain ok k s' where ih: "connect_clients sls (p # made) s1 = Inr (ok, rev (map fst (take k sls)) @ p # made, s')"
      "k \<le> length sls" "clients_kept (fst ` set (take k sls)) s1 s'"
      "if \<forall>sl \<in> set sls. connects sl then ok \<and> k = length sls \<and> (\<forall>x \<in> fst ` set sls \<union> set (p # made). idle_client s' x)
       else \<not> ok \<and> (\<exists>x ps. rev (map fst (take k sls)) @ p # made = x # ps \<and> new_client s' x \<and> (\<forall>x \<in> set ps. idle_client s' x))"
      by (elim exE conjE) (rule that)
    have "connect_clients (sl # sls) made s = Inr (ok, rev (map fst (take (Suc k) (sl # sls))) @ made, s')"
      using c(1,3) True ih(1) by (simp add: sl)
    moreover have "clients_kept (fst ` set (take (Suc k) (sl # sls))) s s'"
      using clients_kept_trans [OF c(2) ih(3)] by (simp add: sl)
    ultimately show ?thesis using True ih(2,4) by (intro exI [of _ ok] exI [of _ "Suc k"] exI [of _ s']) (simp add: sl)
  qed
qed

lemma close_made:
  assumes ok: "poll_ok (cs_poll s)" and p: "new_client s p" "\<forall>x \<in> set ps. idle_client s x" "distinct (p # ps)" and v: "visits order"
  shows "\<exists>s'. close_clients cb order (p # ps) s = Inr s' \<and> (\<forall>x \<in> set (p # ps). given_up s' x) \<and> clients_kept (set (p # ps)) s s'"
proof -
  obtain s1 where s1: "close_and_release cb order p s = Inr s1" "given_up s1 p" "clients_kept {p} s s1"
    using close_new [OF ok p(1) v, of cb] by auto
  have ok1: "poll_ok (cs_poll s1)" using s1(3) by (simp add: clients_kept_def)
  have "idle_client s1 x" if "x \<in> set ps" for x using clients_keptD(1) [OF s1(3) ok, of x] p(2,3) that by auto
  then obtain s' where s': "close_clients cb order ps s1 = Inr s'" "\<forall>x \<in> set ps. given_up s' x" "clients_kept (set ps) s1 s'"
    using close_clients_ok [OF ok1 _ _ v, of ps cb] p(3) by auto
  have "given_up s' p" using clients_keptD(2) [OF s'(3) ok1] s1(2) p(3) by simp
  with s1(1) s'(1,2) clients_kept_trans [OF s1(3) s'(3)] show ?thesis by simp
qed

lemma never_made: "pobjs (cs_poll s) p = None \<Longrightarrow> cs_clients s p = None \<Longrightarrow> given_up s p"
  by (simp add: given_up_def registered_def)

definition pool_ok :: "client_pool \<Rightarrow> bool" where
  "pool_ok pool \<longleftrightarrow> 0 < cp_parallel pool \<and> (\<forall>a clients. cp_cache pool a = Some clients \<longrightarrow> length clients = nat (cp_parallel pool))"

lemma pick_in: "0 < cp_parallel pool \<Longrightarrow> length clients = nat (cp_parallel pool) \<Longrightarrow> pick r pool clients \<in> set clients"
  by (simp add: pick_def)

lemma connect_or_close:
  assumes fr: "slots_fresh sls s" and v: "visits order" and no: "\<not> (\<forall>sl \<in> set sls. connects sl)"
  shows "\<exists>made s1 s'. connect_clients sls [] s = Inr (False, made, s1) \<and> close_clients cb order made s1 = Inr s'
    \<and> clients_kept (fst ` set sls) s s' \<and> (\<forall>p \<in> fst ` set sls. given_up s' p)"
proof -
  have ok: "poll_ok (cs_poll s)" using fr by (simp add: slots_fresh_def)
  obtain k s1 p ps where c: "connect_clients sls [] s = Inr (False, p # ps, s1)" "clients_kept (fst ` set (take k sls)) s s1"
    "rev (map fst (take k sls)) = p # ps" "new_client s1 p" "\<forall>x \<in> set ps. idle_client s1 x"
    using connect_clients_ok [OF fr, of "[]"] no by auto
  have made: "set (p # ps) = fst ` set (take k sls)" unfolding c(3) [symmetric] by simp
  have "distinct (map fst (take k sls))" using fr by (simp add: slots_fresh_def take_map [symmetric] distinct_take)
  then have d: "distinct (p # ps)" unfolding c(3) [symmetric] by simp
  have ok1: "poll_ok (cs_poll s1)" using c(2) by (simp add: clients_kept_def)
  obtain s' where s': "close_clients cb order (p # ps) s1 = Inr s'" "\<forall>x \<in> set (p # ps). given_up s' x" "clients_kept (set (p # ps)) s1 s'"
    using close_made [OF ok1 c(4,5) d v, of cb] by blast
  have kept: "clients_kept (set (p # ps)) s s'" using clients_kept_trans [OF c(2) s'(3)] unfolding made by simp
  have "given_up s' x" if "x \<in> fst ` set sls" for x
  proof (cases "x \<in> set (p # ps)")
    case False
    have "given_up s x" using fr that by (intro never_made) (auto simp: slots_fresh_def)
    then show ?thesis using clients_keptD(2) [OF kept ok False] by simp
  qed (use s'(2) in blast)
  moreover have "set (p # ps) \<subseteq> fst ` set sls" unfolding made using set_take_subset [of k sls] by blast
  ultimately show ?thesis using c(1) s'(1) clients_kept_mono [OF kept] by blast
qed

text \<open>
  C21. A pool of connections hands out connections of complete sets only. For an address it knows, \<open>get_client\<close> gives one of the
  connections kept for it and changes nothing. Otherwise it opens as many connections as the pool is to keep in
  parallel. When all of them succeed they are kept for the address, all are connected and watched by the poll manager, and one of them is
  given. When one fails the caller gets nothing, the pool is as before, and every client that was made is closed, removed from the poll
  manager and released. All other clients, the heap and the futures are as before.
\<close>

theorem get_client_all_or_nothing:
  fixes s :: "'u cstate_scheme"
  assumes "pool_ok pool" "slots_fresh (map slots [0..<nat (cp_parallel pool)]) s" "visits order"
  defines "ps \<equiv> map (\<lambda>i. fst (slots i)) [0..<nat (cp_parallel pool)]"
  shows "\<exists>res pool' s'. get_client cb order slots r addr (pool, s) = Inr (res, pool', s') \<and> pool_ok pool'
    \<and> clients_kept (set ps) s s'
    \<and> (case cp_cache pool addr of
         Some clients \<Rightarrow> (\<exists>p \<in> set clients. res = Some p) \<and> pool' = pool \<and> s' = s
       | None \<Rightarrow>
           if \<forall>i < nat (cp_parallel pool). connects (slots i)
           then (\<exists>p \<in> set ps. res = Some p) \<and> pool' = pool\<lparr>cp_cache := (cp_cache pool)(addr \<mapsto> ps)\<rparr> \<and> (\<forall>p \<in> set ps. idle_client s' p)
           else res = None \<and> pool' = pool \<and> (\<forall>p \<in> set ps. given_up s' p))"
proof (cases "cp_cache pool addr")
  case (Some clients)
  then have "pick r pool clients \<in> set clients" using assms(1) by (intro pick_in) (auto simp: pool_ok_def)
  moreover have "clients_kept (set ps) s s" using assms(2) by (intro clients_kept_refl) (simp add: slots_fresh_def)
  ultimately show ?thesis using Some assms(1) by (simp add: get_client_def)
next
  case None
  let ?sls = "map slots [0..<nat (cp_parallel pool)]"
  have all: "(\<forall>i < nat (cp_parallel pool). connects (slots i)) = (\<forall>sl \<in> set ?sls. connects sl)" by auto
  have ps: "fst ` set ?sls = set ps" "map fst ?sls = ps" "length ps = nat (cp_parallel pool)" by (auto simp: ps_def comp_def)
  show ?thesis
  proof (cases "\<forall>sl \<in> set ?sls. connects sl")
    case True
    obtain s' where c: "connect_clients ?sls [] s = Inr (True, rev ps, s')" "clients_kept (set ps) s s'" "\<forall>p \<in> set ps. idle_client s' p"
      using connect_clients_ok [OF assms(2), of "[]"] True ps(1,2) by auto
    have "pick r pool ps \<in> set ps" using assms(1) ps(3) by (intro pick_in) (auto simp: pool_ok_def)
    then show ?thesis using None c True assms(1) ps(3) unfolding all by (simp add: get_client_def pool_ok_def)
  next
    case False
    with connect_or_close [OF assms(2,3) False, of cb] None assms(1) show ?thesis
      unfolding all ps(1) by (auto simp: get_client_def)
  qed
qed

theorem get_client_all_or_nothing_witness:
  "\<exists>pool p s pool' s'. ClientPool_new 2 = Inr pool
    \<and> get_client note_cb sorted_list_of_set (\<lambda>i. (7 + i, 5 + int i, 20 + int i)) 3 ''h:1'' (pool, demo_cstate) = Inr (Some p, pool', s)
    \<and> p \<in> {7, 8} \<and> cp_cache pool' ''h:1'' = Some [7, 8] \<and> idle_client s 7 \<and> idle_client s 8
    \<and> get_client note_cb sorted_list_of_set (\<lambda>i. (7 + i, 5 + int i, if i = 1 then - 1 else 20)) 3 ''h:1'' (pool, demo_cstate)
        = Inr (None, pool, s')
    \<and> given_up s' 7 \<and> given_up s' 8"
proof -
  let ?pool = "\<lparr>cp_cache = Map.empty, cp_parallel = 2\<rparr>"
  have new: "ClientPool_new 2 = Inr ?pool" by (simp add: ClientPool_new_def)
  have pool: "pool_ok ?pool" by (simp add: pool_ok_def)
  have two: "[0..<nat (cp_parallel ?pool)] = [0, 1]" by (simp add: upt_rec)
  have all: "(\<forall>i < nat (cp_parallel ?pool). Q i) \<longleftrightarrow> Q 0 \<and> Q 1" for Q by (auto simp: All_less_Suc numeral_2_eq_2)
  have "PollMgr_new 1 (\<lambda>_. None) = Inr demo_poll0" by (simp add: PollMgr_new_def demo_poll0_def)
  then have "poll_ok demo_poll0" by (rule new_ok) simp_all
  moreover have "free_fd demo_poll0 fd" for fd by (simp add: free_fd_def demo_poll0_def PollThread_new_def tid_of_def)
  ultimately have fresh: "slots_fresh (map (\<lambda>i. (7 + i, 5 + int i, u i)) [0..<nat (cp_parallel ?pool)]) demo_cstate" for u
    unfolding two by (simp add: slots_fresh_def demo_cstate_def) (simp add: demo_poll0_def)
  have v: "visits sorted_list_of_set" by (simp add: visits_def)
  obtain p s pool' where 1: "get_client note_cb sorted_list_of_set (\<lambda>i. (7 + i, 5 + int i, 20 + int i)) 3 ''h:1'' (?pool, demo_cstate) = Inr (Some p, pool', s)"
    "p \<in> {7, 8}" "cp_cache pool' ''h:1'' = Some [7, 8]" "idle_client s 7" "idle_client s 8"
    using get_client_all_or_nothing [OF pool fresh [of "\<lambda>i. 20 + int i"] v, of note_cb 3 "''h:1''"]
    unfolding two all by (auto simp: connects_def)
  obtain s' where "get_client note_cb sorted_list_of_set (\<lambda>i. (7 + i, 5 + int i, if i = 1 then - 1 else 20)) 3 ''h:1'' (?pool, demo_cstate)
      = Inr (None, ?pool, s')" "given_up s' 7" "given_up s' 8"
    using get_client_all_or_nothing [OF pool fresh [of "\<lambda>i. if i = 1 then - 1 else 20"] v, of note_cb 3 "''h:1''"]
    unfolding two all by (auto simp: connects_def)
  with new 1 show ?thesis by blast
qed

section \<open>The end of a pool\<close>

lemma delete_cached_ok:
  assumes "poll_ok (cs_poll s)" "visits order" "distinct as"
    and "\<forall>a \<in> set as. \<exists>clients. cp_cache pool a = Some clients \<and> distinct clients \<and> (\<forall>p \<in> set clients. idle_client s p)"
    and "\<forall>a \<in> set as. \<forall>b \<in> set as. a \<noteq> b \<longrightarrow> set (the (cp_cache pool a)) \<inter> set (the (cp_cache pool b)) = {}"
  shows "\<exists>s'. delete_cached cb order as pool s = Inr s' \<and> clients_kept (\<Union>a \<in> set as. set (the (cp_cache pool a))) s s'
    \<and> (\<forall>a \<in> set as. \<forall>p \<in> set (the (cp_cache pool a)). given_up s' p)"
  using assms(1,3-)
proof (induction as arbitrary: s)
  case (Cons a as)
  let ?C = "\<lambda>a. set (the (cp_cache pool a))"
  obtain ps where ps: "cp_cache pool a = Some ps" "distinct ps" "\<forall>p \<in> set ps. idle_client s p" using Cons(4) by auto
  obtain s1 where s1: "close_clients cb order ps s = Inr s1" "\<forall>p \<in> set ps. given_up s1 p" "clients_kept (set ps) s s1"
    using close_clients_ok [OF Cons(2) ps(3,2) assms(2), of cb] by blast
  have ok: "poll_ok (cs_poll s1)" using s1(3) by (simp add: clients_kept_def)
  have apart: "set ps \<inter> ?C b = {}" if "b \<in> set as" for b
    using Cons(5) that Cons(3) ps(1) by (metis distinct.simps(2) list.set_intros option.sel)
  have "\<exists>cl. cp_cache pool b = Some cl \<and> distinct cl \<and> (\<forall>p \<in> set cl. idle_client s1 p)" if b: "b \<in> set as" for b
  proof -
    obtain cl where cl: "cp_cache pool b = Some cl" "distinct cl" "\<forall>p \<in> set cl. idle_client s p" using Cons(4) b by auto
    have "idle_client s1 p" if "p \<in> set cl" for p
      using clients_keptD(1) [OF s1(3) Cons(2), of p] apart [OF b] cl that by auto
    with cl show ?thesis by blast
  qed
  then obtain s' where s': "delete_cached cb order as pool s1 = Inr s'" "clients_kept (\<Union>b \<in> set as. ?C b) s1 s'"
    "\<forall>b \<in> set as. \<forall>p \<in> ?C b. given_up s' p"
    using Cons(1) [OF ok] Cons(3,5) by auto
  have "given_up s' p" if "p \<in> set ps" for p
    using clients_keptD(2) [OF s'(2) ok, of p] s1(2) apart that by blast
  with s1(1) s' ps(1) clients_kept_trans [OF s1(3) s'(2)] show ?case by simp
qed (simp add: clients_kept_refl)

text \<open>
  The destructor of a pool whose connections have no request under way: every client of every address is closed and released, and
  no other client is touched.
\<close>

lemma pool_delete_gives_up:
  assumes "poll_ok (cs_poll s)" "visits order" "distinct (addrs (dom (cp_cache pool)))" "set (addrs (dom (cp_cache pool))) = dom (cp_cache pool)"
    and "\<forall>a clients. cp_cache pool a = Some clients \<longrightarrow> distinct clients \<and> (\<forall>p \<in> set clients. idle_client s p)"
    and "\<forall>a b cs ds. cp_cache pool a = Some cs \<longrightarrow> cp_cache pool b = Some ds \<longrightarrow> a \<noteq> b \<longrightarrow> set cs \<inter> set ds = {}"
  shows "\<exists>s'. ClientPool_delete cb order addrs pool s = Inr s' \<and> clients_kept (\<Union> (set ` ran (cp_cache pool))) s s'
    \<and> (\<forall>clients \<in> ran (cp_cache pool). \<forall>p \<in> set clients. given_up s' p)"
proof -
  let ?as = "addrs (dom (cp_cache pool))"
  have "\<forall>a \<in> set ?as. \<exists>cs. cp_cache pool a = Some cs \<and> distinct cs \<and> (\<forall>p \<in> set cs. idle_client s p)"
    using assms(4,5) by (metis domD)
  moreover have "\<forall>a \<in> set ?as. \<forall>b \<in> set ?as. a \<noteq> b \<longrightarrow> set (the (cp_cache pool a)) \<inter> set (the (cp_cache pool b)) = {}"
    using assms(4,6) by (metis domD option.sel)
  ultimately obtain s' where s': "delete_cached cb order ?as pool s = Inr s'"
    "clients_kept (\<Union>a \<in> dom (cp_cache pool). set (the (cp_cache pool a))) s s'"
    "\<forall>a \<in> dom (cp_cache pool). \<forall>p \<in> set (the (cp_cache pool a)). given_up s' p"
    using delete_cached_ok [OF assms(1-3), of pool cb] assms(4) by auto
  have "(\<Union>a \<in> dom (cp_cache pool). set (the (cp_cache pool a))) = \<Union> (set ` ran (cp_cache pool))" by (force simp: ran_def dom_def)
  moreover have "\<forall>clients \<in> ran (cp_cache pool). \<forall>p \<in> set clients. given_up s' p" using s'(3) by (force simp: ran_def dom_def)
  ultimately show ?thesis using s'(1,2) by (simp add: ClientPool_delete_def)
qed

end
