(* ===== verification/Threading.thy ===== *)
theory Threading
  imports Rpc_Prelude "HOL-Library.Multiset"
begin

text \<open>
  The threading layer of \<open>base/threading.h\<close> and \<open>base/threading.cc\<close>: the spin lock as the steps
  its threads take, the blocking queue, the thread pool with its work stealing and death pills,
  the timer thread, and the arithmetic of deadlines. What threads do between two synchronisation
  points is one step; a blocking call that cannot proceed has no step. Jobs are numbers, a null
  job pointer is \<open>None\<close>. Times are integers (microseconds, nanoseconds); how a \<open>double\<close> is split
  into seconds and nanoseconds is left to the caller.
\<close>

section \<open>Definitions\<close>

subsection \<open>Spin lock\<close>

datatype spin_pc = Idle | Entry | FirstTas | Spin nat | Tas | Held

record spin =
  locked :: bool
  pcs :: "nat \<Rightarrow> spin_pc"

fun SpinLock_lock_step :: "spin_pc \<Rightarrow> bool \<Rightarrow> spin_pc \<times> bool" where
  "SpinLock_lock_step Entry l = (if \<not> l then FirstTas else Spin 1000, l)"
| "SpinLock_lock_step FirstTas l = (if \<not> l then Held else Spin 1000, True)"
| "SpinLock_lock_step (Spin wait) l = (if 0 < wait \<and> l then Spin (wait - 1) else Tas, l)"
| "SpinLock_lock_step Tas l = (if l then Tas else Held, True)"
| "SpinLock_lock_step pc l = (pc, l)"

definition SpinLock_unlock :: "nat \<Rightarrow> spin \<Rightarrow> spin" where
  "SpinLock_unlock t s = s\<lparr>locked := False, pcs := (pcs s)(t := Idle)\<rparr>"

definition SpinLock_new :: spin where
  "SpinLock_new = \<lparr>locked = False, pcs = (\<lambda>_. Idle)\<rparr>"

inductive spin_step :: "spin \<Rightarrow> spin \<Rightarrow> bool" where
  enter: "pcs s t = Idle \<Longrightarrow> spin_step s (s\<lparr>pcs := (pcs s)(t := Entry)\<rparr>)"
| move: "pcs s t \<notin> {Idle, Held} \<Longrightarrow> SpinLock_lock_step (pcs s t) (locked s) = (pc, l) \<Longrightarrow>
    spin_step s (s\<lparr>locked := l, pcs := (pcs s)(t := pc)\<rparr>)"
| leave: "pcs s t = Held \<Longrightarrow> spin_step s (SpinLock_unlock t s)"

subsection \<open>Deadlines\<close>

text \<open>
  \<open>CondVar::timed_wait\<close> and \<open>Future::timed_wait\<close>: \<open>full_sec\<close> and \<open>nsec\<close> are the two parts of the
  delay, \<open>tv_sec\<close> and \<open>tv_usec\<close> the current time.
\<close>

definition deadline :: "int \<Rightarrow> int \<Rightarrow> int \<Rightarrow> int \<Rightarrow> int \<times> int" where
  "deadline tv_sec tv_usec full_sec nsec =
     (let s = tv_sec + full_sec; n = tv_usec * 1000 + nsec in
      if n > 1000000000 then (s + 1, n - 1000000000) else (s, n))"

definition timespec_valid :: "int \<times> int \<Rightarrow> bool" where
  "timespec_valid ts \<longleftrightarrow> 0 \<le> snd ts \<and> snd ts < 1000000000"

subsection \<open>Queue\<close>

definition Queue_push :: "'a list \<Rightarrow> 'a \<Rightarrow> 'a list" where
  "Queue_push q e = q @ [e]"

definition Queue_try_pop :: "'a list \<Rightarrow> ('a \<times> 'a list) option" where
  "Queue_try_pop q = (case q of [] \<Rightarrow> None | e # q' \<Rightarrow> Some (e, q'))"

definition Queue_try_pop_but_ignore :: "'a list \<Rightarrow> 'a \<Rightarrow> ('a \<times> 'a list) option" where
  "Queue_try_pop_but_ignore q ignore =
     (case q of [] \<Rightarrow> None | e # q' \<Rightarrow> if e \<noteq> ignore then Some (e, q') else None)"

text \<open>\<open>None\<close> when the caller has to wait on \<open>not_empty_\<close>.\<close>

definition Queue_pop :: "'a list \<Rightarrow> ('a \<times> 'a list) option" where
  "Queue_pop q = (case q of [] \<Rightarrow> None | e # q' \<Rightarrow> Some (e, q'))"

subsection \<open>Thread pool\<close>

type_synonym job = nat

definition clamp :: "int \<Rightarrow> int \<Rightarrow> int \<Rightarrow> int" where
  "clamp v lower upper = (if v < lower then lower else if v > upper then upper else v)"

text \<open>\<open>Rand::next(lower, upper)\<close> on the number \<open>r\<close> the generator gave.\<close>

definition Rand_next :: "nat \<Rightarrow> nat \<Rightarrow> nat \<Rightarrow> nat" where
  "Rand_next lower upper r = lower + r mod (upper - lower)"

record worker =
  stage :: nat
  sleep_nsec :: int
  steal_order :: "nat list"
  running :: "job option"
  exited :: bool

record thread_pool =
  queues :: "job option list list"
  workers :: "worker list"
  round_robin :: i64
  should_stop :: bool
  pills :: nat
  accepted :: "job list"
  ran :: "job list"

text \<open>The randomised stealing order: \<open>rs\<close> are the numbers the generator of the thread gives.\<close>

fun shuffle_loop :: "nat list \<Rightarrow> nat \<Rightarrow> nat list \<Rightarrow> nat list" where
  "shuffle_loop [] i order = order"
| "shuffle_loop (r # rs) i order =
     (if Suc i < length order then
        let j = Rand_next i (length order) r in
        shuffle_loop rs (Suc i) (if j \<noteq> i then order[j := order ! i, i := order ! j] else order)
      else order)"

definition worker_new :: "nat \<Rightarrow> nat list \<Rightarrow> worker" where
  "worker_new n rs = \<lparr>stage = 0, sleep_nsec = 1000, steal_order = shuffle_loop rs 0 [0..<n],
     running = None, exited = False\<rparr>"

definition ThreadPool_new :: "int \<Rightarrow> (nat \<Rightarrow> nat list) \<Rightarrow> thread_pool res" where
  "ThreadPool_new n rand = rbind (verify (0 \<le> n)) (\<lambda>_.
     Inr \<lparr>queues = replicate (nat n) [], workers = map (\<lambda>i. worker_new (nat n) (rand i)) [0..<nat n],
          round_robin = 0, should_stop = False, pills = 0, accepted = [], ran = []\<rparr>)"

text \<open>The remainder of C++: it has the sign of the dividend.\<close>

definition crem :: "int \<Rightarrow> int \<Rightarrow> int" where
  "crem a n = (if 0 \<le> a then a mod n else - ((- a) mod n))"

definition EPERM :: int where "EPERM = 1"

definition pool_push :: "nat \<Rightarrow> job \<Rightarrow> thread_pool \<Rightarrow> thread_pool" where
  "pool_push k f p = p\<lparr>queues := (queues p)[k := Queue_push (queues p ! k) (Some f)],
     accepted := accepted p @ [f]\<rparr>"

definition ThreadPool_run_async :: "thread_pool \<Rightarrow> job \<Rightarrow> int \<Rightarrow> (int \<times> thread_pool) res" where
  "ThreadPool_run_async p f queuing_channel =
     (let n = int (length (queues p)) in
      if should_stop p then Inr (EPERM, p)
      else if n = 0 then Inl DivByZero
      else
        let (queue_id, p1) =
          (if 0 \<le> queuing_channel then (crem queuing_channel n, p)
           else (crem (sint (round_robin p)) n, p\<lparr>round_robin := round_robin p + 1\<rparr>)) in
        if queue_id < 0 then Inl OutOfBounds
        else Inr (0, pool_push (nat queue_id) f p1))"

fun steal :: "nat list \<Rightarrow> nat \<Rightarrow> job option list list \<Rightarrow> (job option \<times> job option list list) option" where
  "steal [] id_in_pool qs = None"
| "steal (k # ks) id_in_pool qs =
     (if k \<noteq> id_in_pool then
        case Queue_try_pop_but_ignore (qs ! k) None of
            Some (j, q) \<Rightarrow> Some (j, qs[k := q])
          | None \<Rightarrow> steal ks id_in_pool qs
      else steal ks id_in_pool qs)"

text \<open>The switch of \<open>run_thread\<close>: the new stage, the job fetched, the queues; \<open>None\<close> when it blocks.\<close>

definition worker_fetch ::
  "nat \<Rightarrow> worker \<Rightarrow> job option list list \<Rightarrow> (nat \<times> job option \<times> job option list list) option" where
  "worker_fetch i w qs =
     (if stage w = 0 \<or> stage w = 2 then
        (case Queue_try_pop (qs ! i) of
            Some (j, q) \<Rightarrow> Some (0, j, qs[i := q])
          | None \<Rightarrow> Some (stage w + 1, None, qs))
      else if stage w = 1 then Some (stage w + 1, None, qs)
      else if stage w = 3 then
        (case steal (steal_order w) i qs of
            Some (j, qs') \<Rightarrow> Some (0, j, qs')
          | None \<Rightarrow> Some (stage w + 1, None, qs))
      else
        (case Queue_pop (qs ! i) of
            Some (j, q) \<Rightarrow> Some (0, j, qs[i := q])
          | None \<Rightarrow> None))"

definition worker_iter :: "nat \<Rightarrow> thread_pool \<Rightarrow> thread_pool option" where
  "worker_iter i p = (let w = workers p ! i in
     if exited w \<or> running w \<noteq> None then None
     else case worker_fetch i w (queues p) of
         None \<Rightarrow> None
       | Some (st, j, qs) \<Rightarrow>
           Some (p\<lparr>queues := qs, workers := (workers p)[i :=
             (if st = 0 then
                (case j of None \<Rightarrow> w\<lparr>stage := 0, exited := True\<rparr>
                 | Some f \<Rightarrow> w\<lparr>stage := 0, running := Some f\<rparr>)
              else w\<lparr>stage := st, sleep_nsec := clamp (sleep_nsec w + 1000) 1000 50000\<rparr>)]\<rparr>))"

definition worker_finish :: "nat \<Rightarrow> thread_pool \<Rightarrow> thread_pool option" where
  "worker_finish i p = (let w = workers p ! i in
     case running w of
         None \<Rightarrow> None
       | Some f \<Rightarrow> Some (p\<lparr>ran := ran p @ [f], workers := (workers p)[i :=
           w\<lparr>running := None, sleep_nsec := clamp (sleep_nsec w - 1000) 1000 50000\<rparr>]\<rparr>))"

text \<open>The destructor: stop accepting, one death pill per queue, join, then run what is left.\<close>

definition stop_accepting :: "thread_pool \<Rightarrow> thread_pool" where
  "stop_accepting p = p\<lparr>should_stop := True\<rparr>"

definition push_pill :: "thread_pool \<Rightarrow> thread_pool" where
  "push_pill p = p\<lparr>queues := (queues p)[pills p := Queue_push (queues p ! pills p) None],
     pills := pills p + 1\<rparr>"

fun drain_queue :: "job option list \<Rightarrow> job list" where
  "drain_queue [] = []"
| "drain_queue (None # q) = drain_queue q"
| "drain_queue (Some f # q) = f # drain_queue q"

definition drain :: "thread_pool \<Rightarrow> thread_pool" where
  "drain p = p\<lparr>ran := ran p @ concat (map drain_queue (queues p)), queues := map (\<lambda>_. []) (queues p)\<rparr>"

text \<open>
  \<open>late\<close> is the push of a caller that tested \<open>should_stop_\<close> before the destructor set it: the test and
  the push are not one step of the code.
\<close>

inductive pool_step :: "thread_pool \<Rightarrow> thread_pool \<Rightarrow> bool" where
  submit: "ThreadPool_run_async p f ch = Inr (r, p') \<Longrightarrow> pool_step p p'"
| late: "k < length (queues p) \<Longrightarrow> pool_step p (pool_push k f p)"
| iter: "i < length (workers p) \<Longrightarrow> worker_iter i p = Some p' \<Longrightarrow> pool_step p p'"
| finish: "i < length (workers p) \<Longrightarrow> worker_finish i p = Some p' \<Longrightarrow> pool_step p p'"
| stop: "pool_step p (stop_accepting p)"
| pill: "should_stop p \<Longrightarrow> pills p < length (queues p) \<Longrightarrow> pool_step p (push_pill p)"

subsection \<open>Delayed jobs\<close>

record run_later =
  jobs :: "(int \<times> job option) list"
  latest :: int
  rl_stop :: bool
  clock :: int
  rl_accepted :: "(int \<times> job) list"
  rl_ran :: "(int \<times> job) list"

text \<open>
  The priority queue is a list ordered by due time (jobs due at the same time are taken in the
  order of arrival here, in the order of their addresses in the code). A submission reads the clock
  first and pushes its job later, under the mutex.
\<close>

definition RunLater_new :: run_later where
  "RunLater_new = \<lparr>jobs = [], latest = 0, rl_stop = False, clock = 0, rl_accepted = [], rl_ran = []\<rparr>"

definition RunLater_push :: "int \<Rightarrow> job \<Rightarrow> run_later \<Rightarrow> run_later" where
  "RunLater_push later f r = r\<lparr>latest := (if later > latest r then later else latest r),
     jobs := insort_key fst (later, Some f) (jobs r), rl_accepted := rl_accepted r @ [(later, f)]\<rparr>"

definition RunLater_run_later :: "run_later \<Rightarrow> int \<Rightarrow> job \<Rightarrow> int \<times> run_later" where
  "RunLater_run_later r usec f =
     (if rl_stop r then (EPERM, r)
      else (0, RunLater_push (clock r + (if usec > 0 then usec else 0)) f r))"

definition RunLater_stop :: "run_later \<Rightarrow> run_later" where
  "RunLater_stop r = r\<lparr>rl_stop := True, jobs := insort_key fst (0, None) (jobs r)\<rparr>"

datatype try_result = Ran | Pill | WaitUntil "int \<times> int" | WaitForJob

definition try_one_job :: "run_later \<Rightarrow> try_result \<times> run_later" where
  "try_one_job r = (case jobs r of
       [] \<Rightarrow> (WaitForJob, r)
     | (t, f) # rest \<Rightarrow>
         let wait = t - clock r in
         if wait < 0 then
           (case f of
               None \<Rightarrow> (Pill, r\<lparr>jobs := rest\<rparr>)
             | Some j \<Rightarrow> (Ran, r\<lparr>rl_ran := rl_ran r @ [(t, j)], jobs := rest\<rparr>))
         else
           let now_sec = clock r div 1000000; now_usec = clock r mod 1000000;
               wait_nsec = (wait mod 1000000) * 1000; n = now_usec * 1000 + wait_nsec in
           (WaitUntil (if n > 1000000000 then (now_sec + 1, n - 1000000000) else (now_sec, n)), r))"

definition max_wait :: "run_later \<Rightarrow> int" where
  "max_wait r = max 0 (latest r - clock r)"

text \<open>\<open>run_later_loop\<close> goes on until it was told to stop and no job is left.\<close>

definition run_later_loop_continues :: "run_later \<Rightarrow> bool" where
  "run_later_loop_continues r \<longleftrightarrow> \<not> rl_stop r \<or> jobs r \<noteq> []"

text \<open>
  The timer thread between other threads that submit jobs, at a due time computed at any moment
  before, stop it, and a clock that only advances.
\<close>

inductive rl_step :: "run_later \<Rightarrow> run_later \<Rightarrow> bool" where
  tick: "clock r \<le> c \<Longrightarrow> rl_step r (r\<lparr>clock := c\<rparr>)"
| submit: "rl_step r (RunLater_push later f r)"
| stop: "\<not> rl_stop r \<Longrightarrow> rl_step r (RunLater_stop r)"
| try_job: "rl_step r (snd (try_one_job r))"

section \<open>Mutual exclusion\<close>

definition spin_ok :: "spin \<Rightarrow> bool" where
  "spin_ok s \<longleftrightarrow> (locked s = (\<exists>t. pcs s t = Held)) \<and> (\<forall>t u. pcs s t = Held \<and> pcs s u = Held \<longrightarrow> t = u)"

lemma lock_step_cases:
  assumes "SpinLock_lock_step pc l = (pc', l')" "pc \<notin> {Idle, Held}"
  shows "pc' = Held \<and> \<not> l \<and> l' \<or> pc' \<notin> {Idle, Held} \<and> l' = l"
  using assms by (cases pc) (auto split: if_splits)

lemma spin_step_ok: "spin_step s s' \<Longrightarrow> spin_ok s \<Longrightarrow> spin_ok s'"
proof (induction rule: spin_step.induct)
  case (enter s t)
  then have "((pcs s)(t := Entry)) u = Held \<longleftrightarrow> pcs s u = Held" for u by auto
  with enter.prems show ?case by (auto simp: spin_ok_def)
next
  case (move s t pc l)
  from lock_step_cases [OF move.hyps(2,1)] show ?case
  proof
    assume a: "pc = Held \<and> \<not> locked s \<and> l"
    with move.prems have "\<forall>u. pcs s u \<noteq> Held" by (auto simp: spin_ok_def)
    with a show ?thesis by (auto simp: spin_ok_def)
  next
    assume a: "pc \<notin> {Idle, Held} \<and> l = locked s"
    then have "((pcs s)(t := pc)) u = Held \<longleftrightarrow> pcs s u = Held" for u using move.hyps(1) by auto
    with a move.prems show ?thesis by (auto simp: spin_ok_def)
  qed
next
  case (leave s t)
  then show ?case by (auto simp: spin_ok_def SpinLock_unlock_def split: if_splits)
qed

lemma spin_reachable_ok: "spin_step\<^sup>*\<^sup>* SpinLock_new s \<Longrightarrow> spin_ok s"
proof (induction rule: rtranclp_induct)
  case base
  show ?case by (simp add: spin_ok_def SpinLock_new_def)
qed (rule spin_step_ok)

section \<open>The pool\<close>

definition queued :: "job option list list \<Rightarrow> job multiset" where
  "queued qs = sum_list (map (\<lambda>q. mset (drain_queue q)) qs)"

definition in_flight :: "worker list \<Rightarrow> job multiset" where
  "in_flight ws = sum_list (map (\<lambda>w. case running w of None \<Rightarrow> {#} | Some f \<Rightarrow> {#f#}) ws)"

definition pill_count :: "job option list \<Rightarrow> nat" where
  "pill_count q = length (filter (\<lambda>j. j = None) q)"

definition worker_ok :: "nat \<Rightarrow> worker \<Rightarrow> bool" where
  "worker_ok n w \<longleftrightarrow> stage w \<le> 4 \<and> 1000 \<le> sleep_nsec w \<and> sleep_nsec w \<le> 50000
     \<and> set (steal_order w) \<subseteq> {0..<n} \<and> (exited w \<longrightarrow> running w = None)"

definition pills_ok :: "thread_pool \<Rightarrow> bool" where
  "pills_ok p \<longleftrightarrow> pills p \<le> length (queues p) \<and> (0 < pills p \<longrightarrow> should_stop p)
     \<and> (\<forall>i < length (queues p).
          pill_count (queues p ! i) + of_bool (exited (workers p ! i)) = of_bool (i < pills p))"

definition pool_ok :: "thread_pool \<Rightarrow> bool" where
  "pool_ok p \<longleftrightarrow> length (workers p) = length (queues p)
     \<and> mset (accepted p) = mset (ran p) + in_flight (workers p) + queued (queues p)
     \<and> pills_ok p \<and> (\<forall>w \<in> set (workers p). worker_ok (length (queues p)) w)"

lemma drain_queue_append [simp]: "drain_queue (q @ r) = drain_queue q @ drain_queue r"
  by (induction q rule: drain_queue.induct) auto

lemma pill_count_simps [simp]:
  "pill_count [] = 0" "pill_count (None # q) = Suc (pill_count q)" "pill_count (Some f # q) = pill_count q"
  "pill_count (q @ r) = pill_count q + pill_count r"
  by (simp_all add: pill_count_def)

lemma queued_update:
  "i < length qs \<Longrightarrow> mset (drain_queue (qs ! i)) + queued (qs[i := q]) = mset (drain_queue q) + queued qs"
  unfolding queued_def using sum_list_update_add [of i qs "\<lambda>q. mset (drain_queue q)" q] by simp

lemma in_flight_update:
  assumes "i < length ws"
  shows "(case running (ws ! i) of None \<Rightarrow> {#} | Some f \<Rightarrow> {#f#}) + in_flight (ws[i := w])
    = (case running w of None \<Rightarrow> {#} | Some f \<Rightarrow> {#f#}) + in_flight ws"
  unfolding in_flight_def
  using sum_list_update_add [OF assms, of "\<lambda>w. case running w of None \<Rightarrow> {#} | Some f \<Rightarrow> {#f#}" w] by simp

lemma in_flight_same: "i < length ws \<Longrightarrow> running w = running (ws ! i) \<Longrightarrow> in_flight (ws[i := w]) = in_flight ws"
  using in_flight_update [of i ws w] by auto

lemma shuffle_perm: "i \<le> length order \<Longrightarrow> mset (shuffle_loop rs i order) = mset order"
proof (induction rs i order rule: shuffle_loop.induct)
  case (2 r rs i order)
  show ?case
  proof (cases "Suc i < length order")
    case True
    let ?j = "Rand_next i (length order) r"
    let ?o = "if ?j \<noteq> i then order[?j := order ! i, i := order ! ?j] else order"
    have j: "?j < length order"
      using True mod_less_divisor [of "length order - i" r] unfolding Rand_next_def by linarith
    then have "mset ?o = mset order" using True by (simp add: mset_swap)
    moreover have "Suc i \<le> length ?o" using True by simp
    ultimately show ?thesis using "2.IH" [OF True refl] True by (simp add: Let_def)
  next
    case False
    then show ?thesis by simp
  qed
qed simp

lemma worker_new_ok: "worker_ok n (worker_new n rs)"
proof -
  have "set (shuffle_loop rs 0 [0..<n]) = {0..<n}"
    using shuffle_perm [of 0 "[0..<n]" rs] by (metis atLeastLessThan_upt le0 mset_eq_setD)
  then show ?thesis by (simp add: worker_ok_def worker_new_def)
qed

lemma pool_new_ok: "ThreadPool_new n rand = Inr p \<Longrightarrow> pool_ok p"
proof -
  have z: "in_flight (map (\<lambda>i. worker_new k (rand i)) is) = {#}" for k "is"
    by (induction "is") (simp_all add: in_flight_def worker_new_def)
  have q: "queued (replicate k []) = {#}" for k by (induction k) (simp_all add: queued_def)
  assume "ThreadPool_new n rand = Inr p"
  then have p: "p = \<lparr>queues = replicate (nat n) [], workers = map (\<lambda>i. worker_new (nat n) (rand i)) [0..<nat n],
      round_robin = 0, should_stop = False, pills = 0, accepted = [], ran = []\<rparr>"
    by (auto simp: ThreadPool_new_def rbind_eq_Inr_iff)
  show "pool_ok p"
    by (auto simp: p pool_ok_def pills_ok_def z q worker_new_ok) (simp add: worker_new_def)
qed

lemma pool_push_ok:
  assumes ok: "pool_ok p" and k: "k < length (queues p)"
  shows "pool_ok (pool_push k f p)"
proof -
  have "queued ((queues p)[k := queues p ! k @ [Some f]]) = add_mset f (queued (queues p))"
    using queued_update [OF k, of "queues p ! k @ [Some f]"] by simp
  then show ?thesis
    using ok k by (auto simp: pool_ok_def pills_ok_def pool_push_def Queue_push_def nth_list_update)
qed

lemma crem_less:
  assumes "0 < n"
  shows "crem a n < n"
proof (cases "0 \<le> a")
  case False
  have "0 \<le> (- a) mod n" using assms by (rule pos_mod_sign)
  then have "- ((- a) mod n) < n" using assms by linarith
  with False show ?thesis by (simp add: crem_def)
qed (use pos_mod_bound [OF assms] in \<open>simp add: crem_def\<close>)

lemma run_async_ok:
  assumes ok: "pool_ok p" and r: "ThreadPool_run_async p f ch = Inr (c, p')"
  shows "pool_ok p'"
proof (cases "should_stop p")
  case True
  with r ok show ?thesis by (simp add: ThreadPool_run_async_def Let_def)
next
  case False
  let ?n = "int (length (queues p))"
  let ?id = "if 0 \<le> ch then crem ch ?n else crem (sint (round_robin p)) ?n"
  let ?p1 = "if 0 \<le> ch then p else p\<lparr>round_robin := round_robin p + 1\<rparr>"
  have n: "0 < ?n" "0 \<le> ?id" "p' = pool_push (nat ?id) f ?p1"
    using r False by (auto simp: ThreadPool_run_async_def Let_def split: if_splits)
  have "nat ?id < length (queues ?p1)" using n crem_less [OF n(1)] by (simp add: nat_less_iff)
  moreover have "pool_ok ?p1" using ok by (simp add: pool_ok_def pills_ok_def)
  ultimately show ?thesis unfolding n(3) by (intro pool_push_ok)
qed

lemma steal_cases:
  assumes "steal ks me qs = Some (j, qs')"
  shows "\<exists>k f q. k \<in> set ks \<and> k \<noteq> me \<and> qs ! k = Some f # q \<and> j = Some f \<and> qs' = qs[k := q]"
  using assms
proof (induction ks me qs rule: steal.induct)
  case (2 k ks me qs)
  show ?case
  proof (cases "k \<noteq> me \<and> (\<exists>f q. qs ! k = Some f # q)")
    case True
    then obtain f q where q: "k \<noteq> me" "qs ! k = Some f # q" by blast
    with "2.prems" have "j = Some f" "qs' = qs[k := q]" by (simp_all add: Queue_try_pop_but_ignore_def)
    with q show ?thesis by (intro exI [of _ k] exI [of _ f] exI [of _ q]) simp
  next
    case False
    then have "steal (k # ks) me qs = steal ks me qs"
      by (auto simp: Queue_try_pop_but_ignore_def split: list.split option.split)
    with 2 False show ?thesis
      by (cases "k = me") (auto simp: Queue_try_pop_but_ignore_def split: list.splits if_splits option.splits)
  qed
qed simp

text \<open>Either a queue lost its first element, and a pill only to its owner, or nothing was fetched.\<close>

lemma fetch_cases:
  assumes f: "worker_fetch i w qs = Some (st, j, qs')" and w: "worker_ok (length qs) w" and i: "i < length qs"
  shows "st = 0 \<and> (\<exists>k q. k < length qs \<and> qs ! k = j # q \<and> qs' = qs[k := q] \<and> (j = None \<longrightarrow> k = i))
    \<or> 0 < st \<and> st \<le> 4 \<and> j = None \<and> qs' = qs"
proof (cases "stage w = 3")
  case True
  show ?thesis
  proof (cases "steal (steal_order w) i qs")
    case None
    with f True show ?thesis by (auto simp: worker_fetch_def)
  next
    case (Some x)
    obtain y z where x: "x = (y, z)" by fastforce
    from steal_cases [OF Some [unfolded x]] w have "\<exists>k f q. k < length qs \<and> qs ! k = Some f # q
        \<and> y = Some f \<and> z = qs[k := q]" by (fastforce simp: worker_ok_def)
    with f True Some x show ?thesis by (auto simp: worker_fetch_def)
  qed
next
  case False
  then show ?thesis
    using f i w by (auto simp: worker_fetch_def Queue_try_pop_def Queue_pop_def worker_ok_def
        split: if_splits list.splits)
qed

lemma clamp_bounds: "1000 \<le> clamp v 1000 50000" "clamp v 1000 50000 \<le> 50000"
  by (simp_all add: clamp_def)

lemma pills_same:
  assumes "pills_ok p" "exited v = exited (workers p ! i)"
    and "queues p' = queues p" "pills p' = pills p" "should_stop p' = should_stop p"
      "workers p' = (workers p)[i := v]"
  shows "pills_ok p'"
proof -
  have "exited ((workers p)[i := v] ! m) = exited (workers p ! m)" for m
    using assms(2) by (cases "m = i"; cases "i < length (workers p)") (simp_all add: list_update_beyond)
  with assms show ?thesis by (simp add: pills_ok_def)
qed

lemma workers_update_ok:
  "worker_ok n v \<Longrightarrow> \<forall>w \<in> set ws. worker_ok n w \<Longrightarrow> \<forall>w \<in> set (ws[i := v]). worker_ok n w"
  using set_update_subset_insert [of ws i v] by blast

lemma worker_iter_ok:
  assumes ok: "pool_ok p" and i: "i < length (workers p)" and it: "worker_iter i p = Some p'"
  shows "pool_ok p'"
proof -
  let ?w = "workers p ! i"
  have n: "length (workers p) = length (queues p)" and w: "worker_ok (length (queues p)) ?w"
    and all: "\<forall>w \<in> set (workers p). worker_ok (length (queues p)) w"
    using ok i by (auto simp: pool_ok_def)
  obtain st j qs where f: "worker_fetch i ?w (queues p) = Some (st, j, qs)" "\<not> exited ?w" "running ?w = None"
    and p': "p' = p\<lparr>queues := qs, workers := (workers p)[i :=
             (if st = 0 then (case j of None \<Rightarrow> ?w\<lparr>stage := 0, exited := True\<rparr>
                 | Some f \<Rightarrow> ?w\<lparr>stage := 0, running := Some f\<rparr>)
              else ?w\<lparr>stage := st, sleep_nsec := clamp (sleep_nsec ?w + 1000) 1000 50000\<rparr>)]\<rparr>"
    using it by (auto simp: worker_iter_def Let_def split: if_splits option.splits)
  have i': "i < length (queues p)" using i n by simp
  from fetch_cases [OF f(1) w i'] show ?thesis
  proof (elim disjE conjE exE)
    assume st: "0 < st" "st \<le> 4" "j = None" "qs = queues p"
    have "in_flight (workers p') = in_flight (workers p)" using i st by (simp add: p' in_flight_same)
    moreover have "worker_ok (length (queues p))
        (?w\<lparr>stage := st, sleep_nsec := clamp (sleep_nsec ?w + 1000) 1000 50000\<rparr>)"
      using w st clamp_bounds by (simp add: worker_ok_def)
    from workers_update_ok [OF this all, of i]
    have "\<forall>x \<in> set (workers p'). worker_ok (length (queues p')) x" using st by (simp add: p')
    moreover have "pills_ok p'"
      by (rule pills_same [of p "workers p' ! i" i]) (use ok st i in \<open>simp_all add: p' pool_ok_def\<close>)
    ultimately show ?thesis
      using ok i n st by (simp add: pool_ok_def p')
  next
    fix k q assume st: "st = 0" and k: "k < length (queues p)" "queues p ! k = j # q" "qs = (queues p)[k := q]"
      and pill: "j = None \<longrightarrow> k = i"
    let ?v = "case j of None \<Rightarrow> ?w\<lparr>stage := 0, exited := True\<rparr> | Some f \<Rightarrow> ?w\<lparr>stage := 0, running := Some f\<rparr>"
    have "mset (drain_queue (j # q)) + queued qs = mset (drain_queue q) + queued (queues p)"
      using queued_update [OF k(1), of q] k by simp
    moreover have "in_flight (workers p') = (case running ?v of None \<Rightarrow> {#} | Some f \<Rightarrow> {#f#}) + in_flight (workers p)"
      using in_flight_update [OF i, of ?v] f(3) by (simp add: p' st)
    ultimately have ms: "in_flight (workers p') + queued (queues p') = in_flight (workers p) + queued (queues p)"
      using f(3) by (cases j) (simp_all add: p')
    have "worker_ok (length (queues p)) ?v" using w f(2,3) by (cases j) (simp_all add: worker_ok_def)
    from workers_update_ok [OF this all, of i]
    have "\<forall>x \<in> set (workers p'). worker_ok (length (queues p')) x" by (simp add: p' st k)
    moreover have "pills_ok p'"
    proof -
      have "pill_count (queues p' ! m) + of_bool (exited (workers p' ! m)) = of_bool (m < pills p)"
        if m: "m < length (queues p)" for m
      proof -
        have old: "pill_count (queues p ! m) + of_bool (exited (workers p ! m)) = of_bool (m < pills p)"
          using ok m by (simp add: pool_ok_def pills_ok_def)
        show ?thesis
          using old m k pill f(2) i n
          by (cases j; cases "m = k"; cases "m = i") (auto simp: p' st nth_list_update)
      qed
      then show ?thesis using ok k by (simp add: pool_ok_def pills_ok_def p')
    qed
    ultimately show ?thesis using ok n ms by (simp add: pool_ok_def p' k add.assoc)
  qed
qed

lemma worker_finish_ok:
  assumes ok: "pool_ok p" and i: "i < length (workers p)" and fin: "worker_finish i p = Some p'"
  shows "pool_ok p'"
proof -
  let ?w = "workers p ! i"
  have n: "length (workers p) = length (queues p)" and w: "worker_ok (length (queues p)) ?w"
    and all: "\<forall>w \<in> set (workers p). worker_ok (length (queues p)) w"
    using ok i by (auto simp: pool_ok_def)
  obtain f where f: "running ?w = Some f"
    and p': "p' = p\<lparr>ran := thread_pool.ran p @ [f], workers := (workers p)[i :=
        ?w\<lparr>running := None, sleep_nsec := clamp (sleep_nsec ?w - 1000) 1000 50000\<rparr>]\<rparr>"
    using fin by (auto simp: worker_finish_def Let_def split: option.splits)
  have "add_mset f (in_flight (workers p')) = in_flight (workers p)"
    using in_flight_update [OF i, of "workers p' ! i"] f i by (simp add: p')
  moreover have "worker_ok (length (queues p))
      (?w\<lparr>running := None, sleep_nsec := clamp (sleep_nsec ?w - 1000) 1000 50000\<rparr>)"
    using w clamp_bounds by (simp add: worker_ok_def)
  from workers_update_ok [OF this all, of i]
  have "\<forall>x \<in> set (workers p'). worker_ok (length (queues p')) x" by (simp add: p')
  moreover have "pills_ok p'"
    by (rule pills_same [of p "workers p' ! i" i]) (use ok i in \<open>simp_all add: p' pool_ok_def\<close>)
  ultimately show ?thesis using ok by (simp add: pool_ok_def p')
qed

lemma push_pill_ok:
  assumes ok: "pool_ok p" and s: "should_stop p" "pills p < length (queues p)"
  shows "pool_ok (push_pill p)"
proof -
  have "queued ((queues p)[pills p := queues p ! pills p @ [None]]) = queued (queues p)"
    using queued_update [OF s(2), of "queues p ! pills p @ [None]"] by simp
  moreover have "pills_ok (push_pill p)"
    using ok s by (auto simp: pool_ok_def pills_ok_def push_pill_def Queue_push_def nth_list_update less_Suc_eq)
  ultimately show ?thesis using ok by (simp add: pool_ok_def push_pill_def Queue_push_def)
qed

lemma pool_step_ok: "pool_step p p' \<Longrightarrow> pool_ok p \<Longrightarrow> pool_ok p'"
proof (induction rule: pool_step.induct)
  case (stop p)
  then show ?case by (simp add: pool_ok_def pills_ok_def stop_accepting_def)
qed (auto intro: run_async_ok pool_push_ok worker_iter_ok worker_finish_ok push_pill_ok)

definition pool_reachable :: "thread_pool \<Rightarrow> thread_pool \<Rightarrow> bool" where
  "pool_reachable p p' \<longleftrightarrow> pool_step\<^sup>*\<^sup>* p p'"

lemma pool_reachable_ok: "pool_reachable p p' \<Longrightarrow> pool_ok p \<Longrightarrow> pool_ok p'"
  unfolding pool_reachable_def by (induction rule: rtranclp_induct) (auto intro: pool_step_ok)

section \<open>Delayed jobs\<close>

fun waiting_jobs :: "(int \<times> job option) list \<Rightarrow> (int \<times> job) multiset" where
  "waiting_jobs [] = {#}"
| "waiting_jobs ((t, None) # js) = waiting_jobs js"
| "waiting_jobs ((t, Some f) # js) = add_mset (t, f) (waiting_jobs js)"

lemma waiting_insort:
  "waiting_jobs (insort_key fst (t, Some f) js) = add_mset (t, f) (waiting_jobs js)"
  "waiting_jobs (insort_key fst (t, None) js) = waiting_jobs js"
  by (induction js rule: waiting_jobs.induct) auto

definition rl_ok :: "run_later \<Rightarrow> bool" where
  "rl_ok r \<longleftrightarrow> sorted (map fst (jobs r)) \<and> (\<forall>x \<in> set (rl_ran r). fst x < clock r)
     \<and> mset (rl_accepted r) = mset (rl_ran r) + waiting_jobs (jobs r)"

lemma rl_step_ok: "rl_step r r' \<Longrightarrow> rl_ok r \<Longrightarrow> rl_ok r'"
proof (induction rule: rl_step.induct)
  case (tick r c)
  then show ?case by (force simp: rl_ok_def)
next
  case (submit r later f)
  then show ?case by (simp add: rl_ok_def RunLater_push_def sorted_insort_key waiting_insort)
next
  case (stop r)
  then show ?case by (simp add: rl_ok_def RunLater_stop_def sorted_insort_key waiting_insort)
next
  case (try_job r)
  show ?case
  proof (cases "jobs r" rule: waiting_jobs.cases)
    case 1
    with try_job show ?thesis by (simp add: try_one_job_def)
  next
    case (2 t js)
    then have "snd (try_one_job r) = (if t < clock r then r\<lparr>jobs := js\<rparr> else r)"
      by (simp add: try_one_job_def Let_def)
    with try_job 2 show ?thesis by (simp add: rl_ok_def)
  next
    case (3 t f js)
    then have "snd (try_one_job r)
        = (if t < clock r then r\<lparr>rl_ran := rl_ran r @ [(t, f)], jobs := js\<rparr> else r)"
      by (simp add: try_one_job_def Let_def)
    with try_job 3 show ?thesis by (auto simp: rl_ok_def)
  qed
qed

lemma rl_reachable_ok: "rl_step\<^sup>*\<^sup>* RunLater_new r \<Longrightarrow> rl_ok r"
proof (induction rule: rtranclp_induct)
  case base
  show ?case by (simp add: rl_ok_def RunLater_new_def)
qed (rule rl_step_ok)

section \<open>Properties\<close>

text \<open>
  The spin lock excludes: whatever the interleaving of any number of threads, at most one
  holds the lock, and the flag is set exactly while one does.
\<close>

theorem spin_lock_mutual_exclusion:
  assumes "spin_step\<^sup>*\<^sup>* SpinLock_new s"
  shows "(\<forall>t u. pcs s t = Held \<and> pcs s u = Held \<longrightarrow> t = u) \<and> (locked s \<longleftrightarrow> (\<exists>t. pcs s t = Held))"
  using spin_reachable_ok [OF assms] by (simp add: spin_ok_def)

theorem spin_lock_mutual_exclusion_witness:
  "\<exists>s. spin_step\<^sup>*\<^sup>* SpinLock_new s \<and> pcs s 1 = Held \<and> locked s \<and> pcs s 2 \<noteq> Held"
proof -
  let ?s1 = "SpinLock_new\<lparr>pcs := (pcs SpinLock_new)(1 := Entry)\<rparr>"
  let ?s2 = "?s1\<lparr>locked := False, pcs := (pcs ?s1)(1 := FirstTas)\<rparr>"
  let ?s3 = "?s2\<lparr>locked := True, pcs := (pcs ?s2)(1 := Held)\<rparr>"
  have "spin_step SpinLock_new ?s1" by (rule spin_step.enter) (simp add: SpinLock_new_def)
  moreover have "spin_step ?s1 ?s2" by (rule spin_step.move) (simp_all add: SpinLock_new_def)
  moreover have "spin_step ?s2 ?s3" by (rule spin_step.move) (simp_all add: SpinLock_new_def)
  ultimately have r: "spin_step\<^sup>*\<^sup>* SpinLock_new ?s3" by (meson converse_rtranclp_into_rtranclp rtranclp.rtrancl_refl)
  moreover have "pcs ?s3 1 = Held" "locked ?s3" by simp_all
  moreover have "pcs ?s3 2 \<noteq> Held"
    using spin_lock_mutual_exclusion [OF r] by (auto simp: SpinLock_new_def)
  ultimately show ?thesis by blast
qed

text \<open>
  C7. No job is lost and none runs twice: in every reachable state the jobs accepted are the jobs
  run, the jobs running and the jobs queued, each as often as it was submitted; and when the
  destructor has joined its threads and run what was left, exactly the accepted jobs have run.
\<close>

theorem pool_runs_every_job_once:
  assumes "ThreadPool_new n rand = Inr p0" and "pool_reachable p0 p"
  shows "mset (accepted p) = mset (thread_pool.ran p) + in_flight (workers p) + queued (queues p)
    \<and> ((\<forall>w \<in> set (workers p). exited w) \<longrightarrow> mset (thread_pool.ran (drain p)) = mset (accepted p))"
proof -
  have ok: "pool_ok p" using pool_reachable_ok [OF assms(2) pool_new_ok [OF assms(1)]] .
  have "in_flight ws = {#}" if "\<forall>w \<in> set ws. running w = None" for ws
    using that by (induction ws) (auto simp: in_flight_def)
  moreover have "\<forall>w \<in> set (workers p). running w = None" if "\<forall>w \<in> set (workers p). exited w"
    using ok that by (auto simp: pool_ok_def worker_ok_def)
  moreover have "mset (concat (map drain_queue qs)) = queued qs" for qs
    by (induction qs) (simp_all add: queued_def)
  ultimately show ?thesis using ok by (auto simp: pool_ok_def drain_def)
qed

definition demo_pool :: thread_pool where
  "demo_pool = \<lparr>queues = [[], []], workers = [worker_new 2 [], worker_new 2 []], round_robin = 0,
     should_stop = False, pills = 0, accepted = [], ran = []\<rparr>"

lemma demo_pool_new: "ThreadPool_new 2 (\<lambda>_. []) = Inr demo_pool"
  by (simp add: ThreadPool_new_def demo_pool_def upt_rec numeral_2_eq_2)

theorem pool_runs_every_job_once_witness:
  "\<exists>p. pool_reachable demo_pool p \<and> queues p = [[Some 5], []]
     \<and> mset (accepted p) = mset (thread_pool.ran p) + in_flight (workers p) + queued (queues p)"
proof -
  let ?p = "demo_pool\<lparr>round_robin := 1, queues := [[Some 5], []], accepted := [5]\<rparr>"
  have "ThreadPool_run_async demo_pool 5 (- 1) = Inr (0, ?p)"
    by (simp add: ThreadPool_run_async_def demo_pool_def crem_def pool_push_def Queue_push_def Let_def)
  then have "pool_reachable demo_pool ?p"
    unfolding pool_reachable_def by (intro r_into_rtranclp pool_step.submit)
  with pool_runs_every_job_once [OF demo_pool_new this] show ?thesis by (intro exI [of _ ?p]) simp
qed

text \<open>
  C31. The destructor cannot hang on its threads: once every queue got its death pill, each worker
  that has not exited still has its own pill in its own queue, since nobody steals pills, so that
  no worker is ever blocked.
\<close>

theorem pool_shutdown_never_blocks:
  assumes "ThreadPool_new n rand = Inr p0" and "pool_reachable p0 p"
    and "pills p = length (queues p)" and "i < length (workers p)"
    and "\<not> exited (workers p ! i)" "running (workers p ! i) = None"
  shows "pill_count (queues p ! i) = 1 \<and> (\<exists>p'. worker_iter i p = Some p')"
proof -
  have ok: "pool_ok p" using pool_reachable_ok [OF assms(2) pool_new_ok [OF assms(1)]] .
  then have i: "i < length (queues p)" "pills_ok p" using assms(4) by (simp_all add: pool_ok_def)
  then have c: "pill_count (queues p ! i) + of_bool (exited (workers p ! i)) = of_bool (i < pills p)"
    unfolding pills_ok_def by blast
  then have one: "pill_count (queues p ! i) = 1" using assms(3,5) i(1) by simp
  then obtain j q where "queues p ! i = j # q" by (cases "queues p ! i") auto
  then have "\<exists>x. worker_fetch i (workers p ! i) (queues p) = Some x"
    by (auto simp: worker_fetch_def Queue_try_pop_def Queue_pop_def split: option.split)
  then show ?thesis using one assms(5,6) by (auto simp: worker_iter_def Let_def)
qed

theorem pool_shutdown_never_blocks_witness:
  "\<exists>p p'. pool_reachable demo_pool p \<and> pills p = 2 \<and> worker_iter 1 p = Some p'"
proof -
  let ?p1 = "stop_accepting demo_pool"
  let ?p3 = "push_pill (push_pill ?p1)"
  have "pool_step demo_pool ?p1" by (rule pool_step.stop)
  moreover have "pool_step ?p1 (push_pill ?p1)" "pool_step (push_pill ?p1) ?p3"
    by (rule pool_step.pill; simp add: stop_accepting_def push_pill_def demo_pool_def)+
  ultimately have r: "pool_reachable demo_pool ?p3"
    unfolding pool_reachable_def by (meson converse_rtranclp_into_rtranclp rtranclp.rtrancl_refl)
  have "pills ?p3 = 2" "length (queues ?p3) = 2" "1 < length (workers ?p3)"
    "\<not> exited (workers ?p3 ! 1)" "running (workers ?p3 ! 1) = None"
    by (simp_all add: stop_accepting_def push_pill_def demo_pool_def worker_new_def)
  with pool_shutdown_never_blocks [OF demo_pool_new r, of 1] r show ?thesis by auto
qed

text \<open>
  C32. Delayed jobs: none is lost and none runs twice, since the jobs accepted are the jobs run and
  the jobs waiting; none runs before its due time; a job that runs is due no later than every
  other job then waiting; and when the loop of the timer thread ends, every accepted job has run.
\<close>

theorem run_later_runs_due_jobs_once:
  assumes "rl_step\<^sup>*\<^sup>* RunLater_new r"
  shows "mset (rl_accepted r) = mset (rl_ran r) + waiting_jobs (jobs r)
    \<and> (\<forall>x \<in> set (rl_ran r). fst x < clock r)
    \<and> (\<forall>r'. try_one_job r = (Ran, r') \<longrightarrow>
          (\<exists>t f. rl_ran r' = rl_ran r @ [(t, f)] \<and> t < clock r \<and> (\<forall>x \<in> set (jobs r'). t \<le> fst x)))
    \<and> (\<not> run_later_loop_continues r \<longrightarrow> mset (rl_accepted r) = mset (rl_ran r))"
proof -
  have ok: "rl_ok r" by (rule rl_reachable_ok [OF assms])
  have "\<exists>t f. rl_ran r' = rl_ran r @ [(t, f)] \<and> t < clock r \<and> (\<forall>x \<in> set (jobs r'). t \<le> fst x)"
    if "try_one_job r = (Ran, r')" for r'
    using that ok by (cases "jobs r" rule: waiting_jobs.cases)
      (auto simp: try_one_job_def Let_def rl_ok_def split: if_splits)
  with ok show ?thesis by (simp add: rl_ok_def run_later_loop_continues_def)
qed

theorem run_later_runs_due_jobs_once_witness:
  "\<exists>r. rl_step\<^sup>*\<^sup>* RunLater_new r \<and> rl_ran r = [(10, 3)] \<and> mset (rl_accepted r) = mset [(10, 3), (40, 4)]
     \<and> waiting_jobs (jobs r) = {#(40, 4)#}"
proof -
  let ?r1 = "RunLater_push 10 3 (RunLater_push 40 4 RunLater_new)"
  let ?r2 = "?r1\<lparr>clock := 11\<rparr>"
  let ?r3 = "snd (try_one_job ?r2)"
  have "rl_step RunLater_new (RunLater_push 40 4 RunLater_new)" "rl_step (RunLater_push 40 4 RunLater_new) ?r1"
    by (rule rl_step.submit)+
  moreover have "rl_step ?r1 ?r2" by (rule rl_step.tick) (simp add: RunLater_push_def RunLater_new_def)
  moreover have "rl_step ?r2 ?r3" by (rule rl_step.try_job)
  ultimately have r: "rl_step\<^sup>*\<^sup>* RunLater_new ?r3" by (meson converse_rtranclp_into_rtranclp rtranclp.rtrancl_refl)
  moreover have "rl_ran ?r3 = [(10, 3)]" "waiting_jobs (jobs ?r3) = {#(40, 4)#}"
    by (simp_all add: try_one_job_def RunLater_push_def RunLater_new_def Let_def)
  ultimately show ?thesis using run_later_runs_due_jobs_once [OF r] by (intro exI [of _ ?r3]) auto
qed

text \<open>
  C33. A deadline is the current time plus the delay, but it is a valid \<open>timespec\<close> only when the
  nanoseconds do not add up to exactly one second: the carry is taken for more than a second only.
\<close>

theorem deadline_valid_unless_exact_second:
  assumes "0 \<le> usec" "usec < 1000000" and "0 \<le> nsec" "nsec < 1000000000"
  shows "(case deadline s usec d nsec of (ds, dn) \<Rightarrow>
      ds * 1000000000 + dn = (s + d) * 1000000000 + usec * 1000 + nsec)
    \<and> (timespec_valid (deadline s usec d nsec) \<longleftrightarrow> usec * 1000 + nsec \<noteq> 1000000000)"
  using assms by (auto simp: deadline_def timespec_valid_def Let_def)

theorem deadline_valid_unless_exact_second_witness:
  "deadline 100 600000 2 400000000 = (102, 1000000000) \<and> \<not> timespec_valid (deadline 100 600000 2 400000000)"
  using deadline_valid_unless_exact_second [of 600000 400000000 100 2] by (simp add: deadline_def)

end
