(* ===== verification/Blocking_Queue.thy ===== *)
theory Blocking_Queue
  imports Threading
begin

text \<open>
  Locks and condition variables of \<open>base/threading.h\<close>, and the class \<open>Queue\<close> at the level of its
  lock operations: every statement between two synchronisation points is a step of the thread that
  executes it, the steps of all threads interleave, waiting threads may wake up for no reason, and a
  signal wakes at least one waiting thread. The theory \<open>Threading\<close> takes every operation of a queue as
  one step; here this is shown to be justified.
\<close>

section \<open>Definitions\<close>

subsection \<open>Mutexes and condition variables\<close>

datatype mutex_kind = NORMAL | ERRORCHECK

record mutex =
  m_kind :: mutex_kind
  m_owner :: "nat option"

definition EDEADLK :: int where "EDEADLK = 35"

text \<open>
  The functions of the thread library, called by the thread \<open>t\<close>: \<open>None\<close> means that the call blocks.
  The misuse of a normal mutex is undefined; it is an error of the model.
\<close>

definition pthread_mutex_lock :: "nat \<Rightarrow> mutex \<Rightarrow> (int \<times> mutex) option res" where
  "pthread_mutex_lock t m = (case m_owner m of
       None \<Rightarrow> Inr (Some (0, m\<lparr>m_owner := Some t\<rparr>))
     | Some u \<Rightarrow>
         if u \<noteq> t then Inr None
         else if m_kind m = ERRORCHECK then Inr (Some (EDEADLK, m)) else Inl Deadlock)"

definition pthread_mutex_unlock :: "nat \<Rightarrow> mutex \<Rightarrow> (int \<times> mutex) res" where
  "pthread_mutex_unlock t m =
     (if m_owner m = Some t then Inr (0, m\<lparr>m_owner := None\<rparr>)
      else if m_kind m = ERRORCHECK then Inr (EPERM, m) else Inl Deadlock)"

text \<open>The macros: the result of every call is verified.\<close>

definition Pthread_mutex_lock :: "nat \<Rightarrow> mutex \<Rightarrow> mutex option res" where
  "Pthread_mutex_lock t m = rbind (pthread_mutex_lock t m) (\<lambda>r. case r of
       None \<Rightarrow> Inr None
     | Some (e, m') \<Rightarrow> rbind (verify (e = 0)) (\<lambda>_. Inr (Some m')))"

definition Pthread_mutex_unlock :: "nat \<Rightarrow> mutex \<Rightarrow> mutex res" where
  "Pthread_mutex_unlock t m = rbind (pthread_mutex_unlock t m) (\<lambda>(e, m'). rbind (verify (e = 0)) (\<lambda>_. Inr m'))"

text \<open>A condition variable is the set of the threads that wait for it; waiting gives up the mutex.\<close>

type_synonym cond = "nat set"

definition Pthread_cond_wait :: "nat \<Rightarrow> cond \<Rightarrow> mutex \<Rightarrow> (cond \<times> mutex) res" where
  "Pthread_cond_wait t cv m = rbind (pthread_mutex_unlock t m) (\<lambda>(e, m'). rbind (verify (e = 0)) (\<lambda>_. Inr (insert t cv, m')))"

text \<open>\<open>A\<close>: the threads that the signal wakes, at least one if there is one.\<close>

definition may_wake :: "nat set \<Rightarrow> cond \<Rightarrow> bool" where
  "may_wake A cv \<longleftrightarrow> A \<subseteq> cv \<and> (A = {} \<longrightarrow> cv = {})"

definition Pthread_cond_signal :: "nat set \<Rightarrow> cond \<Rightarrow> cond" where
  "Pthread_cond_signal A cv = cv - A"

definition Pthread_cond_broadcast :: "cond \<Rightarrow> cond" where
  "Pthread_cond_broadcast cv = {}"

definition Mutex_new :: mutex where
  "Mutex_new = \<lparr>m_kind = ERRORCHECK, m_owner = None\<rparr>"

definition Mutex_lock :: "nat \<Rightarrow> mutex \<Rightarrow> mutex option res" where
  "Mutex_lock t m = Pthread_mutex_lock t m"

definition Mutex_unlock :: "nat \<Rightarrow> mutex \<Rightarrow> mutex res" where
  "Mutex_unlock t m = Pthread_mutex_unlock t m"

text \<open>The constructor and the destructor of a \<open>ScopedLock\<close> on a \<open>Mutex\<close>.\<close>

definition ScopedLock_new :: "nat \<Rightarrow> mutex \<Rightarrow> mutex option res" where
  "ScopedLock_new t m = Mutex_lock t m"

definition ScopedLock_delete :: "nat \<Rightarrow> mutex \<Rightarrow> mutex res" where
  "ScopedLock_delete t m = Mutex_unlock t m"

definition CondVar_wait :: "nat \<Rightarrow> cond \<Rightarrow> mutex \<Rightarrow> (cond \<times> mutex) res" where
  "CondVar_wait t cv m = Pthread_cond_wait t cv m"

definition CondVar_signal :: "nat set \<Rightarrow> cond \<Rightarrow> cond" where
  "CondVar_signal A cv = Pthread_cond_signal A cv"

definition CondVar_bcast :: "cond \<Rightarrow> cond" where
  "CondVar_bcast cv = Pthread_cond_broadcast cv"

subsection \<open>Queue\<close>

text \<open>
  Where a thread is: \<open>Out\<close> of all functions, or before a statement of \<open>push\<close>, of \<open>pop\<close>, or of
  \<open>try_pop\<close> and \<open>try_pop_but_ignore\<close> (with the element to ignore). \<open>Pop_woken\<close>: inside
  \<open>pthread_cond_wait\<close>, on the way back to the mutex.
\<close>

datatype 'a qpc =
    Out
  | Push_lock 'a | Push_back 'a | Push_signal | Push_unlock
  | Pop_lock | Pop_check | Pop_wait | Pop_woken | Pop_unlock 'a
  | Try_lock "'a option" | Try_check "'a option" | Try_unlock "'a option"

text \<open>\<open>bq_pushed\<close> and \<open>bq_popped\<close> record the elements in the order in which they entered and left.\<close>

record 'a bqueue =
  bq_q :: "'a list"
  bq_not_empty :: cond
  bq_m :: mutex
  bq_pc :: "nat \<Rightarrow> 'a qpc"
  bq_pushed :: "'a list"
  bq_popped :: "'a list"

definition Queue_new :: "'a bqueue" where
  "Queue_new = \<lparr>bq_q = [], bq_not_empty = {}, bq_m = \<lparr>m_kind = NORMAL, m_owner = None\<rparr>, bq_pc = (\<lambda>_. Out),
     bq_pushed = [], bq_popped = []\<rparr>"

definition goto :: "nat \<Rightarrow> 'a qpc \<Rightarrow> 'a bqueue \<Rightarrow> 'a bqueue" where
  "goto t p s = s\<lparr>bq_pc := (bq_pc s)(t := p)\<rparr>"

definition lock_then :: "nat \<Rightarrow> 'a qpc \<Rightarrow> 'a bqueue \<Rightarrow> 'a bqueue option res" where
  "lock_then t p s = rbind (Pthread_mutex_lock t (bq_m s)) (\<lambda>r.
     Inr (map_option (\<lambda>m. goto t p (s\<lparr>bq_m := m\<rparr>)) r))"

definition unlock_then :: "nat \<Rightarrow> 'a qpc \<Rightarrow> 'a bqueue \<Rightarrow> 'a bqueue option res" where
  "unlock_then t p s = rbind (Pthread_mutex_unlock t (bq_m s)) (\<lambda>m. Inr (Some (goto t p (s\<lparr>bq_m := m\<rparr>))))"

text \<open>The threads in \<open>A\<close> leave the condition variable and go for the mutex.\<close>

definition wake_up :: "nat set \<Rightarrow> 'a bqueue \<Rightarrow> 'a bqueue" where
  "wake_up A s = s\<lparr>bq_not_empty := Pthread_cond_signal A (bq_not_empty s), bq_pc := (\<lambda>u. if u \<in> A then Pop_woken else bq_pc s u)\<rparr>"

definition take_out :: "nat \<Rightarrow> 'a qpc \<Rightarrow> 'a \<times> 'a list \<Rightarrow> 'a bqueue \<Rightarrow> 'a bqueue" where
  "take_out t p r s = goto t p (s\<lparr>bq_q := snd r, bq_popped := bq_popped s @ [fst r]\<rparr>)"

text \<open>The step of the thread \<open>t\<close>; \<open>None\<close> when it is blocked or outside.\<close>

definition queue_step :: "nat \<Rightarrow> nat set \<Rightarrow> 'a bqueue \<Rightarrow> 'a bqueue option res" where
  "queue_step t A s = (case bq_pc s t of
       Out \<Rightarrow> Inr None
     | Push_lock e \<Rightarrow> lock_then t (Push_back e) s
     | Push_back e \<Rightarrow> Inr (Some (goto t Push_signal (s\<lparr>bq_q := Queue_push (bq_q s) e, bq_pushed := bq_pushed s @ [e]\<rparr>)))
     | Push_signal \<Rightarrow> Inr (Some (goto t Push_unlock (wake_up A s)))
     | Push_unlock \<Rightarrow> unlock_then t Out s
     | Pop_lock \<Rightarrow> lock_then t Pop_check s
     | Pop_check \<Rightarrow> (case Queue_pop (bq_q s) of
           None \<Rightarrow> rbind (Pthread_cond_wait t (bq_not_empty s) (bq_m s)) (\<lambda>(cv, m).
             Inr (Some (goto t Pop_wait (s\<lparr>bq_not_empty := cv, bq_m := m\<rparr>))))
         | Some r \<Rightarrow> Inr (Some (take_out t (Pop_unlock (fst r)) r s)))
     | Pop_wait \<Rightarrow> Inr None
     | Pop_woken \<Rightarrow> lock_then t Pop_check s
     | Pop_unlock e \<Rightarrow> unlock_then t Out s
     | Try_lock ignore \<Rightarrow> lock_then t (Try_check ignore) s
     | Try_check ignore \<Rightarrow> (case (case ignore of None \<Rightarrow> Queue_try_pop (bq_q s) | Some i \<Rightarrow> Queue_try_pop_but_ignore (bq_q s) i) of
           None \<Rightarrow> Inr (Some (goto t (Try_unlock None) s))
         | Some r \<Rightarrow> Inr (Some (take_out t (Try_unlock (Some (fst r))) r s)))
     | Try_unlock r \<Rightarrow> unlock_then t Out s)"

text \<open>What the threads inside the functions do, and what may happen besides.\<close>

inductive queue_run :: "'a bqueue \<Rightarrow> 'a bqueue \<Rightarrow> bool" where
  step: "may_wake A (bq_not_empty s) \<Longrightarrow> queue_step t A s = Inr (Some s') \<Longrightarrow> queue_run s s'"

inductive queue_reach :: "'a bqueue \<Rightarrow> bool" where
  start: "queue_reach Queue_new"
| call: "queue_reach s \<Longrightarrow> bq_pc s t = Out \<Longrightarrow> p = Push_lock e \<or> p = Pop_lock \<or> p = Try_lock ig \<Longrightarrow> queue_reach (goto t p s)"
| spurious: "queue_reach s \<Longrightarrow> t \<in> bq_not_empty s \<Longrightarrow> queue_reach (wake_up {t} s)"
| run: "queue_reach s \<Longrightarrow> queue_run s s' \<Longrightarrow> queue_reach s'"

section \<open>The invariant\<close>

fun inside :: "'a qpc \<Rightarrow> bool" where
  "inside (Push_back e) = True"
| "inside Push_signal = True"
| "inside Push_unlock = True"
| "inside Pop_check = True"
| "inside (Pop_unlock e) = True"
| "inside (Try_check ig) = True"
| "inside (Try_unlock r) = True"
| "inside p = False"

text \<open>Threads that will look at the queue, or wake another one, before they can wait again.\<close>

fun moving :: "'a qpc \<Rightarrow> bool" where
  "moving Pop_woken = True"
| "moving Push_signal = True"
| "moving Pop_check = True"
| "moving p = False"

text \<open>While anybody waits, there is a moving thread for every element of the queue.\<close>

definition queue_ok :: "'a bqueue \<Rightarrow> bool" where
  "queue_ok s \<longleftrightarrow> m_kind (bq_m s) = NORMAL \<and> (\<forall>t. m_owner (bq_m s) = Some t \<longleftrightarrow> inside (bq_pc s t))
     \<and> bq_not_empty s = {t. bq_pc s t = Pop_wait} \<and> finite {t. bq_pc s t \<noteq> Out}
     \<and> bq_pushed s = bq_popped s @ bq_q s
     \<and> (bq_not_empty s \<noteq> {} \<longrightarrow> length (bq_q s) \<le> card {t. moving (bq_pc s t)})"

lemma card_upd:
  assumes "finite {u. P (f u)}"
  shows "card {u. P ((f(t := p)) u)} + of_bool (P (f t)) = card {u. P (f u)} + of_bool (P p)"
proof -
  have "{u. P ((f(t := p)) u)} = {u. P (f u)} - {t} \<union> (if P p then {t} else {})" by auto
  moreover have "card ({u. P (f u)} - {t}) + of_bool (P (f t)) = card {u. P (f u)}"
    using assms card_Suc_Diff1 [OF assms, of t] by (cases "P (f t)") simp_all
  ultimately show ?thesis using assms by (auto simp: card_insert_if)
qed

lemma finite_moving: "finite {t. f t \<noteq> Out} \<Longrightarrow> finite {t. moving (f t)}"
  by (rule finite_subset) auto

lemma moving_upd:
  "finite {u. f u \<noteq> Out} \<Longrightarrow> card {u. moving ((f(t := p)) u)} + of_bool (moving (f t)) = card {u. moving (f u)} + of_bool (moving p)"
  by (rule card_upd) (rule finite_moving)

lemma active_upd: "finite {u. f u \<noteq> Out} \<Longrightarrow> finite {u. (f(t := p)) u \<noteq> Out}"
  by (rule finite_subset [of _ "insert t {u. f u \<noteq> Out}"]) auto

text \<open>A thread that goes on without touching the mutex or the condition variable.\<close>

lemma ok_goto:
  assumes ok: "queue_ok s" and p: "inside p = inside (bq_pc s t)" "p \<noteq> Pop_wait" "bq_pc s t \<noteq> Pop_wait" and q: "pu = po @ q"
    and len: "bq_not_empty s \<noteq> {} \<Longrightarrow> length q + of_bool (moving (bq_pc s t)) \<le> length (bq_q s) + of_bool (moving p)"
  shows "queue_ok (goto t p (s\<lparr>bq_q := q, bq_pushed := pu, bq_popped := po\<rparr>))"
proof -
  have f: "finite {u. bq_pc s u \<noteq> Out}" using ok by (simp add: queue_ok_def)
  have "bq_not_empty s \<noteq> {} \<Longrightarrow> length q \<le> card {u. moving (((bq_pc s)(t := p)) u)}"
    using ok len moving_upd [OF f, of t p] by (auto simp: queue_ok_def)
  moreover have "{u. bq_pc s u = Pop_wait} = {u. ((bq_pc s)(t := p)) u = Pop_wait}" using p(2,3) by auto
  ultimately show ?thesis using ok p(1) q active_upd [OF f, of t p] by (auto simp: queue_ok_def goto_def)
qed

lemma ok_goto_out:
  assumes "queue_ok s" "inside p = inside (bq_pc s t)" "p \<noteq> Pop_wait" "bq_pc s t \<noteq> Pop_wait" "bq_pushed s = po @ q"
    "bq_not_empty s \<noteq> {} \<Longrightarrow> length q + of_bool (moving (bq_pc s t)) \<le> length (bq_q s) + of_bool (moving p)"
  shows "queue_ok (goto t p (s\<lparr>bq_q := q, bq_popped := po\<rparr>))"
proof -
  have "s\<lparr>bq_q := q, bq_pushed := bq_pushed s, bq_popped := po\<rparr> = s\<lparr>bq_q := q, bq_popped := po\<rparr>" by simp
  then show ?thesis using ok_goto [OF assms] by metis
qed

lemma ok_goto_on:
  assumes "queue_ok s" "inside p = inside (bq_pc s t)" "p \<noteq> Pop_wait" "bq_pc s t \<noteq> Pop_wait" "\<not> moving (bq_pc s t)"
  shows "queue_ok (goto t p s)"
proof -
  have "bq_pushed s = bq_popped s @ bq_q s" using assms(1) by (simp add: queue_ok_def)
  from ok_goto_out [OF assms(1-4) this] assms(5) show ?thesis by simp
qed

lemma ok_lock:
  assumes ok: "queue_ok s" and l: "lock_then t p s = Inr (Some s')"
    and p: "inside p" "\<not> inside (bq_pc s t)" "bq_pc s t \<noteq> Pop_wait" "moving (bq_pc s t) \<longrightarrow> moving p"
  shows "queue_ok s'"
proof -
  have f: "finite {u. bq_pc s u \<noteq> Out}" using ok by (simp add: queue_ok_def)
  have o: "m_owner (bq_m s) = None" "s' = goto t p (s\<lparr>bq_m := (bq_m s)\<lparr>m_owner := Some t\<rparr>\<rparr>)"
    using l ok p(2) by (auto simp: lock_then_def Pthread_mutex_lock_def pthread_mutex_lock_def queue_ok_def rbind_eq_Inr_iff
        split: option.splits if_splits)
  have "card {u. moving (bq_pc s u)} \<le> card {u. moving (((bq_pc s)(t := p)) u)}" 
  proof -
    have "of_bool (moving (bq_pc s t)) \<le> (of_bool (moving p) :: nat)" using p(4) by (simp add: of_bool_def)
    then show ?thesis using moving_upd [OF f, of t p] by linarith
  qed
  moreover have "{u. bq_pc s u = Pop_wait} = {u. ((bq_pc s)(t := p)) u = Pop_wait}" using p(1,3) by auto
  moreover have "\<not> inside (bq_pc s u)" for u using ok o(1) by (simp add: queue_ok_def)
  ultimately show ?thesis using ok p(1) active_upd [OF f, of t p] by (auto simp: queue_ok_def goto_def o(2) intro: le_trans)
qed

lemma ok_unlock:
  assumes ok: "queue_ok s" and l: "unlock_then t Out s = Inr (Some s')" and p: "inside (bq_pc s t)" "\<not> moving (bq_pc s t)"
  shows "queue_ok s'"
proof -
  have f: "finite {u. bq_pc s u \<noteq> Out}" and o: "m_owner (bq_m s) = Some t" using ok p(1) by (simp_all add: queue_ok_def)
  have s': "s' = goto t Out (s\<lparr>bq_m := (bq_m s)\<lparr>m_owner := None\<rparr>\<rparr>)"
    using l o by (simp add: unlock_then_def Pthread_mutex_unlock_def pthread_mutex_unlock_def)
  have "card {u. moving (((bq_pc s)(t := Out)) u)} = card {u. moving (bq_pc s u)}" using moving_upd [OF f, of t Out] p(2) by simp
  moreover have "{u. bq_pc s u = Pop_wait} = {u. ((bq_pc s)(t := Out)) u = Pop_wait}" using p(1) by auto
  moreover have "inside (bq_pc s u) \<longleftrightarrow> u = t" for u using ok o by (simp add: queue_ok_def) (metis option.inject)
  ultimately show ?thesis using ok active_upd [OF f, of t Out] by (auto simp: queue_ok_def goto_def s')
qed

lemma ok_wait:
  assumes ok: "queue_ok s" and p: "bq_pc s t = Pop_check" and q: "bq_q s = []"
    and w: "Pthread_cond_wait t (bq_not_empty s) (bq_m s) = Inr (cv, m)"
  shows "queue_ok (goto t Pop_wait (s\<lparr>bq_not_empty := cv, bq_m := m\<rparr>))"
proof -
  have f: "finite {u. bq_pc s u \<noteq> Out}" and o: "m_owner (bq_m s) = Some t" using ok p by (simp_all add: queue_ok_def)
  have cv: "cv = insert t (bq_not_empty s)" "m = (bq_m s)\<lparr>m_owner := None\<rparr>"
    using w o by (simp_all add: Pthread_cond_wait_def pthread_mutex_unlock_def)
  have "inside (bq_pc s u) \<longleftrightarrow> u = t" for u using ok o by (simp add: queue_ok_def) (metis option.inject)
  then show ?thesis using ok q active_upd [OF f, of t Pop_wait] by (auto simp: queue_ok_def goto_def cv)
qed

lemma wake_up_simps [simp]:
  "bq_m (wake_up A s) = bq_m s" "bq_q (wake_up A s) = bq_q s" "bq_pushed (wake_up A s) = bq_pushed s" "bq_popped (wake_up A s) = bq_popped s"
  by (simp_all add: wake_up_def)

lemma ok_wake:
  assumes ok: "queue_ok s" and A: "A \<subseteq> bq_not_empty s"
  shows "m_kind (bq_m (wake_up A s)) = NORMAL \<and> (\<forall>t. m_owner (bq_m (wake_up A s)) = Some t \<longleftrightarrow> inside (bq_pc (wake_up A s) t))
    \<and> bq_not_empty (wake_up A s) = {t. bq_pc (wake_up A s) t = Pop_wait} \<and> finite {t. bq_pc (wake_up A s) t \<noteq> Out}
    \<and> bq_pushed (wake_up A s) = bq_popped (wake_up A s) @ bq_q (wake_up A s)
    \<and> (bq_not_empty s \<noteq> {} \<longrightarrow> length (bq_q s) + card A \<le> card {t. moving (bq_pc (wake_up A s) t)})"
proof -
  have f: "finite {u. bq_pc s u \<noteq> Out}" and w: "bq_not_empty s = {t. bq_pc s t = Pop_wait}" using ok by (simp_all add: queue_ok_def)
  have sub: "A \<subseteq> {u. bq_pc s u \<noteq> Out}" and aw: "\<And>u. u \<in> A \<Longrightarrow> bq_pc s u = Pop_wait" using A w by auto
  then have "{t. bq_pc (wake_up A s) t \<noteq> Out} = {t. bq_pc s t \<noteq> Out}" by (auto simp: wake_up_def)
  moreover have "{t. moving (bq_pc (wake_up A s) t)} = {t. moving (bq_pc s t)} \<union> A" using aw by (auto simp: wake_up_def)
  moreover have "card ({t. moving (bq_pc s t)} \<union> A) = card {t. moving (bq_pc s t)} + card A"
    by (rule card_Un_disjoint [OF finite_moving [OF f] finite_subset [OF sub f]]) (use aw in force)
  moreover have "inside (bq_pc (wake_up A s) t) = inside (bq_pc s t)" for t using aw by (auto simp: wake_up_def)
  moreover have "bq_not_empty (wake_up A s) = {t. bq_pc (wake_up A s) t = Pop_wait}"
    using w by (auto simp: wake_up_def Pthread_cond_signal_def split: if_splits)
  ultimately show ?thesis using ok f by (simp add: queue_ok_def)
qed

lemma ok_signal:
  assumes ok: "queue_ok s" and A: "may_wake A (bq_not_empty s)" and p: "bq_pc s t = Push_signal"
  shows "queue_ok (goto t Push_unlock (wake_up A s))"
proof -
  have sub: "A \<subseteq> bq_not_empty s" using A by (simp add: may_wake_def)
  note w = ok_wake [OF ok sub]
  have f: "finite {u. bq_pc (wake_up A s) u \<noteq> Out}" and t: "t \<notin> A" using w p ok sub by (auto simp: queue_ok_def)
  have pc: "bq_pc (wake_up A s) t = Push_signal" using t p by (simp add: wake_up_def)
  have "A \<subseteq> {u. bq_pc s u \<noteq> Out}" "finite {u. bq_pc s u \<noteq> Out}" using ok sub by (auto simp: queue_ok_def)
  then have fin: "finite A" by (rule finite_subset)
  have "length (bq_q s) \<le> card {u. moving (((bq_pc (wake_up A s))(t := Push_unlock)) u)}" if "bq_not_empty (wake_up A s) \<noteq> {}"
  proof -
    have ne: "bq_not_empty s \<noteq> {}" using that by (auto simp: wake_up_def Pthread_cond_signal_def)
    then have "0 < card A" using A fin by (auto simp: may_wake_def card_gt_0_iff)
    then show ?thesis using w ne moving_upd [OF f, of t Push_unlock] pc by auto
  qed
  moreover have "{u. ((bq_pc (wake_up A s))(t := Push_unlock)) u = Pop_wait} = {u. bq_pc (wake_up A s) u = Pop_wait}" using pc by auto
  moreover have "inside (((bq_pc (wake_up A s))(t := Push_unlock)) u) = inside (bq_pc (wake_up A s) u)" for u using pc by simp
  ultimately show ?thesis using w active_upd [OF f, of t Push_unlock] by (simp add: queue_ok_def goto_def)
qed

lemma queue_step_ok:
  assumes ok: "queue_ok s" and A: "may_wake A (bq_not_empty s)" and st: "queue_step t A s = Inr (Some s')"
  shows "queue_ok s'"
proof -
  have q: "bq_pushed s = bq_popped s @ bq_q s" using ok by (simp add: queue_ok_def)
  note go = ok_goto [OF ok]
  show ?thesis
  proof (cases "bq_pc s t")
    case (Push_back e)
    then show ?thesis using st q go [of "Push_signal" t "bq_pushed s @ [e]" "bq_popped s" "bq_q s @ [e]"]
      by (simp add: queue_step_def Queue_push_def)
  next
    case Pop_check
    show ?thesis
    proof (cases "bq_q s")
      case Nil
      then show ?thesis using st Pop_check ok_wait [OF ok Pop_check Nil] by (auto simp: queue_step_def Queue_pop_def rbind_eq_Inr_iff)
    next
      case (Cons e q')
      then show ?thesis using st Pop_check q ok_goto_out [OF ok, of "Pop_unlock e" t "bq_popped s @ [e]" q']
        by (simp add: queue_step_def Queue_pop_def take_out_def)
    qed
  next
    case (Try_check ig)
    then consider "s' = goto t (Try_unlock None) s" | e q' where "bq_q s = e # q'" "s' = take_out t (Try_unlock (Some e)) (e, q') s"
      using st by (auto simp: queue_step_def Queue_try_pop_def Queue_try_pop_but_ignore_def split: option.splits list.splits if_splits)
    then show ?thesis
    proof cases
      case 1
      then show ?thesis using Try_check ok_goto_on [OF ok, of "Try_unlock None" t] by simp
    next
      case 2
      then show ?thesis using Try_check q ok_goto_out [OF ok, of "Try_unlock (Some e)" t "bq_popped s @ [e]" q'] by (simp add: take_out_def)
    qed
  qed (use st in \<open>auto simp: queue_step_def ok_signal [OF ok A] dest!: ok_lock [OF ok] ok_unlock [OF ok]\<close>)
qed

lemma queue_reach_ok: "queue_reach s \<Longrightarrow> queue_ok s"
proof (induction rule: queue_reach.induct)
  case start
  then show ?case by (simp add: queue_ok_def Queue_new_def)
next
  case (call s t p e ig)
  then show ?case using ok_goto_on [OF call.IH, of p t] by auto
next
  case (spurious s t)
  then show ?case using ok_wake [OF spurious.IH, of "{t}"] by (auto simp: queue_ok_def)
next
  case (run s s')
  then show ?case using queue_step_ok by (auto elim!: queue_run.cases)
qed

lemma queue_step_total: "queue_ok s \<Longrightarrow> \<exists>r. queue_step t A s = Inr r"
  by (cases "bq_pc s t")
    (auto simp: queue_step_def queue_ok_def lock_then_def unlock_then_def Pthread_mutex_lock_def Pthread_mutex_unlock_def
      Pthread_cond_wait_def pthread_mutex_lock_def pthread_mutex_unlock_def Queue_pop_def
      split: option.splits list.splits if_splits)

section \<open>Progress\<close>

text \<open>
  Steps of the threads inside the functions: first how many signals are still to come, then how far the
  threads are from leaving.
\<close>

fun before_signal :: "'a qpc \<Rightarrow> bool" where
  "before_signal (Push_lock e) = True"
| "before_signal (Push_back e) = True"
| "before_signal Push_signal = True"
| "before_signal p = False"

fun to_go :: "'a qpc \<Rightarrow> nat" where
  "to_go (Push_lock e) = 3" | "to_go (Push_back e) = 2" | "to_go Push_signal = 1" | "to_go Push_unlock = 1"
| "to_go Pop_lock = 3" | "to_go Pop_check = 2" | "to_go Pop_woken = 3" | "to_go (Pop_unlock e) = 1"
| "to_go (Try_lock ig) = 3" | "to_go (Try_check ig) = 2" | "to_go (Try_unlock r) = 1"
| "to_go p = 0"

definition signals :: "nat set \<Rightarrow> 'a bqueue \<Rightarrow> nat" where
  "signals S s = (\<Sum>t \<in> S. of_bool (before_signal (bq_pc s t)))"

definition work :: "nat set \<Rightarrow> 'a bqueue \<Rightarrow> nat" where
  "work S s = (\<Sum>t \<in> S. to_go (bq_pc s t))"

lemma sum_upd_less:
  fixes w :: "'b \<Rightarrow> nat"
  assumes "finite S" "t \<in> S" "w p < w (f t)"
  shows "(\<Sum>u \<in> S. w ((f(t := p)) u)) < (\<Sum>u \<in> S. w (f u))"
  by (rule sum_strict_mono_ex1) (use assms in auto)

lemma sum_upd_eq: "w p = w (f t) \<Longrightarrow> (\<Sum>u \<in> S. w ((f(t := p)) u)) = (\<Sum>u \<in> S. w (f u))"
  by (rule sum.cong) auto

text \<open>Every step but the signal moves one thread forward.\<close>

lemma queue_step_pc:
  assumes ok: "queue_ok s" and st: "queue_step t A s = Inr (Some s')" and ns: "bq_pc s t \<noteq> Push_signal"
  shows "\<exists>p. bq_pc s' = (bq_pc s)(t := p) \<and> to_go p < to_go (bq_pc s t) \<and> before_signal p = before_signal (bq_pc s t)"
proof (cases "bq_pc s t")
  case Push_signal
  with ns show ?thesis by simp
qed (use st in \<open>auto simp: queue_step_def lock_then_def unlock_then_def goto_def take_out_def rbind_eq_Inr_iff
    split: option.splits\<close>)

lemma queue_run_decreases:
  assumes ok: "queue_ok s" and r: "queue_run s s'" and S: "finite S" "{t. bq_pc s t \<noteq> Out} \<subseteq> S"
  shows "(s', s) \<in> measures [signals S, work S]" "{t. bq_pc s' t \<noteq> Out} \<subseteq> S"
proof -
  obtain A t where A: "may_wake A (bq_not_empty s)" and st: "queue_step t A s = Inr (Some s')" using r by (auto elim: queue_run.cases)
  have t: "t \<in> S" using st S(2) by (cases "bq_pc s t") (auto simp: queue_step_def)
  have "(s', s) \<in> measures [signals S, work S] \<and> {t. bq_pc s' t \<noteq> Out} \<subseteq> S"
  proof (cases "bq_pc s t = Push_signal")
    case True
    have aw: "\<And>u. u \<in> A \<Longrightarrow> bq_pc s u = Pop_wait" using A ok by (auto simp: may_wake_def queue_ok_def)
    have pc: "bq_pc s' u = (if u = t then Push_unlock else if u \<in> A then Pop_woken else bq_pc s u)" for u
      using st True by (auto simp: queue_step_def goto_def wake_up_def)
    have "signals S s' < signals S s" unfolding signals_def
      by (rule sum_strict_mono_ex1 [OF S(1)]) (use pc aw True t in \<open>auto split: if_splits\<close>)
    moreover have "u \<in> S" if "u \<in> A" for u using aw [OF that] S(2) by auto
    then have "{t. bq_pc s' t \<noteq> Out} \<subseteq> S" using pc S(2) t by (auto split: if_splits)
    ultimately show ?thesis by simp
  next
    case False
    from queue_step_pc [OF ok st False] obtain p where p: "bq_pc s' = (bq_pc s)(t := p)" "to_go p < to_go (bq_pc s t)"
      "before_signal p = before_signal (bq_pc s t)" by blast
    have "signals S s' = signals S s" unfolding signals_def p(1)
      by (rule sum_upd_eq [where w = "\<lambda>p. of_bool (before_signal p)"]) (simp add: p(3))
    moreover have "work S s' < work S s" unfolding work_def p(1) by (rule sum_upd_less [where w = to_go and f = "bq_pc s" and t = t, OF S(1) t p(2)])
    moreover have "{t. bq_pc s' t \<noteq> Out} \<subseteq> S" using p(1) S(2) t by auto
    ultimately show ?thesis by simp
  qed
  then show "(s', s) \<in> measures [signals S, work S]" "{t. bq_pc s' t \<noteq> Out} \<subseteq> S" by blast+
qed

lemma queue_run_ok: "queue_ok s \<Longrightarrow> queue_run s s' \<Longrightarrow> queue_ok s'"
  using queue_step_ok by (auto elim!: queue_run.cases)

lemma queue_run_terminates:
  assumes "queue_ok s"
  shows "Wellfounded.accp (\<lambda>s' s. queue_run s s') s"
proof -
  define S where "S = {t. bq_pc s t \<noteq> Out}"
  have "finite S" using assms by (simp add: S_def queue_ok_def)
  have "queue_ok u \<Longrightarrow> {t. bq_pc u t \<noteq> Out} \<subseteq> S \<Longrightarrow> Wellfounded.accp (\<lambda>s' s. queue_run s s') u" for u
  proof (induction u rule: wf_induct_rule [OF wf_measures, of "[signals S, work S]"])
    case (1 u)
    show ?case
    proof (rule accpI)
      fix u' assume "queue_run u u'"
      with 1 queue_run_decreases [OF 1(2) _ \<open>finite S\<close> 1(3), of u'] queue_run_ok [OF 1(2), of u']
      show "Wellfounded.accp (\<lambda>s' s. queue_run s s') u'" by blast
    qed
  qed
  then show ?thesis using assms S_def by blast
qed

text \<open>When no thread inside can go on, they all wait, and they wait for an empty queue.\<close>

lemma stuck_waits:
  assumes ok: "queue_ok s" and st: "\<not> (\<exists>s'. queue_run s s')"
  shows "(bq_pc s t = Out \<or> bq_pc s t = Pop_wait) \<and> (bq_pc s t = Pop_wait \<longrightarrow> bq_q s = [])"
proof -
  have no: "queue_step u (bq_not_empty s) s = Inr None" for u
  proof -
    obtain r where "queue_step u (bq_not_empty s) s = Inr r" using queue_step_total [OF ok] by blast
    moreover have "may_wake (bq_not_empty s) (bq_not_empty s)" by (simp add: may_wake_def)
    ultimately show ?thesis using st queue_run.step by (cases r) blast+
  qed
  have out: "\<not> inside (bq_pc s u)" for u
  proof
    assume i: "inside (bq_pc s u)"
    then have "m_owner (bq_m s) = Some u" using ok by (simp add: queue_ok_def)
    then show False using no [of u] i
      by (cases "bq_pc s u") (auto simp: queue_step_def unlock_then_def Pthread_mutex_unlock_def Pthread_cond_wait_def
          pthread_mutex_unlock_def split: option.splits)
  qed
  then have free: "m_owner (bq_m s) = None" using ok by (cases "m_owner (bq_m s)") (auto simp: queue_ok_def)
  have pc: "bq_pc s u = Out \<or> bq_pc s u = Pop_wait" for u
    using no [of u] out [of u] free
    by (cases "bq_pc s u") (auto simp: queue_step_def lock_then_def Pthread_mutex_lock_def pthread_mutex_lock_def)
  then have "{u. moving (bq_pc s u)} = {}" by (metis (mono_tags, lifting) Collect_empty_eq moving.simps(4,9))
  then show ?thesis using pc [of t] ok by (auto simp: queue_ok_def)
qed

section \<open>Properties\<close>

text \<open>
  C27. Under every interleaving of any number of threads, no lock operation of a queue fails and no
  thread waits for itself; at most one thread is between locking and unlocking; and the elements leave
  the queue in the order in which they entered, none lost and none twice: what was pushed is what was
  popped followed by what is in the queue.
\<close>

theorem queue_is_fifo_under_interleaving:
  assumes "queue_reach s"
  shows "(\<exists>r. queue_step t A s = Inr r) \<and> (inside (bq_pc s t) \<and> inside (bq_pc s u) \<longrightarrow> t = u)
    \<and> bq_pushed s = bq_popped s @ bq_q s"
proof -
  have ok: "queue_ok s" by (rule queue_reach_ok [OF assms])
  then have "t = u" if "inside (bq_pc s t)" "inside (bq_pc s u)" using that by (simp add: queue_ok_def) (metis option.inject)
  then show ?thesis using queue_step_total [OF ok] ok by (auto simp: queue_ok_def)
qed

text \<open>Thread 1 pushes while thread 2 pops: the pop finds the queue empty and waits for the push.\<close>

definition demo_waiting :: "nat bqueue" where
  "demo_waiting = goto 2 Pop_wait (Queue_new\<lparr>bq_not_empty := {2}\<rparr>)"

lemma run_one: "queue_reach s \<Longrightarrow> may_wake A (bq_not_empty s) \<Longrightarrow> queue_step t A s = Inr (Some s') \<Longrightarrow> queue_reach s'"
  by (rule queue_reach.run) (auto intro: queue_run.step)

lemmas queue_step_simps = queue_step_def lock_then_def unlock_then_def goto_def Pthread_mutex_lock_def Pthread_mutex_unlock_def
  pthread_mutex_lock_def pthread_mutex_unlock_def Pthread_cond_wait_def Queue_new_def Queue_push_def Queue_pop_def

lemma demo_waiting_reach: "queue_reach demo_waiting"
proof -
  have "queue_reach (goto 2 Pop_lock Queue_new :: nat bqueue)" by (rule queue_reach.call [OF queue_reach.start]) (auto simp: Queue_new_def)
  then have "queue_reach (goto 2 Pop_check (Queue_new\<lparr>bq_m := \<lparr>m_kind = NORMAL, m_owner = Some 2\<rparr>\<rparr>) :: nat bqueue)"
    by (rule run_one [of _ "{}" 2]) (simp_all add: queue_step_simps may_wake_def)
  then show ?thesis
    by (rule run_one [of _ "{}" 2]) (simp_all add: queue_step_simps may_wake_def demo_waiting_def)
qed

definition demo_pushed :: "nat bqueue" where
  "demo_pushed = goto 1 Push_signal (demo_waiting\<lparr>bq_m := \<lparr>m_kind = NORMAL, m_owner = Some 1\<rparr>, bq_q := [7], bq_pushed := [7]\<rparr>)"

lemma demo_pushed_reach: "queue_reach demo_pushed"
proof -
  have "queue_reach (goto 1 (Push_lock 7) demo_waiting)"
    by (rule queue_reach.call [OF demo_waiting_reach]) (auto simp: demo_waiting_def queue_step_simps)
  then have "queue_reach (goto 1 (Push_back 7) (demo_waiting\<lparr>bq_m := \<lparr>m_kind = NORMAL, m_owner = Some 1\<rparr>\<rparr>))"
    by (rule run_one [of _ "{2}" 1]) (simp_all add: queue_step_simps may_wake_def demo_waiting_def)
  then show ?thesis
    by (rule run_one [of _ "{2}" 1]) (simp_all add: queue_step_simps may_wake_def demo_waiting_def demo_pushed_def)
qed

theorem queue_is_fifo_under_interleaving_witness:
  "inside (bq_pc demo_pushed 1) \<and> \<not> inside (bq_pc demo_pushed 2) \<and> (\<exists>r. queue_step 1 {2} demo_pushed = Inr r)
    \<and> bq_pushed demo_pushed = bq_popped demo_pushed @ bq_q demo_pushed"
proof -
  have "inside (bq_pc demo_pushed 1)" by (simp add: demo_pushed_def goto_def)
  with queue_is_fifo_under_interleaving [OF demo_pushed_reach, of 1 "{2}" 2] show ?thesis by auto
qed

text \<open>
  C9. No wake-up is lost. From every reachable state, if no further function of the queue is called, the
  threads inside come to rest after finitely many steps, however they interleave; and when they rest,
  every thread has returned or waits in \<open>pop\<close>, and none waits while there is an element in the queue.
\<close>

theorem queue_loses_no_wakeup:
  assumes "queue_reach s"
  shows "Wellfounded.accp (\<lambda>s' s. queue_run s s') s
    \<and> (\<forall>s'. queue_run\<^sup>*\<^sup>* s s' \<and> \<not> (\<exists>s''. queue_run s' s'') \<longrightarrow>
        (\<forall>t. bq_pc s' t = Out \<or> bq_pc s' t = Pop_wait \<and> bq_q s' = []))"
proof -
  have ok: "queue_ok s" by (rule queue_reach_ok [OF assms])
  have "queue_ok s'" if "queue_run\<^sup>*\<^sup>* s s'" for s' using that ok by (induction rule: rtranclp_induct) (auto intro: queue_run_ok)
  then show ?thesis using queue_run_terminates [OF ok] stuck_waits by blast
qed

theorem queue_loses_no_wakeup_witness:
  "bq_pc demo_pushed 2 = Pop_wait \<and> bq_q demo_pushed = [7] \<and> Wellfounded.accp (\<lambda>s' s. queue_run s s') demo_pushed"
  using queue_loses_no_wakeup [OF demo_pushed_reach] by (simp add: demo_pushed_def demo_waiting_def goto_def)

text \<open>
  The class \<open>Mutex\<close> detects its misuse: locking it twice, or unlocking or waiting with a mutex that the
  thread does not hold, fails a \<open>verify\<close>, so that a \<open>ScopedLock\<close> inside another on the same mutex stops
  the program instead of hanging it. Used properly, it excludes other threads until it is released.
\<close>

lemma mutex_misuse_detected:
  assumes "m_kind m = ERRORCHECK"
  shows "m_owner m = Some t \<Longrightarrow> ScopedLock_new t m = Inl VerifyFailed"
    and "m_owner m \<noteq> Some t \<Longrightarrow> Mutex_unlock t m = Inl VerifyFailed \<and> CondVar_wait t cv m = Inl VerifyFailed"
    and "m_owner m = None \<Longrightarrow> \<exists>m'. ScopedLock_new t m = Inr (Some m') \<and> (\<forall>u. u \<noteq> t \<longrightarrow> Mutex_lock u m' = Inr None)
      \<and> ScopedLock_delete t m' = Inr m"
  using assms
  by (auto simp: ScopedLock_new_def ScopedLock_delete_def Mutex_lock_def Mutex_unlock_def CondVar_wait_def Pthread_mutex_lock_def
      Pthread_mutex_unlock_def Pthread_cond_wait_def pthread_mutex_lock_def pthread_mutex_unlock_def EDEADLK_def EPERM_def
      intro!: mutex.equality)

end
