(* ===== verification/Rlog_Service.thy ===== *)
theory Rlog_Service
  imports Base_Utils
begin

text \<open>
  The log server of \<open>rlog/log_service_impl.cc\<close>. Messages of one source carry numbers; the server keeps a
  message back until all with smaller numbers were printed. The maps \<open>done_\<close> and \<open>buffer_\<close> start every
  source at 0 and at the empty set; the set is ordered by the message number and keeps the first
  message of a number. What was printed is part of the state, oldest first. Numbers are signed: the overflow of
  \<open>done + 1\<close> is undefined in C++.
\<close>

section \<open>Definitions\<close>

record log_piece =
  msg_id :: i64
  level :: i32
  message :: "byte list"

record log_line =
  ln_level :: i32
  ln_time :: string
  ln_source :: "byte list"
  ln_message :: "byte list"

record rlog_state =
  rl_done :: "byte list \<Rightarrow> i64"
  rl_buffer :: "byte list \<Rightarrow> log_piece list"
  rl_printed :: "log_line list"

definition RLogServiceImpl_new :: rlog_state where
  "RLogServiceImpl_new = \<lparr>rl_done = (\<lambda>_. 0), rl_buffer = (\<lambda>_. []), rl_printed = []\<rparr>"

definition piece_less :: "log_piece \<Rightarrow> log_piece \<Rightarrow> bool" where
  "piece_less p another \<longleftrightarrow> sint (msg_id p) < sint (msg_id another)"

text \<open>\<open>std::set<log_piece>::insert\<close>\<close>

fun set_insert :: "log_piece \<Rightarrow> log_piece list \<Rightarrow> log_piece list" where
  "set_insert p [] = [p]"
| "set_insert p (q # qs) = (if piece_less p q then p # q # qs else if piece_less q p then q # set_insert p qs else q # qs)"

definition inc_i64 :: "i64 \<Rightarrow> i64 res" where
  "inc_i64 x = (if sint x + 1 < 2 ^ 63 then Inr (x + 1) else Inl IntOverflow)"

definition max_i64 :: "i64 \<Rightarrow> i64 \<Rightarrow> i64" where
  "max_i64 a b = (if sint a < sint b then b else a)"

text \<open>The loop that prints: the lines, what stays in the buffer, and the new \<open>done\<close>.\<close>

fun print_ready :: "string \<Rightarrow> byte list \<Rightarrow> log_piece list \<Rightarrow> i64 \<Rightarrow> (log_line list \<times> log_piece list \<times> i64) res" where
  "print_ready tm src [] dn = Inr ([], [], dn)"
| "print_ready tm src (p # ps) dn =
     rbind (inc_i64 dn) (\<lambda>next.
       if sint (msg_id p) \<le> sint next then
         rbind (print_ready tm src ps (max_i64 dn (msg_id p))) (\<lambda>(lines, rest, dn').
           Inr (\<lparr>ln_level = level p, ln_time = tm, ln_source = src, ln_message = message p\<rparr> # lines, rest, dn'))
       else Inr ([], p # ps, dn))"

definition rlog_log :: "string \<Rightarrow> i32 \<Rightarrow> byte list \<Rightarrow> i64 \<Rightarrow> byte list \<Rightarrow> rlog_state \<Rightarrow> rlog_state res" where
  "rlog_log tm lev src mid msg s =
     (let buffer = set_insert \<lparr>msg_id = mid, level = lev, message = msg\<rparr> (rl_buffer s src) in
      rbind (print_ready tm src buffer (rl_done s src)) (\<lambda>(lines, rest, dn).
        Inr (s\<lparr>rl_done := (rl_done s)(src := dn), rl_buffer := (rl_buffer s)(src := rest),
               rl_printed := rl_printed s @ lines\<rparr>)))"

text \<open>A sequence of calls, in the order in which they take the lock.\<close>

record log_call =
  lc_time :: string
  lc_source :: "byte list"
  lc_piece :: log_piece

fun rlog_run :: "log_call list \<Rightarrow> rlog_state \<Rightarrow> rlog_state res" where
  "rlog_run [] s = Inr s"
| "rlog_run (c # cs) s =
     rbind (rlog_log (lc_time c) (level (lc_piece c)) (lc_source c) (msg_id (lc_piece c)) (message (lc_piece c)) s) (rlog_run cs)"

section \<open>Order of the lines\<close>

abbreviation num :: "log_piece \<Rightarrow> int" where
  "num p \<equiv> sint (msg_id p)"

text \<open>What a line shows of a message, apart from the time.\<close>

definition shown :: "log_piece \<Rightarrow> i32 \<times> byte list" where
  "shown p = (level p, message p)"

definition lines_of :: "byte list \<Rightarrow> rlog_state \<Rightarrow> (i32 \<times> byte list) list" where
  "lines_of src s = map (\<lambda>l. (ln_level l, ln_message l)) (filter (\<lambda>l. ln_source l = src) (rl_printed s))"

definition ascending :: "log_piece list \<Rightarrow> bool" where
  "ascending ps \<longleftrightarrow> sorted_wrt piece_less ps"

lemma set_insert_ascending:
  assumes "ascending b" "num p \<notin> num ` set b"
  shows "ascending (set_insert p b) \<and> mset (set_insert p b) = add_mset p (mset b)"
  using assms
proof (induction b)
  case (Cons q b)
  have neq: "num p \<noteq> num q" "num p \<notin> num ` set b" using Cons(3) by auto
  show ?case
  proof (cases "piece_less p q")
    case True
    then show ?thesis using Cons(2) by (auto simp: ascending_def piece_less_def)
  next
    case False
    with neq have q: "piece_less q p" by (simp add: piece_less_def)
    have ih: "ascending (set_insert p b)" "mset (set_insert p b) = add_mset p (mset b)"
      using Cons(1,2) neq by (simp_all add: ascending_def)
    then have "set (set_insert p b) = insert p (set b)" by (metis set_mset_mset set_mset_add_mset_insert)
    with ih q False Cons(2) show ?thesis by (simp add: ascending_def)
  qed
qed (simp add: ascending_def)

lemma set_insert_first: "\<forall>q \<in> set b. num p < num q \<Longrightarrow> set_insert p b = p # b"
  by (cases b) (auto simp: piece_less_def)

lemma inc_i64_ok: "sint x = k - 1 \<Longrightarrow> k < 2 ^ 63 \<Longrightarrow> inc_i64 x = Inr (x + 1) \<and> sint (x + 1) = k"
proof -
  assume k: "sint x = k - 1" "k < 2 ^ 63"
  have "sint (x + 1) = signed_take_bit 63 (sint x + 1)" by (simp add: sint_word_ariths)
  also have "\<dots> = sint x + 1" using k sint_ge [of x] by (intro signed_take_bit_int_eq_self) simp_all
  finally show ?thesis using k by (simp add: inc_i64_def)
qed

text \<open>One run of the loop: it prints the messages \<open>k\<close>, \<open>k + 1\<close>, ... up to the first that is missing.\<close>

lemma print_ready_run:
  assumes "ascending b" "\<forall>p \<in> set b. k \<le> num p \<and> num p < 2 ^ 63 - 1" "1 \<le> k" "k < 2 ^ 63" "sint dn = k - 1"
  shows "\<exists>ls ps rest dn' k'. print_ready tm src b dn = Inr (ls, rest, dn') \<and> b = ps @ rest \<and> map num ps = [k..k' - 1]
    \<and> k \<le> k' \<and> k' < 2 ^ 63 \<and> sint dn' = k' - 1 \<and> (\<forall>p \<in> set rest. k' < num p)
    \<and> (\<forall>l \<in> set ls. ln_source l = src) \<and> map (\<lambda>l. (ln_level l, ln_message l)) ls = map shown ps"
  using assms
proof (induction b arbitrary: k dn)
  case Nil
  then show ?case by (intro exI [of _ "[]"] exI [of _ dn] exI [of _ k]) simp
next
  case (Cons p b)
  have inc: "inc_i64 dn = Inr (dn + 1)" "sint (dn + 1) = k" using inc_i64_ok [OF Cons(6,5)] by simp_all
  have less: "\<forall>q \<in> set b. num p < num q" "ascending b" using Cons(2) by (auto simp: ascending_def piece_less_def)
  show ?case
  proof (cases "num p = k")
    case True
    have mx: "max_i64 dn (msg_id p) = msg_id p" using True Cons(6) by (simp add: max_i64_def)
    have "\<forall>q \<in> set b. k + 1 \<le> num q \<and> num q < 2 ^ 63 - 1" using less(1) Cons(3) True by force
    moreover have "1 \<le> k + 1" "k + 1 < 2 ^ 63" "num p = k + 1 - 1" using Cons(3,4) True by auto
    note Cons(1) [OF less(2) calculation this]
    then obtain ls ps rest dn' k' where ih: "print_ready tm src b (msg_id p) = Inr (ls, rest, dn')" "b = ps @ rest"
      "map num ps = [k + 1..k' - 1]" "k + 1 \<le> k'" "k' < 2 ^ 63" "sint dn' = k' - 1" "\<forall>p \<in> set rest. k' < num p"
      "\<forall>l \<in> set ls. ln_source l = src" "map (\<lambda>l. (ln_level l, ln_message l)) ls = map shown ps"
      by (elim exE conjE) (rule that)
    let ?l = "\<lparr>ln_level = level p, ln_time = tm, ln_source = src, ln_message = message p\<rparr>"
    have "print_ready tm src (p # b) dn = Inr (?l # ls, rest, dn')" using True by (simp add: inc mx ih(1))
    moreover have "map num (p # ps) = [k..k' - 1]" using ih(3,4) True by (simp add: upto_rec1 [of k])
    moreover have "map (\<lambda>l. (ln_level l, ln_message l)) (?l # ls) = map shown (p # ps)" using ih(9) by (simp add: shown_def)
    moreover have "\<forall>l \<in> set (?l # ls). ln_source l = src" using ih(8) by simp
    moreover have "p # b = (p # ps) @ rest" "k \<le> k'" using ih(2,4) by simp_all
    ultimately show ?thesis using ih(5-7) by blast
  next
    case False
    then have "k < num p" using Cons(3) by force
    then have "print_ready tm src (p # b) dn = Inr ([], p # b, dn)" "\<forall>q \<in> set (p # b). k < num q"
      using inc less(1) by (auto simp: inc)
    then show ?thesis using Cons(5,6)
      by (intro exI [of _ "[]"] exI [of _ "p # b"] exI [of _ dn] exI [of _ k]) simp
  qed
qed

text \<open>What the server knows of a source after the messages \<open>A\<close>: it printed \<open>ps\<close> and waits for the number \<open>k\<close>.\<close>

definition zero_first :: "int list \<Rightarrow> bool" where
  "zero_first ids \<longleftrightarrow> (\<exists>us vs. ids = us @ 0 # vs \<and> 1 \<notin> set us)"

definition src_inv :: "log_piece list \<Rightarrow> log_piece list \<Rightarrow> int \<Rightarrow> rlog_state \<Rightarrow> byte list \<Rightarrow> bool" where
  "src_inv A ps k s src \<longleftrightarrow> 1 \<le> k \<and> k < 2 ^ 63 \<and> sint (rl_done s src) = k - 1
     \<and> ascending (rl_buffer s src) \<and> (\<forall>p \<in> set (rl_buffer s src). k < num p)
     \<and> mset ps + mset (rl_buffer s src) = mset A \<and> lines_of src s = map shown ps
     \<and> filter (\<lambda>n. n \<noteq> 0) (map num ps) = [1..k - 1] \<and> (zero_first (map num A) \<longrightarrow> map num ps = [0..k - 1])"

lemma src_inv_new: "src_inv [] [] 1 RLogServiceImpl_new src"
  by (simp add: src_inv_def RLogServiceImpl_new_def ascending_def lines_of_def zero_first_def)

definition fresh :: "log_piece list \<Rightarrow> bool" where
  "fresh A \<longleftrightarrow> distinct (map num A) \<and> (\<forall>p \<in> set A. 0 \<le> num p \<and> num p < 2 ^ 63 - 1)"

lemma zero_first_snoc: "zero_first (ids @ [n]) \<longleftrightarrow> zero_first ids \<or> n = 0 \<and> 1 \<notin> set ids"
proof
  assume "zero_first (ids @ [n])"
  then obtain us vs where u: "ids @ [n] = us @ 0 # vs" "1 \<notin> set us" by (auto simp: zero_first_def)
  show "zero_first ids \<or> n = 0 \<and> 1 \<notin> set ids"
  proof (cases vs rule: rev_cases)
    case (snoc ws w)
    with u have "ids = us @ 0 # ws" by simp
    with u(2) show ?thesis by (auto simp: zero_first_def)
  qed (use u in simp)
next
  assume "zero_first ids \<or> n = 0 \<and> 1 \<notin> set ids"
  then show "zero_first (ids @ [n])" by (fastforce simp: zero_first_def)
qed

text \<open>Message 0 is printed at once, wherever the server stands.\<close>

lemma src_inv_zero:
  assumes inv: "src_inv A ps k s src" and p: "num p = 0" "num p \<notin> num ` set A"
  shows "\<exists>s'. rlog_log tm (level p) src (msg_id p) (message p) s = Inr s' \<and> src_inv (A @ [p]) (ps @ [p]) k s' src"
proof -
  let ?b = "rl_buffer s src" and ?dn = "rl_done s src"
  let ?l = "\<lparr>ln_level = level p, ln_time = tm, ln_source = src, ln_message = message p\<rparr>"
  note i = inv [unfolded src_inv_def]
  have pe: "\<lparr>msg_id = msg_id p, level = level p, message = message p\<rparr> = p" by simp
  have b: "set_insert p ?b = p # ?b" using i p(1) by (intro set_insert_first) force
  have inc: "inc_i64 ?dn = Inr (?dn + 1)" "sint (?dn + 1) = k" using inc_i64_ok [of ?dn k] i by simp_all
  have mx: "max_i64 ?dn (msg_id p) = ?dn" using i p(1) by (simp add: max_i64_def)
  have "print_ready tm src ?b ?dn = Inr ([], ?b, ?dn)" using i inc by (cases ?b) auto
  then have "print_ready tm src (p # ?b) ?dn = Inr ([?l], ?b, ?dn)" using inc mx p(1) i by simp
  then have log: "rlog_log tm (level p) src (msg_id p) (message p) s = Inr (s\<lparr>rl_printed := rl_printed s @ [?l]\<rparr>)"
    by (simp add: rlog_log_def pe b)
  have "map num (ps @ [p]) = [0..k - 1]" if "zero_first (map num (A @ [p]))"
  proof -
    have A: "set A = set ps \<union> set ?b" using i by (metis set_mset_mset set_mset_union)
    have "\<not> zero_first (map num A)" using p by (auto simp: zero_first_def dest!: arg_cong [of _ _ set])
    with that have one: "1 \<notin> num ` set A" by (simp add: zero_first_snoc)
    have "k = 1"
    proof (rule ccontr)
      assume "k \<noteq> 1"
      with i have "1 \<in> set [1..k - 1]" by simp
      then have "1 \<in> num ` set ps" using i by (metis (no_types, lifting) filter_is_subset list.set_map subsetD)
      with one A show False by auto
    qed
    moreover have "filter (\<lambda>n. n \<noteq> 0) (map num ps) = map num ps"
      using p A by (intro filter_True) force
    ultimately show ?thesis using i p(1) by simp
  qed
  then have "src_inv (A @ [p]) (ps @ [p]) k (s\<lparr>rl_printed := rl_printed s @ [?l]\<rparr>) src"
    using i p(1) by (simp add: src_inv_def lines_of_def shown_def)
  with log show ?thesis by blast
qed

text \<open>Any other message goes into the buffer, and the buffer is printed up to the next gap.\<close>

lemma src_inv_later:
  assumes inv: "src_inv A ps k s src" and p: "num p \<noteq> 0" and fr: "fresh (A @ [p])"
  shows "\<exists>s' ps' k'. rlog_log tm (level p) src (msg_id p) (message p) s = Inr s' \<and> src_inv (A @ [p]) ps' k' s' src"
proof -
  let ?b = "rl_buffer s src"
  note i = inv [unfolded src_inv_def]
  have A: "set A = set ps \<union> set ?b" using i by (metis set_mset_mset set_mset_union)
  have pe: "\<lparr>msg_id = msg_id p, level = level p, message = message p\<rparr> = p" by simp
  have new: "num p \<notin> num ` set A" "0 \<le> num p" "num p < 2 ^ 63 - 1" using fr by (auto simp: fresh_def)
  have low: "num p \<notin> set [1..k - 1]" using new(1) A i by (metis (no_types, lifting) UnI1 filter_is_subset image_Un list.set_map subsetD)
  have ins: "ascending (set_insert p ?b)" "mset (set_insert p ?b) = add_mset p (mset ?b)"
    using set_insert_ascending [of ?b p] i new(1) A by auto
  then have set: "set (set_insert p ?b) = insert p (set ?b)" by (metis set_mset_mset set_mset_add_mset_insert)
  have "\<forall>q \<in> set (set_insert p ?b). k \<le> num q \<and> num q < 2 ^ 63 - 1"
    using i low new p fr A unfolding set fresh_def by fastforce
  with print_ready_run [OF ins(1), of k "rl_done s src" tm src] i obtain ls qs rest dn' k' where
    r: "print_ready tm src (set_insert p ?b) (rl_done s src) = Inr (ls, rest, dn')" "set_insert p ?b = qs @ rest"
      "map num qs = [k..k' - 1]" "k \<le> k'" "k' < 2 ^ 63" "sint dn' = k' - 1" "\<forall>p \<in> set rest. k' < num p"
      "\<forall>l \<in> set ls. ln_source l = src" "map (\<lambda>l. (ln_level l, ln_message l)) ls = map shown qs"
    by auto
  let ?s = "s\<lparr>rl_done := (rl_done s)(src := dn'), rl_buffer := (rl_buffer s)(src := rest), rl_printed := rl_printed s @ ls\<rparr>"
  have log: "rlog_log tm (level p) src (msg_id p) (message p) s = Inr ?s" by (simp add: rlog_log_def pe r(1))
  have split: "[j..k - 1] @ [k..k' - 1] = [j..k' - 1]" if "j \<le> k" for j
    using upto_split1 [of j k "k' - 1"] r(4) that by (cases "k = k'") simp_all
  have "ascending rest" using ins(1) r(2) by (simp add: ascending_def sorted_wrt_append)
  moreover have "mset (ps @ qs) + mset rest = mset (A @ [p])"
    using i ins(2) r(2) by (metis (no_types, lifting) add_mset_add_single group_cancel.add1 mset.simps mset_append)
  moreover have "lines_of src ?s = map shown (ps @ qs)"
    using i r(8,9) by (simp add: lines_of_def)
  moreover have "filter (\<lambda>n. n \<noteq> 0) [k..k' - 1] = [k..k' - 1]" using i by (auto intro!: filter_True)
  then have "filter (\<lambda>n. n \<noteq> 0) (map num (ps @ qs)) = [1..k' - 1]" using i split [of 1] r(3) by simp
  moreover have "map num (ps @ qs) = [0..k' - 1]" if "zero_first (map num (A @ [p]))"
    using that p i split [of 0] r(3) by (simp add: zero_first_snoc)
  ultimately have "src_inv (A @ [p]) (ps @ qs) k' ?s src" using i r(4-7) by (simp add: src_inv_def)
  with log show ?thesis by blast
qed

lemma src_inv_step:
  assumes "src_inv A ps k s src" "fresh (A @ [p])"
  shows "\<exists>s' ps' k'. rlog_log tm (level p) src (msg_id p) (message p) s = Inr s' \<and> src_inv (A @ [p]) ps' k' s' src"
proof (cases "num p = 0")
  case True
  moreover have "num p \<notin> num ` set A" using assms(2) by (auto simp: fresh_def)
  ultimately show ?thesis using src_inv_zero [OF assms(1)] by blast
qed (use src_inv_later [OF assms(1) _ assms(2)] in blast)

lemma src_inv_missing:
  assumes "src_inv A ps k s src"
  shows "k \<notin> num ` set A"
proof -
  note i = assms [unfolded src_inv_def]
  have A: "set A = set ps \<union> set (rl_buffer s src)" using i by (metis set_mset_mset set_mset_union)
  have "k \<notin> num ` set ps"
  proof
    assume "k \<in> num ` set ps"
    moreover have "1 \<le> k" using i by blast
    ultimately have "k \<in> set (filter (\<lambda>n. n \<noteq> 0) (map num ps))" by auto
    moreover have "filter (\<lambda>n. n \<noteq> 0) (map num ps) = [1..k - 1]" using i by blast
    ultimately show False by simp
  qed
  with A i show ?thesis by auto
qed

text \<open>Sources do not disturb each other.\<close>

lemma print_ready_source:
  "print_ready tm src b dn = Inr (ls, rest, dn') \<Longrightarrow> \<forall>l \<in> set ls. ln_source l = src"
proof (induction b arbitrary: dn ls)
  case (Cons p b)
  then show ?case by (auto simp: rbind_eq_Inr_iff split: if_splits prod.splits)
qed simp

lemma src_inv_other:
  assumes "src_inv A ps k s src" "rlog_log tm lev src' mid msg s = Inr s'" "src' \<noteq> src"
  shows "src_inv A ps k s' src"
proof -
  obtain ls rest dn where r: "print_ready tm src' (set_insert \<lparr>msg_id = mid, level = lev, message = msg\<rparr> (rl_buffer s src')) (rl_done s src')
      = Inr (ls, rest, dn)"
    "s' = s\<lparr>rl_done := (rl_done s)(src' := dn), rl_buffer := (rl_buffer s)(src' := rest), rl_printed := rl_printed s @ ls\<rparr>"
    using assms(2) by (auto simp: rlog_log_def rbind_eq_Inr_iff)
  have "filter (\<lambda>l. ln_source l = src) ls = []" using print_ready_source [OF r(1)] assms(3) by (auto intro!: filter_False)
  then have "lines_of src s' = lines_of src s" by (simp add: r(2) lines_of_def)
  with assms show ?thesis by (simp add: src_inv_def r(2))
qed

definition from_source :: "byte list \<Rightarrow> log_call list \<Rightarrow> log_piece list" where
  "from_source src calls = map lc_piece (filter (\<lambda>c. lc_source c = src) calls)"

lemma rlog_run_inv:
  assumes "\<forall>src. \<exists>ps k. src_inv (A src) ps k s src" "\<forall>src. fresh (A src @ from_source src calls)"
  shows "\<exists>s'. rlog_run calls s = Inr s' \<and> (\<forall>src. \<exists>ps k. src_inv (A src @ from_source src calls) ps k s' src)"
  using assms
proof (induction calls arbitrary: A s)
  case Nil
  then show ?case by (simp add: from_source_def)
next
  case (Cons c calls)
  let ?src = "lc_source c" and ?p = "lc_piece c"
  let ?A = "A(?src := A ?src @ [?p])"
  have A: "A src @ from_source src (c # calls) = ?A src @ from_source src calls" for src
    by (simp add: from_source_def)
  have fr: "\<forall>src. fresh (?A src @ from_source src calls)" using Cons(3) unfolding A by simp
  obtain ps k where i: "src_inv (A ?src) ps k s ?src" using Cons(2) by blast
  have "fresh (A ?src @ [?p])" using fr [THEN spec, of ?src] by (simp add: fresh_def)
  from src_inv_step [OF i this] obtain s1 ps' k' where
    s1: "rlog_log (lc_time c) (level ?p) ?src (msg_id ?p) (message ?p) s = Inr s1" "src_inv (A ?src @ [?p]) ps' k' s1 ?src"
    by blast
  have "\<exists>ps k. src_inv (?A src) ps k s1 src" for src
  proof (cases "src = ?src")
    case False
    obtain ps k where "src_inv (A src) ps k s src" using Cons(2) by blast
    from src_inv_other [OF this s1(1)] False show ?thesis by auto
  qed (use s1(2) in auto)
  from Cons(1) [OF allI [OF this] fr] s1(1) show ?case unfolding A by simp
qed

text \<open>A source whose messages have all arrived.\<close>

definition numbered :: "(i32 \<times> byte list) list \<Rightarrow> log_piece list" where
  "numbered msgs = map (\<lambda>i. \<lparr>msg_id = of_nat i, level = fst (msgs ! i), message = snd (msgs ! i)\<rparr>) [0..<length msgs]"

lemma sint_small: "n < 2 ^ 63 \<Longrightarrow> sint (of_nat n :: i64) = int n"
  by (simp add: signed_of_nat signed_take_bit_int_eq_self)

lemma numbered_num:
  assumes "length msgs < 2 ^ 63" "p \<in> set (numbered msgs)"
  shows "0 \<le> num p \<and> num p < int (length msgs) \<and> shown p = msgs ! nat (num p)"
proof -
  obtain i where i: "i < length msgs" "p = \<lparr>msg_id = of_nat i, level = fst (msgs ! i), message = snd (msgs ! i)\<rparr>"
    using assms(2) by (auto simp: numbered_def)
  have "sint (of_nat i :: i64) = int i" using i(1) assms(1) by (intro sint_small) simp
  with i show ?thesis by (simp add: shown_def)
qed

lemma numbered_nums:
  assumes "length msgs < 2 ^ 63"
  shows "map num (numbered msgs) = map int [0..<length msgs]"
proof -
  have "sint (of_nat i :: i64) = int i" if "i < length msgs" for i using that assms by (intro sint_small) simp
  then show ?thesis by (simp add: numbered_def)
qed

lemma map_nth_upto: "0 \<le> i \<Longrightarrow> map (\<lambda>n. xs ! nat n) [i..int (length xs) - 1] = drop (nat i) xs"
  by (rule nth_equalityI) (auto simp: nth_upto nat_add_distrib)

lemma src_inv_complete:
  assumes inv: "src_inv A ps k s src" and A: "mset A = mset (numbered msgs)" and n: "0 < length msgs" "length msgs < 2 ^ 63"
  shows "rl_buffer s src = [] \<and> (\<exists>a b. lines_of src s = a @ msgs ! 0 # b \<and> a @ b = tl msgs)
    \<and> (zero_first (map num A) \<longrightarrow> lines_of src s = msgs)"
proof -
  note i = inv [unfolded src_inv_def]
  have set_A: "set A = set (numbered msgs)" using A by (metis set_mset_mset)
  then have "num ` set A = set (map num (numbered msgs))" by simp
  then have nums: "num ` set A = {0..<int (length msgs)}" unfolding numbered_nums [OF n(2)] by (auto simp: image_int_atLeastLessThan)
  have k: "1 \<le> k" "int (length msgs) \<le> k" using i src_inv_missing [OF inv] nums by auto
  have buf: "rl_buffer s src = []"
  proof (rule ccontr)
    assume "rl_buffer s src \<noteq> []"
    then obtain p where p: "p \<in> set (rl_buffer s src)" by (cases "rl_buffer s src") auto
    then have "p \<in> set A" using i by (metis UnCI set_mset_mset set_mset_union)
    then have "num p < int (length msgs)" using nums by auto
    with p i k(2) show False by fastforce
  qed
  then have ps: "mset ps = mset A" using i by simp
  then have set_ps: "set ps = set A" by (metis set_mset_mset)
  have fil: "filter (\<lambda>n. n \<noteq> 0) (map num ps) = [1..k - 1]" using i by blast
  have zero: "zero_first (map num A) \<longrightarrow> map num ps = [0..k - 1]" using i by blast
  have "k = int (length msgs)"
  proof (rule ccontr)
    assume "k \<noteq> int (length msgs)"
    with k n(1) have "1 < k" by linarith
    then have "k - 1 \<in> set [1..k - 1]" by simp
    then have "k - 1 \<in> num ` set A" unfolding fil [symmetric] by (auto simp: set_ps)
    with nums k \<open>k \<noteq> int (length msgs)\<close> show False by simp
  qed
  note fil = fil [unfolded this] and zero = zero [unfolded this]
  let ?f = "\<lambda>n. msgs ! nat n"
  have lines: "lines_of src s = map ?f (map num ps)"
  proof -
    have "map shown ps = map (\<lambda>p. ?f (num p)) ps" using numbered_num [OF n(2)] set_ps set_A by auto
    then show ?thesis using i by (simp add: comp_def)
  qed
  have "0 \<in> set (map num ps)" using nums n(1) set_ps by (metis atLeastLessThan_iff of_nat_0_less_iff order_refl set_map)
  then obtain a b where ab: "map num ps = a @ 0 # b" by (meson split_list)
  have "distinct (map num (numbered msgs))" unfolding numbered_nums [OF n(2)] by (simp add: distinct_map)
  then have "distinct (map num ps)" using ps A by (metis mset_eq_imp_distinct_iff mset_map)
  then have "0 \<notin> set a" "0 \<notin> set b" by (auto simp: ab)
  then have "filter (\<lambda>n. n \<noteq> 0) a = a" "filter (\<lambda>n. n \<noteq> 0) b = b" by (auto simp: filter_id_conv)
  then have "a @ b = [1..int (length msgs) - 1]" using fil by (simp add: ab)
  then have "map ?f a @ map ?f b = tl msgs" using map_nth_upto [of 1 msgs] by (metis drop_Suc drop_0 map_append nat_one_as_int One_nat_def zero_le_one nat_1)
  moreover have "lines_of src s = map ?f a @ msgs ! 0 # map ?f b" by (simp add: lines ab)
  moreover have "zero_first (map num A) \<longrightarrow> lines_of src s = msgs"
    using zero lines map_nth_upto [of 0 msgs] by (simp del: map_map)
  ultimately show ?thesis using buf by blast
qed

text \<open>
  C12. The log server prints the messages of a source in the order of their numbers. Messages of any sources arrive in
  any order and interleaving, those of one source with distinct numbers from 0 on. Then no call fails, and for every
  source there is a first number \<open>k\<close> of at least 1 that is still missing: exactly the messages below \<open>k\<close> were printed, each
  once, the ones from 1 on in order; the messages above \<open>k\<close> are kept back. Number 0, with which a sender starts, is in its place when it
  arrives before number 1; since the server starts as if it had printed number 0, it does not wait for it.
\<close>

theorem log_lines_in_order:
  assumes "\<forall>src. fresh (from_source src calls)"
  shows "\<exists>s. rlog_run calls RLogServiceImpl_new = Inr s \<and> (\<forall>src. \<exists>ps k. 1 \<le> k
    \<and> k \<notin> num ` set (from_source src calls)
    \<and> lines_of src s = map shown ps \<and> mset ps + mset (rl_buffer s src) = mset (from_source src calls)
    \<and> filter (\<lambda>n. n \<noteq> 0) (map num ps) = [1..k - 1] \<and> (\<forall>p \<in> set (rl_buffer s src). k < num p)
    \<and> (zero_first (map num (from_source src calls)) \<longrightarrow> map num ps = [0..k - 1]))"
proof -
  have "\<forall>src. \<exists>ps k. src_inv ((\<lambda>_. []) src) ps k RLogServiceImpl_new src" using src_inv_new by blast
  from rlog_run_inv [OF this, of calls] assms obtain s where
    s: "rlog_run calls RLogServiceImpl_new = Inr s" "\<forall>src. \<exists>ps k. src_inv (from_source src calls) ps k s src"
    by auto
  have "\<exists>ps k. 1 \<le> k \<and> k \<notin> num ` set (from_source src calls)
    \<and> lines_of src s = map shown ps \<and> mset ps + mset (rl_buffer s src) = mset (from_source src calls)
    \<and> filter (\<lambda>n. n \<noteq> 0) (map num ps) = [1..k - 1] \<and> (\<forall>p \<in> set (rl_buffer s src). k < num p)
    \<and> (zero_first (map num (from_source src calls)) \<longrightarrow> map num ps = [0..k - 1])" for src
  proof -
    obtain ps k where "src_inv (from_source src calls) ps k s src" using s(2) by blast
    note i = this [unfolded src_inv_def]
    have "k \<notin> num ` set (from_source src calls)" using src_inv_missing \<open>src_inv (from_source src calls) ps k s src\<close> by blast
    with i show ?thesis by blast
  qed
  with s(1) show ?thesis by blast
qed

definition demo_calls :: "log_call list" where
  "demo_calls = map (\<lambda>(src, n). \<lparr>lc_time = ''now'', lc_source = [src], lc_piece = \<lparr>msg_id = n, level = 3, message = [ucast n]\<rparr>\<rparr>)
     [(1, 1), (2, 0), (1, 3), (1, 0), (2, 1), (1, 2), (2, 4)]"

theorem log_lines_in_order_witness:
  "\<exists>s. rlog_run demo_calls RLogServiceImpl_new = Inr s \<and> lines_of [1] s = [(3, [1]), (3, [0]), (3, [2]), (3, [3])]
    \<and> lines_of [2] s = [(3, [0]), (3, [1])] \<and> map num (rl_buffer s [2]) = [4]"
proof -
  have src: "from_source src demo_calls = (if src = [1] then map (\<lambda>n. \<lparr>msg_id = n, level = 3, message = [ucast n]\<rparr>) [1, 3, 0, 2]
      else if src = [2] then map (\<lambda>n. \<lparr>msg_id = n, level = 3, message = [ucast n]\<rparr>) [0, 1, 4] else [])" for src
    by (auto simp: from_source_def demo_calls_def)
  have "\<forall>src. fresh (from_source src demo_calls)" by (simp add: src fresh_def)
  from log_lines_in_order [OF this] obtain s where "rlog_run demo_calls RLogServiceImpl_new = Inr s" by blast
  then show ?thesis
    by (auto simp: demo_calls_def rlog_log_def RLogServiceImpl_new_def inc_i64_def max_i64_def piece_less_def lines_of_def)
qed

end
