(* ===== verification/Rlog_Client.thy ===== *)
theory Rlog_Client
  imports Client_Properties Base_Utils
begin

text \<open>
  The sending side of remote logging: the proxy of \<open>rlog/log_service.h\<close> and the static class \<open>RLog\<close> of
  \<open>rlog/rlog.cc\<close>, on top of the client. The static variables are a record; the client and the proxy are known by the
  address of the client. \<open>text\<close> is what \<open>vsnprintf\<close> makes of the format and its arguments; a second call with the
  same argument list, for a text that did not fit, gives a text nothing is known about. \<open>meanwhile\<close> is what other threads do to the
  client inside \<open>begin_request\<close>. The mutex of the class is held in all of its functions.
\<close>

section \<open>Definitions\<close>

definition LOG :: i32 where "LOG = 0x57982f30"
definition AGGREGATE_QPS :: i32 where "AGGREGATE_QPS = 0x5d6a8636"

type_synonym 'u step = "'u cstate_scheme \<Rightarrow> 'u cstate_scheme res"

definition put_log_args :: "pid \<Rightarrow> i32 \<Rightarrow> byte list \<Rightarrow> i64 \<Rightarrow> byte list \<Rightarrow> 'u step" where
  "put_log_args p level source msg_id message s =
     rbind (client_put put_i32 p level s) (\<lambda>s1.
     rbind (client_put put_string p source s1) (\<lambda>s2.
     rbind (client_put put_i64 p msg_id s2) (client_put put_string p message)))"

definition async_log ::
  "'u step \<Rightarrow> pid \<Rightarrow> i32 \<Rightarrow> byte list \<Rightarrow> i64 \<Rightarrow> byte list \<Rightarrow> cbid option \<Rightarrow> 'u cstate_scheme \<Rightarrow> (fid option \<times> 'u cstate_scheme) res" where
  "async_log meanwhile p level source msg_id message attr s =
     rbind (begin_request meanwhile p LOG attr s) (\<lambda>(fu, s1).
     rbind (if fu \<noteq> None then put_log_args p level source msg_id message s1 else Inr s1) (\<lambda>s2.
     rbind (end_request p s2) (\<lambda>s3. Inr (fu, s3))))"

definition put_qps_args :: "pid \<Rightarrow> byte list \<Rightarrow> i32 \<Rightarrow> 'u step" where
  "put_qps_args p metric_name increment s =
     rbind (client_put put_string p metric_name s) (client_put put_i32 p increment)"

definition async_aggregate_qps ::
  "'u step \<Rightarrow> pid \<Rightarrow> byte list \<Rightarrow> i32 \<Rightarrow> cbid option \<Rightarrow> 'u cstate_scheme \<Rightarrow> (fid option \<times> 'u cstate_scheme) res" where
  "async_aggregate_qps meanwhile p metric_name increment attr s =
     rbind (begin_request meanwhile p AGGREGATE_QPS attr s) (\<lambda>(fu, s1).
     rbind (if fu \<noteq> None then put_qps_args p metric_name increment s1 else Inr s1) (\<lambda>s2.
     rbind (end_request p s2) (\<lambda>s3. Inr (fu, s3))))"

text \<open>The end of the synchronous calls: wait, take the error code, release.\<close>

definition await_code ::
  "('u cstate_scheme \<Rightarrow> 'u cstate_scheme) list \<Rightarrow> fid option \<times> 'u cstate_scheme \<Rightarrow> (i32 \<times> 'u cstate_scheme) option res" where
  "await_code ws r = (case r of
       (None, s) \<Rightarrow> Inr (Some (ENOTCONN, s))
     | (Some fu, s) \<Rightarrow> rbind (get_error_code ws fu s) (\<lambda>got. case got of
           None \<Rightarrow> Inr None
         | Some (ret, s1) \<Rightarrow> rbind (Future_release fu s1) (\<lambda>s2. Inr (Some (ret, s2)))))"

definition proxy_log ::
  "'u step \<Rightarrow> ('u cstate_scheme \<Rightarrow> 'u cstate_scheme) list \<Rightarrow> pid \<Rightarrow> i32 \<Rightarrow> byte list \<Rightarrow> i64 \<Rightarrow> byte list \<Rightarrow> 'u cstate_scheme \<Rightarrow>
     (i32 \<times> 'u cstate_scheme) option res" where
  "proxy_log meanwhile ws p level source msg_id message s =
     rbind (async_log meanwhile p level source msg_id message None s) (await_code ws)"

definition proxy_aggregate_qps ::
  "'u step \<Rightarrow> ('u cstate_scheme \<Rightarrow> 'u cstate_scheme) list \<Rightarrow> pid \<Rightarrow> byte list \<Rightarrow> i32 \<Rightarrow> 'u cstate_scheme \<Rightarrow>
     (i32 \<times> 'u cstate_scheme) option res" where
  "proxy_aggregate_qps meanwhile ws p metric_name increment s =
     rbind (async_aggregate_qps meanwhile p metric_name increment None s) (await_code ws)"

record rlog =
  rg_ident :: "byte list option"
  rg_rp :: "pid option"
  rg_cl :: "pid option"
  rg_buf :: bool
  rg_buf_len :: int
  rg_poll :: bool
  rg_counter :: i64

definition RLog_start :: rlog where
  "RLog_start = \<lparr>rg_ident = None, rg_rp = None, rg_cl = None, rg_buf = False, rg_buf_len = - 1, rg_poll = False, rg_counter = 0\<rparr>"

definition do_finalize ::
  "'u callbacks \<Rightarrow> (i64 set \<Rightarrow> i64 list) \<Rightarrow> rlog \<times> 'u cstate_scheme \<Rightarrow> (rlog \<times> 'u cstate_scheme) res" where
  "do_finalize cb order rs = (let (r, s) = rs in
     rbind (case rg_cl r of None \<Rightarrow> Inr s | Some p \<Rightarrow> close_and_release cb order p s) (\<lambda>s1.
       Inr (r\<lparr>rg_ident := None, rg_cl := None, rg_rp := None, rg_buf := False, rg_poll := False\<rparr>, s1)))"

text \<open>
  \<open>host\<close> is the answer of \<open>gethostname\<close>, \<open>pid_text\<close> the text of \<open>"(pid=%d)"\<close>, \<open>env\<close> the environment; \<open>socks\<close> are the
  descriptors that connecting to an address gives, -1 for none.
\<close>

definition RLog_init ::
  "'u callbacks \<Rightarrow> (i64 set \<Rightarrow> i64 list) \<Rightarrow> byte list option \<Rightarrow> byte list \<Rightarrow> (string \<Rightarrow> string option) \<Rightarrow> (string \<Rightarrow> int \<times> int) \<Rightarrow> pid \<Rightarrow>
     byte list option \<Rightarrow> string option \<Rightarrow> rlog \<times> 'u cstate_scheme \<Rightarrow> (rlog \<times> 'u cstate_scheme) res" where
  "RLog_init cb order host pid_text env socks p my_ident rlog_addr rs = (let (r, s) = rs in
     if rg_cl r \<noteq> None then Inr (r, s)
     else
       rbind (case my_ident of
           None \<Rightarrow> (case host of None \<Rightarrow> Inl VerifyFailed | Some h \<Rightarrow> Inr (h @ pid_text))
         | Some i \<Rightarrow> Inr i) (\<lambda>ident.
         let addr1 = (if rlog_addr = None then env ''RLOG_SERVER'' else rlog_addr);
             addr = (if addr1 = None then env ''RLOGSERVER'' else addr1);
             r1 = r\<lparr>rg_ident := Some ident, rg_poll := True, rg_cl := Some p\<rparr>; s1 = Client_new p s in
         case addr of
             None \<Rightarrow> do_finalize cb order (r1, s1)
           | Some a \<Rightarrow>
               rbind (Client_connect (fst (socks a)) (snd (socks a)) p s1) (\<lambda>(e, s2).
                 if e \<noteq> 0 then do_finalize cb order (r1, s2)
                 else Inr (r1\<lparr>rg_rp := Some p, rg_counter := Counter_reset 0 (rg_counter r1)\<rparr>, s2))))"

definition RLog_finalize ::
  "'u callbacks \<Rightarrow> (i64 set \<Rightarrow> i64 list) \<Rightarrow> rlog \<times> 'u cstate_scheme \<Rightarrow> (rlog \<times> 'u cstate_scheme) res" where
  "RLog_finalize cb order rs = do_finalize cb order rs"

text \<open>Formatting: the length of the buffer afterwards and the text in it.\<close>

definition format_text :: "rlog \<Rightarrow> byte list \<Rightarrow> byte list \<Rightarrow> (int \<times> byte list) res" where
  "format_text r text again =
     (let buf_len = (if rg_buf r then rg_buf_len r else 8192); cnt = int (length text) in
      if cnt \<ge> buf_len - 1 then
        let buf_len' = cnt + 16 in
        rbind (verify (int (length again) < buf_len' - 1)) (\<lambda>_. Inr (buf_len', again))
      else Inr (buf_len, text))"

text \<open>What became of an asynchronous call: release the future, or give up the connection.\<close>

definition keep_or_finalize ::
  "'u callbacks \<Rightarrow> (i64 set \<Rightarrow> i64 list) \<Rightarrow> rlog \<Rightarrow> fid option \<times> 'u cstate_scheme \<Rightarrow> (rlog \<times> 'u cstate_scheme) res" where
  "keep_or_finalize cb order r res = (case res of
       (Some fu, s) \<Rightarrow> rbind (Future_release fu s) (\<lambda>s1. Inr (r, s1))
     | (None, s) \<Rightarrow> do_finalize cb order (r, s))"

definition log_v ::
  "'u callbacks \<Rightarrow> (i64 set \<Rightarrow> i64 list) \<Rightarrow> 'u step \<Rightarrow> byte list \<Rightarrow> i32 \<Rightarrow> byte list \<Rightarrow> rlog \<times> 'u cstate_scheme \<Rightarrow> (rlog \<times> 'u cstate_scheme) res" where
  "log_v cb order meanwhile again level text rs = (let (r, s) = rs in
     rbind (format_text r text again) (\<lambda>(buf_len, t).
       let r1 = r\<lparr>rg_buf := True, rg_buf_len := buf_len\<rparr>; message = takeWhile (\<lambda>b. b \<noteq> 0) t in
       case rg_rp r of
           None \<Rightarrow> Inr (r1, s)
         | Some p \<Rightarrow>
             (case rg_ident r of
                 None \<Rightarrow> Inl NullDeref
               | Some ident \<Rightarrow>
                   let (n, counter) = Counter_next 1 (rg_counter r) in
                   rbind (async_log meanwhile p level ident n message None s)
                     (keep_or_finalize cb order (r1\<lparr>rg_counter := counter\<rparr>)))))"

definition RLog_aggregate_qps ::
  "'u callbacks \<Rightarrow> (i64 set \<Rightarrow> i64 list) \<Rightarrow> 'u step \<Rightarrow> byte list \<Rightarrow> i32 \<Rightarrow> rlog \<times> 'u cstate_scheme \<Rightarrow> (rlog \<times> 'u cstate_scheme) res" where
  "RLog_aggregate_qps cb order meanwhile metric_name increment rs = (let (r, s) = rs in
     case rg_rp r of
         None \<Rightarrow> Inr (r, s)
       | Some p \<Rightarrow> rbind (async_aggregate_qps meanwhile p metric_name increment None s) (keep_or_finalize cb order r))"

text \<open>The public functions, which give the level and hand the arguments on.\<close>

definition RLog_log where "RLog_log = log_v"
definition RLog_debug where "RLog_debug cb order meanwhile again = log_v cb order meanwhile again 4"
definition RLog_info where "RLog_info cb order meanwhile again = log_v cb order meanwhile again 3"
definition RLog_warn where "RLog_warn cb order meanwhile again = log_v cb order meanwhile again 2"
definition RLog_error where "RLog_error cb order meanwhile again = log_v cb order meanwhile again 1"
definition RLog_fatal where "RLog_fatal cb order meanwhile again = log_v cb order meanwhile again 0"

text \<open>A sequence of calls \<open>RLog::log(level, ...)\<close>.\<close>

fun log_all ::
  "'u callbacks \<Rightarrow> (i64 set \<Rightarrow> i64 list) \<Rightarrow> (i32 \<times> byte list) list \<Rightarrow> rlog \<times> 'u cstate_scheme \<Rightarrow> (rlog \<times> 'u cstate_scheme) res" where
  "log_all cb order [] rs = Inr rs"
| "log_all cb order ((level, text) # ms) rs = rbind (RLog_log cb order Inr [] level text rs) (log_all cb order ms)"

section \<open>Numbered messages\<close>

text \<open>A future that the caller gives up while it is still pending.\<close>

lemma release_pending:
  assumes ok: "cli_ok R s p" and f: "fu < length (cs_futures s)" "cs_futures s ! fu = Some f" "fu_ref f = 2"
  shows "\<exists>s'. Future_release fu s = Inr s' \<and> cli_ok R s' p \<and> cs_clients s' = cs_clients s \<and> cs_heap s' = cs_heap s
    \<and> length (cs_futures s') = length (cs_futures s)"
proof -
  let ?f = "f\<lparr>fu_ref := 1\<rparr>"
  let ?s = "set_fut fu ?f s"
  obtain c where c: "cs_clients s p = Some c" "cbufs_ok R (cs_heap s) c (cs_futures s)" "pend_ok (cl_pending_fu c) (cs_futures s)"
    using ok by (auto simp: cli_ok_def)
  have "cbufs_ok R (cs_heap s) c ((cs_futures s)[fu := Some ?f])" using same_reply_bufs(1) [OF f(1,2), of ?f R] c(2) by simp
  moreover have "pend_ok (cl_pending_fu c) ((cs_futures s)[fu := Some ?f])"
    unfolding pend_ok_def
  proof (intro allI impI)
    fix x i assume "cl_pending_fu c x = Some i"
    with c(3) obtain g where "i < length (cs_futures s)" "cs_futures s ! i = Some g" "fu_xid g = x" "0 < fu_ref g"
      "fu_reply g = Marshal_new" "\<not> fu_ready g" unfolding pend_ok_def by blast
    with f show "i < length ((cs_futures s)[fu := Some ?f]) \<and> (\<exists>g. (cs_futures s)[fu := Some ?f] ! i = Some g \<and> fu_xid g = x
        \<and> 0 < fu_ref g \<and> fu_reply g = Marshal_new \<and> \<not> fu_ready g)" by (cases "i = fu") simp_all
  qed
  ultimately have "cli_ok R ?s p" using ok c by (auto simp: cli_ok_def)
  with f show ?thesis by (simp add: Future_release_def Let_def)
qed

definition log_body :: "i32 \<Rightarrow> byte list \<Rightarrow> i64 \<Rightarrow> byte list \<Rightarrow> byte list" where
  "log_body level source msg_id message = to_le 4 level @ enc_string source @ to_le 8 msg_id @ enc_string message"

lemma put_log_args_writes:
  assumes "short_len (length source)" "short_len (length message)"
  shows "writes_args p (put_log_args p level source n message :: 'u step) (log_body level source n message)"
proof -
  let ?a = "client_put put_i32 p level :: 'u step" and ?b = "client_put put_string p source :: 'u step"
    and ?c = "client_put put_i64 p n :: 'u step" and ?d = "client_put put_string p message :: 'u step"
  have "writes_args p ?a (to_le 4 level)" by (rule writes_arg) (rule i32.put_ok, simp_all)
  moreover have "writes_args p ?b (enc_string source)" by (rule writes_arg) (rule str.put_ok, simp_all add: assms)
  moreover have "writes_args p ?c (to_le 8 n)" by (rule writes_arg) (rule i64.put_ok, simp_all)
  moreover have "writes_args p ?d (enc_string message)" by (rule writes_arg) (rule str.put_ok, simp_all add: assms)
  ultimately have "writes_args p (\<lambda>s. rbind (?a s) (\<lambda>s. rbind (?b s) (\<lambda>s. rbind (?c s) ?d))) (log_body level source n message)"
    unfolding log_body_def by (intro writes_args_seq)
  moreover have "(\<lambda>s. rbind (?a s) (\<lambda>s. rbind (?b s) (\<lambda>s. rbind (?c s) ?d))) = put_log_args p level source n message"
    by (simp add: fun_eq_iff put_log_args_def)
  ultimately show ?thesis by simp
qed

text \<open>A logger that is connected, and the bytes its client has to send.\<close>

definition rlog_ok :: "addr multiset \<Rightarrow> pid \<Rightarrow> byte list \<Rightarrow> rlog \<times> 'u cstate_scheme \<Rightarrow> bool" where
  "rlog_ok R p ident rs \<longleftrightarrow> rg_rp (fst rs) = Some p \<and> rg_cl (fst rs) = Some p \<and> rg_ident (fst rs) = Some ident
     \<and> (rg_buf (fst rs) \<longrightarrow> 8192 \<le> rg_buf_len (fst rs)) \<and> cli_ok R (snd rs) p
     \<and> (\<exists>c. cs_clients (snd rs) p = Some c \<and> cl_status c = CL_CONNECTED \<and> \<not> cl_out_l c)"

definition to_send :: "'u cstate_scheme \<Rightarrow> pid \<Rightarrow> byte list" where
  "to_send s p = (case cs_clients s p of None \<Rightarrow> [] | Some c \<Rightarrow> bytes (cs_heap s) (cl_out c))"

definition next_xid :: "'u cstate_scheme \<Rightarrow> pid \<Rightarrow> i64" where
  "next_xid s p = (case cs_clients s p of None \<Rightarrow> 0 | Some c \<Rightarrow> cl_xid_counter c)"

definition log_packet :: "byte list \<Rightarrow> i64 \<Rightarrow> i64 \<Rightarrow> i32 \<times> byte list \<Rightarrow> byte list" where
  "log_packet ident xid n msg = packet (enc_v64 xid @ to_le 4 LOG @ log_body (fst msg) ident n (takeWhile (\<lambda>b. b \<noteq> 0) (snd msg)))"

lemma log_v_ok:
  fixes rs :: "rlog \<times> 'u cstate_scheme"
  assumes ok: "rlog_ok R p ident rs" and short: "length text < 8191" "short_len (length ident)"
  shows "\<exists>rs'. log_v cb order Inr again level text rs = Inr rs' \<and> rlog_ok R p ident rs'
    \<and> rg_counter (fst rs') = rg_counter (fst rs) + 1 \<and> next_xid (snd rs') p = next_xid (snd rs) p + 1
    \<and> to_send (snd rs') p = to_send (snd rs) p @ log_packet ident (next_xid (snd rs) p) (rg_counter (fst rs)) (level, text)"
proof -
  obtain r s where rs: "rs = (r, s)" by (cases rs)
  obtain c where c: "cli_ok R s p" "cs_clients s p = Some c" "cl_status c = CL_CONNECTED" "\<not> cl_out_l c"
    "rg_rp r = Some p" "rg_cl r = Some p" "rg_ident r = Some ident" "rg_buf r \<longrightarrow> 8192 \<le> rg_buf_len r"
    using ok by (auto simp: rlog_ok_def rs)
  let ?m = "takeWhile (\<lambda>b. b \<noteq> 0) text" and ?n = "rg_counter r" and ?fu = "length (cs_futures s)"
  have "length ?m \<le> length text" by (rule length_takeWhile_le)
  then have "short_len (length ?m)" using short(1) by (simp add: short_len_def)
  note w = put_log_args_writes [OF short(2) this, where p = p and level = level and n = ?n]
  obtain s1 s2 s3 m where q: "begin_request Inr p LOG None s = Inr (Some ?fu, s1)" "put_log_args p level ident ?n ?m s1 = Inr s2"
    "end_request p s2 = Inr s3" "cli_ok R s3 p"
    "cs_futures s3 = cs_futures s @ [Some ((Future_new (cl_xid_counter c) None)\<lparr>fu_ref := 2\<rparr>)]"
    "cs_clients s3 = (cs_clients s)(p \<mapsto> c\<lparr>cl_out := m, cl_xid_counter := cl_xid_counter c + 1,
          cl_pending_fu := (cl_pending_fu c)(cl_xid_counter c \<mapsto> ?fu)\<rparr>)"
    "bytes (cs_heap s3) m = bytes (cs_heap s) (cl_out c) @ packet (enc_v64 (cl_xid_counter c) @ to_le 4 LOG @ log_body level ident ?n ?m)"
    using request_ok [OF c(1-4) w, of LOG None] by (elim exE conjE) (rule that)
  obtain s4 where s4: "Future_release ?fu s3 = Inr s4" "cli_ok R s4 p" "cs_clients s4 = cs_clients s3" "cs_heap s4 = cs_heap s3"
    using release_pending [OF q(4), of ?fu] q(5) by auto
  define len where "len = (if rg_buf r then rg_buf_len r else 8192)"
  have len: "8192 \<le> len" using c(8) by (simp add: len_def)
  have f: "format_text r text again = Inr (len, text)" using short(1) len by (simp add: format_text_def len_def [symmetric])
  have a: "async_log Inr p level ident ?n ?m None s = Inr (Some ?fu, s3)" using q(1-3) by (simp add: async_log_def)
  let ?r = "r\<lparr>rg_buf := True, rg_buf_len := len, rg_counter := ?n + 1\<rparr>"
  have l: "log_v cb order Inr again level text rs = Inr (?r, s4)"
    by (simp add: log_v_def rs f c(5,7) Counter_next_def a keep_or_finalize_def s4(1))
  have "rlog_ok R p ident (?r, s4)" using c s4(2,3) q(6) len by (simp add: rlog_ok_def)
  with l show ?thesis using c(2) q(6,7) s4(3,4) by (simp add: to_send_def next_xid_def log_packet_def rs)
qed

lemma log_all_ok:
  fixes rs :: "rlog \<times> 'u cstate_scheme"
  assumes "rlog_ok R p ident rs" "\<forall>m \<in> set msgs. length (snd m) < 8191" "short_len (length ident)"
  shows "\<exists>rs'. log_all cb order msgs rs = Inr rs' \<and> rlog_ok R p ident rs'
    \<and> rg_counter (fst rs') = rg_counter (fst rs) + of_nat (length msgs)
    \<and> to_send (snd rs') p = to_send (snd rs) p @ concat (map (\<lambda>i. log_packet ident (next_xid (snd rs) p + of_nat i)
          (rg_counter (fst rs) + of_nat i) (msgs ! i)) [0..<length msgs])"
  using assms(1,2)
proof (induction msgs arbitrary: rs)
  case (Cons m msgs)
  obtain level tx where m: "m = (level, tx)" by (cases m)
  have short: "length tx < 8191" using Cons(3) by (simp add: m)
  obtain rs1 where r1: "log_v cb order Inr [] level tx rs = Inr rs1" "rlog_ok R p ident rs1"
    "rg_counter (fst rs1) = rg_counter (fst rs) + 1" "next_xid (snd rs1) p = next_xid (snd rs) p + 1"
    "to_send (snd rs1) p = to_send (snd rs) p @ log_packet ident (next_xid (snd rs) p) (rg_counter (fst rs)) m"
    using log_v_ok [OF Cons(2) short assms(3), of cb order "[]" level] by (auto simp: m)
  obtain rs2 where r2: "log_all cb order msgs rs1 = Inr rs2" "rlog_ok R p ident rs2"
    "rg_counter (fst rs2) = rg_counter (fst rs1) + of_nat (length msgs)"
    "to_send (snd rs2) p = to_send (snd rs1) p @ concat (map (\<lambda>i. log_packet ident (next_xid (snd rs1) p + of_nat i)
          (rg_counter (fst rs1) + of_nat i) (msgs ! i)) [0..<length msgs])"
    using Cons(1) [OF r1(2)] Cons(3) by auto
  have "[0..<length (m # msgs)] = 0 # map Suc [0..<length msgs]" by (simp add: map_Suc_upt upt_conv_Cons del: upt_Suc)
  with r1 r2 show ?case by (simp add: m RLog_log_def ac_simps comp_def del: upt_Suc)
qed simp

lemma RLog_init_ok:
  fixes s :: "'u cstate_scheme"
  assumes "poll_ok (cs_poll s)" "pobjs (cs_poll s) p = None" "0 \<le> tcp" "0 \<le> udp"
    and "mode (poll_threads (cs_poll s) ! tid_of (cs_poll s) tcp) tcp = None"
      "epoll (poll_threads (cs_poll s) ! tid_of (cs_poll s) tcp) tcp = None"
    and "heap_ok (cs_heap s) (futs_refs (cs_futures s) + R)" "futs_ok (cs_heap s) Marshal_new (cs_futures s)"
    and r: "rg_cl r = None" "rg_buf r \<longrightarrow> 8192 \<le> rg_buf_len r" and a: "socks addr = (tcp, udp)"
  shows "\<exists>rs. RLog_init cb order host pid_text env socks p (Some ident) (Some addr) (r, s) = Inr rs \<and> rlog_ok R p ident rs
    \<and> rg_counter (fst rs) = 0 \<and> next_xid (snd rs) p = 0 \<and> to_send (snd rs) p = []"
proof -
  obtain s' c where "Client_connect tcp udp p (Client_new p s) = Inr (0, s')" "cli_ok R s' p" "cs_clients s' p = Some c"
    "cl_status c = CL_CONNECTED" "\<not> cl_out_l c" "cl_xid_counter c = 0" "bytes (cs_heap s') (cl_out c) = []"
    using client_connect_ok [OF assms(1-8)] by blast
  with r a show ?thesis
    by (simp add: RLog_init_def rlog_ok_def Counter_reset_def next_xid_def to_send_def)
qed

text \<open>
  A logger numbers its messages from 0, without gaps. After \<open>init\<close> reached the log server, every call of \<open>log\<close> with a text that
  fits the buffer succeeds, and what the client then has to send is one request for each call, in the order of the calls: the
  \<open>i\<close>-th carries the number \<open>i\<close>, the level, the name of this logger, and the text up to its first zero byte. (These are the
  numbers by which the log server puts the lines in order.)
\<close>

theorem logger_numbers_messages:
  fixes s :: "'u cstate_scheme"
  assumes "poll_ok (cs_poll s)" "pobjs (cs_poll s) p = None" "0 \<le> tcp" "0 \<le> udp"
    and "mode (poll_threads (cs_poll s) ! tid_of (cs_poll s) tcp) tcp = None"
      "epoll (poll_threads (cs_poll s) ! tid_of (cs_poll s) tcp) tcp = None"
    and "heap_ok (cs_heap s) (futs_refs (cs_futures s) + R)" "futs_ok (cs_heap s) Marshal_new (cs_futures s)"
    and "socks addr = (tcp, udp)" "short_len (length ident)" "\<forall>m \<in> set msgs. length (snd m) < 8191"
  shows "\<exists>rs r' s'. RLog_init cb order host pid_text env socks p (Some ident) (Some addr) (RLog_start, s) = Inr rs
    \<and> log_all cb order msgs rs = Inr (r', s') \<and> rg_rp r' = Some p \<and> rg_counter r' = of_nat (length msgs)
    \<and> to_send s' p = concat (map (\<lambda>i. packet (enc_v64 (of_nat i) @ to_le 4 LOG @ to_le 4 (fst (msgs ! i)) @ enc_string ident
          @ to_le 8 (of_nat i :: i64) @ enc_string (takeWhile (\<lambda>b. b \<noteq> 0) (snd (msgs ! i))))) [0..<length msgs])"
proof -
  have r: "rg_cl RLog_start = None" "rg_buf RLog_start \<longrightarrow> 8192 \<le> rg_buf_len RLog_start" by (simp_all add: RLog_start_def)
  obtain rs where rs: "RLog_init cb order host pid_text env socks p (Some ident) (Some addr) (RLog_start, s) = Inr rs"
    "rlog_ok R p ident rs" "rg_counter (fst rs) = 0" "next_xid (snd rs) p = 0" "to_send (snd rs) p = []"
    using RLog_init_ok [OF assms(1-8) r, where socks = socks and addr = addr, OF assms(9)] by blast
  obtain r' s' where "log_all cb order msgs rs = Inr (r', s')" "rlog_ok R p ident (r', s')" "rg_counter r' = of_nat (length msgs)"
    "to_send s' p = concat (map (\<lambda>i. log_packet ident (of_nat i) (of_nat i) (msgs ! i)) [0..<length msgs])"
    using log_all_ok [OF rs(2) assms(11,10), of cb order] rs(3-5) by auto
  with rs(1) show ?thesis by (auto simp: rlog_ok_def log_packet_def log_body_def)
qed

theorem logger_numbers_messages_witness:
  "\<exists>rs r' s'. RLog_init note_cb (\<lambda>_. []) None [] (\<lambda>_. None) (\<lambda>_. (5, 6)) 7 (Some [97]) (Some ''h:1'') (RLog_start, demo_cstate) = Inr rs
    \<and> log_all note_cb (\<lambda>_. []) [(3, [104, 105]), (4, [1, 0, 2])] rs = Inr (r', s') \<and> rg_counter r' = 2
    \<and> to_send s' 7 = packet (enc_v64 0 @ to_le 4 LOG @ to_le 4 (3 :: i32) @ enc_string [97] @ to_le 8 (0 :: i64) @ enc_string [104, 105])
        @ packet (enc_v64 1 @ to_le 4 LOG @ to_le 4 (4 :: i32) @ enc_string [97] @ to_le 8 (1 :: i64) @ enc_string [1])"
proof -
  have "PollMgr_new 1 (\<lambda>_. None) = Inr demo_poll0" by (simp add: PollMgr_new_def demo_poll0_def)
  then have ok: "poll_ok (cs_poll demo_cstate)" using new_ok [of 1 "\<lambda>_. None" demo_poll0] by (simp add: demo_cstate_def)
  have poll: "pobjs (cs_poll demo_cstate) 7 = None"
    "mode (poll_threads (cs_poll demo_cstate) ! tid_of (cs_poll demo_cstate) 5) 5 = None"
    "epoll (poll_threads (cs_poll demo_cstate) ! tid_of (cs_poll demo_cstate) 5) 5 = None"
    by (simp_all add: demo_cstate_def demo_poll0_def PollThread_new_def tid_of_def)
  have heap: "heap_ok (cs_heap demo_cstate) (futs_refs (cs_futures demo_cstate) + {#})"
    "futs_ok (cs_heap demo_cstate) Marshal_new (cs_futures demo_cstate)"
    by (simp_all add: demo_cstate_def heap_ok_def futs_refs_def futs_ok_def)
  have "[0..<length [(3 :: i32, [104, 105 :: byte]), (4, [1, 0, 2])]] = [0, 1]" by (simp add: upt_rec)
  with logger_numbers_messages [OF ok poll(1) _ _ poll(2,3) heap, of 6 "\<lambda>_. (5, 6)" "''h:1''" "[97]" "[(3, [104, 105]), (4, [1, 0, 2])]"
      note_cb "\<lambda>_. []" None "[]" "\<lambda>_. None"]
  show ?thesis by (auto simp: short_len_def)
qed

end
