(* ===== verification/Rlog_Rpc.thy ===== *)
theory Rlog_Rpc
  imports Server_Properties Rlog_Service Rlog_Client
begin

text \<open>
  The handlers of the log service in \<open>rlog/log_service.h\<close>. The generated wrapper hands a job to the thread pool; the
  job reads the arguments, calls \<open>RLogServiceImpl::log\<close> and sends an empty reply. The workers run the jobs in
  any order, each of them once.
\<close>

section \<open>Definitions\<close>

text \<open>The state of the service is what the record of the server leaves open. \<open>tm\<close> is the time of the call.\<close>

definition log_job :: "string \<Rightarrow> rlog_state rpc_handler" where
  "log_job tm req p s =
     rbind (get_i32 (ss_heap s) (req_m req)) (\<lambda>(in_0, m1, h1).
     rbind (get_string h1 m1) (\<lambda>(in_1, m2, h2).
     rbind (get_i64 h2 m2) (\<lambda>(in_2, m3, h3).
     rbind (get_string h3 m3) (\<lambda>(in_3, m4, h4).
     rbind (rlog_log tm in_0 in_1 in_2 in_3 (sstate.more s)) (\<lambda>st.
       let s1 = sstate.more_update (\<lambda>_. st) (s\<lparr>ss_heap := h4\<rparr>); req1 = req\<lparr>req_m := m4\<rparr> in
       rbind (begin_reply p (req_xid req1) 0 s1) (\<lambda>s2.
       rbind (end_reply p s2) (\<lambda>s3.
       rbind (delete_request req1 s3) (conn_release p))))))))"

fun run_log_jobs :: "(string \<times> request) list \<Rightarrow> pid \<Rightarrow> rlog_state sstate_scheme \<Rightarrow> rlog_state sstate_scheme res" where
  "run_log_jobs [] p s = Inr s"
| "run_log_jobs ((tm, req) # jobs) p s = rbind (log_job tm req p s) (run_log_jobs jobs p)"

definition RLogService_reg :: "(i32 \<Rightarrow> 'u rpc_handler option) \<Rightarrow> 'u rpc_handler \<Rightarrow> 'u rpc_handler \<Rightarrow> int \<times> (i32 \<Rightarrow> 'u rpc_handler option)" where
  "RLogService_reg handlers log_f qps_f =
     (let (ret, h1) = Server_reg LOG log_f handlers in
      if ret \<noteq> 0 then (ret, Server_unreg AGGREGATE_QPS (Server_unreg LOG h1))
      else
        let (ret2, h2) = Server_reg AGGREGATE_QPS qps_f h1 in
        if ret2 \<noteq> 0 then (ret2, Server_unreg AGGREGATE_QPS (Server_unreg LOG h2)) else (0, h2))"

section \<open>Jobs\<close>

lemma more_update_keeps [simp]:
  "srv_ok k R (sstate.more_update f s) p = srv_ok k R s p" "ss_heap (sstate.more_update f s) = ss_heap s"
  "replies R s (sstate.more_update f s) p []" "sstate.more (sstate.more_update f s) = f (sstate.more s)"
  by (cases s; auto simp: srv_ok_def replies_def out_bytes_def same_server_def split: option.split)+

lemma DeferredReply_delete_Inr:
  "DeferredReply_delete req p (Inr :: rlog_state sstate_scheme \<Rightarrow> _) = (\<lambda>s. rbind (delete_request req s) (conn_release p))"
  by (simp add: fun_eq_iff DeferredReply_delete_def)

text \<open>Four arguments read one after the other.\<close>

lemma parse_log_args:
  assumes ok: "srv_ok k (refs (req_m req) + R) s p" and wf: "wf_marshal (ss_heap s) (req_m req)"
    and b: "bytes (ss_heap s) (req_m req) = log_body lev src n msg" and short: "short_len (length src)" "short_len (length msg)"
  shows "\<exists>m1 h1 m2 h2 m3 h3 m4 h4. get_i32 (ss_heap s) (req_m req) = Inr (lev, m1, h1) \<and> get_string h1 m1 = Inr (src, m2, h2)
    \<and> get_i64 h2 m2 = Inr (n, m3, h3) \<and> get_string h3 m3 = Inr (msg, m4, h4)
    \<and> srv_ok k (refs m4 + R) (s\<lparr>ss_heap := h4\<rparr>) p \<and> replies R s (s\<lparr>ss_heap := h4\<rparr>) p [] \<and> wf_marshal h4 m4"
proof -
  have b: "bytes (ss_heap s) (req_m req) = to_le 4 lev @ enc_string src @ to_le 8 n @ enc_string msg"
    using b by (simp add: log_body_def)
  obtain m1 h1 where 1: "get_i32 (ss_heap s) (req_m req) = Inr (lev, m1, h1)" "srv_ok k (refs m1 + R) (s\<lparr>ss_heap := h1\<rparr>) p"
    "replies R s (s\<lparr>ss_heap := h1\<rparr>) p []" "wf_marshal h1 m1" "bytes h1 m1 = enc_string src @ to_le 8 n @ enc_string msg"
    using parse_arg_ok [OF i32.get _ ok wf b] by blast
  let ?s1 = "s\<lparr>ss_heap := h1\<rparr>"
  obtain m2 h2 where 2: "get_string h1 m1 = Inr (src, m2, h2)" "srv_ok k (refs m2 + R) (s\<lparr>ss_heap := h2\<rparr>) p"
    "replies R ?s1 (s\<lparr>ss_heap := h2\<rparr>) p []" "wf_marshal h2 m2" "bytes h2 m2 = to_le 8 n @ enc_string msg"
    using parse_arg_ok [OF str.get short(1) 1(2)] 1(4,5) by fastforce
  let ?s2 = "s\<lparr>ss_heap := h2\<rparr>"
  obtain m3 h3 where 3: "get_i64 h2 m2 = Inr (n, m3, h3)" "srv_ok k (refs m3 + R) (s\<lparr>ss_heap := h3\<rparr>) p"
    "replies R ?s2 (s\<lparr>ss_heap := h3\<rparr>) p []" "wf_marshal h3 m3" "bytes h3 m3 = enc_string msg @ []"
    using parse_arg_ok [OF i64.get _ 2(2)] 2(4,5) by fastforce
  let ?s3 = "s\<lparr>ss_heap := h3\<rparr>"
  obtain m4 h4 where 4: "get_string h3 m3 = Inr (msg, m4, h4)" "srv_ok k (refs m4 + R) (s\<lparr>ss_heap := h4\<rparr>) p"
    "replies R ?s3 (s\<lparr>ss_heap := h4\<rparr>) p []" "wf_marshal h4 m4"
    using parse_arg_ok [OF str.get short(2) 3(2)] 3(4,5) by fastforce
  from replies_trans [OF replies_trans [OF replies_trans [OF 1(3) 2(3)] 3(3)] 4(3)]
  have "replies R s (s\<lparr>ss_heap := h4\<rparr>) p []" by simp
  with 1(1) 2(1) 3(1) 4 show ?thesis by blast
qed

lemma log_job_ok:
  assumes ok: "srv_ok (Suc k) (refs (req_m req) + R) s p" and wf: "wf_marshal (ss_heap s) (req_m req)"
    and b: "bytes (ss_heap s) (req_m req) = log_body lev src n msg" and short: "short_len (length src)" "short_len (length msg)"
    and log: "rlog_log tm lev src n msg (sstate.more s) = Inr st"
  shows "\<exists>s'. log_job tm req p s = Inr s' \<and> srv_ok k R s' p \<and> sstate.more s' = st
    \<and> replies R s s' p (packet (enc_v64 (req_xid req) @ enc_v32 0))"
proof -
  obtain m1 h1 m2 h2 m3 h3 m4 h4 where g: "get_i32 (ss_heap s) (req_m req) = Inr (lev, m1, h1)" "get_string h1 m1 = Inr (src, m2, h2)"
    "get_i64 h2 m2 = Inr (n, m3, h3)" "get_string h3 m3 = Inr (msg, m4, h4)"
    "srv_ok (Suc k) (refs m4 + R) (s\<lparr>ss_heap := h4\<rparr>) p" "replies R s (s\<lparr>ss_heap := h4\<rparr>) p []" "wf_marshal h4 m4"
    using parse_log_args [OF ok wf b short] by (elim exE conjE) (rule that)
  let ?req = "req\<lparr>req_m := m4\<rparr>" and ?s = "sstate.more_update (\<lambda>_. st) (s\<lparr>ss_heap := h4\<rparr>)"
  have pre: "srv_ok (Suc k) (refs (req_m ?req) + R) ?s p" "wf_marshal (ss_heap ?s) (req_m ?req)" using g(5,7) by simp_all
  have "log_job tm req p s = DeferredReply_reply ?req p Inr Inr ?s"
    using g(1-4) log by (simp add: log_job_def DeferredReply_reply_def DeferredReply_delete_Inr Let_def)
  moreover obtain s' where "DeferredReply_reply ?req p Inr Inr ?s = Inr s'" "srv_ok k R s' p"
    "replies R ?s s' p (packet (enc_v64 (req_xid req) @ enc_v32 0))" "sstate.more s' = st"
    using DeferredReply_reply_ok [OF pre writes_nothing] by auto
  moreover have "replies R s ?s p []" using replies_trans [OF g(6) more_update_keeps(3)] by simp
  ultimately show ?thesis using replies_trans [of R s ?s p "[]" s'] by auto
qed

definition request_refs :: "request list \<Rightarrow> addr multiset" where
  "request_refs reqs = sum_list (map (\<lambda>r. refs (req_m r)) reqs)"

text \<open>A job for the call \<open>c\<close>, in any buffer.\<close>

definition job_for :: "heap \<Rightarrow> log_call \<Rightarrow> string \<times> request \<Rightarrow> bool" where
  "job_for h c j \<longleftrightarrow> fst j = lc_time c \<and> wf_marshal h (req_m (snd j)) \<and> short_len (length (lc_source c))
     \<and> short_len (length (message (lc_piece c)))
     \<and> bytes h (req_m (snd j)) = log_body (level (lc_piece c)) (lc_source c) (msg_id (lc_piece c)) (message (lc_piece c))"

lemma job_for_kept:
  "job_for h c j \<Longrightarrow> keeps_bufs R h h' \<Longrightarrow> set_mset (refs (req_m (snd j))) \<subseteq> set_mset R \<Longrightarrow> job_for h' c j"
  using keeps_bufsD by (auto simp: job_for_def)

text \<open>
  Jobs for any list of calls, each holding the arguments as a logger writes them, run one after the other on one connection: each
  reads its arguments back as they were written, and the state of the service afterwards is that of the same list of calls.
\<close>

lemma log_jobs_run_the_calls:
  assumes "srv_ok (length jobs) (request_refs (map snd jobs) + R) s p" "list_all2 (job_for (ss_heap s)) calls jobs"
    and "rlog_run calls (sstate.more s) = Inr st"
  shows "\<exists>s'. run_log_jobs jobs p s = Inr s' \<and> srv_ok 0 R s' p \<and> sstate.more s' = st
    \<and> out_bytes s' p = out_bytes s p @ concat (map (\<lambda>j. packet (enc_v64 (req_xid (snd j)) @ enc_v32 0)) jobs)"
  using assms
proof (induction jobs arbitrary: calls s)
  case Nil
  then show ?case by (simp add: request_refs_def)
next
  case (Cons j jobs)
  obtain c cs where c: "calls = c # cs" "job_for (ss_heap s) c j" "list_all2 (job_for (ss_heap s)) cs jobs"
    using Cons(3) by (auto simp: list_all2_Cons2)
  let ?p = "lc_piece c" and ?R = "request_refs (map snd jobs) + R"
  obtain st1 where l: "rlog_log (fst j) (level ?p) (lc_source c) (msg_id ?p) (message ?p) (sstate.more s) = Inr st1"
    "rlog_run cs st1 = Inr st"
    using Cons(4) c(1,2) by (auto simp: rbind_eq_Inr_iff job_for_def)
  have ok: "srv_ok (Suc (length jobs)) (refs (req_m (snd j)) + ?R) s p" using Cons(2) by (simp add: request_refs_def ac_simps)
  obtain s1 where s1: "log_job (fst j) (snd j) p s = Inr s1" "srv_ok (length jobs) ?R s1 p" "sstate.more s1 = st1"
    "replies ?R s s1 p (packet (enc_v64 (req_xid (snd j)) @ enc_v32 0))"
    using log_job_ok [OF ok _ _ _ _ l(1)] c(2) by (auto simp: job_for_def)
  have "job_for (ss_heap s1) d i" if "job_for (ss_heap s) d i" "i \<in> set jobs" for d i
  proof (rule job_for_kept [OF that(1)])
    show "keeps_bufs ?R (ss_heap s) (ss_heap s1)" using s1(4) by (simp add: replies_def)
    show "set_mset (refs (req_m (snd i))) \<subseteq> set_mset ?R"
      using that(2) by (auto simp: request_refs_def set_mset_sum_list)
  qed
  then have "list_all2 (job_for (ss_heap s1)) cs jobs" using c(3) by (auto simp: list_all2_conv_all_nth)
  from Cons(1) [OF s1(2) this] l(2) s1(3) obtain s' where s': "run_log_jobs jobs p s1 = Inr s'" "srv_ok 0 R s' p" "sstate.more s' = st"
    "out_bytes s' p = out_bytes s1 p @ concat (map (\<lambda>j. packet (enc_v64 (req_xid (snd j)) @ enc_v32 0)) jobs)" by auto
  have "out_bytes s1 p = out_bytes s p @ packet (enc_v64 (req_xid (snd j)) @ enc_v32 0)" using s1(4) by (simp add: replies_def)
  moreover have "run_log_jobs (j # jobs) p s = Inr s'" using s1(1) s'(1) by (cases j) simp
  ultimately show ?case using s'(2-4) by auto
qed

text \<open>
  C11. What is logged is printed. The messages \<open>msgs\<close> of a logger, numbered from 0 as \<open>RLog\<close> does, reach a new log server as
  requests whose jobs the workers run in any order. Then every job succeeds and answers its request once, nothing is
  kept back, and the lines of this source are exactly the messages in the order in which they were logged, apart from the place of the
  first; they are in this order entirely when the job of the first message runs before that of the second.
\<close>

theorem logged_messages_all_printed:
  fixes msgs :: "(i32 \<times> byte list) list"
  assumes "srv_ok (length jobs) (request_refs (map snd jobs) + R) s p" "sstate.more s = RLogServiceImpl_new"
    and "list_all2 (job_for (ss_heap s)) calls jobs" "\<forall>c \<in> set calls. lc_source c = ident"
    and "mset (map lc_piece calls) = mset (numbered msgs)" "0 < length msgs" "length msgs < 2 ^ 63"
  shows "\<exists>s'. run_log_jobs jobs p s = Inr s' \<and> srv_ok 0 R s' p
    \<and> out_bytes s' p = out_bytes s p @ concat (map (\<lambda>j. packet (enc_v64 (req_xid (snd j)) @ enc_v32 0)) jobs)
    \<and> rl_buffer (sstate.more s') ident = []
    \<and> (\<exists>a b. lines_of ident (sstate.more s') = a @ msgs ! 0 # b \<and> a @ b = tl msgs)
    \<and> (zero_first (map num (map lc_piece calls)) \<longrightarrow> lines_of ident (sstate.more s') = msgs)"
proof -
  let ?A = "\<lambda>x. if x = ident then map lc_piece calls else []"
  have src: "from_source x calls = ?A x" for x
    using assms(4) by (auto simp: from_source_def filter_id_conv filter_empty_conv)
  have "distinct (map num (numbered msgs))" unfolding numbered_nums [OF assms(7)] by (simp add: distinct_map)
  then have "distinct (map num (map lc_piece calls))" using assms(5) by (metis mset_eq_imp_distinct_iff mset_map)
  moreover have "set (map lc_piece calls) = set (numbered msgs)" using assms(5) by (metis set_mset_mset)
  then have "0 \<le> num q \<and> num q < 2 ^ 63 - 1" if "q \<in> set (map lc_piece calls)" for q
    using numbered_num [OF assms(7), of q] assms(7) that by auto
  ultimately have "\<forall>x. fresh (from_source x calls)" by (auto simp: src fresh_def)
  with rlog_run_inv [of "\<lambda>_. []" RLogServiceImpl_new calls] src_inv_new
  obtain st where st: "rlog_run calls (sstate.more s) = Inr st" "\<exists>ps k. src_inv (from_source ident calls) ps k st ident"
    unfolding assms(2) append.simps by blast
  then obtain ps k where "src_inv (map lc_piece calls) ps k st ident" by (auto simp: src)
  note all = src_inv_complete [OF this assms(5-7)]
  obtain s' where "run_log_jobs jobs p s = Inr s'" "srv_ok 0 R s' p" "sstate.more s' = st"
    "out_bytes s' p = out_bytes s p @ concat (map (\<lambda>j. packet (enc_v64 (req_xid (snd j)) @ enc_v32 0)) jobs)"
    using log_jobs_run_the_calls [OF assms(1,3) st(1)] by blast
  with all show ?thesis by simp
qed

text \<open>A server with one connection, in whose heap a request was received.\<close>

definition demo_log_server :: "heap \<Rightarrow> rlog_state sstate_scheme" where
  "demo_log_server h = \<lparr>ss_heap = h, ss_poll = demo_poll0\<lparr>pobjs := [7 \<mapsto> \<lparr>p_fd = 5, p_mode = READ, p_ref = 2\<rparr>]\<rparr>,
     ss_conns = [7 \<mapsto> \<lparr>sc_in = Marshal_new, sc_out = Marshal_new, sc_bmark = None, sc_status = CONNECTED, sc_sock = 5\<rparr>],
     ss_sconns = {}, ss_ctr = 0, ss_missing = {}, \<dots> = RLogServiceImpl_new\<rparr>"

lemma demo_log_server_ok:
  assumes "buf_ok h m {#}"
  shows "srv_ok 1 (refs m) (demo_log_server h) 7" "out_bytes (demo_log_server h) 7 = []"
proof -
  let ?pw = "demo_poll0\<lparr>pobjs := [7 \<mapsto> \<lparr>p_fd = 5, p_mode = READ, p_ref = 2\<rparr>]\<rparr>"
  have "held (poll_threads ?pw ! tid_of ?pw 5) 7 = 0" by (simp add: demo_poll0_def tid_of_def PollThread_new_def held_def)
  moreover have "PollMgr_new 1 (pobjs ?pw) = Inr ?pw" by (simp add: PollMgr_new_def demo_poll0_def)
  then have "poll_ok ?pw" by (rule new_ok) simp_all
  ultimately show "srv_ok 1 (refs m) (demo_log_server h) 7"
    using assms by (simp add: srv_ok_def spare_def bufs_ok_def demo_log_server_def buf_ok_def)
  show "out_bytes (demo_log_server h) 7 = []" by (simp add: out_bytes_def demo_log_server_def)
qed

theorem logged_messages_all_printed_witness:
  "\<exists>n m h s'. Marshal_write \<lparr>cells = Map.empty, brk = 1, garbage = (\<lambda>_ _. 0)\<rparr> Marshal_new (log_body 3 [97] 0 [104, 105]) = Inr (n, m, h)
    \<and> run_log_jobs [(''t'', \<lparr>req_m = m, req_xid = 5\<rparr>)] 7 (demo_log_server h) = Inr s'
    \<and> lines_of [97] (sstate.more s') = [(3, [104, 105])] \<and> rl_buffer (sstate.more s') [97] = []
    \<and> out_bytes s' 7 = packet (enc_v64 5 @ enc_v32 0)"
proof -
  let ?h = "\<lparr>cells = Map.empty, brk = 1, garbage = (\<lambda>_ _. 0)\<rparr> :: heap"
  let ?b = "log_body 3 [97] 0 [104, 105]"
  have "buf_ok ?h Marshal_new {#}" by (simp add: buf_ok_def heap_ok_def)
  then obtain n m h where w: "Marshal_write ?h Marshal_new ?b = Inr (n, m, h)" "buf_ok h m {#}" "bytes h m = ?b"
    using Marshal_write_ok [of ?h Marshal_new "{#}" ?b] by (auto simp: appends_def log_body_def to_le_def)
  let ?s = "demo_log_server h" and ?req = "\<lparr>req_m = m, req_xid = 5\<rparr>"
  let ?call = "\<lparr>lc_time = ''t'', lc_source = [97], lc_piece = \<lparr>msg_id = 0, level = 3, message = [104, 105]\<rparr>\<rparr>"
  let ?jobs = "[(''t'', ?req)]" and ?calls = "[?call]"
  have "list_all2 (job_for (ss_heap ?s)) ?calls ?jobs"
    using w(2,3) by (simp add: job_for_def demo_log_server_def short_len_def buf_ok_def)
  moreover have "srv_ok (length ?jobs) (request_refs (map snd ?jobs) + {#}) ?s 7"
    using demo_log_server_ok [OF w(2)] by (simp add: request_refs_def)
  moreover have "sstate.more ?s = RLogServiceImpl_new" by (simp add: demo_log_server_def)
  moreover have "mset (map lc_piece ?calls) = mset (numbered [(3, [104, 105])])" by (simp add: numbered_def)
  ultimately show ?thesis
    using logged_messages_all_printed [of ?jobs "{#}" ?s 7 ?calls "[97]" "[(3, [104, 105])]"] w(1) demo_log_server_ok(2) [OF w(2)]
    by (auto simp: Cons_eq_append_conv)
qed

end
