(* ===== verification/Doubles.thy ===== *)
theory Doubles
  imports Complex_Main "HOL-Library.Log_Nat"
begin

text \<open>
  The finite \<open>double\<close> values as rational numbers: \<open>fl\<close> is the rounding to nearest, ties to even, with 53 bits that
  every operation of the processor ends with. The program computes with times in seconds and with
  counts, so that neither overflow nor subnormal numbers are modelled.
\<close>

section \<open>Definitions\<close>

type_synonym double = rat

text \<open>What \<open>gettimeofday\<close> gives: seconds and microseconds.\<close>

type_synonym timeval = "int \<times> int"

definition rne :: "rat \<Rightarrow> int" where
  "rne x = (let f = \<lfloor>x\<rfloor>; d = x - of_int f in
     if d < 1 / 2 then f else if 1 / 2 < d then f + 1 else if even f then f else f + 1)"

text \<open>The exponent of a number that is not zero: \<open>2 ^ e \<le> \<bar>x\<bar> < 2 ^ (e + 1)\<close>.\<close>

definition expo :: "rat \<Rightarrow> int" where
  "expo x = (let (p, q) = quotient_of x; e = bitlen \<bar>p\<bar> - bitlen q in if 2 powi e \<le> \<bar>x\<bar> then e else e - 1)"

definition ulp :: "rat \<Rightarrow> rat" where
  "ulp x = 2 powi (expo x - 52)"

definition fl :: "rat \<Rightarrow> double" where
  "fl x = (if x = 0 then 0 else of_int (rne (x / ulp x)) * ulp x)"

definition fl_add :: "double \<Rightarrow> double \<Rightarrow> double" where "fl_add a b = fl (a + b)"
definition fl_sub :: "double \<Rightarrow> double \<Rightarrow> double" where "fl_sub a b = fl (a - b)"
definition fl_div :: "double \<Rightarrow> double \<Rightarrow> double" where "fl_div a b = fl (a / b)"

text \<open>The conversion of an integer.\<close>

definition fl_int :: "int \<Rightarrow> double" where "fl_int k = fl (of_int k)"

section \<open>Rounding to an integer\<close>

lemma rne_cases: "rne x = \<lfloor>x\<rfloor> \<and> x - of_int \<lfloor>x\<rfloor> \<le> 1 / 2 \<or> rne x = \<lfloor>x\<rfloor> + 1 \<and> 1 / 2 \<le> x - of_int \<lfloor>x\<rfloor>"
  by (auto simp: rne_def Let_def)

lemma rne_error: "\<bar>of_int (rne x) - x\<bar> \<le> 1 / 2"
  using rne_cases [of x] floor_correct [of x] by (auto simp: abs_if) linarith+

lemma rne_of_int [simp]: "rne (of_int k) = k"
  by (simp add: rne_def)

lemma rne_mono: "x \<le> y \<Longrightarrow> rne x \<le> rne y"
proof -
  assume le: "x \<le> y"
  show ?thesis
  proof (cases "\<lfloor>x\<rfloor> = \<lfloor>y\<rfloor>")
    case True
    then show ?thesis using le by (auto simp: rne_def Let_def)
  next
    case False
    then have "\<lfloor>x\<rfloor> + 1 \<le> \<lfloor>y\<rfloor>" using floor_mono [OF le] by simp
    then show ?thesis using rne_cases [of x] rne_cases [of y] by auto
  qed
qed

section \<open>Rounding to a double\<close>

lemma powi_le: "2 ^ nat e \<le> k \<Longrightarrow> 0 \<le> e \<Longrightarrow> (2 :: rat) powi e \<le> of_int k"
proof -
  assume "2 ^ nat e \<le> k" "0 \<le> e"
  then have "(of_int (2 ^ nat e) :: rat) \<le> of_int k" by (simp only: of_int_le_iff)
  then show ?thesis using \<open>0 \<le> e\<close> by (simp add: power_int_def)
qed

lemma powi_less: "k < 2 ^ nat e \<Longrightarrow> 0 \<le> e \<Longrightarrow> of_int k < (2 :: rat) powi e"
proof -
  assume "k < 2 ^ nat e" "0 \<le> e"
  then have "(of_int k :: rat) < of_int (2 ^ nat e)" by (simp only: of_int_less_iff)
  then show ?thesis using \<open>0 \<le> e\<close> by (simp add: power_int_def)
qed

lemma expo_bounds:
  assumes "x \<noteq> 0"
  shows "2 powi expo x \<le> \<bar>x\<bar> \<and> \<bar>x\<bar> < 2 powi (expo x + 1)"
proof -
  obtain p q where pq: "quotient_of x = (p, q)" by fastforce
  have x: "x = of_int p / of_int q" and q: "0 < q" using pq by (auto simp: quotient_of_div quotient_of_denom_pos)
  have p: "0 < \<bar>p\<bar>" using assms x by auto
  let ?b = "bitlen \<bar>p\<bar>" and ?c = "bitlen q"
  have bp: "2 ^ nat (?b - 1) \<le> \<bar>p\<bar>" "\<bar>p\<bar> < 2 ^ nat ?b" and bq: "2 ^ nat (?c - 1) \<le> q" "q < 2 ^ nat ?c"
    using bitlen_bounds [OF p] bitlen_bounds [OF q] by auto
  have pos: "0 < ?b" "0 < ?c" using bitlen_nonneg [of "\<bar>p\<bar>"] bitlen_nonneg [of q] bitlen_eq_zero_iff [of "\<bar>p\<bar>"] bitlen_eq_zero_iff [of q] p q
    by linarith+
  have pw: "2 powi (?b - 1) \<le> (of_int \<bar>p\<bar> :: rat)" "of_int \<bar>p\<bar> < (2 powi ?b :: rat)"
    "2 powi (?c - 1) \<le> (of_int q :: rat)" "of_int q < (2 powi ?c :: rat)"
    using powi_le [OF bp(1)] powi_less [OF bp(2)] powi_le [OF bq(1)] powi_less [OF bq(2)] pos by simp_all
  have ax: "\<bar>x\<bar> = of_int \<bar>p\<bar> / of_int q" using q by (simp add: x)
  have q0: "(0 :: rat) < of_int q" using q by simp
  have up: "\<bar>x\<bar> < 2 powi (?b - ?c + 1)"
  proof -
    have "2 powi (?b - ?c + 1) * 2 powi (?c - 1) \<le> 2 powi (?b - ?c + 1) * (of_int q :: rat)"
      using pw(3) by (intro mult_left_mono) simp_all
    moreover have "2 powi (?b - ?c + 1) * 2 powi (?c - 1) = (2 powi ?b :: rat)" by (simp flip: power_int_add)
    ultimately have "(of_int \<bar>p\<bar> :: rat) < 2 powi (?b - ?c + 1) * of_int q" using pw(2) by linarith
    then show ?thesis using q0 by (simp add: ax divide_less_eq)
  qed
  have lo: "2 powi (?b - ?c - 1) \<le> \<bar>x\<bar>"
  proof -
    have "2 powi (?b - ?c - 1) * (of_int q :: rat) \<le> 2 powi (?b - ?c - 1) * 2 powi ?c"
      using pw(4) by (intro mult_left_mono) simp_all
    moreover have "2 powi (?b - ?c - 1) * 2 powi ?c = (2 powi (?b - 1) :: rat)" by (simp flip: power_int_add)
    ultimately have "2 powi (?b - ?c - 1) * of_int q \<le> (of_int \<bar>p\<bar> :: rat)" using pw(1) by linarith
    then show ?thesis using q0 by (simp add: ax le_divide_eq)
  qed
  show ?thesis using up lo by (auto simp: expo_def pq Let_def not_le)
qed

lemma powi_less_iff: "(2 :: rat) powi a < 2 powi b \<longleftrightarrow> a < b"
  by (metis not_less power_int_increasing power_int_strict_increasing one_less_numeral_iff semiring_norm(76) less_imp_le)

lemma expo_mono: "0 < x \<Longrightarrow> x \<le> y \<Longrightarrow> expo x \<le> expo y"
proof -
  assume "0 < x" "x \<le> y"
  then have "(2 :: rat) powi expo x < 2 powi (expo y + 1)" using expo_bounds [of x] expo_bounds [of y] by auto
  then show ?thesis by (simp add: powi_less_iff)
qed

lemma ulp_pos [simp]: "0 < ulp x"
  by (simp add: ulp_def)

lemma ulp_ge_0 [simp]: "0 \<le> ulp x" "ulp x \<noteq> 0"
  by (simp_all add: ulp_def)

lemma fl_0 [simp]: "fl 0 = 0"
  by (simp add: fl_def)

text \<open>The relative error of a rounding.\<close>

lemma fl_error: "\<bar>fl x - x\<bar> \<le> \<bar>x\<bar> / 2 ^ 53"
proof (cases "x = 0")
  case False
  have "fl x - x = (of_int (rne (x / ulp x)) - x / ulp x) * ulp x"
    using False by (simp add: fl_def algebra_simps)
  then have "\<bar>fl x - x\<bar> = \<bar>of_int (rne (x / ulp x)) - x / ulp x\<bar> * ulp x"
    using ulp_pos [of x] by (simp add: abs_mult)
  also have "\<dots> \<le> 1 / 2 * ulp x" using rne_error ulp_pos [of x] by (intro mult_right_mono) simp_all
  also have "\<dots> = 2 powi expo x / 2 ^ 53" by (simp add: ulp_def power_int_diff)
  also have "\<dots> \<le> \<bar>x\<bar> / 2 ^ 53" using expo_bounds [OF False] by (simp add: divide_right_mono)
  finally show ?thesis .
qed simp

text \<open>A rounded number stays within the powers of two around it.\<close>

lemma scaled:
  assumes "0 < x"
  shows "2 ^ 52 \<le> x / ulp x" "x / ulp x < 2 ^ 53"
proof -
  have "2 ^ 52 * ulp x = 2 powi expo x" "2 ^ 53 * ulp x = 2 powi (expo x + 1)"
    by (simp_all add: ulp_def power_int_diff power_int_add)
  then show "2 ^ 52 \<le> x / ulp x" "x / ulp x < 2 ^ 53"
    using expo_bounds [of x] assms ulp_pos [of x] by (simp_all add: le_divide_eq divide_less_eq)
qed

lemma fl_binade:
  assumes "0 < x"
  shows "2 powi expo x \<le> fl x" "fl x \<le> 2 powi (expo x + 1)"
proof -
  have "rne (of_int (2 ^ 52)) \<le> rne (x / ulp x)" "rne (x / ulp x) \<le> rne (of_int (2 ^ 53))"
    using scaled [OF assms] by (auto intro!: rne_mono)
  then have r: "2 ^ 52 \<le> rne (x / ulp x)" "rne (x / ulp x) \<le> 2 ^ 53" by (simp_all only: rne_of_int)
  have "of_int (2 ^ 52) \<le> (of_int (rne (x / ulp x)) :: rat)" "of_int (rne (x / ulp x)) \<le> (of_int (2 ^ 53) :: rat)"
    using r by (simp_all only: of_int_le_iff)
  then have "2 ^ 52 * ulp x \<le> fl x" "fl x \<le> 2 ^ 53 * ulp x"
    using assms by (auto simp: fl_def intro!: mult_right_mono)
  moreover have "2 ^ 52 * ulp x = 2 powi expo x" "2 ^ 53 * ulp x = 2 powi (expo x + 1)"
    by (simp_all add: ulp_def power_int_diff power_int_add)
  ultimately show "2 powi expo x \<le> fl x" "fl x \<le> 2 powi (expo x + 1)" by simp_all
qed

lemma fl_pos: "0 < x \<Longrightarrow> 0 < fl x"
  using fl_binade(1) [of x] by (meson less_le_trans zero_less_numeral zero_less_power_int)

lemma fl_mono:
  assumes "0 \<le> x" "x \<le> y"
  shows "fl x \<le> fl y"
proof (cases "x = 0")
  case True
  then show ?thesis using assms fl_pos [of y] by (cases "y = 0") simp_all
next
  case False
  then have pos: "0 < x" "0 < y" using assms by simp_all
  show ?thesis
  proof (cases "expo x = expo y")
    case True
    then have u: "ulp x = ulp y" by (simp add: ulp_def)
    have "rne (x / ulp y) \<le> rne (y / ulp y)"
      using assms(2) ulp_pos [of y] by (intro rne_mono divide_right_mono) simp_all
    then show ?thesis using pos ulp_pos [of y] by (simp add: fl_def u mult_right_mono)
  next
    case False
    then have "expo x + 1 \<le> expo y" using expo_mono [OF pos(1) assms(2)] by simp
    then have "(2 :: rat) powi (expo x + 1) \<le> 2 powi expo y" by (simp add: power_int_increasing)
    then show ?thesis using fl_binade(2) [OF pos(1)] fl_binade(1) [OF pos(2)] by linarith
  qed
qed

lemma fl_neg: "x < 0 \<Longrightarrow> fl x < 0"
proof -
  assume x: "x < 0"
  have "\<bar>fl x - x\<bar> \<le> - x / 2 ^ 53" using fl_error [of x] x by simp
  moreover have "- x / 2 ^ 53 < - x" using x by simp
  ultimately show "fl x < 0" by linarith
qed

lemma fl_pos_iff [simp]: "0 < fl x \<longleftrightarrow> 0 < x"
  using fl_pos [of x] fl_neg [of x] by (cases x "0 :: rat" rule: linorder_cases) auto

lemma fl_int_pos_iff [simp]: "0 < fl_int k \<longleftrightarrow> 0 < k"
  by (simp add: fl_int_def)

text \<open>Integers below \<open>2 ^ 53\<close> are exact.\<close>

lemma fl_int_exact:
  assumes "0 < k" "k < 2 ^ 53"
  shows "fl_int k = of_int k"
proof -
  let ?x = "of_int k :: rat"
  have e: "2 powi expo ?x \<le> ?x" using expo_bounds [of ?x] assms by simp
  have "?x < of_int (2 ^ 53)" using assms(2) by (simp only: of_int_less_iff)
  then have "?x < 2 powi (53 :: int)" by simp
  then have "expo ?x < 53" using e powi_less_iff [of "expo ?x" 53] by linarith
  then have "(1 :: rat) / ulp ?x = of_int (2 ^ nat (52 - expo ?x))"
    by (simp add: ulp_def power_int_diff field_simps power_int_def nat_diff_distrib split: if_splits)
  then have "?x / ulp ?x = of_int (k * 2 ^ nat (52 - expo ?x))" by (metis mult.right_neutral of_int_mult times_divide_eq_right)
  then have "of_int (rne (?x / ulp ?x)) = ?x / ulp ?x" by (metis rne_of_int)
  then show ?thesis using assms(1) ulp_pos [of ?x] by (simp add: fl_int_def fl_def)
qed

end
