(* ===== verification/Rlog_Qps.thy ===== *)
theory Rlog_Qps
  imports Rlog_Service Doubles
begin

text \<open>
  The counting of calls per second in \<open>rlog/log_service_impl.cc\<close>. For every metric the log server
  keeps the times of the calls of the last five minutes with running sums of their increments; from
  time to time it prints how much the sum grew over the last seconds. \<open>getenv\<close>, \<open>strtod\<close> and
  \<open>gettimeofday\<close> are arguments. The overflow of a running sum is undefined in C++.
\<close>

section \<open>Definitions\<close>

record agg_qps_record =
  agg_count :: i64
  tm :: double

text \<open>A line of output: the metric, and the rates by the length of the interval.\<close>

record qps_line =
  ql_metric :: "byte list"
  ql_rates :: "(int \<times> double) list"

record agg_state =
  agg_qps :: "byte list \<Rightarrow> agg_qps_record list"
  last_qps_tm :: "byte list \<Rightarrow> double"
  qps_interval :: double
  qps_printed :: "qps_line list"

definition agg_new :: "double option \<Rightarrow> agg_state" where
  "agg_new env = \<lparr>agg_qps = (\<lambda>_. []), last_qps_tm = (\<lambda>_. 0),
     qps_interval = (case env of None \<Rightarrow> 1 | Some s \<Rightarrow> s), qps_printed = []\<rparr>"

definition report_intervals :: "int list" where
  "report_intervals = [1, 5, 15, 30, 60]"

definition seconds :: "timeval \<Rightarrow> double" where
  "seconds tv = fl_add (fl_int (fst tv)) (fl_div (fl_div (fl_int (snd tv)) 1000) 1000)"

definition as_i64 :: "int \<Rightarrow> i64 res" where
  "as_i64 k = (if - (2 ^ 63) \<le> k \<and> k < 2 ^ 63 then Inr (word_of_int k) else Inl IntOverflow)"

text \<open>Records of more than five minutes ago are erased; there is no first record in an empty list.\<close>

fun trim_records :: "double \<Rightarrow> agg_qps_record list \<Rightarrow> agg_qps_record list res" where
  "trim_records now [] = Inl OutOfBounds"
| "trim_records now (r # rs) = (if 5 * 60 < fl_sub now (tm r) then trim_records now rs else Inr (r # rs))"

text \<open>The walk from the newest record back to the first one that is too old.\<close>

fun increment_loop :: "double \<Rightarrow> int \<Rightarrow> i64 \<Rightarrow> agg_qps_record list \<Rightarrow> double \<Rightarrow> double res" where
  "increment_loop now report_interval newest [] increment = Inr increment"
| "increment_loop now report_interval newest (it # its) increment =
     (if fl_sub now (tm it) < of_int report_interval then
        rbind (as_i64 (sint newest - sint (agg_count it))) (\<lambda>d.
          increment_loop now report_interval newest its (fl_int (sint d)))
      else Inr increment)"

fun rates_loop :: "double \<Rightarrow> agg_qps_record list \<Rightarrow> int list \<Rightarrow> (int \<times> double) list res" where
  "rates_loop now records [] = Inr []"
| "rates_loop now records (k # ks) =
     rbind (increment_loop now k (agg_count (last records)) (rev records) (- 1)) (\<lambda>increment.
     rbind (rates_loop now records ks) (\<lambda>rates.
       Inr (if 0 < increment then (k, fl_div increment (of_int k)) # rates else rates)))"

definition RLogServiceImpl_aggregate_qps :: "timeval \<Rightarrow> byte list \<Rightarrow> i32 \<Rightarrow> agg_state \<Rightarrow> agg_state res" where
  "RLogServiceImpl_aggregate_qps tv metric incr s =
     (let records = agg_qps s metric; now = seconds tv in
      rbind (if records = [] then Inr (scast incr) else as_i64 (sint (agg_count (last records)) + sint incr)) (\<lambda>count.
      rbind (trim_records now (records @ [\<lparr>agg_count = count, tm = now\<rparr>])) (\<lambda>records.
        let s1 = s\<lparr>agg_qps := (agg_qps s)(metric := records)\<rparr> in
        if qps_interval s \<le> fl_sub now (last_qps_tm s metric) then
          rbind (rates_loop now records report_intervals) (\<lambda>rates.
            Inr (s1\<lparr>last_qps_tm := (last_qps_tm s)(metric := now),
                    qps_printed := qps_printed s @ (if rates = [] then [] else [\<lparr>ql_metric = metric, ql_rates = rates\<rparr>])\<rparr>))
        else Inr s1)))"

fun agg_calls :: "(timeval \<times> byte list \<times> i32) list \<Rightarrow> agg_state \<Rightarrow> agg_state res" where
  "agg_calls [] s = Inr s"
| "agg_calls ((tv, metric, incr) # cs) s = rbind (RLogServiceImpl_aggregate_qps tv metric incr s) (agg_calls cs)"

subsection \<open>What is to be reported\<close>

text \<open>The calls of a metric with their times; what the report counts of those in an interval.\<close>

definition history :: "byte list \<Rightarrow> (timeval \<times> byte list \<times> i32) list \<Rightarrow> (double \<times> int) list" where
  "history m cs = map (\<lambda>(tv, _, i). (seconds tv, sint i)) (filter (\<lambda>(_, m', _). m' = m) cs)"

definition recent :: "double \<Rightarrow> int \<Rightarrow> (double \<times> int) list \<Rightarrow> (double \<times> int) list" where
  "recent now k H = filter (\<lambda>(t, _). fl_sub now t < of_int k) H"

definition counted :: "double \<Rightarrow> int \<Rightarrow> (double \<times> int) list \<Rightarrow> int" where
  "counted now k H = sum_list (map snd (tl (recent now k H)))"

definition rates_of :: "double \<Rightarrow> (double \<times> int) list \<Rightarrow> (int \<times> double) list" where
  "rates_of now H = map (\<lambda>k. (k, fl_div (fl_int (counted now k H)) (of_int k))) (filter (\<lambda>k. 0 < counted now k H) report_intervals)"

text \<open>The records of a history, and what the server has kept of them.\<close>

fun records_of :: "int \<Rightarrow> (double \<times> int) list \<Rightarrow> agg_qps_record list" where
  "records_of a [] = []"
| "records_of a ((t, i) # H) = \<lparr>agg_count = word_of_int (a + i), tm = t\<rparr> # records_of (a + i) H"

definition kept :: "agg_qps_record list \<Rightarrow> (double \<times> int) list \<Rightarrow> bool" where
  "kept rs H \<longleftrightarrow> (\<exists>n. rs = drop n (records_of 0 H) \<and> n \<le> length H \<and> (H \<noteq> [] \<longrightarrow> n < length H)
     \<and> (\<forall>x \<in> set (take n H). \<exists>y \<in> set H. 300 < fl_sub (fst y) (fst x)))"

section \<open>Running sums\<close>

lemma length_records_of [simp]: "length (records_of a H) = length H"
  by (induction a H rule: records_of.induct) simp_all

lemma records_of_eq_Nil [simp]: "records_of a H = [] \<longleftrightarrow> H = []"
  using length_records_of [of a H] by (metis length_0_conv)

lemma records_of_append: "records_of a (H @ G) = records_of a H @ records_of (a + sum_list (map snd H)) G"
  by (induction a H rule: records_of.induct) (simp_all add: add.assoc)

lemma nth_records_of:
  "j < length H \<Longrightarrow> records_of a H ! j = \<lparr>agg_count = word_of_int (a + sum_list (map snd (take (Suc j) H))), tm = fst (H ! j)\<rparr>"
proof (induction a H arbitrary: j rule: records_of.induct)
  case (2 a t i H)
  then show ?case by (cases j) (simp_all add: add.assoc)
qed simp

lemma map_tm_records_of: "map tm (records_of a H) = map fst H"
  by (induction a H rule: records_of.induct) simp_all

lemma tm_slice: "tm ` set (take d (drop n (records_of a H))) = fst ` set (take d (drop n H))"
  using arg_cong [OF map_tm_records_of [of a H], of "\<lambda>xs. set (take d (drop n xs))"] by (simp add: take_map drop_map)

definition mass :: "(double \<times> int) list \<Rightarrow> int" where
  "mass H = sum_list (map (\<lambda>x. \<bar>snd x\<bar>) H)"

lemma mass_simps [simp]: "mass [] = 0" "mass (x # H) = \<bar>snd x\<bar> + mass H" "mass (H @ G) = mass H + mass G"
  by (simp_all add: mass_def)

lemma mass_nonneg: "0 \<le> mass H"
  by (induction H) simp_all

lemma sum_le_mass: "\<bar>sum_list (map snd H)\<bar> \<le> mass H"
  by (induction H) auto

lemma mass_take: "mass (take n H) \<le> mass H" and mass_drop: "mass (drop n H) \<le> mass H"
  using mass_simps(3) [of "take n H" "drop n H"] mass_nonneg [of "take n H"] mass_nonneg [of "drop n H"] by simp_all

lemma sint_of_int_eq: "- (2 ^ 63) \<le> k \<Longrightarrow> k < 2 ^ 63 \<Longrightarrow> sint (word_of_int k :: i64) = k"
  by (simp add: signed_of_int signed_take_bit_int_eq_self)

lemma sint_sum: "mass H < 2 ^ 63 \<Longrightarrow> sint (word_of_int (sum_list (map snd (take n H))) :: i64) = sum_list (map snd (take n H))"
  using sum_le_mass [of "take n H"] mass_take [of n H] by (intro sint_of_int_eq) simp_all

lemma as_i64_eq: "- (2 ^ 63) \<le> k \<Longrightarrow> k < 2 ^ 63 \<Longrightarrow> as_i64 k = Inr (word_of_int k)"
  by (simp add: as_i64_def)

section \<open>The loops\<close>

lemma trim_records_eq:
  "\<not> 300 < fl_sub now (tm (last rs)) \<Longrightarrow> rs \<noteq> [] \<Longrightarrow>
     trim_records now rs = Inr (dropWhile (\<lambda>r. 300 < fl_sub now (tm r)) rs)"
  by (induction rs) (auto split: if_splits)

lemma takeWhile_append_stop: "takeWhile P ys = [] \<Longrightarrow> takeWhile P (xs @ ys) = takeWhile P xs"
  by (induction xs) simp_all

lemma filter_rev_takeWhile:
  assumes "\<And>i j. i \<le> j \<Longrightarrow> j < length xs \<Longrightarrow> P (xs ! i) \<Longrightarrow> P (xs ! j)"
  shows "filter P xs = rev (takeWhile P (rev xs))"
  using assms
proof (induction xs rule: rev_induct)
  case (snoc x xs)
  have IH: "filter P xs = rev (takeWhile P (rev xs))"
    by (rule snoc.IH) (metis snoc.prems le_less_trans length_append_singleton less_SucI nth_append)
  show ?case
  proof (cases "P x")
    case False
    have "\<not> P y" if "y \<in> set xs" for y
      using that snoc.prems [of _ "length xs"] False by (auto simp: in_set_conv_nth) (metis nth_append less_imp_le)
    then show ?thesis using False by (auto simp: filter_empty_conv)
  qed (simp add: IH)
qed simp

text \<open>The result of the walk: the difference to the oldest record that is recent enough.\<close>

lemma increment_loop_eq:
  assumes "\<And>r. r \<in> set rs \<Longrightarrow> - (2 ^ 63) \<le> sint newest - sint (agg_count r) \<and> sint newest - sint (agg_count r) < 2 ^ 63"
  shows "increment_loop now k newest rs x = Inr (case takeWhile (\<lambda>r. fl_sub now (tm r) < of_int k) rs of
      [] \<Rightarrow> x | ws \<Rightarrow> fl_int (sint newest - sint (agg_count (last ws))))"
  using assms
proof (induction rs arbitrary: x)
  case (Cons r rs)
  let ?d = "sint newest - sint (agg_count r)"
  have d: "as_i64 ?d = Inr (word_of_int ?d)" "sint (word_of_int ?d :: i64) = ?d"
    using Cons.prems [of r] as_i64_eq [of ?d] sint_of_int_eq [of ?d] by (simp_all only: list.set_intros conjI)
  show ?case using Cons.IH [of "fl_int ?d"] Cons.prems d
    by (cases "takeWhile (\<lambda>r. fl_sub now (tm r) < of_int k) rs") (auto split: list.splits)
qed simp

text \<open>Reading the running sums of a history instead of the records the server kept of it.\<close>

lemma fl_sub_mono: "t \<le> t' \<Longrightarrow> t' \<le> now \<Longrightarrow> now \<le> now' \<Longrightarrow> fl_sub now t' \<le> fl_sub now' t"
  by (simp add: fl_sub_def fl_mono)

lemma sorted_fst_nth: "sorted (map fst H) \<Longrightarrow> i \<le> j \<Longrightarrow> j < length H \<Longrightarrow> fst (H ! i) \<le> fst (H ! j)"
  using sorted_nth_mono [of "map fst H" i j] by simp

lemma kept_window:
  assumes rs: "kept rs H" and H: "sorted (map fst H)" "\<forall>x \<in> set H. fst x \<le> now" and k: "k \<le> 300"
  shows "takeWhile (\<lambda>r. fl_sub now (tm r) < of_int k) (rev rs) = takeWhile (\<lambda>r. fl_sub now (tm r) < of_int k) (rev (records_of 0 H))"
proof -
  let ?P = "\<lambda>r. fl_sub now (tm r) < of_int k"
  obtain n where n: "rs = drop n (records_of 0 H)" "\<forall>x \<in> set (take n H). \<exists>y \<in> set H. 300 < fl_sub (fst y) (fst x)"
    using rs by (auto simp: kept_def)
  have "\<not> ?P r" if r: "r \<in> set (take n (records_of 0 H))" for r
  proof -
    have "tm r \<in> fst ` set (take n H)" using r tm_slice [of n 0 0 H] by auto
    then obtain x y where x: "x \<in> set (take n H)" "tm r = fst x" "y \<in> set H" "300 < fl_sub (fst y) (fst x)" using n(2) by auto
    have "fst x \<le> fst y"
    proof (rule ccontr)
      assume "\<not> fst x \<le> fst y"
      then have "fl_sub (fst y) (fst x) < 0" by (simp add: fl_sub_def fl_neg)
      with x(4) show False by simp
    qed
    then have "fl_sub (fst y) (fst x) \<le> fl_sub now (fst x)" using H(2) x(3) by (simp add: fl_sub_def fl_mono)
    moreover have "(of_int k :: rat) \<le> 300" using k by simp
    ultimately show ?thesis using x(2,4) by simp
  qed
  then have "\<forall>r \<in> set (rev (take n (records_of 0 H))). \<not> ?P r" by simp
  then have "takeWhile ?P (rev (take n (records_of 0 H))) = []" unfolding takeWhile_eq_Nil_iff using hd_in_set by blast
  then have "takeWhile ?P (rev rs @ rev (take n (records_of 0 H))) = takeWhile ?P (rev rs)" by (rule takeWhile_append_stop)
  moreover have "rev (records_of 0 H) = rev rs @ rev (take n (records_of 0 H))" by (metis append_take_drop_id n(1) rev_append)
  ultimately show ?thesis by simp
qed

lemma window_recent:
  assumes H: "sorted (map fst H)" "\<forall>x \<in> set H. fst x \<le> now"
  shows "length (takeWhile (\<lambda>r. fl_sub now (tm r) < of_int k) (rev (records_of 0 H))) = length (recent now k H)"
    "recent now k H = drop (length H - length (recent now k H)) H"
proof -
  let ?P = "\<lambda>t. fl_sub now t < of_int k"
  have f: "recent now k H = rev (takeWhile (?P \<circ> fst) (rev H))"
    unfolding recent_def case_prod_unfold comp_def
  proof (rule filter_rev_takeWhile)
    fix i j assume ij: "i \<le> j" "j < length H" "fl_sub now (fst (H ! i)) < of_int k"
    have "fl_sub now (fst (H ! j)) \<le> fl_sub now (fst (H ! i))"
      using sorted_fst_nth [OF H(1) ij(1,2)] H(2) ij(2) by (intro fl_sub_mono) simp_all
    with ij(3) show "fl_sub now (fst (H ! j)) < of_int k" by simp
  qed
  have "length (takeWhile (?P \<circ> tm) (rev (records_of 0 H))) = length (takeWhile ?P (map tm (rev (records_of 0 H))))"
    by (simp add: takeWhile_map)
  also have "\<dots> = length (takeWhile (?P \<circ> fst) (rev H))"
    by (metis length_map map_tm_records_of rev_map takeWhile_map)
  finally show "length (takeWhile (\<lambda>r. ?P (tm r)) (rev (records_of 0 H))) = length (recent now k H)" by (simp add: f comp_def)
  have "takeWhile (?P \<circ> fst) (rev H) = take (length (recent now k H)) (rev H)"
    unfolding f length_rev by (metis takeWhile_eq_take)
  then have "rev (takeWhile (?P \<circ> fst) (rev H)) = rev (take (length (recent now k H)) (rev H))" by (rule arg_cong)
  then show "recent now k H = drop (length H - length (recent now k H)) H" unfolding f [symmetric] rev_take by simp
qed

lemma window_sum:
  assumes H: "mass H < 2 ^ 63" and w: "recent now k H = drop j H" "j < length H"
  shows "sint (agg_count (last (records_of 0 H))) - sint (agg_count (records_of 0 H ! j)) = counted now k H"
proof -
  have ne: "H \<noteq> []" using w(2) by auto
  have "last (records_of 0 H) = records_of 0 H ! (length H - 1)" using ne by (simp add: last_conv_nth)
  then have "sint (agg_count (last (records_of 0 H))) = sum_list (map snd H)"
    using sint_sum [OF H, of "length H"] ne by (simp add: nth_records_of)
  moreover have "sint (agg_count (records_of 0 H ! j)) = sum_list (map snd (take (Suc j) H))"
    using sint_sum [OF H, of "Suc j"] w(2) by (simp add: nth_records_of)
  moreover have "sum_list (map snd H) = sum_list (map snd (take (Suc j) H)) + sum_list (map snd (drop (Suc j) H))"
    by (metis append_take_drop_id map_append sum_list_append)
  moreover have "tl (recent now k H) = drop (Suc j) H" by (simp add: w(1) drop_Suc tl_drop)
  ultimately show ?thesis by (simp add: counted_def)
qed

lemma sint_records_of:
  assumes "mass H < 2 ^ 62" "r \<in> set (records_of 0 H)"
  shows "\<bar>sint (agg_count r)\<bar> < 2 ^ 62"
proof -
  obtain j where j: "j < length H" "r = records_of 0 H ! j" using assms(2) by (auto simp: in_set_conv_nth)
  have "sint (agg_count r) = sum_list (map snd (take (Suc j) H))" using sint_sum [of H "Suc j"] assms(1) j by (simp add: nth_records_of)
  then show ?thesis using sum_le_mass [of "take (Suc j) H"] mass_take [of "Suc j" H] assms(1) by simp
qed

lemma increment_ok:
  assumes rs: "kept rs H" and H: "sorted (map fst H)" "\<forall>x \<in> set H. fst x \<le> now" "H \<noteq> []" "fst (last H) = now"
    and k: "0 < k" "k \<le> 300" and m: "mass H < 2 ^ 62"
  shows "increment_loop now k (agg_count (last rs)) (rev rs) x = Inr (fl_int (counted now k H))"
proof -
  let ?P = "\<lambda>r. fl_sub now (tm r) < of_int k" and ?R = "records_of 0 H" and ?w = "length (recent now k H)"
  obtain n where n: "rs = drop n ?R" "n < length H" using rs H(3) by (auto simp: kept_def)
  have lr: "last rs = last ?R" using n by simp
  have sub: "set rs \<subseteq> set ?R" by (simp add: n(1) set_drop_subset)
  have lim: "- (2 ^ 63) \<le> sint (agg_count (last rs)) - sint (agg_count r) \<and> sint (agg_count (last rs)) - sint (agg_count r) < 2 ^ 63"
    if "r \<in> set (rev rs)" for r
  proof -
    have "r \<in> set ?R" "last rs \<in> set ?R" using that sub lr last_in_set [of ?R] H(3) by auto
    from sint_records_of [OF m this(1)] sint_records_of [OF m this(2)] show ?thesis by auto
  qed
  have "last H \<in> set (recent now k H)" using H(3,4) k(1) by (auto simp: recent_def fl_sub_def split: prod.splits)
  then have w0: "0 < ?w" by (cases "recent now k H") auto
  have wl: "?w \<le> length H" by (simp add: recent_def)
  have tw: "takeWhile ?P (rev rs) = take ?w (rev ?R)"
    using kept_window [OF rs H(1,2) k(2)] window_recent(1) [OF H(1,2), of k] takeWhile_eq_take by metis
  then have ne: "takeWhile ?P (rev rs) \<noteq> []" using w0 H(3) by simp
  have "take ?w (rev ?R) \<noteq> []" "length (take ?w (rev ?R)) = ?w" using w0 wl H(3) by simp_all
  then have "last (takeWhile ?P (rev rs)) = rev ?R ! (?w - 1)"
    unfolding tw using w0 last_conv_nth [of "take ?w (rev ?R)"] nth_take [of "?w - 1" ?w "rev ?R"] by simp
  also have "\<dots> = ?R ! (length H - ?w)" using w0 wl rev_nth [of "?w - 1" ?R] by (cases ?w) simp_all
  finally have "last (takeWhile ?P (rev rs)) = ?R ! (length H - ?w)" .
  then have "sint (agg_count (last rs)) - sint (agg_count (last (takeWhile ?P (rev rs)))) = counted now k H"
    using window_sum [of H now k "length H - ?w"] window_recent(2) [OF H(1,2), of k] w0 wl H(3) m lr by simp
  moreover have "increment_loop now k (agg_count (last rs)) (rev rs) x = Inr (case takeWhile ?P (rev rs) of
      [] \<Rightarrow> x | ws \<Rightarrow> fl_int (sint (agg_count (last rs)) - sint (agg_count (last ws))))"
    by (rule increment_loop_eq) (rule lim)
  ultimately show ?thesis using ne by (auto split: list.splits)
qed

lemma rates_loop_ok:
  assumes rs: "kept rs H" and H: "sorted (map fst H)" "\<forall>x \<in> set H. fst x \<le> now" "H \<noteq> []" "fst (last H) = now" and m: "mass H < 2 ^ 62"
  shows "\<forall>k \<in> set ks. 0 < k \<and> k \<le> 300 \<Longrightarrow>
    rates_loop now rs ks = Inr (map (\<lambda>k. (k, fl_div (fl_int (counted now k H)) (of_int k))) (filter (\<lambda>k. 0 < counted now k H) ks))"
  by (induction ks) (simp_all add: increment_ok [OF rs H _ _ m])

section \<open>Calls\<close>

lemma kept_call:
  assumes rs: "kept rs H" and now: "\<And>x. x \<in> set H \<Longrightarrow> fst x \<le> now" and m: "mass (H @ [(now, i)]) < 2 ^ 62"
  shows "\<exists>rs'. rbind (if rs = [] then Inr (word_of_int i) else as_i64 (sint (agg_count (last rs)) + i))
      (\<lambda>count. trim_records now (rs @ [\<lparr>agg_count = count, tm = now\<rparr>])) = Inr rs' \<and> kept rs' (H @ [(now, i)])"
proof -
  obtain n where n: "rs = drop n (records_of 0 H)" "H \<noteq> [] \<longrightarrow> n < length H" "n \<le> length H"
    "\<forall>x \<in> set (take n H). \<exists>y \<in> set H. 300 < fl_sub (fst y) (fst x)" using rs by (auto simp: kept_def)
  let ?c = "sum_list (map snd H) + i" and ?H = "H @ [(now, i)]"
  let ?r = "\<lparr>agg_count = word_of_int ?c :: i64, tm = now\<rparr>" and ?P = "\<lambda>r. 300 < fl_sub now (tm r)"
  have all: "rs @ [?r] = drop n (records_of 0 ?H)" using n(3) by (simp add: n(1) records_of_append)
  have "sint (agg_count (last rs)) = sum_list (map snd H)" if "rs \<noteq> []"
  proof -
    have "H \<noteq> []" using that n(1) by auto
    then have "last rs = records_of 0 H ! (length H - 1)" using n(1,2) by (simp add: last_conv_nth)
    then show ?thesis using sint_sum [of H "length H"] m \<open>H \<noteq> []\<close> by (simp add: nth_records_of)
  qed
  moreover have "- (2 ^ 63) \<le> ?c" "?c < 2 ^ 63" using sum_le_mass [of H] m by simp_all
  moreover have "rs = [] \<Longrightarrow> H = []" using n(1,2) by auto
  ultimately have count: "(if rs = [] then Inr (word_of_int i) else as_i64 (sint (agg_count (last rs)) + i)) = Inr (word_of_int ?c)"
    by (simp add: as_i64_eq)
  let ?d = "length (takeWhile ?P (rs @ [?r]))"
  have "trim_records now (rs @ [?r]) = Inr (dropWhile ?P (rs @ [?r]))" by (rule trim_records_eq) (simp_all add: fl_sub_def)
  moreover have dw: "dropWhile ?P (rs @ [?r]) = drop ?d (rs @ [?r])" by (rule dropWhile_eq_drop)
  moreover have "kept (drop ?d (rs @ [?r])) ?H"
    unfolding kept_def
  proof (intro exI [of _ "?d + n"] conjI impI ballI)
    show "drop ?d (rs @ [?r]) = drop (?d + n) (records_of 0 ?H)" by (simp only: all drop_drop)
    have "\<not> ?P ?r" by (simp add: fl_sub_def)
    then have "dropWhile ?P (rs @ [?r]) \<noteq> []" by simp
    then have "drop ?d (rs @ [?r]) \<noteq> []" using dw by metis
    then have "drop (?d + n) (records_of 0 ?H) \<noteq> []" by (metis all drop_drop)
    then show "?d + n < length ?H" "?d + n \<le> length ?H" by simp_all
  next
    fix x assume "x \<in> set (take (?d + n) ?H)"
    then have "x \<in> set (take n ?H) \<or> x \<in> set (take ?d (drop n ?H))"
      unfolding add.commute [of ?d n] take_add set_append by blast
    then show "\<exists>y \<in> set ?H. 300 < fl_sub (fst y) (fst x)"
    proof
      assume "x \<in> set (take n ?H)"
      then have "x \<in> set (take n H)" using n(3) by simp
      with n(4) show ?thesis by auto
    next
      assume "x \<in> set (take ?d (drop n ?H))"
      then have "fst x \<in> tm ` set (take ?d (rs @ [?r]))" unfolding all tm_slice by (rule imageI)
      then obtain r where "r \<in> set (takeWhile ?P (rs @ [?r]))" "fst x = tm r"
        unfolding takeWhile_eq_take [of ?P "rs @ [?r]", symmetric] by (rule imageE)
      then have "300 < fl_sub now (fst x)" using set_takeWhileD [of r ?P "rs @ [?r]"] by simp
      then show ?thesis by auto
    qed
  qed
  ultimately show ?thesis using count by simp
qed

lemma aggregate_qps_ok:
  assumes rs: "kept (agg_qps s m) H" and H: "sorted (map fst H)" "\<forall>x \<in> set H. fst x \<le> seconds tv"
    and ms: "mass (H @ [(seconds tv, sint i)]) < 2 ^ 62"
  shows "\<exists>s'. RLogServiceImpl_aggregate_qps tv m i s = Inr s' \<and> kept (agg_qps s' m) (H @ [(seconds tv, sint i)])
    \<and> (\<forall>m'. m' \<noteq> m \<longrightarrow> agg_qps s' m' = agg_qps s m') \<and> qps_interval s' = qps_interval s
    \<and> (if qps_interval s \<le> fl_sub (seconds tv) (last_qps_tm s m)
       then last_qps_tm s' = (last_qps_tm s)(m := seconds tv)
         \<and> qps_printed s' = qps_printed s @ (let rates = rates_of (seconds tv) (H @ [(seconds tv, sint i)]) in
              if rates = [] then [] else [\<lparr>ql_metric = m, ql_rates = rates\<rparr>])
       else last_qps_tm s' = last_qps_tm s \<and> qps_printed s' = qps_printed s)"
proof -
  let ?now = "seconds tv" and ?H = "H @ [(seconds tv, sint i)]" and ?rs = "agg_qps s m"
  let ?count = "if ?rs = [] then Inr (scast i) else as_i64 (sint (agg_count (last ?rs)) + sint i)"
  have sc: "word_of_int (sint i) = (scast i :: i64)" by (rule scast_eq [symmetric])
  obtain rs' where
    k: "rbind ?count (\<lambda>count. trim_records ?now (?rs @ [\<lparr>agg_count = count, tm = ?now\<rparr>])) = Inr rs'" "kept rs' ?H"
    using kept_call [OF rs _ ms, unfolded sc] H(2) by blast
  then obtain count where c: "?count = Inr count" "trim_records ?now (?rs @ [\<lparr>agg_count = count, tm = ?now\<rparr>]) = Inr rs'"
    by (auto simp: rbind_eq_Inr_iff)
  have s: "sorted (map fst ?H)" "\<forall>x \<in> set ?H. fst x \<le> ?now" "?H \<noteq> []" "fst (last ?H) = ?now"
    using H by (auto simp: sorted_append)
  have "\<forall>k \<in> set report_intervals. 0 < k \<and> k \<le> 300" by (simp add: report_intervals_def)
  from rates_loop_ok [OF k(2) s ms this] have r: "rates_loop ?now rs' report_intervals = Inr (rates_of ?now ?H)"
    by (simp add: rates_of_def)
  show ?thesis
    unfolding RLogServiceImpl_aggregate_qps_def Let_def c(1) rbind_Inr c(2) r using k(2)
    by (cases "qps_interval s \<le> fl_sub ?now (last_qps_tm s m)") simp_all
qed

lemma agg_calls_append: "agg_calls (cs @ ds) s = rbind (agg_calls cs s) (agg_calls ds)"
  by (induction cs arbitrary: s) (auto simp: rbind_assoc split: prod.splits intro!: rbind_cong)

lemma history_snoc: "history m (cs @ [(tv, m', i)]) = history m cs @ (if m' = m then [(seconds tv, sint i)] else [])"
  by (simp add: history_def)

definition call_times :: "(timeval \<times> byte list \<times> i32) list \<Rightarrow> double list" where
  "call_times cs = map (\<lambda>(tv, _, _). seconds tv) cs"

definition increments :: "(timeval \<times> byte list \<times> i32) list \<Rightarrow> int" where
  "increments cs = sum_list (map (\<lambda>(_, _, i). \<bar>sint i\<bar>) cs)"

lemma history_times: "x \<in> set (history m cs) \<Longrightarrow> fst x \<in> set (call_times cs)"
  by (force simp: history_def call_times_def)

lemma history_sorted: "sorted (call_times cs) \<Longrightarrow> sorted (map fst (history m cs))"
  by (induction cs) (auto simp: call_times_def history_def)

lemma history_mass: "mass (history m cs) \<le> increments cs"
  by (induction cs) (auto simp: history_def increments_def)

text \<open>A further call in a state whose records belong to the calls so far.\<close>

lemma call_after:
  assumes "\<forall>m. kept (agg_qps s m) (history m cs)" and c: "sorted (call_times (cs @ [(tv, m, i)]))" "increments (cs @ [(tv, m, i)]) < 2 ^ 62"
  shows "\<exists>s'. RLogServiceImpl_aggregate_qps tv m i s = Inr s' \<and> (\<forall>m'. kept (agg_qps s' m') (history m' (cs @ [(tv, m, i)])))
    \<and> qps_interval s' = qps_interval s
    \<and> qps_printed s' = qps_printed s @ (let rates = rates_of (seconds tv) (history m (cs @ [(tv, m, i)])) in
         if qps_interval s \<le> fl_sub (seconds tv) (last_qps_tm s m) \<and> rates \<noteq> [] then [\<lparr>ql_metric = m, ql_rates = rates\<rparr>] else [])"
proof -
  have "call_times (cs @ [(tv, m, i)]) = call_times cs @ [seconds tv]" by (simp add: call_times_def)
  then have "sorted (call_times cs) \<and> (\<forall>t \<in> set (call_times cs). t \<le> seconds tv)" using c(1) by (simp add: sorted_append)
  then have t: "sorted (call_times cs)" "\<forall>x \<in> set (history m cs). fst x \<le> seconds tv" using history_times by blast+
  have "mass (history m cs @ [(seconds tv, sint i)]) < 2 ^ 62"
    using history_mass [of m "cs @ [(tv, m, i)]"] c(2) by (simp add: history_snoc)
  from aggregate_qps_ok [OF spec [OF assms(1), of m] history_sorted [OF t(1)] t(2) this] obtain s' where
    s': "RLogServiceImpl_aggregate_qps tv m i s = Inr s'" "kept (agg_qps s' m) (history m cs @ [(seconds tv, sint i)])"
    "\<forall>m'. m' \<noteq> m \<longrightarrow> agg_qps s' m' = agg_qps s m'" "qps_interval s' = qps_interval s"
    "if qps_interval s \<le> fl_sub (seconds tv) (last_qps_tm s m)
     then last_qps_tm s' = (last_qps_tm s)(m := seconds tv)
       \<and> qps_printed s' = qps_printed s @ (let rates = rates_of (seconds tv) (history m cs @ [(seconds tv, sint i)]) in
            if rates = [] then [] else [\<lparr>ql_metric = m, ql_rates = rates\<rparr>])
     else last_qps_tm s' = last_qps_tm s \<and> qps_printed s' = qps_printed s" by (elim exE conjE) (rule that)
  then show ?thesis using assms(1) by (auto simp: history_snoc Let_def split: if_splits)
qed

lemma agg_calls_kept:
  assumes "sorted (call_times cs)" "increments cs < 2 ^ 62"
  shows "\<exists>s. agg_calls cs (agg_new env) = Inr s \<and> (\<forall>m. kept (agg_qps s m) (history m cs)) \<and> qps_interval s = qps_interval (agg_new env)"
  using assms
proof (induction cs rule: rev_induct)
  case Nil
  then show ?case by (simp add: agg_new_def history_def kept_def)
next
  case (snoc c cs)
  obtain tv m i where c: "c = (tv, m, i)" by (metis prod_cases3)
  have "sorted (call_times cs)" "increments cs < 2 ^ 62"
    using snoc.prems by (auto simp: call_times_def increments_def sorted_append c)
  from snoc.IH [OF this] obtain s where s: "agg_calls cs (agg_new env) = Inr s" "\<forall>m. kept (agg_qps s m) (history m cs)"
    "qps_interval s = qps_interval (agg_new env)" by blast
  obtain s' where "RLogServiceImpl_aggregate_qps tv m i s = Inr s'" "\<forall>m'. kept (agg_qps s' m') (history m' (cs @ [c]))"
    "qps_interval s' = qps_interval s" using call_after [OF s(2) snoc.prems [unfolded c]] c by blast
  with s show ?case by (simp add: agg_calls_append c del: agg_calls.simps) (simp add: rbind_Inr)
qed

section \<open>Properties\<close>

text \<open>
  C40. What the rates of a metric count. After any calls for any metrics, as long as the clock does not
  go back and the increments stay below \<open>2 ^ 62\<close> in total, no list of records is ever found empty and
  no sum overflows; a call that is due prints, for each of the intervals of 1, 5, 15, 30 and 60
  seconds, the increments of the calls for this metric within the interval, but without the oldest of
  these calls, divided by the length of the interval; intervals with nothing to count are left out.
\<close>

theorem qps_report_leaves_out_oldest:
  assumes "sorted (call_times (cs @ [(tv, m, i)]))" and "increments (cs @ [(tv, m, i)]) < 2 ^ 62"
  shows "\<exists>s s'. agg_calls cs (agg_new env) = Inr s \<and> RLogServiceImpl_aggregate_qps tv m i s = Inr s'
    \<and> qps_printed s' = qps_printed s @ (let rates = rates_of (seconds tv) (history m (cs @ [(tv, m, i)])) in
         if (case env of None \<Rightarrow> 1 | Some d \<Rightarrow> d) \<le> fl_sub (seconds tv) (last_qps_tm s m) \<and> rates \<noteq> []
         then [\<lparr>ql_metric = m, ql_rates = rates\<rparr>] else [])"
proof -
  have "sorted (call_times cs)" "increments cs < 2 ^ 62"
    using assms by (auto simp: call_times_def increments_def sorted_append)
  from agg_calls_kept [OF this, of env] obtain s where s: "agg_calls cs (agg_new env) = Inr s"
    "\<forall>m. kept (agg_qps s m) (history m cs)" "qps_interval s = qps_interval (agg_new env)" by blast
  have "qps_interval (agg_new env) = (case env of None \<Rightarrow> 1 | Some d \<Rightarrow> d)" by (simp add: agg_new_def)
  with call_after [OF s(2) assms] s(1,3) show ?thesis by auto
qed

lemma seconds_exact: "0 < k \<Longrightarrow> k < 2 ^ 53 \<Longrightarrow> seconds (k, 0) = of_int k"
  using fl_int_exact [of k] by (simp add: seconds_def fl_add_def fl_div_def fl_int_def)

text \<open>Two calls, of 5 and of 3, two seconds apart: the report counts 3.\<close>

theorem qps_report_leaves_out_oldest_witness:
  "\<exists>s s'. agg_calls [((1000, 0), [109], 5)] (agg_new None) = Inr s
    \<and> RLogServiceImpl_aggregate_qps (1002, 0) [109] 3 s = Inr s'
    \<and> qps_printed s' = [\<lparr>ql_metric = [109], ql_rates = map (\<lambda>k. (k, fl_div 3 (of_int k))) [5, 15, 30, 60]\<rparr>]"
proof -
  have t: "seconds (1000, 0) = 1000" "seconds (1002, 0) = 1002" using seconds_exact [of 1000] seconds_exact [of 1002] by simp_all
  have d: "fl_sub 1002 1000 = 2" "fl_sub 1002 1002 = 0" "fl_int 3 = 3" "fl_sub 1000 0 = 1000" "fl_sub 1000 1000 = 0" "fl_int 0 = 0"
    using fl_int_exact [of 2] fl_int_exact [of 3] fl_int_exact [of 1000] by (simp_all add: fl_sub_def fl_int_def)
  have "counted 1002 1 (history [109] [((1000, 0), [109], 5), ((1002, 0), [109], 3)]) = 0"
    "k \<in> {5, 15, 30, 60} \<Longrightarrow> counted 1002 k (history [109] [((1000, 0), [109], 5), ((1002, 0), [109], 3)]) = 3" for k
    by (auto simp: counted_def recent_def history_def t d)
  then have r: "rates_of 1002 (history [109] [((1000, 0), [109], 5), ((1002, 0), [109], 3)]) = map (\<lambda>k. (k, fl_div 3 (of_int k))) [5, 15, 30, 60]"
    by (simp add: rates_of_def report_intervals_def d(3))
  have "RLogServiceImpl_aggregate_qps (1000, 0) [109] 5 (agg_new None) = Inr ((agg_new None)
      \<lparr>agg_qps := (\<lambda>_. [])([109] := [\<lparr>agg_count = 5, tm = 1000\<rparr>]), last_qps_tm := (\<lambda>_. 0)([109] := 1000)\<rparr>)"
    by (simp add: RLogServiceImpl_aggregate_qps_def agg_new_def t d report_intervals_def as_i64_def)
  then have e: "agg_calls [((1000, 0), [109], 5)] (agg_new None) = Inr ((agg_new None)
      \<lparr>agg_qps := (\<lambda>_. [])([109] := [\<lparr>agg_count = 5, tm = 1000\<rparr>]), last_qps_tm := (\<lambda>_. 0)([109] := 1000)\<rparr>)"
    by (simp add: agg_calls.simps)
  have "sorted (call_times ([((1000, 0), [109], 5)] @ [((1002, 0), [109], 3)]))" "increments ([((1000, 0), [109], 5)] @ [((1002, 0), [109], 3)]) < 2 ^ 62"
    by (simp_all add: call_times_def increments_def t)
  from qps_report_leaves_out_oldest [OF this, of None] show ?thesis unfolding e by (auto simp: t r d agg_new_def)
qed

end
