(* ===== verification/Qps_Rpc.thy ===== *)
theory Qps_Rpc
  imports Rlog_Rpc Rlog_Qps
begin

text \<open>
  The other handler of the log service: the job that \<open>__aggregate_qps__wrapper__\<close> of \<open>rlog/log_service.h\<close>
  hands to the thread pool. It reads the metric and the increment, counts them, and sends an empty reply.
\<close>

definition qps_job :: "timeval \<Rightarrow> agg_state rpc_handler" where
  "qps_job tv req p s =
     rbind (get_string (ss_heap s) (req_m req)) (\<lambda>(in_0, m1, h1).
     rbind (get_i32 h1 m1) (\<lambda>(in_1, m2, h2).
     rbind (RLogServiceImpl_aggregate_qps tv in_0 in_1 (sstate.more s)) (\<lambda>st.
       let s1 = sstate.more_update (\<lambda>_. st) (s\<lparr>ss_heap := h2\<rparr>); req1 = req\<lparr>req_m := m2\<rparr> in
       rbind (begin_reply p (req_xid req1) 0 s1) (\<lambda>s2.
       rbind (end_reply p s2) (\<lambda>s3.
       rbind (delete_request req1 s3) (conn_release p))))))"

lemma qps_update_keeps:
  fixes s :: "agg_state sstate_scheme"
  shows "srv_ok k R (sstate.more_update f s) p = srv_ok k R s p" "ss_heap (sstate.more_update f s) = ss_heap s"
    "replies R s (sstate.more_update f s) p []" "sstate.more (sstate.more_update f s) = f (sstate.more s)"
  by (cases s; auto simp: srv_ok_def replies_def out_bytes_def same_server_def split: option.split)+

text \<open>
  A request with a metric and an increment, as the proxy writes them, is counted and answered by one
  empty packet; its buffer and one reference on the connection are given back.
\<close>

lemma qps_job_ok:
  fixes s :: "agg_state sstate_scheme"
  assumes ok: "srv_ok (Suc k) (refs (req_m req) + R) s p" and wf: "wf_marshal (ss_heap s) (req_m req)"
    and b: "bytes (ss_heap s) (req_m req) = enc_string metric @ to_le 4 incr" and short: "short_len (length metric)"
    and q: "RLogServiceImpl_aggregate_qps tv metric incr (sstate.more s) = Inr st"
  shows "\<exists>s'. qps_job tv req p s = Inr s' \<and> srv_ok k R s' p \<and> sstate.more s' = st
    \<and> replies R s s' p (packet (enc_v64 (req_xid req) @ enc_v32 0))"
proof -
  obtain m1 h1 where 1: "get_string (ss_heap s) (req_m req) = Inr (metric, m1, h1)" "srv_ok (Suc k) (refs m1 + R) (s\<lparr>ss_heap := h1\<rparr>) p"
    "replies R s (s\<lparr>ss_heap := h1\<rparr>) p []" "wf_marshal h1 m1" "bytes h1 m1 = to_le 4 incr @ []"
    using parse_arg_ok [OF str.get short ok wf b] by auto
  let ?s1 = "s\<lparr>ss_heap := h1\<rparr>"
  have w1: "wf_marshal (ss_heap ?s1) m1" "bytes (ss_heap ?s1) m1 = to_le 4 incr @ []" using 1(4,5) by simp_all
  obtain m2 h2 where 2: "get_i32 h1 m1 = Inr (incr, m2, h2)" "srv_ok (Suc k) (refs m2 + R) (s\<lparr>ss_heap := h2\<rparr>) p"
    "replies R ?s1 (s\<lparr>ss_heap := h2\<rparr>) p []" "wf_marshal h2 m2"
    using parse_arg_ok [OF i32.get _ 1(2) w1] by auto
  let ?req = "req\<lparr>req_m := m2\<rparr>" and ?s = "sstate.more_update (\<lambda>_. st) (s\<lparr>ss_heap := h2\<rparr>)"
  have pre: "srv_ok (Suc k) (refs (req_m ?req) + R) ?s p" "wf_marshal (ss_heap ?s) (req_m ?req)" using 2(2,4) by (simp_all add: qps_update_keeps)
  have "qps_job tv req p s = DeferredReply_reply ?req p Inr Inr ?s"
    using 1(1) 2(1) q by (simp add: qps_job_def DeferredReply_reply_def DeferredReply_delete_def Let_def cong: rbind_cong)
  moreover obtain s' where "DeferredReply_reply ?req p Inr Inr ?s = Inr s'" "srv_ok k R s' p"
    "replies R ?s s' p (packet (enc_v64 (req_xid req) @ enc_v32 0))" "sstate.more s' = st"
    using DeferredReply_reply_ok [OF pre writes_nothing] by (auto simp: qps_update_keeps)
  moreover have "replies R s ?s p []"
    using replies_trans [OF replies_trans [OF 1(3) 2(3)] qps_update_keeps(3)] by simp
  ultimately show ?thesis using replies_trans [of R s ?s p "[]" s'] by auto
qed

end
