(* ===== verification/Test_Mgr.thy ===== *)
theory Test_Mgr
  imports Base_Utils
begin

text \<open>
  The unit test driver of \<open>base/unittest.cc\<close>: which of the registered tests a command line selects, and what a run
  reports. A test is known by its place in the list of registered tests, as the code knows it by its address. What the
  body of a test does to its count of failures is user code and an argument.
\<close>

section \<open>Definitions\<close>

record test_case =
  tc_group :: string
  tc_name :: string
  tc_failures :: int

definition TestCase_new :: "string \<Rightarrow> string \<Rightarrow> test_case" where
  "TestCase_new grp name = \<lparr>tc_group = grp, tc_name = name, tc_failures = 0\<rparr>"

definition TestCase_fail :: "test_case \<Rightarrow> test_case" where
  "TestCase_fail t = t\<lparr>tc_failures := tc_failures t + 1\<rparr>"

definition TestCase_reset :: "test_case \<Rightarrow> test_case" where
  "TestCase_reset t = t\<lparr>tc_failures := 0\<rparr>"

definition TestMgr_reg :: "test_case \<Rightarrow> test_case list \<Rightarrow> test_case list" where
  "TestMgr_reg t tests = tests @ [t]"

text \<open>One test against one piece of the argument.\<close>

definition piece_names :: "string \<Rightarrow> test_case \<Rightarrow> bool" where
  "piece_names s t = (if CHR ''/'' \<in> set s then tc_group t @ ''/'' @ tc_name t = s else tc_group t = s)"

definition matched_tests :: "test_case list \<Rightarrow> string \<Rightarrow> nat list" where
  "matched_tests tests match =
     (let split = strsplit match CHR '','' in
      concat (map (\<lambda>t. concat (map (\<lambda>s. if piece_names s (tests ! t) then [t] else []) split)) [0..<length tests]))"

record parse_state =
  ps_help :: bool
  ps_list :: bool
  ps_select :: "string option"
  ps_skip :: "string option"
  ps_match :: "nat list"

text \<open>The loop over the arguments; \<open>None\<close> is the early \<open>return 1\<close>.\<close>

fun parse_loop :: "test_case list \<Rightarrow> string list \<Rightarrow> parse_state \<Rightarrow> parse_state option" where
  "parse_loop tests [] ps = Some ps"
| "parse_loop tests (arg # args) ps =
     (if arg = ''-h'' \<or> arg = ''--help'' then parse_loop tests args (ps\<lparr>ps_help := True\<rparr>)
      else if arg = ''-l'' \<or> arg = ''--list'' then parse_loop tests args (ps\<lparr>ps_list := True\<rparr>)
      else if startswith arg ''--select='' then
        let select = drop (length ''--select='') arg in
        parse_loop tests args (ps\<lparr>ps_select := Some select, ps_match := matched_tests tests select\<rparr>)
      else if startswith arg ''--skip='' then
        let skip = drop (length ''--skip='') arg in
        parse_loop tests args (ps\<lparr>ps_skip := Some skip, ps_match := matched_tests tests skip\<rparr>)
      else None)"

text \<open>Result, \<open>show_help\<close>, \<open>list_tests\<close> and the selected tests.\<close>

definition parse_args :: "test_case list \<Rightarrow> string list \<Rightarrow> int \<times> bool \<times> bool \<times> nat list" where
  "parse_args tests argv =
     (case parse_loop tests argv \<lparr>ps_help = False, ps_list = False, ps_select = None, ps_skip = None, ps_match = []\<rparr> of
         None \<Rightarrow> (1, False, False, [])
       | Some ps \<Rightarrow>
           (case (ps_select ps, ps_skip ps) of
               (None, None) \<Rightarrow> (0, ps_help ps, ps_list ps, [0..<length tests])
             | (Some _, None) \<Rightarrow> (0, ps_help ps, ps_list ps, ps_match ps)
             | (None, Some _) \<Rightarrow> (0, ps_help ps, ps_list ps, filter (\<lambda>t. t \<notin> set (ps_match ps)) [0..<length tests])
             | (Some _, Some _) \<Rightarrow> (1, ps_help ps, ps_list ps, [])))"

fun run_selected :: "(nat \<Rightarrow> test_case \<Rightarrow> test_case) \<Rightarrow> nat list \<Rightarrow> test_case list \<Rightarrow> int \<Rightarrow> int \<Rightarrow> int \<times> int \<times> test_case list" where
  "run_selected body [] tests failures passed = (failures, passed, tests)"
| "run_selected body (t # ts) tests failures passed =
     (let tests1 = tests[t := body t (tests ! t)]; f = tc_failures (tests1 ! t) in
      run_selected body ts tests1 (failures + f) (if f = 0 then passed + 1 else passed))"

text \<open>The value \<open>run\<close> returns, and the tests as they are when it deletes them.\<close>

definition TestMgr_run :: "(nat \<Rightarrow> test_case \<Rightarrow> test_case) \<Rightarrow> string list \<Rightarrow> test_case list \<Rightarrow> int \<times> test_case list" where
  "TestMgr_run body argv tests =
     (let (r, show_help, list_tests, selected) = parse_args tests argv in
      if r \<noteq> 0 \<or> show_help then (r, tests)
      else if list_tests then (r, tests)
      else let (failures, passed, tests') = run_selected body selected tests 0 0 in (failures, tests'))"

section \<open>Selecting and running\<close>

text \<open>A test is named by an argument when one of its pieces is its group or its group and name.\<close>

definition named :: "string \<Rightarrow> test_case \<Rightarrow> bool" where
  "named m t \<longleftrightarrow> (\<exists>s \<in> set (pieces CHR '','' m). piece_names s t)"

lemma set_matched_tests: "set (matched_tests tests m) = {t. t < length tests \<and> named m (tests ! t)}"
  by (auto simp: matched_tests_def Let_def named_def strsplit_pieces split: if_splits)

lemma parse_select: "parse_args tests [''--select='' @ m] = (0, False, False, matched_tests tests m)"
  by (simp add: parse_args_def startswith_prefix)

lemma parse_skip:
  "parse_args tests [''--skip='' @ m] = (0, False, False, filter (\<lambda>t. t \<notin> set (matched_tests tests m)) [0..<length tests])"
  by (simp add: parse_args_def startswith_prefix)

text \<open>A body only adds to the failures of its own test.\<close>

definition fails :: "(nat \<Rightarrow> test_case \<Rightarrow> test_case) \<Rightarrow> (nat \<Rightarrow> nat) \<Rightarrow> bool" where
  "fails body n \<longleftrightarrow> (\<forall>i t. body i t = (TestCase_fail ^^ n i) t)"

lemma failures_fail [simp]: "tc_failures ((TestCase_fail ^^ k) t) = tc_failures t + int k"
  by (induction k) (simp_all add: TestCase_fail_def)

lemma run_selected_sum:
  assumes "fails body n" "distinct sel" "\<forall>t \<in> set sel. t < length tests \<and> tc_failures (tests ! t) = 0"
  shows "\<exists>tests'. run_selected body sel tests f p
    = (f + (\<Sum>t \<leftarrow> sel. int (n t)), p + int (length (filter (\<lambda>t. n t = 0) sel)), tests')"
  using assms(2,3)
proof (induction sel arbitrary: tests f p)
  case (Cons t sel)
  let ?tests = "tests[t := body t (tests ! t)]"
  have f: "tc_failures (?tests ! t) = int (n t)" using Cons(3) assms(1) by (simp add: fails_def)
  have u: "\<forall>u \<in> set sel. u < length ?tests \<and> tc_failures (?tests ! u) = 0" using Cons(2,3) by (auto simp: nth_list_update)
  have step: "run_selected body (t # sel) tests f p
      = run_selected body sel ?tests (f + int (n t)) (if n t = 0 then p + 1 else p)" by (simp only: run_selected.simps Let_def f of_nat_eq_0_iff)
  obtain tests' where "run_selected body sel ?tests (f + int (n t)) (if n t = 0 then p + 1 else p)
      = (f + int (n t) + (\<Sum>t \<leftarrow> sel. int (n t)), (if n t = 0 then p + 1 else p) + int (length (filter (\<lambda>t. n t = 0) sel)), tests')"
    using Cons(1) [OF _ u] Cons(2) by auto
  then show ?case unfolding step by (intro exI [of _ tests']) simp
qed simp

text \<open>
  Selecting and skipping are complementary, and a run counts every failure. Whatever string follows them, \<open>--select=\<close> picks
  exactly the tests it names and \<open>--skip=\<close> the others, the latter each once and in the order of registration. A run
  with tests that did not fail before returns the sum of the failures of the tests that were not skipped.
\<close>

theorem select_and_skip_partition:
  assumes "fails body n" "\<forall>t < length tests. tc_failures (tests ! t) = 0"
  shows "\<exists>sel. parse_args tests [''--select='' @ m] = (0, False, False, sel) \<and> set sel = {t. t < length tests \<and> named m (tests ! t)}
    \<and> parse_args tests [''--skip='' @ m] = (0, False, False, filter (\<lambda>t. \<not> named m (tests ! t)) [0..<length tests])
    \<and> fst (TestMgr_run body [''--skip='' @ m] tests) = (\<Sum>t \<leftarrow> filter (\<lambda>t. \<not> named m (tests ! t)) [0..<length tests]. int (n t))"
proof -
  let ?rest = "filter (\<lambda>t. \<not> named m (tests ! t)) [0..<length tests]"
  have rest: "filter (\<lambda>t. t \<notin> set (matched_tests tests m)) [0..<length tests] = ?rest"
    by (rule filter_cong) (auto simp: set_matched_tests)
  have skip: "parse_args tests [''--skip='' @ m] = (0, False, False, ?rest)" unfolding parse_skip rest by simp
  have "distinct ?rest" "\<forall>t \<in> set ?rest. t < length tests \<and> tc_failures (tests ! t) = 0" using assms(2) by simp_all
  from run_selected_sum [OF assms(1) this, of 0 0] obtain tests' p where
    "run_selected body ?rest tests 0 0 = ((\<Sum>t \<leftarrow> ?rest. int (n t)), p, tests')" by auto
  then have "fst (TestMgr_run body [''--skip='' @ m] tests) = (\<Sum>t \<leftarrow> ?rest. int (n t))" 
    unfolding TestMgr_run_def skip by simp
  with skip show ?thesis using parse_select set_matched_tests by blast
qed

definition demo_tests :: "test_case list" where
  "demo_tests = [TestCase_new ''strop'' ''split'', TestCase_new ''strop'' ''decimal'', TestCase_new ''marshal'' ''v32'']"

theorem select_and_skip_partition_witness:
  "fst (TestMgr_run (\<lambda>i. TestCase_fail ^^ i) [''--skip=strop/split,net''] demo_tests) = 3
   \<and> parse_args demo_tests [''--select=strop,strop/split''] = (0, False, False, [0, 0, 1])"
proof -
  have "fails (\<lambda>i. TestCase_fail ^^ i) (\<lambda>i. i)" by (simp add: fails_def)
  moreover have "\<forall>t < length demo_tests. tc_failures (demo_tests ! t) = 0"
    by (simp add: demo_tests_def TestCase_new_def less_Suc_eq)
  ultimately have "fst (TestMgr_run (\<lambda>i. TestCase_fail ^^ i) [''--skip='' @ ''strop/split,net''] demo_tests)
      = (\<Sum>t \<leftarrow> filter (\<lambda>t. \<not> named ''strop/split,net'' (demo_tests ! t)) [0..<length demo_tests]. int t)"
    using select_and_skip_partition by blast
  moreover have "pieces CHR '','' ''strop/split,net'' = [''strop/split'', ''net'']" "pieces CHR '','' ''strop,strop/split'' = [''strop'', ''strop/split'']"
    by (simp_all add: pieces.simps)
  ultimately show ?thesis
    using parse_select [of demo_tests "''strop,strop/split''"]
    by (simp add: named_def piece_names_def demo_tests_def TestCase_new_def matched_tests_def strsplit_pieces)
qed

end
