(* ===== verification/Log_Output.thy ===== *)
theory Log_Output
  imports Base_Utils
begin

text \<open>
  The log of \<open>base/logging.h\<close> and \<open>base/logging.cc\<close>. A statement \<open>LOG_INFO << a << b\<close> makes a \<open>Log\<close>, which is a pointer to a
  counted record; every \<open><<\<close> takes a \<open>Log\<close> by value, adds to the text and gives back a copy; the destructor of the last
  copy prints. The records are a list in which a deleted one is \<open>None\<close>, an object is the place of its record. What was
  printed is part of the state, and of what is left when the program aborts. \<open>clock\<close> is the calendar time, its
  microseconds and the content of the array for its text. Values come as the text a stream makes of them.
\<close>

section \<open>Definitions\<close>

datatype log_end = Aborted string | Stopped err

type_synonym clock = "tm \<times> int \<times> string"

definition lbind :: "log_end + 'a \<Rightarrow> ('a \<Rightarrow> log_end + 'b) \<Rightarrow> log_end + 'b" where
  "lbind m f = (case m of Inl e \<Rightarrow> Inl e | Inr x \<Rightarrow> f x)"

definition checked :: "'a res \<Rightarrow> log_end + 'a" where
  "checked m = (case m of Inl e \<Rightarrow> Inl (Stopped e) | Inr x \<Rightarrow> Inr x)"

definition c_str :: "string \<Rightarrow> string" where
  "c_str s = takeWhile (\<lambda>c. c \<noteq> CHR 0x00) s"

record log_rep =
  lr_ref :: int
  lr_lm :: char
  lr_buf :: "string option"
  lr_file :: "string option"
  lr_line :: i32
  lr_verbosity :: i32

record log_state =
  lg_reps :: "log_rep option list"
  lg_out :: string

fun basename_loop :: "string \<Rightarrow> nat \<Rightarrow> nat" where
  "basename_loop fpath 0 = 0"
| "basename_loop fpath (Suc idx) = (if fpath ! idx = CHR ''/'' then Suc idx else basename_loop fpath idx)"

definition file_basename :: "string option \<Rightarrow> string option res" where
  "file_basename file = (case file of
       None \<Rightarrow> Inr None
     | Some fpath \<Rightarrow>
         let len = int (length fpath); idx = (if 0 < len then int (basename_loop fpath (nat (len - 1))) else len - 1) in
         rbind (assertion (0 \<le> idx \<and> idx < len)) (\<lambda>_. Inr (Some (drop (nat idx) fpath))))"

text \<open>One line, for the text that \<open>vprintf\<close> makes.\<close>

definition line_prefix :: "char \<Rightarrow> string \<Rightarrow> string option \<Rightarrow> i32 \<Rightarrow> string" where
  "line_prefix severity now filebase line = (case filebase of
       Some f \<Rightarrow> severity # '' '' @ now @ '' '' @ f @ '':'' @ show_int line @ '' | ''
     | None \<Rightarrow> severity # '' '' @ now @ '' | '')"

definition vlog :: "clock \<Rightarrow> string \<Rightarrow> log_rep \<Rightarrow> string \<Rightarrow> log_end + string" where
  "vlog clk txt r out = (let severity = lr_lm r; (t, usec, junk) = clk in
     lbind (checked (file_basename (lr_file r))) (\<lambda>filebase.
     lbind (checked (time_now_str t usec junk)) (\<lambda>now_str.
       let out1 = out @ line_prefix severity (c_str now_str) filebase (lr_line r) @ txt @ [CHR 0x0A] in
       if severity = CHR ''F'' then Inl (Aborted out1) else Inr out1)))"

definition rep_of :: "nat \<Rightarrow> log_state \<Rightarrow> log_end + log_rep" where
  "rep_of l s = (if l < length (lg_reps s) then (case lg_reps s ! l of None \<Rightarrow> Inl (Stopped UseAfterFree) | Some r \<Rightarrow> Inr r)
     else Inl (Stopped UseAfterFree))"

definition set_rep :: "nat \<Rightarrow> log_rep option \<Rightarrow> log_state \<Rightarrow> log_state" where
  "set_rep l r s = s\<lparr>lg_reps := (lg_reps s)[l := r]\<rparr>"

definition Log_new :: "char \<Rightarrow> string \<Rightarrow> i32 \<Rightarrow> i32 \<Rightarrow> log_state \<Rightarrow> nat \<times> log_state" where
  "Log_new lm file line verbosity s = (length (lg_reps s), s\<lparr>lg_reps := lg_reps s
     @ [Some \<lparr>lr_ref = 1, lr_lm = lm, lr_buf = None, lr_file = Some file, lr_line = line, lr_verbosity = verbosity\<rparr>]\<rparr>)"

definition Log_copy :: "nat \<Rightarrow> log_state \<Rightarrow> log_end + log_state" where
  "Log_copy l s = lbind (rep_of l s) (\<lambda>r. Inr (set_rep l (Some (r\<lparr>lr_ref := lr_ref r + 1\<rparr>)) s))"

definition Log_stream :: "nat \<Rightarrow> log_state \<Rightarrow> log_end + log_state" where
  "Log_stream l s = lbind (rep_of l s) (\<lambda>r.
     Inr (if lr_buf r = None then set_rep l (Some (r\<lparr>lr_buf := Some []\<rparr>)) s else s))"

definition Log_call :: "clock \<Rightarrow> string \<Rightarrow> nat \<Rightarrow> log_state \<Rightarrow> log_end + log_state" where
  "Log_call clk txt l s = lbind (rep_of l s) (\<lambda>r. lbind (vlog clk txt r (lg_out s)) (\<lambda>out. Inr (s\<lparr>lg_out := out\<rparr>)))"

definition Log_delete :: "clock \<Rightarrow> nat \<Rightarrow> log_state \<Rightarrow> log_end + log_state" where
  "Log_delete clk l s = lbind (rep_of l s) (\<lambda>r.
     let r1 = r\<lparr>lr_ref := lr_ref r - 1\<rparr>; s1 = set_rep l (Some r1) s in
     if lr_ref r1 = 0 then
       lbind (case lr_buf r1 of None \<Rightarrow> Inr s1 | Some b \<Rightarrow> Log_call clk (c_str b) l s1) (\<lambda>s2. Inr (set_rep l None s2))
     else Inr s1)"

text \<open>\<open>operator <<\<close>: the result is a copy, and the argument is destroyed.\<close>

definition Log_put :: "clock \<Rightarrow> nat \<Rightarrow> string \<Rightarrow> log_state \<Rightarrow> log_end + log_state" where
  "Log_put clk l t s =
     lbind (Log_stream l s) (\<lambda>s1.
     lbind (rep_of l s1) (\<lambda>r.
       let s2 = set_rep l (Some (r\<lparr>lr_buf := Some (the (lr_buf r) @ t)\<rparr>)) s1 in
       lbind (Log_copy l s2) (Log_delete clk l)))"

fun Log_puts :: "clock \<Rightarrow> nat \<Rightarrow> string list \<Rightarrow> log_state \<Rightarrow> log_end + log_state" where
  "Log_puts clk l [] s = Inr s"
| "Log_puts clk l (t # ts) s = lbind (Log_put clk l t s) (Log_puts clk l ts)"

text \<open>The statements \<open>LOG_... << t << ...;\<close> and \<open>LOG_...(fmt, ...);\<close>\<close>

definition log_stream_stmt :: "clock \<Rightarrow> char \<Rightarrow> string \<Rightarrow> i32 \<Rightarrow> i32 \<Rightarrow> string list \<Rightarrow> log_state \<Rightarrow> log_end + log_state" where
  "log_stream_stmt clk lm file line verbosity ts s =
     (let (l, s1) = Log_new lm file line verbosity s in lbind (Log_puts clk l ts s1) (Log_delete clk l))"

definition log_printf_stmt :: "clock \<Rightarrow> char \<Rightarrow> string \<Rightarrow> i32 \<Rightarrow> i32 \<Rightarrow> string \<Rightarrow> log_state \<Rightarrow> log_end + log_state" where
  "log_printf_stmt clk lm file line verbosity txt s =
     (let (l, s1) = Log_new lm file line verbosity s in lbind (Log_call clk txt l s1) (Log_delete clk l))"

definition Log_debug where "Log_debug clk file = log_printf_stmt clk (CHR ''I'') file 84 1"
definition Log_info where "Log_info clk file = log_printf_stmt clk (CHR ''I'') file 91 0"
definition Log_warn where "Log_warn clk file = log_printf_stmt clk (CHR ''W'') file 98 0"
definition Log_error where "Log_error clk file = log_printf_stmt clk (CHR ''E'') file 105 0"
definition Log_fatal where "Log_fatal clk file = log_printf_stmt clk (CHR ''F'') file 112 0"

text \<open>The macro \<open>verify\<close>, with the text of its argument.\<close>

definition verify_stmt :: "clock \<Rightarrow> string \<Rightarrow> i32 \<Rightarrow> string \<Rightarrow> string \<Rightarrow> bool \<Rightarrow> log_state \<Rightarrow> log_end + log_state" where
  "verify_stmt clk file line func inv_text invariant s =
     (if invariant then Inr s
      else log_stream_stmt clk (CHR ''F'') file line 0
        [''verify('', inv_text, '') failed at '', file, '':'', show_int line, '' in function '', func] s)"

section \<open>One statement, one line\<close>

lemma lbind_simps [simp]: "lbind (Inl e) f = Inl e" "lbind (Inr x) f = f x"
  by (simp_all add: lbind_def)

lemma checked_Inr [simp]: "checked (Inr x) = Inr x"
  by (simp add: checked_def)

lemma basename_loop_eq:
  assumes "CHR ''/'' \<notin> set base" "length dir \<le> idx" "idx \<le> length (dir @ base)" "dir = [] \<or> last dir = CHR ''/''"
  shows "basename_loop (dir @ base) idx = length dir"
  using assms
proof (induction idx)
  case (Suc idx)
  show ?case
  proof (cases "length dir = Suc idx")
    case True
    then have "dir ! idx = CHR ''/''" using Suc(5) by (metis diff_Suc_1 last_conv_nth length_0_conv nat.distinct(1))
    then show ?thesis using True by (simp add: nth_append)
  next
    case False
    then have i: "length dir \<le> idx" "idx - length dir < length base" using Suc(3,4) by auto
    then have "(dir @ base) ! idx \<noteq> CHR ''/''" using Suc(2) by (auto simp: nth_append in_set_conv_nth)
    then show ?thesis using Suc i by simp
  qed
qed simp

lemma file_basename_eq:
  assumes "CHR ''/'' \<notin> set base" "base \<noteq> []" "dir = [] \<or> last dir = CHR ''/''"
  shows "file_basename (Some (dir @ base)) = Inr (Some base)"
proof -
  have "basename_loop (dir @ base) (length (dir @ base) - 1) = length dir"
    using assms by (intro basename_loop_eq) (cases base; simp)+
  moreover have "nat (int (length (dir @ base)) - 1) = length (dir @ base) - 1" by simp
  moreover have "length dir < length (dir @ base)" using assms(2) by simp
  ultimately show ?thesis using assms(2)
    by (cases base) (simp_all add: file_basename_def Let_def assertion_def del: length_append)
qed

lemma file_basename_empty: "file_basename (Some '''') = Inl AssertFailed"
  by (simp add: file_basename_def Let_def assertion_def)

lemma Log_put_eq:
  assumes "lg_reps s = rs @ [Some r]" "lr_ref r = 1"
  shows "Log_put clk (length rs) t s
    = Inr (s\<lparr>lg_reps := rs @ [Some (r\<lparr>lr_buf := Some ((case lr_buf r of None \<Rightarrow> [] | Some b \<Rightarrow> b) @ t)\<rparr>)]\<rparr>)"
  using assms by (cases "lr_buf r")
    (simp_all add: Log_put_def Log_stream_def Log_copy_def Log_delete_def rep_of_def set_rep_def Let_def)

lemma Log_puts_eq:
  assumes "lg_reps s = rs @ [Some r]" "lr_ref r = 1"
  shows "Log_puts clk (length rs) ts s = Inr (if ts = [] then s
    else s\<lparr>lg_reps := rs @ [Some (r\<lparr>lr_buf := Some ((case lr_buf r of None \<Rightarrow> [] | Some b \<Rightarrow> b) @ concat ts)\<rparr>)]\<rparr>)"
  using assms
proof (induction ts arbitrary: s r)
  case (Cons t ts)
  let ?b = "(case lr_buf r of None \<Rightarrow> [] | Some b \<Rightarrow> b) @ t"
  let ?r = "r\<lparr>lr_buf := Some ?b\<rparr>"
  have "Log_puts clk (length rs) ts (s\<lparr>lg_reps := rs @ [Some ?r]\<rparr>) = Inr (s\<lparr>lg_reps := rs @ [Some (r\<lparr>lr_buf := Some (?b @ concat ts)\<rparr>)]\<rparr>)"
    using Cons(1) [of "s\<lparr>lg_reps := rs @ [Some ?r]\<rparr>" ?r] Cons(3) by simp
  then show ?case using Cons(2,3) by (simp add: Log_put_eq)
qed simp

definition stamp :: "clock \<Rightarrow> string" where
  "stamp clk = (case clk of (t, usec, junk) \<Rightarrow> case time_now_str t usec junk of Inl e \<Rightarrow> [] | Inr now \<Rightarrow> c_str now)"

definition log_line :: "clock \<Rightarrow> char \<Rightarrow> string \<Rightarrow> i32 \<Rightarrow> string \<Rightarrow> string" where
  "log_line clk severity base n txt = severity # '' '' @ stamp clk @ '' '' @ base @ '':'' @ show_int n @ '' | '' @ txt @ [CHR 0x0A]"

lemma vlog_eq:
  assumes "length (snd (snd clk)) = TIME_NOW_STR_SIZE" "CHR ''/'' \<notin> set base" "base \<noteq> []" "dir = [] \<or> last dir = CHR ''/''"
    and "lr_file r = Some (dir @ base)"
  shows "vlog clk txt r out = (if lr_lm r = CHR ''F'' then Inl (Aborted (out @ log_line clk (lr_lm r) base (lr_line r) txt))
    else Inr (out @ log_line clk (lr_lm r) base (lr_line r) txt))"
proof -
  obtain t usec junk where clk: "clk = (t, usec, junk)" by (cases clk)
  obtain now where "time_now_str t usec junk = Inr now" using time_now_str_written [of junk t usec] assms(1) by (simp add: clk)
  then show ?thesis using assms(5) file_basename_eq [OF assms(2-4)]
    by (simp add: vlog_def stamp_def clk log_line_def line_prefix_def Let_def)
qed

text \<open>
  C36. A log statement prints one line, whole, and leaves nothing behind. For a file name as the compiler gives it (a part without a slash behind
  directories) the statement \<open>LOG_x << t << ...\<close> prints, when the last copy of its \<open>Log\<close> is destroyed, a single line with the severity,
  the time, the last part of the file name, the line number and all texts one behind the other; the record is
  deleted. A statement of severity \<open>F\<close>, such as a failed \<open>verify\<close>, aborts the program after its line. A statement
  without any text prints nothing, and does not abort.
\<close>

theorem log_statement_prints_one_line:
  assumes "length (snd (snd clk)) = TIME_NOW_STR_SIZE" "CHR ''/'' \<notin> set base" "base \<noteq> []" "dir = [] \<or> last dir = CHR ''/''"
  shows "log_stream_stmt clk severity (dir @ base) n verbosity ts s =
      (if ts = [] then Inr (s\<lparr>lg_reps := lg_reps s @ [None]\<rparr>)
       else if severity = CHR ''F'' then Inl (Aborted (lg_out s @ log_line clk severity base n (c_str (concat ts))))
       else Inr (s\<lparr>lg_reps := lg_reps s @ [None], lg_out := lg_out s @ log_line clk severity base n (c_str (concat ts))\<rparr>))
    \<and> log_printf_stmt clk severity (dir @ base) n verbosity txt s =
      (if severity = CHR ''F'' then Inl (Aborted (lg_out s @ log_line clk severity base n txt))
       else Inr (s\<lparr>lg_reps := lg_reps s @ [None], lg_out := lg_out s @ log_line clk severity base n txt\<rparr>))"
  by (simp add: log_printf_stmt_def log_stream_stmt_def Log_new_def Log_puts_eq Log_call_def Log_delete_def rep_of_def set_rep_def
      vlog_eq [OF assms])

theorem log_statement_prints_one_line_witness:
  "log_stream_stmt (\<lparr>tm_year = 120, tm_mon = 0, tm_mday = 2, tm_hour = 3, tm_min = 4, tm_sec = 5\<rparr>, 6, replicate 27 (CHR ''x''))
     (CHR ''F'') ''/a/b.cc'' 12 0 [''x='', ''7''] \<lparr>lg_reps = [], lg_out = []\<rparr>
   = Inl (Aborted (''F 2020-01-02 03:04:05.000006 b.cc:12 | x=7'' @ [CHR 0x0A]))"
proof -
  let ?t = "\<lparr>tm_year = 120, tm_mon = 0, tm_mday = 2, tm_hour = 3, tm_min = 4, tm_sec = 5\<rparr>"
  let ?clk = "(?t, 6, replicate 27 (CHR ''x''))"
  have len: "length (snd (snd ?clk)) = TIME_NOW_STR_SIZE" by (simp add: TIME_NOW_STR_SIZE_def)
  have st: "stamp ?clk = ''2020-01-02 03:04:05.000006''" by code_simp
  have n: "show_int 12 = ''12''" by code_simp
  show ?thesis
    using log_statement_prints_one_line [OF len, of "''b.cc''" "''/a/''" "CHR ''F''" 12 0 "[''x='', ''7'']" "\<lparr>lg_reps = [], lg_out = []\<rparr>" "[]"] st
    by (simp add: log_line_def c_str_def n)
qed

text \<open>\<open>verify\<close> as the other theories use it.\<close>

lemma verify_stmt_eq:
  assumes "length (snd (snd clk)) = TIME_NOW_STR_SIZE" "CHR ''/'' \<notin> set base" "base \<noteq> []" "dir = [] \<or> last dir = CHR ''/''"
  shows "verify_stmt clk (dir @ base) n func inv_text b s = (case verify b of
      Inr _ \<Rightarrow> Inr s
    | Inl _ \<Rightarrow> Inl (Aborted (lg_out s @ log_line clk (CHR ''F'') base n
        (c_str (''verify('' @ inv_text @ '') failed at '' @ dir @ base @ '':'' @ show_int n @ '' in function '' @ func)))))"
  by (cases b)
    (simp_all add: verify_stmt_def log_stream_stmt_def Log_new_def Log_puts_eq Log_call_def Log_delete_def rep_of_def set_rep_def
      vlog_eq [OF assms] del: Log_puts.simps)

end
