(* ===== verification/Rpc_Stats.thy ===== *)
theory Rpc_Stats
  imports Base_Utils
begin

text \<open>
  The statistics behind \<open>RPC_STATISTICS\<close>: the sizes of reads and writes in \<open>rpc/buffer.cc\<close> and the calls of each method in
  \<open>rpc/server.cc\<close>. Counters are kept since the last report and, cumulated, up to it. \<open>now\<close> is the time stamp counter of the
  processor; what a report prints is part of the state.
\<close>

section \<open>Definitions\<close>

record marshal_report =
  mr_in :: "i64 list"
  mr_in_cumulative :: "i64 list"
  mr_out :: "i64 list"
  mr_out_cumulative :: "i64 list"

record marshal_stat =
  ms_in :: "i64 list"
  ms_in_cumulative :: "i64 list"
  ms_out :: "i64 list"
  ms_out_cumulative :: "i64 list"
  ms_report_time :: "64 word"
  ms_reports :: "marshal_report list"

definition report_interval :: "64 word" where "report_interval = 1000 * 1000 * 1000"

definition marshal_stat_start :: marshal_stat where
  "marshal_stat_start = \<lparr>ms_in = replicate 12 0, ms_in_cumulative = replicate 12 0, ms_out = replicate 12 0,
     ms_out_cumulative = replicate 12 0, ms_report_time = 0, ms_reports = []\<rparr>"

text \<open>One loop of a report: what is printed, the counters, the cumulated counters.\<close>

fun report_loop :: "i64 list \<Rightarrow> i64 list \<Rightarrow> i64 list \<times> i64 list \<times> i64 list" where
  "report_loop (c # cs) (t # ts) =
     (let v = Counter_peek_next c; (shown, cs', ts') = report_loop cs ts in
      (v # shown, Counter_reset 0 c # cs', snd (Counter_next v t) # ts'))"
| "report_loop cs ts = ([], cs, ts)"

definition stat_marshal_report :: "marshal_stat \<Rightarrow> marshal_stat" where
  "stat_marshal_report s =
     (let (in_shown, in1, in_cum) = report_loop (ms_in s) (ms_in_cumulative s);
          (out_shown, out1, out_cum) = report_loop (ms_out s) (ms_out_cumulative s) in
      s\<lparr>ms_in := in1, ms_in_cumulative := in_cum, ms_out := out1, ms_out_cumulative := out_cum,
        ms_reports := ms_reports s @ [\<lparr>mr_in = in_shown, mr_in_cumulative = map Counter_peek_next in_cum,
          mr_out = out_shown, mr_out_cumulative = map Counter_peek_next out_cum\<rparr>]\<rparr>)"

definition ret_class :: "i64 \<Rightarrow> nat" where
  "ret_class ret =
     (if ret = - 1 then 0 else if sint ret < 16 then 1 else if sint ret < 32 then 2 else if sint ret < 64 then 3
      else if sint ret < 128 then 4 else if sint ret < 256 then 5 else if sint ret < 512 then 6 else if sint ret < 1024 then 7
      else if sint ret < 2048 then 8 else if sint ret < 4096 then 9 else if sint ret < 8192 then 10 else 11)"

definition count_one :: "nat \<Rightarrow> i64 list \<Rightarrow> i64 list" where
  "count_one i cs = cs[i := snd (Counter_next 1 (cs ! i))]"

definition report_if_due :: "64 word \<Rightarrow> marshal_stat \<Rightarrow> marshal_stat" where
  "report_if_due now s =
     (if report_interval < now - ms_report_time s then (stat_marshal_report s)\<lparr>ms_report_time := now\<rparr> else s)"

definition stat_marshal_in :: "64 word \<Rightarrow> i64 \<Rightarrow> marshal_stat \<Rightarrow> marshal_stat" where
  "stat_marshal_in now ret s = report_if_due now (s\<lparr>ms_in := count_one (ret_class ret) (ms_in s)\<rparr>)"

definition stat_marshal_out :: "64 word \<Rightarrow> i64 \<Rightarrow> marshal_stat \<Rightarrow> marshal_stat" where
  "stat_marshal_out now ret s = report_if_due now (s\<lparr>ms_out := count_one (ret_class ret) (ms_out s)\<rparr>)"

text \<open>Calls of each method; a counter that was never used is 0.\<close>

record rpc_stat =
  rs_counter :: "i32 \<Rightarrow> i64 \<times> i64"
  rs_report_time :: "64 word"

definition stat_server_rpc_counting :: "64 word \<Rightarrow> i32 \<Rightarrow> rpc_stat \<Rightarrow> rpc_stat" where
  "stat_server_rpc_counting now rpc_id s =
     (let (first, second) = rs_counter s rpc_id; counter = (rs_counter s)(rpc_id := (snd (Counter_next 1 first), second)) in
      if report_interval < now - rs_report_time s then
        \<lparr>rs_counter = (\<lambda>i. let (first, second) = counter i; count = Counter_peek_next first in
           (Counter_reset 0 first, snd (Counter_next count second))), rs_report_time = now\<rparr>
      else s\<lparr>rs_counter := counter\<rparr>)"

text \<open>A run: the calls in their order.\<close>

datatype io = In "64 word" i64 | Out "64 word" i64

fun io_step :: "io \<Rightarrow> marshal_stat \<Rightarrow> marshal_stat" where
  "io_step (In now ret) s = stat_marshal_in now ret s"
| "io_step (Out now ret) s = stat_marshal_out now ret s"

fun ins :: "io list \<Rightarrow> i64 list" where
  "ins [] = []"
| "ins (In now ret # es) = ret # ins es"
| "ins (Out now ret # es) = ins es"

fun outs :: "io list \<Rightarrow> i64 list" where
  "outs [] = []"
| "outs (In now ret # es) = outs es"
| "outs (Out now ret # es) = ret # outs es"

section \<open>Nothing is lost\<close>

lemma ret_class_less: "ret_class ret < 12"
  by (simp add: ret_class_def)

text \<open>The classes are those of the heading that a report prints.\<close>

lemma ret_class_bounds:
  "ret_class ret = 0 \<longleftrightarrow> ret = - 1" "ret \<noteq> - 1 \<Longrightarrow> ret_class ret = 1 \<longleftrightarrow> sint ret < 16" "ret_class ret = 11 \<longleftrightarrow> 8192 \<le> sint ret"
  "2 \<le> i \<Longrightarrow> i \<le> 10 \<Longrightarrow> ret_class ret = i \<longleftrightarrow> 2 ^ (i + 2) \<le> sint ret \<and> sint ret < 2 ^ (i + 3)"
proof -
  have m: "ret = - 1 \<Longrightarrow> sint ret = - 1" by simp
  show "ret_class ret = 0 \<longleftrightarrow> ret = - 1" "ret \<noteq> - 1 \<Longrightarrow> ret_class ret = 1 \<longleftrightarrow> sint ret < 16" by (simp_all add: ret_class_def)
  show "ret_class ret = 11 \<longleftrightarrow> 8192 \<le> sint ret" using m by (auto simp: ret_class_def)
  assume "2 \<le> i" "i \<le> 10"
  then have "i \<in> {2, 3, 4, 5, 6, 7, 8, 9, 10}" by auto
  then show "ret_class ret = i \<longleftrightarrow> 2 ^ (i + 2) \<le> sint ret \<and> sint ret < 2 ^ (i + 3)"
    using m by (elim insertE emptyE) (auto simp: ret_class_def)
qed

definition sums :: "i64 list \<Rightarrow> i64 list \<Rightarrow> i64 list" where
  "sums cs ts = map2 (+) cs ts"

lemma report_loop_sums:
  assumes "length cs = length ts" "report_loop cs ts = (shown, cs', ts')"
  shows "shown = cs \<and> length cs' = length cs \<and> length ts' = length ts \<and> sums cs' ts' = sums cs ts \<and> ts' = sums cs ts"
  using assms
proof (induction cs ts arbitrary: shown cs' ts' rule: list_induct2)
  case (Cons c cs t ts)
  then show ?case
    by (auto simp: Counter_peek_next_def Counter_reset_def Counter_next_def sums_def Let_def split: prod.splits)
qed (simp add: sums_def)

text \<open>One direction: counters \<open>cs\<close>, cumulated counters \<open>ts\<close>, the reports \<open>rs\<close>, and what happened, \<open>n\<close>.\<close>

definition side_ok :: "(nat \<Rightarrow> i64) \<Rightarrow> i64 list \<Rightarrow> i64 list \<Rightarrow> (i64 list \<times> i64 list) list \<Rightarrow> bool" where
  "side_ok n cs ts rs \<longleftrightarrow> length cs = 12 \<and> length ts = 12 \<and> (rs \<noteq> [] \<longrightarrow> snd (last rs) = ts)
     \<and> (\<forall>i < 12. ts ! i + cs ! i = n i \<and> ts ! i = sum_list (map (\<lambda>r. fst r ! i) rs))"

lemma side_count:
  assumes "side_ok n cs ts rs" "k < 12"
  shows "side_ok (n(k := n k + 1)) (count_one k cs) ts rs"
proof -
  have "ts ! i + count_one k cs ! i = (n(k := n k + 1)) i \<and> ts ! i = sum_list (map (\<lambda>r. fst r ! i) rs)" if "i < 12" for i
    using assms that by (cases "i = k") (auto simp: side_ok_def count_one_def Counter_next_def ac_simps)
  moreover have "length (count_one k cs) = 12" using assms(1) by (simp add: side_ok_def count_one_def)
  ultimately show ?thesis using assms(1) unfolding side_ok_def by blast
qed

lemma side_report:
  assumes ok: "side_ok n cs ts rs" and r: "report_loop cs ts = (shown, cs', ts')"
  shows "side_ok n cs' ts' (rs @ [(shown, map Counter_peek_next ts')])"
proof -
  have len: "length cs = 12" "length ts = 12" using ok by (simp_all add: side_ok_def)
  then have t: "shown = cs" "length cs' = 12" "length ts' = 12" "sums cs' ts' = sums cs ts" "ts' = sums cs ts"
    using report_loop_sums [OF _ r] by metis+
  have nth: "sums cs ts ! i = cs ! i + ts ! i" "sums cs' ts' ! i = cs' ! i + ts' ! i" if "i < 12" for i
    using that len t(2,3) by (simp_all add: sums_def)
  have "ts' ! i + cs' ! i = n i \<and> ts' ! i = sum_list (map (\<lambda>r. fst r ! i) (rs @ [(shown, map Counter_peek_next ts')]))" if "i < 12" for i
  proof -
    have o: "ts ! i + cs ! i = n i" "ts ! i = sum_list (map (\<lambda>r. fst r ! i) rs)"
      using ok that unfolding side_ok_def by blast+
    have "cs' ! i + ts' ! i = cs ! i + ts ! i" using nth [OF that] t(4) by simp
    moreover have "ts' ! i = cs ! i + ts ! i" using nth(1) [OF that] t(5) by simp
    ultimately show ?thesis using o t(1) by (simp add: ac_simps)
  qed
  moreover have "map Counter_peek_next ts' = ts'" by (simp add: Counter_peek_next_def map_idI)
  ultimately show ?thesis using t(2,3) unfolding side_ok_def last_snoc snd_conv by blast
qed

definition stat_ok :: "(nat \<Rightarrow> i64) \<Rightarrow> (nat \<Rightarrow> i64) \<Rightarrow> marshal_stat \<Rightarrow> bool" where
  "stat_ok n k s \<longleftrightarrow> side_ok n (ms_in s) (ms_in_cumulative s) (map (\<lambda>r. (mr_in r, mr_in_cumulative r)) (ms_reports s))
     \<and> side_ok k (ms_out s) (ms_out_cumulative s) (map (\<lambda>r. (mr_out r, mr_out_cumulative r)) (ms_reports s))"

lemma report_if_due_ok:
  assumes "stat_ok n k s"
  shows "stat_ok n k (report_if_due now s)"
proof -
  obtain a b c a' b' c' where r: "report_loop (ms_in s) (ms_in_cumulative s) = (a, b, c)"
    "report_loop (ms_out s) (ms_out_cumulative s) = (a', b', c')" by (metis prod_cases3)
  then have "stat_ok n k (stat_marshal_report s)"
    using assms side_report [OF _ r(1)] side_report [OF _ r(2)] by (simp add: stat_ok_def stat_marshal_report_def)
  with assms show ?thesis by (simp add: report_if_due_def stat_ok_def)
qed

definition happened :: "i64 list \<Rightarrow> nat \<Rightarrow> i64" where
  "happened rets i = of_nat (length (filter (\<lambda>r. ret_class r = i) rets))"

lemma happened_snoc: "happened (rets @ [r]) = (happened rets)(ret_class r := happened rets (ret_class r) + 1)"
  by (auto simp: happened_def)

lemma ins_outs_append [simp]: "ins (es @ fs) = ins es @ ins fs" "outs (es @ fs) = outs es @ outs fs"
  by (induction es rule: ins.induct) auto

lemma io_run_ok: "stat_ok (happened (ins es)) (happened (outs es)) (fold io_step es marshal_stat_start)"
proof (induction es rule: rev_induct)
  case Nil
  then show ?case by (auto simp: stat_ok_def side_ok_def marshal_stat_start_def happened_def)
next
  case (snoc e es)
  let ?s = "fold io_step es marshal_stat_start"
  show ?case
  proof (cases e)
    case (In now ret)
    have "stat_ok (happened (ins es @ [ret])) (happened (outs es)) (?s\<lparr>ms_in := count_one (ret_class ret) (ms_in ?s)\<rparr>)"
      using snoc side_count [OF _ ret_class_less] by (simp add: stat_ok_def happened_snoc)
    from report_if_due_ok [OF this] show ?thesis by (simp add: In stat_marshal_in_def)
  next
    case (Out now ret)
    have "stat_ok (happened (ins es)) (happened (outs es @ [ret])) (?s\<lparr>ms_out := count_one (ret_class ret) (ms_out ?s)\<rparr>)"
      using snoc side_count [OF _ ret_class_less] by (simp add: stat_ok_def happened_snoc)
    from report_if_due_ok [OF this] show ?thesis by (simp add: Out stat_marshal_out_def)
  qed
qed

text \<open>
  The statistics lose nothing. After any sequence of reads and writes with any results and at any times, for every class of sizes
  the counter since the last report and the cumulated counter together are the number of reads (of writes) whose result is in this
  class; the cumulated counter is the sum of what the reports showed, and the last report showed it. (Counters are 64 bits wide and wrap around.)
\<close>

theorem io_statistics_lose_nothing:
  fixes es :: "io list"
  assumes "i < 12"
  defines "s \<equiv> fold io_step es marshal_stat_start"
  shows "ms_in_cumulative s ! i + ms_in s ! i = of_nat (length (filter (\<lambda>r. ret_class r = i) (ins es)))
    \<and> ms_out_cumulative s ! i + ms_out s ! i = of_nat (length (filter (\<lambda>r. ret_class r = i) (outs es)))
    \<and> ms_in_cumulative s ! i = sum_list (map (\<lambda>r. mr_in r ! i) (ms_reports s))
    \<and> ms_out_cumulative s ! i = sum_list (map (\<lambda>r. mr_out r ! i) (ms_reports s))
    \<and> (ms_reports s = [] \<or> mr_in_cumulative (last (ms_reports s)) = ms_in_cumulative s
          \<and> mr_out_cumulative (last (ms_reports s)) = ms_out_cumulative s)"
proof -
  note ok = io_run_ok [of es, folded s_def, unfolded stat_ok_def]
  have 1: "ms_in_cumulative s ! i + ms_in s ! i = happened (ins es) i" "ms_out_cumulative s ! i + ms_out s ! i = happened (outs es) i"
    using ok assms(1) unfolding side_ok_def by blast+
  have 2: "ms_in_cumulative s ! i = sum_list (map (\<lambda>r. mr_in r ! i) (ms_reports s))"
    "ms_out_cumulative s ! i = sum_list (map (\<lambda>r. mr_out r ! i) (ms_reports s))"
    using ok assms(1) by (simp_all add: side_ok_def comp_def)
  have "mr_in_cumulative (last (ms_reports s)) = ms_in_cumulative s \<and> mr_out_cumulative (last (ms_reports s)) = ms_out_cumulative s"
    if "ms_reports s \<noteq> []" using ok that by (simp add: side_ok_def last_map)
  with 1 2 show ?thesis unfolding happened_def by blast
qed

theorem io_statistics_lose_nothing_witness:
  "let s = fold io_step [In 5 20, Out 6 (- 1), In 2000000000 31, In 2000000001 17] marshal_stat_start in
     ms_in_cumulative s ! 2 + ms_in s ! 2 = 3 \<and> ms_out_cumulative s ! 2 + ms_out s ! 2 = 0 \<and> ms_in_cumulative s ! 2 = 2
     \<and> length (ms_reports s) = 1"
proof -
  let ?es = "[In 5 20, Out 6 (- 1), In 2000000000 31, In 2000000001 17]"
  let ?s = "fold io_step ?es marshal_stat_start"
  have "(2 :: nat) < 12" by simp
  note all = io_statistics_lose_nothing [OF this, of ?es]
  have "of_nat (length (filter (\<lambda>r. ret_class r = 2) (ins ?es))) = (3 :: i64)"
    "of_nat (length (filter (\<lambda>r. ret_class r = 2) (outs ?es))) = (0 :: i64)" by (simp_all add: ret_class_def)
  with all have "ms_in_cumulative ?s ! 2 + ms_in ?s ! 2 = 3" "ms_out_cumulative ?s ! 2 + ms_out ?s ! 2 = 0" by argo+
  moreover have "ms_in_cumulative ?s ! 2 = 2" "length (ms_reports ?s) = 1" by code_simp+
  ultimately show ?thesis unfolding Let_def by blast
qed

text \<open>The same for the calls of a method.\<close>

lemma rpc_counting_adds_up:
  fixes calls :: "(64 word \<times> i32) list"
  defines "s \<equiv> fold (\<lambda>(now, rpc_id). stat_server_rpc_counting now rpc_id) calls \<lparr>rs_counter = (\<lambda>_. (0, 0)), rs_report_time = 0\<rparr>"
  shows "fst (rs_counter s i) + snd (rs_counter s i) = of_nat (length (filter (\<lambda>c. snd c = i) calls))"
  unfolding s_def
proof (induction calls rule: rev_induct)
  case (snoc c calls)
  then show ?case
    by (cases c) (auto simp: stat_server_rpc_counting_def Counter_next_def Counter_reset_def Counter_peek_next_def Let_def ac_simps
        split: prod.splits)
qed simp

end
