(* ===== verification/Timing.thy ===== *)
theory Timing
  imports Rpc_Prelude Doubles
begin

text \<open>
  Measurements that end in a floating-point number: the class \<open>Timer\<close> of \<open>base/basetypes.cc\<close>, and the
  statistics of \<open>rpc/server.cc\<close> on how many requests are taken from a connection at once. The results
  of \<open>gettimeofday\<close> and of \<open>rdtsc\<close> are arguments.
\<close>

section \<open>Definitions\<close>

subsection \<open>Timer\<close>

record timer =
  begin_tv :: timeval
  end_tv :: timeval

definition Timer_reset :: "timer \<Rightarrow> timer" where
  "Timer_reset t = t\<lparr>begin_tv := (0, 0), end_tv := (0, 0)\<rparr>"

definition Timer_new :: timer where
  "Timer_new = \<lparr>begin_tv = (0, 0), end_tv = (0, 0)\<rparr>"

definition Timer_start :: "timeval \<Rightarrow> timer \<Rightarrow> timer" where
  "Timer_start now t = (Timer_reset t)\<lparr>begin_tv := now\<rparr>"

definition Timer_stop :: "timeval \<Rightarrow> timer \<Rightarrow> timer" where
  "Timer_stop now t = t\<lparr>end_tv := now\<rparr>"

text \<open>\<open>a.tv_sec - b.tv_sec + (a.tv_usec - b.tv_usec) / 1000000.0\<close>\<close>

definition tv_diff :: "timeval \<Rightarrow> timeval \<Rightarrow> double" where
  "tv_diff a b = fl_add (fl_int (fst a - fst b)) (fl_div (fl_int (snd a - snd b)) 1000000)"

definition Timer_elapsed :: "timeval \<Rightarrow> timer \<Rightarrow> double res" where
  "Timer_elapsed now t =
     rbind (verify (fst (begin_tv t) \<noteq> 0 \<or> snd (begin_tv t) \<noteq> 0)) (\<lambda>_.
       Inr (if fst (end_tv t) = 0 \<and> snd (end_tv t) = 0 then tv_diff now (begin_tv t)
            else tv_diff (end_tv t) (begin_tv t)))"

subsection \<open>Batches\<close>

text \<open>The line that is printed; the average of no batches is not a number.\<close>

record batching_line =
  bl_min :: i32
  bl_avg :: "double option"
  bl_max :: i32

record batching =
  bt_ring :: "i32 list"
  bt_idx :: nat
  bt_report_time :: "64 word"
  bt_printed :: "batching_line list"

definition batching_size :: nat where "batching_size = 1000"

definition batching_report_interval :: "64 word" where "batching_report_interval = 1000 * 1000 * 1000"

definition batching_new :: batching where
  "batching_new = \<lparr>bt_ring = replicate batching_size 0, bt_idx = 0, bt_report_time = 0, bt_printed = []\<rparr>"

text \<open>The loop of a report, from the entry \<open>i\<close> on: the entries that are left, and minimum, maximum, number and sum.\<close>

fun batching_loop :: "i32 list \<Rightarrow> i32 \<Rightarrow> i32 \<Rightarrow> i32 \<Rightarrow> i32 \<Rightarrow> (i32 list \<times> i32 \<times> i32 \<times> i32 \<times> i32) res" where
  "batching_loop [] mn mx sum_count acc = Inr ([], mn, mx, sum_count, acc)"
| "batching_loop (b # bs) mn mx sum_count acc =
     (if b = 0 then
        rbind (batching_loop bs mn mx sum_count acc) (\<lambda>(rest, r). Inr (b # rest, r))
      else if \<not> (- (2 ^ 31) \<le> sint acc + sint b \<and> sint acc + sint b < 2 ^ 31) then Inl IntOverflow
      else
        rbind (batching_loop bs (if sint b < sint mn then b else mn) (if sint mx < sint b then b else mx) (sum_count + 1) (acc + b)) (\<lambda>(rest, r).
          Inr (0 # rest, r)))"

definition stat_server_batching :: "64 word \<Rightarrow> 64 word \<Rightarrow> batching \<Rightarrow> batching res" where
  "stat_server_batching now batch s =
     (let idx = (bt_idx s + 1) mod batching_size; ring = (bt_ring s)[idx := ucast batch]; s1 = s\<lparr>bt_idx := idx, bt_ring := ring\<rparr> in
      if now - bt_report_time s > batching_report_interval then
        rbind (batching_loop ring 0x7FFFFFFF 0 0 0) (\<lambda>(ring', mn, mx, sum_count, acc).
          let avg = (if sum_count = 0 then None else Some (fl_div (fl_int (sint acc)) (fl_int (sint sum_count)))) in
          Inr (s1\<lparr>bt_ring := ring', bt_report_time := now,
                  bt_printed := bt_printed s @ [\<lparr>bl_min = mn, bl_avg = avg, bl_max = mx\<rparr>]\<rparr>))
      else Inr s1)"

section \<open>The timer\<close>

text \<open>Reading a timer that was not started stops the program.\<close>

lemma elapsed_needs_start: "Timer_elapsed now Timer_new = Inl VerifyFailed"
  by (simp add: Timer_elapsed_def Timer_new_def)

text \<open>
  The measured time: the exact number of microseconds between two whole seconds of the clock is not
  rounded at all, and in general three roundings happen, each with a relative error of at most
  \<open>2 ^ -53\<close>.
\<close>

lemma fl_int_upto: "0 \<le> k \<Longrightarrow> k < 2 ^ 53 \<Longrightarrow> fl_int k = of_int k"
  using fl_int_exact [of k] by (cases "k = 0") (simp_all add: fl_int_def)

lemma elapsed_whole_seconds:
  assumes "b \<noteq> 0 \<or> u \<noteq> 0" "e \<noteq> 0 \<or> u \<noteq> 0" "b \<le> e" "e - b < 2 ^ 53"
  shows "Timer_elapsed now (Timer_stop (e, u) (Timer_start (b, u) Timer_new)) = Inr (of_int (e - b))"
  using assms fl_int_upto [of "e - b"]
  by (auto simp: Timer_elapsed_def Timer_stop_def Timer_start_def Timer_reset_def Timer_new_def tv_diff_def fl_add_def fl_div_def fl_int_def)

lemma elapsed_error:
  assumes a: "a = fst e - fst b" "0 \<le> a" "a < 2 ^ 53" and c: "c = snd e - snd b" "0 \<le> c" "c < 2 ^ 53"
  shows "\<bar>tv_diff e b - (of_int a + of_int c / 1000000)\<bar> \<le> (of_int a + of_int c / 250000) / 2 ^ 53"
proof -
  let ?q = "of_int c / 1000000 :: rat"
  have q0: "0 \<le> ?q" using c(2) by simp
  have q: "\<bar>fl ?q - ?q\<bar> \<le> ?q / 2 ^ 53" using fl_error [of ?q] q0 by simp
  have q1: "?q / 2 ^ 53 \<le> ?q" using q0 by (simp add: divide_le_eq mult_le_cancel_left1)
  have up: "fl ?q \<le> 2 * ?q" using q q1 by linarith
  have lo: "0 \<le> fl ?q" using fl_mono [of 0 ?q] q0 by simp
  have "\<bar>fl (of_int a + fl ?q) - (of_int a + fl ?q)\<bar> \<le> (of_int a + fl ?q) / 2 ^ 53"
    using fl_error [of "of_int a + fl ?q"] a(2) lo by simp
  also have "\<dots> \<le> (of_int a + 2 * ?q) / 2 ^ 53" using up by (intro divide_right_mono) simp_all
  finally have "\<bar>fl (of_int a + fl ?q) - (of_int a + fl ?q)\<bar> \<le> (of_int a + 2 * ?q) / 2 ^ 53" .
  then have "\<bar>fl (of_int a + fl ?q) - (of_int a + ?q)\<bar> \<le> (of_int a + 2 * ?q) / 2 ^ 53 + ?q / 2 ^ 53"
    using q by linarith
  also have "\<dots> = (of_int a + 3 * ?q) / 2 ^ 53" by (simp add: add_divide_distrib)
  also have "\<dots> \<le> (of_int a + of_int c / 250000) / 2 ^ 53" using q0 by (intro divide_right_mono) simp_all
  finally show ?thesis using a c fl_int_upto [of a] fl_int_upto [of c]
    by (simp add: tv_diff_def fl_add_def fl_div_def)
qed

section \<open>The batches\<close>

text \<open>What a report counts: the sizes that are not zero among those of the last 1000 batches since the report before.\<close>

definition sizes :: "i32 list \<Rightarrow> int list" where
  "sizes bs = map sint (filter (\<lambda>b. b \<noteq> 0) bs)"

lemma sint_add_in_range: "- (2 ^ 31) \<le> sint x + sint y \<Longrightarrow> sint x + sint y < 2 ^ 31 \<Longrightarrow> sint (x + y :: i32) = sint x + sint y"
  unfolding sint_word_ariths(1) by (rule signed_take_bit_int_eq_self) simp_all

lemma batching_loop_ok:
  assumes "\<And>n. sint s + sum_list (take n (sizes bs)) < 2 ^ 31" "\<And>b. b \<in> set bs \<Longrightarrow> 0 \<le> sint b" "0 \<le> sint s"
    and "sint k + int (length (sizes bs)) < 2 ^ 31" "0 \<le> sint k"
  shows "\<exists>mn' mx' k' s'. batching_loop bs mn mx k s = Inr (replicate (length bs) 0, mn', mx', k', s')
    \<and> sint mn' = Min (insert (sint mn) (set (sizes bs))) \<and> sint mx' = Max (insert (sint mx) (set (sizes bs)))
    \<and> sint k' = sint k + int (length (sizes bs)) \<and> sint s' = sint s + sum_list (sizes bs)"
  using assms
proof (induction bs arbitrary: mn mx k s)
  case Nil
  then show ?case by (simp add: sizes_def)
next
  case (Cons b bs)
  show ?case
  proof (cases "b = 0")
    case True
    then have "sizes (b # bs) = sizes bs" by (simp add: sizes_def)
    then show ?thesis using Cons.IH [of s k mn mx] Cons.prems True by auto
  next
    case False
    then have sz: "sizes (b # bs) = sint b # sizes bs" by (simp add: sizes_def)
    have b: "0 \<le> sint b" "sint s + sint b < 2 ^ 31" using Cons.prems(1) [of 1] Cons.prems(2) [of b] by (simp_all add: sz)
    have k1: "sint (k + 1) = sint k + 1" using sint_add_in_range [of k 1] Cons.prems(4,5) by (simp add: sz)
    have s1: "sint (s + b) = sint s + sint b" using sint_add_in_range [of s b] b Cons.prems(3) by simp
    let ?mn = "if sint b < sint mn then b else mn" and ?mx = "if sint mx < sint b then b else mx"
    have "sint (s + b) + sum_list (take n (sizes bs)) < 2 ^ 31" for n
      using Cons.prems(1) [of "Suc n"] s1 by (simp add: sz)
    moreover have "sint (k + 1) + int (length (sizes bs)) < 2 ^ 31" using Cons.prems(4) k1 by (simp add: sz)
    ultimately obtain mn' mx' k' s' where r: "batching_loop bs ?mn ?mx (k + 1) (s + b) = Inr (replicate (length bs) 0, mn', mx', k', s')"
      "sint mn' = Min (insert (sint ?mn) (set (sizes bs)))" "sint mx' = Max (insert (sint ?mx) (set (sizes bs)))"
      "sint k' = sint (k + 1) + int (length (sizes bs))" "sint s' = sint (s + b) + sum_list (sizes bs)"
      using Cons.IH [of "s + b" "k + 1" ?mn ?mx] Cons.prems(2,3,5) b(1) s1 k1 by fastforce
    have "Min (insert (sint ?mn) (set (sizes bs))) = Min (insert (sint mn) (set (sizes (b # bs))))"
      by (cases "sizes bs = []") (auto simp: sz Min_insert2 min_def)
    moreover have "Max (insert (sint ?mx) (set (sizes bs))) = Max (insert (sint mx) (set (sizes (b # bs))))"
      by (cases "sizes bs = []") (auto simp: sz max_def)
    ultimately show ?thesis using r False b Cons.prems(3) k1 s1 by (auto simp: sz)
  qed
qed

text \<open>
  A report that is due prints the smallest, the largest and the average of these sizes, and starts anew;
  without any batch the average is not a number.
\<close>

lemma stat_server_batching_reports:
  assumes ring: "length (bt_ring s) = batching_size" "bs = (bt_ring s)[(bt_idx s + 1) mod batching_size := ucast batch]"
    and due: "now - bt_report_time s > batching_report_interval"
    and b: "\<And>b. b \<in> set bs \<Longrightarrow> 0 \<le> sint b" "sum_list (sizes bs) < 2 ^ 31"
  shows "\<exists>s' l. stat_server_batching now batch s = Inr s' \<and> bt_ring s' = replicate batching_size 0 \<and> bt_printed s' = bt_printed s @ [l]
    \<and> sint (bl_min l) = Min (insert (2 ^ 31 - 1) (set (sizes bs))) \<and> sint (bl_max l) = Max (insert 0 (set (sizes bs)))
    \<and> bl_avg l = (if sizes bs = [] then None else Some (fl_div (fl_int (sum_list (sizes bs))) (fl_int (int (length (sizes bs))))))"
proof -
  have pos: "0 \<le> sum_list (drop n (sizes bs))" for n
    using b(1) by (intro sum_list_nonneg) (auto simp: sizes_def dest!: in_set_dropD)
  have part: "sum_list (take n (sizes bs)) < 2 ^ 31" for n
    using b(2) pos [of n] sum_list_append [of "take n (sizes bs)" "drop n (sizes bs)"] by simp
  have len: "length (sizes bs) \<le> batching_size" using ring by (simp add: sizes_def) (metis length_filter_le length_list_update)
  obtain mn mx k t where r: "batching_loop bs 0x7FFFFFFF 0 0 0 = Inr (replicate (length bs) 0, mn, mx, k, t)"
    "sint mn = Min (insert (sint (0x7FFFFFFF :: i32)) (set (sizes bs)))" "sint mx = Max (insert 0 (set (sizes bs)))"
    "sint k = int (length (sizes bs))" "sint t = sum_list (sizes bs)"
    using batching_loop_ok [of 0 bs 0 "0x7FFFFFFF" 0] part b(1) len by (auto simp: batching_size_def)
  have "k = 0 \<longleftrightarrow> sizes bs = []" using r(4) by (metis length_0_conv of_nat_eq_0_iff signed_0 signed_word_eqI)
  then show ?thesis using r ring due by (simp add: stat_server_batching_def Let_def)
qed

end
