(* ===== verification/Unbounded_Buffer.thy ===== *)
theory Unbounded_Buffer
  imports Marshal_Interface
begin

text \<open>
  \<open>UnboundedBuffer\<close> of \<open>rpc/buffer.h\<close> and \<open>rpc/buffer.cc\<close>, the implementation of the interface
  \<open>Buffer\<close>. Its fields and the bodies of its functions are those of \<open>Marshal\<close>, statement by statement
  and with the same chunks, so that the definitions here are those of \<open>Marshal\<close> under the names of
  this class. The interface \<open>Buffer\<close> is the locale \<open>byte_queue\<close>. The theory ends with the safety of a
  buffer over its whole life, under any sequence of calls of any of its functions.
\<close>

section \<open>Definitions\<close>

type_synonym unbounded_buffer = marshal

definition UnboundedBuffer_new :: unbounded_buffer where
  "UnboundedBuffer_new = \<lparr>chunks = [], write_cnt = 0, content_size = 0\<rparr>"

definition UnboundedBuffer_delete :: "unbounded_buffer \<Rightarrow> heap \<Rightarrow> heap res" where
  "UnboundedBuffer_delete = Marshal_delete"

definition UnboundedBuffer_content_size_slow :: "heap \<Rightarrow> unbounded_buffer \<Rightarrow> nat res" where
  "UnboundedBuffer_content_size_slow = content_size_slow"

definition UnboundedBuffer_empty :: "heap \<Rightarrow> unbounded_buffer \<Rightarrow> bool res" where
  "UnboundedBuffer_empty h b = rbind (chk_size h b) (\<lambda>_. Inr (content_size b = 0))"

definition UnboundedBuffer_content_size :: "heap \<Rightarrow> unbounded_buffer \<Rightarrow> nat res" where
  "UnboundedBuffer_content_size h b = rbind (chk_size h b) (\<lambda>_. Inr (content_size b))"

definition UnboundedBuffer_write :: "heap \<Rightarrow> unbounded_buffer \<Rightarrow> byte list \<Rightarrow> (nat \<times> unbounded_buffer \<times> heap) res" where
  "UnboundedBuffer_write = Marshal_write"

definition UnboundedBuffer_read :: "heap \<Rightarrow> unbounded_buffer \<Rightarrow> nat \<Rightarrow> (byte list \<times> unbounded_buffer \<times> heap) res" where
  "UnboundedBuffer_read = Marshal_read"

definition UnboundedBuffer_peek :: "heap \<Rightarrow> unbounded_buffer \<Rightarrow> nat \<Rightarrow> byte list res" where
  "UnboundedBuffer_peek = Marshal_peek"

definition UnboundedBuffer_read_from_fd ::
  "heap \<Rightarrow> unbounded_buffer \<Rightarrow> in_fd \<Rightarrow> (nat \<times> unbounded_buffer \<times> heap \<times> in_fd) res" where
  "UnboundedBuffer_read_from_fd = Marshal_read_from_fd"

definition UnboundedBuffer_read_from_marshal ::
  "heap \<Rightarrow> unbounded_buffer \<Rightarrow> unbounded_buffer \<Rightarrow> nat \<Rightarrow> (nat \<times> unbounded_buffer \<times> unbounded_buffer \<times> heap) res" where
  "UnboundedBuffer_read_from_marshal = read_from_marshal"

definition UnboundedBuffer_write_to_fd ::
  "heap \<Rightarrow> unbounded_buffer \<Rightarrow> out_fd \<Rightarrow> (nat \<times> unbounded_buffer \<times> heap \<times> out_fd) res" where
  "UnboundedBuffer_write_to_fd = Marshal_write_to_fd"

definition UnboundedBuffer_set_bookmark :: "heap \<Rightarrow> unbounded_buffer \<Rightarrow> nat \<Rightarrow> (bookmark \<times> unbounded_buffer \<times> heap) res" where
  "UnboundedBuffer_set_bookmark = set_bookmark"

definition UnboundedBuffer_write_bookmark :: "heap \<Rightarrow> bookmark \<Rightarrow> byte list \<Rightarrow> heap res" where
  "UnboundedBuffer_write_bookmark = write_bookmark"

definition UnboundedBuffer_get_and_reset_write_cnt :: "unbounded_buffer \<Rightarrow> i32 \<times> unbounded_buffer" where
  "UnboundedBuffer_get_and_reset_write_cnt b = (write_cnt b, b\<lparr>write_cnt := 0\<rparr>)"

lemmas UnboundedBuffer_defs =
  UnboundedBuffer_delete_def UnboundedBuffer_content_size_slow_def UnboundedBuffer_write_def
  UnboundedBuffer_read_def UnboundedBuffer_peek_def UnboundedBuffer_read_from_fd_def
  UnboundedBuffer_read_from_marshal_def UnboundedBuffer_write_to_fd_def UnboundedBuffer_set_bookmark_def
  UnboundedBuffer_write_bookmark_def

section \<open>The interface \<open>Buffer\<close>\<close>

definition ub_write :: "heap \<times> unbounded_buffer \<Rightarrow> byte list \<Rightarrow> (nat \<times> heap \<times> unbounded_buffer) res" where
  "ub_write s p = rbind (UnboundedBuffer_write (fst s) (snd s) p) (\<lambda>(n, b, h). Inr (n, h, b))"

definition ub_read :: "heap \<times> unbounded_buffer \<Rightarrow> nat \<Rightarrow> (byte list \<times> heap \<times> unbounded_buffer) res" where
  "ub_read s n = rbind (UnboundedBuffer_read (fst s) (snd s) n) (\<lambda>(out, b, h). Inr (out, h, b))"

definition ub_peek :: "heap \<times> unbounded_buffer \<Rightarrow> nat \<Rightarrow> byte list res" where
  "ub_peek s n = UnboundedBuffer_peek (fst s) (snd s) n"

interpretation ubq: byte_queue "\<lambda>s. buf_ok (fst s) (snd s) R" "\<lambda>s. bytes (fst s) (snd s)" ub_write ub_read ub_peek
  for R
proof -
  have "ub_write = wr_op" "ub_read = rd_op" "ub_peek = pk_op"
    by (simp_all add: fun_eq_iff ub_write_def ub_read_def ub_peek_def wr_op_def rd_op_def pk_op_def UnboundedBuffer_defs)
  then show "byte_queue (\<lambda>s. buf_ok (fst s) (snd s) R) (\<lambda>s. bytes (fst s) (snd s)) ub_write ub_read ub_peek"
    using mq.byte_queue_axioms by simp
qed

section \<open>The whole life of a buffer\<close>

text \<open>
  The calls on a buffer: the functions of the class, with the two uses its comments name. \<open>Fill\<close> and
  \<open>Send\<close> are given the state of a descriptor. \<open>Framed pc body\<close> reserves room by a bookmark, writes
  \<open>body\<close> and stores \<open>pc\<close> in front of it. \<open>Chop n\<close> takes at most \<open>n\<close> bytes off into a buffer of their
  own, reads that buffer and deletes it. The answer of a call is the bytes it delivered.
\<close>

datatype call =
    Put "byte list"
  | Get nat
  | Look nat
  | Count
  | Fill in_fd
  | Send out_fd
  | Framed "byte list" "byte list"
  | Chop nat

fun call_step :: "call \<Rightarrow> heap \<times> unbounded_buffer \<Rightarrow> (byte list \<times> heap \<times> unbounded_buffer) res" where
  "call_step (Put p) s = rbind (ub_write s p) (\<lambda>(n, s'). rbind (verify (n = length p)) (\<lambda>_. Inr ([], s')))"
| "call_step (Get n) s = ub_read s n"
| "call_step (Look n) s = rbind (ub_peek s n) (\<lambda>out. Inr (out, s))"
| "call_step Count (h, b) =
     rbind (UnboundedBuffer_content_size h b) (\<lambda>n. rbind (UnboundedBuffer_empty h b) (\<lambda>e.
       rbind (verify (e = (n = 0))) (\<lambda>_. Inr (replicate n 0, h, b))))"
| "call_step (Fill fd) (h, b) = rbind (UnboundedBuffer_read_from_fd h b fd) (\<lambda>(n, b', h', fd'). Inr ([], h', b'))"
| "call_step (Send fd) (h, b) = rbind (UnboundedBuffer_write_to_fd h b fd) (\<lambda>(n, b', h', fd'). Inr (drop (length (tx fd)) (tx fd'), h', b'))"
| "call_step (Framed pc body) (h, b) =
     (let (_, b0) = UnboundedBuffer_get_and_reset_write_cnt b in
      rbind (UnboundedBuffer_set_bookmark h b0 (length pc)) (\<lambda>(bm, b1, h1).
      rbind (UnboundedBuffer_write h1 b1 body) (\<lambda>(n, b2, h2).
      rbind (UnboundedBuffer_write_bookmark h2 bm pc) (\<lambda>h3. Inr ([], h3, b2)))))"
| "call_step (Chop n) (h, b) =
     rbind (UnboundedBuffer_content_size h b) (\<lambda>sz.
     rbind (UnboundedBuffer_read_from_marshal h UnboundedBuffer_new b (min n sz)) (\<lambda>(k, t, b', h').
     rbind (UnboundedBuffer_read h' t k) (\<lambda>(out, t', h'').
     rbind (UnboundedBuffer_delete t' h'') (\<lambda>h3. Inr (out, h3, b')))))"

fun call_steps :: "call list \<Rightarrow> heap \<times> unbounded_buffer \<Rightarrow> (byte list list \<times> heap \<times> unbounded_buffer) res" where
  "call_steps [] s = Inr ([], s)"
| "call_steps (c # cs) s =
     rbind (call_step c s) (\<lambda>(out, s1). rbind (call_steps cs s1) (\<lambda>(outs, s2). Inr (out # outs, s2)))"

text \<open>A call is allowed unless it writes nothing.\<close>

fun call_ok :: "call \<Rightarrow> bool" where
  "call_ok (Put p) \<longleftrightarrow> p \<noteq> []"
| "call_ok (Framed pc body) \<longleftrightarrow> body \<noteq> []"
| "call_ok _ \<longleftrightarrow> True"

text \<open>
  What a call may do to a queue of bytes \<open>q\<close>: its answer is \<open>out\<close> and \<open>q'\<close> is what is left. A
  descriptor may take or give less than was asked for.
\<close>

fun call_spec :: "call \<Rightarrow> byte list \<Rightarrow> byte list \<Rightarrow> byte list \<Rightarrow> bool" where
  "call_spec (Put p) q out q' \<longleftrightarrow> out = [] \<and> q' = q @ p"
| "call_spec (Get n) q out q' \<longleftrightarrow> out = take n q \<and> q' = drop n q"
| "call_spec (Look n) q out q' \<longleftrightarrow> out = take n q \<and> q' = q"
| "call_spec Count q out q' \<longleftrightarrow> length out = length q \<and> q' = q"
| "call_spec (Fill fd) q out q' \<longleftrightarrow> out = [] \<and> (\<exists>got. prefix got (rx fd) \<and> q' = q @ got)"
| "call_spec (Send fd) q out q' \<longleftrightarrow> q = out @ q'"
| "call_spec (Framed pc body) q out q' \<longleftrightarrow> out = [] \<and> q' = q @ pc @ body"
| "call_spec (Chop n) q out q' \<longleftrightarrow> out = take n q \<and> q' = drop n q"

inductive calls_spec :: "call list \<Rightarrow> byte list \<Rightarrow> byte list list \<Rightarrow> byte list \<Rightarrow> bool" where
  no_call: "calls_spec [] q [] q"
| one_call: "call_spec c q out q1 \<Longrightarrow> calls_spec cs q1 outs q2 \<Longrightarrow> calls_spec (c # cs) q (out # outs) q2"

inductive_cases calls_spec_Cons: "calls_spec (c # cs) q outs q'"

lemma buf_ok_reset: "buf_ok h b R \<Longrightarrow> buf_ok h (b\<lparr>write_cnt := 0\<rparr>) R"
  by (simp add: buf_ok_def refs_def wf_marshal_def bytes_def)

lemma bytes_reset [simp]: "bytes h (b\<lparr>write_cnt := 0\<rparr>) = bytes h b"
  by (simp add: bytes_def)

lemma UnboundedBuffer_content_size_wf:
  "buf_ok h b R \<Longrightarrow> UnboundedBuffer_content_size h b = Inr (length (bytes h b))
     \<and> UnboundedBuffer_empty h b = Inr (bytes h b = [])"
  by (simp add: buf_ok_def UnboundedBuffer_content_size_def UnboundedBuffer_empty_def) (simp add: wf_marshal_def)

lemma framed_ok:
  assumes b: "buf_ok h b R" and body: "body \<noteq> []"
  shows "\<exists>h' b'. call_step (Framed pc body) (h, b) = Inr ([], h', b') \<and> buf_ok h' b' R \<and> bytes h' b' = bytes h b @ pc @ body"
proof -
  have "write_cnt (b\<lparr>write_cnt := 0\<rparr>) = 0" by simp
  from bookmark_patches_header [OF buf_ok_reset [OF b] this body refl, of pc] show ?thesis
    by (auto simp: UnboundedBuffer_get_and_reset_write_cnt_def UnboundedBuffer_defs)
qed

lemma chop_ok:
  assumes b: "buf_ok h b R"
  shows "\<exists>h' b'. call_step (Chop n) (h, b) = Inr (take n (bytes h b), h', b') \<and> buf_ok h' b' R \<and> bytes h' b' = drop n (bytes h b)"
proof -
  let ?k = "min n (length (bytes h b))"
  have new: "UnboundedBuffer_new = Marshal_new" by (simp add: UnboundedBuffer_new_def Marshal_new_def)
  have p: "heap_ok h (refs Marshal_new + (refs b + R))" "wf_marshal h Marshal_new" "wf_marshal h b" "disjoint_bufs Marshal_new b"
    "bytes h Marshal_new = []" "chunks Marshal_new = []"
    using b by (simp_all add: buf_ok_def Marshal_new_def refs_def wf_marshal_def bytes_def disjoint_bufs_def)
  obtain t b' h1 where mv: "read_from_marshal h Marshal_new b ?k = Inr (?k, t, b', h1)" "moves R h Marshal_new b ?k h1 t b'"
    using read_from_marshal_ok [OF p(1-4), of ?k] p(6) by auto
  then have t: "buf_ok h1 t (refs b' + R)" "bytes h1 t = take n (bytes h b)" "wf_marshal h1 b'" "bytes h1 b' = drop n (bytes h b)"
    using p(5) by (simp_all add: moves_def buf_ok_def ac_simps drop_min_length min_def)
  obtain t' h2 where r: "Marshal_read h1 t ?k = Inr (take ?k (bytes h1 t), t', h2)" "consumes (refs b' + R) h1 t (min ?k (length (bytes h1 t))) h2 t'"
    using Marshal_read_ok [OF t(1), of ?k] by blast
  then have "buf_ok h2 t' (refs b' + R)" "same_buf h1 h2 b'" by (simp_all add: consumes_def)
  moreover from this(1) obtain h3 where d: "Marshal_delete t' h2 = Inr h3" "heap_ok h3 (refs b' + R)"
    "\<forall>c. set_mset (refs c) \<subseteq> set_mset (refs b' + R) \<longrightarrow> same_buf h2 h3 c" using Marshal_delete_ok by blast
  ultimately have "same_buf h1 h3 b'" using same_buf_trans by auto
  then have "wf_marshal h3 b'" "bytes h3 b' = drop n (bytes h b)" using t(3,4) same_buf_view(1,2) by auto
  moreover have "call_step (Chop n) (h, b) = Inr (take n (bytes h b), h3, b')"
    using UnboundedBuffer_content_size_wf [OF b] mv(1) r(1) d(1) t(2) by (simp add: UnboundedBuffer_defs new min_def)
  ultimately show ?thesis using d(2) by (auto simp: buf_ok_def)
qed

lemma call_step_ok:
  assumes b: "buf_ok h b R" and c: "call_ok c"
  shows "\<exists>out h' b'. call_step c (h, b) = Inr (out, h', b') \<and> buf_ok h' b' R \<and> call_spec c (bytes h b) out (bytes h' b')"
proof (cases c)
  case (Put p)
  with ubq.wr [of "(h, b)" R p] b c show ?thesis by fastforce
next
  case (Get n)
  with ubq.rd [of "(h, b)" R n] b show ?thesis by fastforce
next
  case (Look n)
  with ubq.pk [of "(h, b)" R n] b show ?thesis by simp
next
  case Count
  with UnboundedBuffer_content_size_wf [OF b] b show ?thesis by simp
next
  case (Fill fd)
  with Marshal_read_from_fd_ok [OF b, of fd] show ?thesis
    by (fastforce simp: UnboundedBuffer_defs appends_def)
next
  case (Send fd)
  from Marshal_write_to_fd_ok [OF b, of fd] obtain k m' h' fd' where
    "Marshal_write_to_fd h b fd = Inr (k, m', h', fd')" "consumes R h b k h' m'" "tx fd' = tx fd @ take k (bytes h b)" by blast
  with Send show ?thesis by (simp add: UnboundedBuffer_defs consumes_def)
next
  case (Framed pc body)
  with framed_ok [OF b, of body pc] c show ?thesis by auto
next
  case (Chop n)
  with chop_ok [OF b, of n] show ?thesis by auto
qed

lemma call_steps_ok:
  assumes "buf_ok h b R" "\<forall>c \<in> set cs. call_ok c"
  shows "\<exists>outs h' b'. call_steps cs (h, b) = Inr (outs, h', b') \<and> buf_ok h' b' R \<and> calls_spec cs (bytes h b) outs (bytes h' b')"
  using assms
proof (induction cs arbitrary: h b)
  case Nil
  then show ?case by (simp add: no_call)
next
  case (Cons c cs)
  obtain out h1 b1 where c: "call_step c (h, b) = Inr (out, h1, b1)" "buf_ok h1 b1 R" "call_spec c (bytes h b) out (bytes h1 b1)"
    using call_step_ok [OF Cons.prems(1), of c] Cons.prems(2) by auto
  obtain outs h2 b2 where cs: "call_steps cs (h1, b1) = Inr (outs, h2, b2)" "buf_ok h2 b2 R" "calls_spec cs (bytes h1 b1) outs (bytes h2 b2)"
    using Cons.IH [OF c(2)] Cons.prems(2) by auto
  show ?case using c cs one_call [OF c(3) cs(3)] by auto
qed

section \<open>Properties\<close>



end
