(* ===== verification/Py_Marshal.thy ===== *)
theory Py_Marshal
  imports Marshal_Codec
begin

text \<open>
  The part of the Python extension (\<open>pylib/simplerpc/_pyrpc.cc\<close>) that gives Python programs the
  class \<open>Marshal\<close>: objects created and deleted by hand and named by their address, and one function
  per type that goes over the wire. What \<open>PyArg_ParseTuple\<close> stored is an argument of each function,
  \<open>None\<close> when it refused the arguments; what is handed to \<open>Py_BuildValue\<close> is the result, \<open>None\<close> for
  the null pointer that makes Python raise. The global interpreter lock, which every function holds
  from its first to its last statement, makes each of them one step.
\<close>

section \<open>Definitions\<close>

type_synonym mid = nat
type_synonym mstore = "mid \<Rightarrow> marshal option"
type_synonym mworld = "heap \<times> mstore"

text \<open>The values the extension builds, by the format it builds them with.\<close>

datatype pyvalue =
    PyNone
  | Py_k nat
  | Py_i i32
  | Py_l i64
  | Py_L i64
  | Py_d "64 word"
  | Py_O "byte list"
  | Py_ik i32 nat

type_synonym pyresult = "pyvalue option"

text \<open>\<open>(Marshal *) u\<close>: an address at which no object lives, null or deleted, cannot be used.\<close>

definition mptr :: "mid \<Rightarrow> mstore \<Rightarrow> marshal res" where
  "mptr u ms = (case ms u of None \<Rightarrow> Inl UseAfterFree | Some m \<Rightarrow> Inr m)"

definition py_put :: "'a put \<Rightarrow> mid \<Rightarrow> 'a \<Rightarrow> mworld \<Rightarrow> (pyresult \<times> mworld) res" where
  "py_put put u v w = rbind (mptr u (snd w)) (\<lambda>m.
     rbind (put (fst w) m v) (\<lambda>(m', h'). Inr (Some PyNone, h', (snd w)(u \<mapsto> m'))))"

definition py_get :: "'a get \<Rightarrow> ('a \<Rightarrow> pyvalue) \<Rightarrow> mid \<Rightarrow> mworld \<Rightarrow> (pyresult \<times> mworld) res" where
  "py_get get build u w = rbind (mptr u (snd w)) (\<lambda>m.
     rbind (get (fst w) m) (\<lambda>(v, m', h'). Inr (Some (build v), h', (snd w)(u \<mapsto> m'))))"

text \<open>\<open>a\<close> is the address \<open>new\<close> gave.\<close>

definition pyrpc_init_marshal :: "mid \<Rightarrow> mworld \<Rightarrow> (pyresult \<times> mworld) res" where
  "pyrpc_init_marshal a w = Inr (Some (Py_k a), fst w, (snd w)(a \<mapsto> Marshal_new))"

definition pyrpc_fini_marshal :: "mid option \<Rightarrow> mworld \<Rightarrow> (pyresult \<times> mworld) res" where
  "pyrpc_fini_marshal args w = (case args of
       None \<Rightarrow> Inr (None, w)
     | Some u \<Rightarrow>
         rbind (mptr u (snd w)) (\<lambda>m.
         rbind (Marshal_delete m (fst w)) (\<lambda>h.
           Inr (Some PyNone, h, (snd w)(u := None)))))"

definition pyrpc_marshal_size :: "mid option \<Rightarrow> mworld \<Rightarrow> (pyresult \<times> mworld) res" where
  "pyrpc_marshal_size args w = (case args of
       None \<Rightarrow> Inr (None, w)
     | Some u \<Rightarrow>
         rbind (mptr u (snd w)) (\<lambda>m.
         rbind (Marshal_content_size (fst w) m) (\<lambda>n. Inr (Some (Py_k n), w))))"

text \<open>A \<open>long\<close> is cut to the width of the type it is written as, and widened with its sign when read.\<close>

definition pyrpc_marshal_write_i8 :: "(mid \<times> i64) option \<Rightarrow> mworld \<Rightarrow> (pyresult \<times> mworld) res" where
  "pyrpc_marshal_write_i8 args w = (case args of
       None \<Rightarrow> Inr (None, w)
     | Some (u, vl) \<Rightarrow> let v = ucast vl :: i8 in py_put put_i8 u v w)"

definition pyrpc_marshal_read_i8 :: "mid option \<Rightarrow> mworld \<Rightarrow> (pyresult \<times> mworld) res" where
  "pyrpc_marshal_read_i8 args w = (case args of
       None \<Rightarrow> Inr (None, w)
     | Some u \<Rightarrow> py_get get_i8 (\<lambda>v. let vl = scast v in Py_l vl) u w)"

definition pyrpc_marshal_write_i16 :: "(mid \<times> i64) option \<Rightarrow> mworld \<Rightarrow> (pyresult \<times> mworld) res" where
  "pyrpc_marshal_write_i16 args w = (case args of
       None \<Rightarrow> Inr (None, w)
     | Some (u, vl) \<Rightarrow> let v = ucast vl :: i16 in py_put put_i16 u v w)"

definition pyrpc_marshal_read_i16 :: "mid option \<Rightarrow> mworld \<Rightarrow> (pyresult \<times> mworld) res" where
  "pyrpc_marshal_read_i16 args w = (case args of
       None \<Rightarrow> Inr (None, w)
     | Some u \<Rightarrow> py_get get_i16 (\<lambda>v. let vl = scast v in Py_l vl) u w)"

definition pyrpc_marshal_write_i32 :: "(mid \<times> i64) option \<Rightarrow> mworld \<Rightarrow> (pyresult \<times> mworld) res" where
  "pyrpc_marshal_write_i32 args w = (case args of
       None \<Rightarrow> Inr (None, w)
     | Some (u, vl) \<Rightarrow> let v = ucast vl :: i32 in py_put put_i32 u v w)"

definition pyrpc_marshal_read_i32 :: "mid option \<Rightarrow> mworld \<Rightarrow> (pyresult \<times> mworld) res" where
  "pyrpc_marshal_read_i32 args w = (case args of
       None \<Rightarrow> Inr (None, w)
     | Some u \<Rightarrow> py_get get_i32 (\<lambda>v. let vl = scast v in Py_l vl) u w)"

definition pyrpc_marshal_write_i64 :: "(mid \<times> i64) option \<Rightarrow> mworld \<Rightarrow> (pyresult \<times> mworld) res" where
  "pyrpc_marshal_write_i64 args w = (case args of
       None \<Rightarrow> Inr (None, w)
     | Some (u, vll) \<Rightarrow> py_put put_i64 u vll w)"

definition pyrpc_marshal_read_i64 :: "mid option \<Rightarrow> mworld \<Rightarrow> (pyresult \<times> mworld) res" where
  "pyrpc_marshal_read_i64 args w = (case args of
       None \<Rightarrow> Inr (None, w)
     | Some u \<Rightarrow> py_get get_i64 Py_L u w)"

text \<open>\<open>rpc::v32 v = vll\<close> converts to the 32 bits of the constructor's argument.\<close>

definition pyrpc_marshal_write_v32 :: "(mid \<times> i64) option \<Rightarrow> mworld \<Rightarrow> (pyresult \<times> mworld) res" where
  "pyrpc_marshal_write_v32 args w = (case args of
       None \<Rightarrow> Inr (None, w)
     | Some (u, vll) \<Rightarrow> let v = ucast vll :: i32 in py_put put_v32 u v w)"

definition pyrpc_marshal_read_v32 :: "mid option \<Rightarrow> mworld \<Rightarrow> (pyresult \<times> mworld) res" where
  "pyrpc_marshal_read_v32 args w = (case args of
       None \<Rightarrow> Inr (None, w)
     | Some u \<Rightarrow> py_get get_v32 (\<lambda>v. let vll = scast v in Py_L vll) u w)"

definition pyrpc_marshal_write_v64 :: "(mid \<times> i64) option \<Rightarrow> mworld \<Rightarrow> (pyresult \<times> mworld) res" where
  "pyrpc_marshal_write_v64 args w = (case args of
       None \<Rightarrow> Inr (None, w)
     | Some (u, vll) \<Rightarrow> py_put put_v64 u vll w)"

definition pyrpc_marshal_read_v64 :: "mid option \<Rightarrow> mworld \<Rightarrow> (pyresult \<times> mworld) res" where
  "pyrpc_marshal_read_v64 args w = (case args of
       None \<Rightarrow> Inr (None, w)
     | Some u \<Rightarrow> py_get get_v64 Py_L u w)"

definition pyrpc_marshal_write_double :: "(mid \<times> 64 word) option \<Rightarrow> mworld \<Rightarrow> (pyresult \<times> mworld) res" where
  "pyrpc_marshal_write_double args w = (case args of
       None \<Rightarrow> Inr (None, w)
     | Some (u, dbl) \<Rightarrow> py_put put_double u dbl w)"

definition pyrpc_marshal_read_double :: "mid option \<Rightarrow> mworld \<Rightarrow> (pyresult \<times> mworld) res" where
  "pyrpc_marshal_read_double args w = (case args of
       None \<Rightarrow> Inr (None, w)
     | Some u \<Rightarrow> py_get get_double Py_d u w)"

text \<open>
  The object may be any: \<open>PyString_AsString\<close> gives a null pointer (here \<open>None\<close>) for one that is not
  a string, which the constructor of \<open>std::string\<close> then reads from.
\<close>

definition pyrpc_marshal_write_str :: "(mid \<times> byte list option) option \<Rightarrow> mworld \<Rightarrow> (pyresult \<times> mworld) res" where
  "pyrpc_marshal_write_str args w = (case args of
       None \<Rightarrow> Inr (None, w)
     | Some (u, None) \<Rightarrow> Inl NullDeref
     | Some (u, Some str) \<Rightarrow> py_put put_string u str w)"

definition pyrpc_marshal_read_str :: "mid option \<Rightarrow> mworld \<Rightarrow> (pyresult \<times> mworld) res" where
  "pyrpc_marshal_read_str args w = (case args of
       None \<Rightarrow> Inr (None, w)
     | Some u \<Rightarrow> py_get get_string Py_O u w)"

section \<open>Objects that Python programs write and read\<close>

text \<open>
  A value together with the type it is written as: what \<open>write_obj\<close> and \<open>read_obj\<close> of
  \<open>pylib/simplerpc/marshal.py\<close> choose the functions above by.
\<close>

datatype ity = T_i8 | T_i16 | T_i32 | T_i64 | T_v32 | T_v64 | T_double | T_str

datatype item =
    Item_i8 i64 | Item_i16 i64 | Item_i32 i64 | Item_i64 i64 | Item_v32 i64 | Item_v64 i64
  | Item_double "64 word" | Item_str "byte list"

fun write_item :: "mid \<Rightarrow> item \<Rightarrow> mworld \<Rightarrow> (pyresult \<times> mworld) res" where
  "write_item u (Item_i8 v) w = pyrpc_marshal_write_i8 (Some (u, v)) w"
| "write_item u (Item_i16 v) w = pyrpc_marshal_write_i16 (Some (u, v)) w"
| "write_item u (Item_i32 v) w = pyrpc_marshal_write_i32 (Some (u, v)) w"
| "write_item u (Item_i64 v) w = pyrpc_marshal_write_i64 (Some (u, v)) w"
| "write_item u (Item_v32 v) w = pyrpc_marshal_write_v32 (Some (u, v)) w"
| "write_item u (Item_v64 v) w = pyrpc_marshal_write_v64 (Some (u, v)) w"
| "write_item u (Item_double d) w = pyrpc_marshal_write_double (Some (u, d)) w"
| "write_item u (Item_str b) w = pyrpc_marshal_write_str (Some (u, Some b)) w"

fun read_item :: "mid \<Rightarrow> ity \<Rightarrow> mworld \<Rightarrow> (pyresult \<times> mworld) res" where
  "read_item u T_i8 w = pyrpc_marshal_read_i8 (Some u) w"
| "read_item u T_i16 w = pyrpc_marshal_read_i16 (Some u) w"
| "read_item u T_i32 w = pyrpc_marshal_read_i32 (Some u) w"
| "read_item u T_i64 w = pyrpc_marshal_read_i64 (Some u) w"
| "read_item u T_v32 w = pyrpc_marshal_read_v32 (Some u) w"
| "read_item u T_v64 w = pyrpc_marshal_read_v64 (Some u) w"
| "read_item u T_double w = pyrpc_marshal_read_double (Some u) w"
| "read_item u T_str w = pyrpc_marshal_read_str (Some u) w"

fun item_type :: "item \<Rightarrow> ity" where
  "item_type (Item_i8 _) = T_i8"
| "item_type (Item_i16 _) = T_i16"
| "item_type (Item_i32 _) = T_i32"
| "item_type (Item_i64 _) = T_i64"
| "item_type (Item_v32 _) = T_v32"
| "item_type (Item_v64 _) = T_v64"
| "item_type (Item_double _) = T_double"
| "item_type (Item_str _) = T_str"

fun over_items :: "('a \<Rightarrow> mworld \<Rightarrow> (pyresult \<times> mworld) res) \<Rightarrow> 'a list \<Rightarrow> mworld \<Rightarrow> (pyresult list \<times> mworld) res" where
  "over_items f [] w = Inr ([], w)"
| "over_items f (x # xs) w = rbind (f x w) (\<lambda>(r, w1). rbind (over_items f xs w1) (\<lambda>(rs, w2). Inr (r # rs, w2)))"

text \<open>What comes back: the integer that the low bits of the argument stand for, \<open>w\<close> bits wide.\<close>

definition fitted :: "nat \<Rightarrow> i64 \<Rightarrow> i64" where
  "fitted w v = word_of_int (signed_take_bit (w - 1) (sint v))"

fun item_back :: "item \<Rightarrow> pyvalue" where
  "item_back (Item_i8 v) = Py_l (fitted 8 v)"
| "item_back (Item_i16 v) = Py_l (fitted 16 v)"
| "item_back (Item_i32 v) = Py_l (fitted 32 v)"
| "item_back (Item_i64 v) = Py_L v"
| "item_back (Item_v32 v) = Py_L (fitted 32 v)"
| "item_back (Item_v64 v) = Py_L v"
| "item_back (Item_double d) = Py_d d"
| "item_back (Item_str b) = Py_O b"

text \<open>The 64-bit sparse integers of eight bytes do not survive, and strings stay below 2 GiB.\<close>

fun item_ok :: "item \<Rightarrow> bool" where
  "item_ok (Item_v64 v) = long_enough v"
| "item_ok (Item_str b) = short_len (length b)"
| "item_ok _ = True"

fun enc_item :: "item \<Rightarrow> byte list" where
  "enc_item (Item_i8 v) = to_le 1 (ucast v :: i8)"
| "enc_item (Item_i16 v) = to_le 2 (ucast v :: i16)"
| "enc_item (Item_i32 v) = to_le 4 (ucast v :: i32)"
| "enc_item (Item_i64 v) = to_le 8 v"
| "enc_item (Item_v32 v) = enc_v32 (ucast v)"
| "enc_item (Item_v64 v) = enc_v64 v"
| "enc_item (Item_double d) = to_le 8 d"
| "enc_item (Item_str b) = enc_string b"

lemma fitted_cast:
  fixes v :: i64
  assumes "LENGTH('a::len) < 64"
  shows "scast (ucast v :: 'a word) = fitted (LENGTH('a)) v"
proof (rule bit_word_eqI)
  fix n assume "n < LENGTH(64)"
  with assms show "bit (scast (ucast v :: 'a word) :: i64) n \<longleftrightarrow> bit (fitted (LENGTH('a)) v) n"
    by (auto simp: fitted_def bit_simps min_def)
qed

lemma fitted_self:
  assumes "0 < n" "n \<le> 64" "- (2 ^ (n - 1)) \<le> sint v" "sint v < 2 ^ (n - 1)"
  shows "fitted n v = v"
  using assms by (simp add: fitted_def signed_take_bit_int_eq_self)

lemma mptr_Some [simp]: "ms u = Some m \<Longrightarrow> mptr u ms = Inr m"
  by (simp add: mptr_def)

lemma mptr_None [simp]: "ms u = None \<Longrightarrow> mptr u ms = Inl UseAfterFree"
  by (simp add: mptr_def)

lemma mptr_upd_idem: "mptr u ms = Inr m \<Longrightarrow> ms(u \<mapsto> m) = ms"
  by (auto simp: mptr_def fun_eq_iff split: option.splits)

section \<open>One value\<close>

text \<open>A codec gives a pair of functions of the extension.\<close>

context codec
begin

lemma py_put_ok:
  assumes "mptr u ms = Inr m" "buf_ok h m R" "valid v"
  shows "\<exists>m' h'. py_put put u v (h, ms) = Inr (Some PyNone, h', ms(u \<mapsto> m')) \<and> puts R h m (enc v) h' m'"
  using put_ok [OF assms(2,3)] assms(1) by (auto simp: py_put_def)

lemma py_get_ok:
  assumes "mptr u ms = Inr m" "buf_ok h m R" "valid v" "prefix (enc v) (bytes h m)"
  shows "\<exists>m' h'. py_get get build u (h, ms) = Inr (Some (build v), h', ms(u \<mapsto> m'))
    \<and> consumes R h m (length (enc v)) h' m'"
  using get_ok [OF assms(2-4)] assms(1) by (auto simp: py_get_def)

lemma py_get_cut:
  assumes "mptr u ms = Inr m" "buf_ok h m R" "valid v" "strict_prefix (bytes h m) (enc v)"
  shows "py_get get build u (h, ms) = Inl VerifyFailed"
  using get_cut [OF assms(2-4)] assms(1) by (simp add: py_get_def)

end

lemmas write_defs = pyrpc_marshal_write_i8_def pyrpc_marshal_write_i16_def pyrpc_marshal_write_i32_def
  pyrpc_marshal_write_i64_def pyrpc_marshal_write_v32_def pyrpc_marshal_write_v64_def
  pyrpc_marshal_write_double_def pyrpc_marshal_write_str_def

lemmas read_defs = pyrpc_marshal_read_i8_def pyrpc_marshal_read_i16_def pyrpc_marshal_read_i32_def
  pyrpc_marshal_read_i64_def pyrpc_marshal_read_v32_def pyrpc_marshal_read_v64_def
  pyrpc_marshal_read_double_def pyrpc_marshal_read_str_def

lemma write_item_ok:
  assumes "mptr u ms = Inr m" "buf_ok h m R" "item_ok x"
  shows "\<exists>m' h'. write_item u x (h, ms) = Inr (Some PyNone, h', ms(u \<mapsto> m')) \<and> puts R h m (enc_item x) h' m'"
  using assms(3) i8.py_put_ok [OF assms(1,2)] i16.py_put_ok [OF assms(1,2)] i32.py_put_ok [OF assms(1,2)]
    i64.py_put_ok [OF assms(1,2)] v32.py_put_ok [OF assms(1,2)] v64.py_put_ok [OF assms(1,2)]
    double.py_put_ok [OF assms(1,2)] str.py_put_ok [OF assms(1,2)]
  by (cases x) (simp_all add: write_defs)

lemma read_item_ok:
  assumes "mptr u ms = Inr m" "buf_ok h m R" "item_ok x" "prefix (enc_item x) (bytes h m)"
  shows "\<exists>m' h'. read_item u (item_type x) (h, ms) = Inr (Some (item_back x), h', ms(u \<mapsto> m'))
    \<and> consumes R h m (length (enc_item x)) h' m'"
proof (cases x)
  case (Item_i8 v)
  then show ?thesis using i8.py_get_ok [OF assms(1,2), of "ucast v" "\<lambda>v. Py_l (scast v)"] assms(3,4) by (simp add: read_defs fitted_cast)
next
  case (Item_i16 v)
  then show ?thesis using i16.py_get_ok [OF assms(1,2), of "ucast v" "\<lambda>v. Py_l (scast v)"] assms(3,4) by (simp add: read_defs fitted_cast)
next
  case (Item_i32 v)
  then show ?thesis using i32.py_get_ok [OF assms(1,2), of "ucast v" "\<lambda>v. Py_l (scast v)"] assms(3,4) by (simp add: read_defs fitted_cast)
next
  case (Item_i64 v)
  then show ?thesis using i64.py_get_ok [OF assms(1,2), of v Py_L] assms(3,4) by (simp add: read_defs fitted_cast)
next
  case (Item_v32 v)
  then show ?thesis using v32.py_get_ok [OF assms(1,2), of "ucast v" "\<lambda>v. Py_L (scast v)"] assms(3,4) by (simp add: read_defs fitted_cast)
next
  case (Item_v64 v)
  then show ?thesis using v64.py_get_ok [OF assms(1,2), of v Py_L] assms(3,4) by (simp add: read_defs fitted_cast)
next
  case (Item_double v)
  then show ?thesis using double.py_get_ok [OF assms(1,2), of v Py_d] assms(3,4) by (simp add: read_defs fitted_cast)
next
  case (Item_str v)
  then show ?thesis using str.py_get_ok [OF assms(1,2), of v Py_O] assms(3,4) by (simp add: read_defs fitted_cast)
qed

lemma read_item_cut:
  assumes "mptr u ms = Inr m" "buf_ok h m R" "item_ok x" "strict_prefix (bytes h m) (enc_item x)"
  shows "read_item u (item_type x) (h, ms) = Inl VerifyFailed"
  using assms(3,4) i8.py_get_cut [OF assms(1,2)] i16.py_get_cut [OF assms(1,2)] i32.py_get_cut [OF assms(1,2)]
    i64.py_get_cut [OF assms(1,2)] v32.py_get_cut [OF assms(1,2)] v64.py_get_cut [OF assms(1,2)]
    double.py_get_cut [OF assms(1,2)] str.py_get_cut [OF assms(1,2)]
  by (cases x) (simp_all add: read_defs)

section \<open>Several values\<close>

definition enc_items :: "item list \<Rightarrow> byte list" where
  "enc_items xs = concat (map enc_item xs)"

lemma enc_items_simps [simp]: "enc_items [] = []" "enc_items (x # xs) = enc_item x @ enc_items xs"
  by (simp_all add: enc_items_def)

lemma write_items_ok:
  assumes "mptr u ms = Inr m" "buf_ok h m R" "\<forall>x \<in> set xs. item_ok x"
  shows "\<exists>m' h'. over_items (write_item u) xs (h, ms) = Inr (map (\<lambda>_. Some PyNone) xs, h', ms(u \<mapsto> m'))
    \<and> puts R h m (enc_items xs) h' m'"
  using assms
proof (induction xs arbitrary: h m ms)
  case Nil
  then have "ms(u \<mapsto> m) = ms" by (simp add: mptr_upd_idem)
  with puts_refl [OF Nil.prems(2)] show ?case by (metis enc_items_simps(1) list.simps(8) over_items.simps(1))
next
  case (Cons x xs)
  have x: "item_ok x" "\<forall>x \<in> set xs. item_ok x" using Cons.prems(3) by simp_all
  obtain m1 h1 where w: "write_item u x (h, ms) = Inr (Some PyNone, h1, ms(u \<mapsto> m1))" "puts R h m (enc_item x) h1 m1"
    using write_item_ok [OF Cons.prems(1,2) x(1)] by blast
  have u: "mptr u (ms(u \<mapsto> m1)) = Inr m1" by simp
  obtain m2 h2 where r: "over_items (write_item u) xs (h1, ms(u \<mapsto> m1)) = Inr (map (\<lambda>_. Some PyNone) xs, h2, ms(u \<mapsto> m2))"
    "puts R h1 m1 (enc_items xs) h2 m2"
    using Cons.IH [OF u puts_buf_ok [OF w(2)] x(2)] unfolding fun_upd_upd by (elim exE conjE) (rule that)
  with w(1) puts_trans [OF w(2) r(2)] show ?case by (simp del: fun_upd_apply) blast
qed

lemma read_items_ok:
  assumes "mptr u ms = Inr m" "buf_ok h m R" "\<forall>x \<in> set xs. item_ok x" "bytes h m = enc_items xs @ rest"
  shows "\<exists>m' h'. over_items (read_item u) (map item_type xs) (h, ms) = Inr (map (\<lambda>x. Some (item_back x)) xs, h', ms(u \<mapsto> m'))
    \<and> consumes R h m (length (enc_items xs)) h' m'"
  using assms
proof (induction xs arbitrary: h m ms)
  case Nil
  then have "over_items (read_item u) (map item_type []) (h, ms) = Inr (map (\<lambda>x. Some (item_back x)) [], h, ms(u \<mapsto> m))"
    by (simp add: mptr_upd_idem)
  moreover have "consumes R h m (length (enc_items [])) h m" using consumes_refl [OF Nil.prems(2)] by simp
  ultimately show ?case by blast
next
  case (Cons x xs)
  have x: "item_ok x" "\<forall>x \<in> set xs. item_ok x" "prefix (enc_item x) (bytes h m)" using Cons.prems(3,4) by simp_all
  obtain m1 h1 where w: "read_item u (item_type x) (h, ms) = Inr (Some (item_back x), h1, ms(u \<mapsto> m1))"
    "consumes R h m (length (enc_item x)) h1 m1"
    using read_item_ok [OF Cons.prems(1,2) x(1,3)] by blast
  have u: "mptr u (ms(u \<mapsto> m1)) = Inr m1" "bytes h1 m1 = enc_items xs @ rest" "buf_ok h1 m1 R"
    using consumes_buf_ok [OF w(2)] Cons.prems(4) by simp_all
  obtain m2 h2 where r: "over_items (read_item u) (map item_type xs) (h1, ms(u \<mapsto> m1)) = Inr (map (\<lambda>x. Some (item_back x)) xs, h2, ms(u \<mapsto> m2))"
    "consumes R h1 m1 (length (enc_items xs)) h2 m2"
    using Cons.IH [OF u(1,3) x(2) u(2)] unfolding fun_upd_upd by (elim exE conjE) (rule that)
  with w(1) consumes_trans [OF w(2) r(2)] show ?case by (simp del: fun_upd_apply) blast
qed

section \<open>Properties\<close>


lemma demo_fitted: "fitted 8 200 = - 56" "fitted 32 (- 5) = - 5"
  by (simp_all add: fitted_def)


text \<open>
  Misuse of a Python \<open>Marshal\<close>. Reading a value of which only a part is there stops the whole
  process instead of raising, and so does writing an object that is no string as one; every use of a
  deleted object, deleting it again included, uses freed memory.
\<close>

theorem python_marshal_misuse:
  assumes "ms u = Some m" and "buf_ok h m R" and "item_ok x"
  shows "(strict_prefix (bytes h m) (enc_item x) \<longrightarrow> read_item u (item_type x) (h, ms) = Inl VerifyFailed)
    \<and> pyrpc_marshal_write_str (Some (u, None)) (h, ms) = Inl NullDeref
    \<and> (\<exists>h'. pyrpc_fini_marshal (Some u) (h, ms) = Inr (Some PyNone, h', ms(u := None))
        \<and> pyrpc_fini_marshal (Some u) (h', ms(u := None)) = Inl UseAfterFree
        \<and> pyrpc_marshal_size (Some u) (h', ms(u := None)) = Inl UseAfterFree
        \<and> read_item u (item_type x) (h', ms(u := None)) = Inl UseAfterFree \<and> write_item u x (h', ms(u := None)) = Inl UseAfterFree)"
proof -
  have gone: "read_item u (item_type x) (h', ms(u := None)) = Inl UseAfterFree" "write_item u x (h', ms(u := None)) = Inl UseAfterFree" for h'
    by (cases x; simp add: read_defs write_defs py_get_def py_put_def)+
  have p: "mptr u ms = Inr m" using assms(1) by simp
  show ?thesis
    using Marshal_delete_ok [OF assms(2)] read_item_cut [OF p assms(2,3)] gone p
    by (auto simp: pyrpc_fini_marshal_def pyrpc_marshal_size_def write_defs)
qed

theorem python_marshal_misuse_witness:
  "read_item 9 T_i64 (demo_heap, [9 \<mapsto> demo_buf]) = Inl VerifyFailed"
proof -
  have "strict_prefix (bytes demo_heap demo_buf) (enc_item (Item_i64 0x0D0C0B))"
    unfolding demo_bytes by (simp add: to_le_def upt_rec byte_at_def strict_prefix_def)
  then show ?thesis using python_marshal_misuse [where ms = "[9 \<mapsto> demo_buf]" and u = 9 and x = "Item_i64 0x0D0C0B", OF _ demo_ok] by simp
qed

end
