(* ===== verification/Marshal_Transfer.thy ===== *)
theory Marshal_Transfer
  imports Rpc_Message
begin

text \<open>
  A message whose body is taken from another buffer (\<open>Client::operator<<(Marshal&)\<close>,
  \<open>ServerConnection::write_marshal\<close>), as the Python extension sends all its messages: the arrays of
  the source are shared, not copied, so that the last of them belongs to both buffers until the
  source is deleted. Source, size field and deletion together are as good as writing the bytes.
\<close>

lemma disjoint_refs: "set_mset (refs m) \<inter> set_mset R = {} \<Longrightarrow> set_mset (refs b) \<subseteq> set_mset R \<Longrightarrow> disjoint_bufs m b"
  unfolding disjoint_bufs_def set_mset_refs by blast

lemma empty_locs: "wf_marshal h m \<Longrightarrow> bytes h m = [] \<Longrightarrow> locs m = []"
  using length_clocs [of h "chunks m"] by (simp add: locs_def bytes_def wf_marshal_def)

text \<open>The last steps: the size is filled in, and what is left of the source is deleted.\<close>

lemma transfer_end_ok:
  assumes mv: "moves R h t m (length (bytes h m)) h3 t3 m3"
    and l: "locs t = xs @ bm_ptr bm @ ys" and sz: "bm_size bm = 4" "length (bm_ptr bm) = 4"
    and b: "bytes h t = pre @ got @ body" "length pre = length xs" "length got = 4" and w: "write_cnt t = of_nat (length body)"
  shows "\<exists>h4 h5. end_message h3 t3 (Some bm) = Inr (t3\<lparr>write_cnt := 0\<rparr>, h4) \<and> Marshal_delete m3 h4 = Inr h5
    \<and> buf_ok h5 (t3\<lparr>write_cnt := 0\<rparr>) R \<and> bytes h5 (t3\<lparr>write_cnt := 0\<rparr>) = pre @ packet (body @ bytes h m)
    \<and> (\<forall>b. wf_marshal h3 b \<and> disjoint_bufs t3 b \<and> set_mset (refs b) \<subseteq> set_mset R \<longrightarrow>
          wf_marshal h5 b \<and> bytes h5 b = bytes h3 b)"
proof -
  let ?t4 = "t3\<lparr>write_cnt := 0\<rparr>"
  have ok3: "buf_ok h3 t3 (refs m3 + R)" "wf_marshal h3 m3" "bytes h3 m3 = []"
    using mv by (simp_all add: moves_def buf_ok_def)
  obtain zs where "locs t3 = locs t @ zs" using mv by (auto simp: moves_def prefix_def)
  then have l3: "locs t3 = xs @ bm_ptr bm @ (ys @ zs)" by (simp add: l)
  have b3: "bytes h3 t3 = pre @ got @ (body @ bytes h m)" using mv by (simp add: moves_def b(1))
  have w3: "write_cnt t3 = of_nat (length (body @ bytes h m))" using mv w by (simp add: moves_def)
  obtain h4 where h4: "end_message h3 t3 (Some bm) = Inr (?t4, h4)" "buf_ok h4 ?t4 (refs m3 + R)"
    "bytes h4 ?t4 = pre @ packet (body @ bytes h m)"
    "\<And>b. wf_marshal h3 b \<Longrightarrow> set (locs b) \<inter> set (bm_ptr bm) = {} \<Longrightarrow> wf_marshal h4 b \<and> bytes h4 b = bytes h3 b"
    using end_message_ok [OF ok3(1) l3 sz b3 b(2,3) w3] by blast
  have "wf_marshal h4 m3" using h4(4) [OF ok3(2)] empty_locs [OF ok3(2,3)] by simp
  then have "buf_ok h4 m3 (refs ?t4 + R)" using h4(2) by (simp add: buf_ok_def ac_simps)
  from Marshal_delete_ok [OF this] obtain h5 where h5: "Marshal_delete m3 h4 = Inr h5" "heap_ok h5 (refs ?t4 + R)"
    "\<forall>b. set_mset (refs b) \<subseteq> set_mset (refs ?t4 + R) \<longrightarrow> same_buf h4 h5 b" by blast
  have t4: "buf_ok h5 ?t4 R" "bytes h5 ?t4 = pre @ packet (body @ bytes h m)"
    using h5(2) same_buf_view(1,2) [of h4 h5 ?t4] h5(3) h4(2,3) by (simp_all add: buf_ok_def)
  have "wf_marshal h5 b \<and> bytes h5 b = bytes h3 b"
    if "wf_marshal h3 b" "disjoint_bufs t3 b" "set_mset (refs b) \<subseteq> set_mset R" for b
  proof -
    have "set (bm_ptr bm) \<subseteq> set (locs t3)" by (auto simp: l3)
    then have "set (locs b) \<inter> set (bm_ptr bm) = {}" using disjoint_locs [OF that(2)] by blast
    note b4 = h4(4) [OF that(1) this]
    have "same_buf h4 h5 b" using h5(3) that(3) by auto
    from same_buf_view(1,2) [OF this] b4 show ?thesis by simp
  qed
  with h4(1) h5(1) t4 show ?thesis by blast
qed

lemma transfer_ok:
  assumes hok: "heap_ok h (refs t + (refs m + R))" and wf: "wf_marshal h t" "wf_marshal h m" and w0: "write_cnt t = 0"
    and dis: "disjoint_bufs t m" "set_mset (refs m) \<inter> set_mset R = {}" and ne: "bytes h m \<noteq> []"
  shows "\<exists>bm t1 h1. set_bookmark h t 4 = Inr (bm, t1, h1) \<and> buf_ok h1 t1 (refs m + R)
    \<and> (\<forall>head h2 t2. puts (refs m + R) h1 t1 head h2 t2 \<longrightarrow> wf_marshal h2 m \<and> bytes h2 m = bytes h m
      \<and> (\<exists>t3 m3 h3 t4 h4 h5. read_from_marshal h2 t2 m (length (bytes h m)) = Inr (length (bytes h m), t3, m3, h3)
          \<and> end_message h3 t3 (Some bm) = Inr (t4, h4) \<and> Marshal_delete m3 h4 = Inr h5
          \<and> sends R h t (packet (head @ bytes h m)) h5 t4))"
proof -
  let ?R = "refs m + R" and ?n = "length (bytes h m)"
  have ok: "buf_ok h t ?R" using hok wf by (simp add: buf_ok_def)
  obtain bm t1 h1 got where s: "set_bookmark h t 4 = Inr (bm, t1, h1)" "bm_size bm = 4"
    "length (bm_ptr bm) = 4" "locs t1 = locs t @ bm_ptr bm" "length got = 4"
    "appends ?R h t got h1 t1" "write_cnt t1 = 0"
    using set_bookmark_ok [OF ok w0] by blast
  have len: "length (bytes h t) = length (locs t)"
    using wf(1) length_clocs [of h "chunks t"] by (simp add: locs_def bytes_def wf_marshal_def)
  have "wf_marshal h2 m \<and> bytes h2 m = bytes h m
      \<and> (\<exists>t3 m3 h3 t4 h4 h5. read_from_marshal h2 t2 m ?n = Inr (?n, t3, m3, h3)
          \<and> end_message h3 t3 (Some bm) = Inr (t4, h4) \<and> Marshal_delete m3 h4 = Inr h5
          \<and> sends R h t (packet (head @ bytes h m)) h5 t4)"
    if p: "puts ?R h1 t1 head h2 t2" for head h2 t2
  proof -
    have a: "appends ?R h1 t1 head h2 t2" "write_cnt t2 = of_nat (length head)" using p s(7) by (simp_all add: puts_def)
    have two: "same_buf h h2 b" "disjoint_bufs t2 b" if "disjoint_bufs t b" "set_mset (refs b) \<subseteq> set_mset ?R" for b
    proof -
      have d1: "disjoint_bufs t1 b" by (rule disjoint_appends [OF s(6) that])
      have "same_buf h h1 b" using s(6) that clear_disjoint [OF that(1)] by (simp add: appends_def)
      moreover have "same_buf h1 h2 b" using a(1) that(2) clear_disjoint [OF d1] by (simp add: appends_def)
      ultimately show "same_buf h h2 b" by (rule same_buf_trans)
      show "disjoint_bufs t2 b" by (rule disjoint_appends [OF a(1) d1 that(2)])
    qed
    have m2: "wf_marshal h2 m" "bytes h2 m = bytes h m" "disjoint_bufs t2 m"
      using same_buf_view(1,2) [OF two(1) [OF dis(1)]] two(2) [OF dis(1)] wf(2) by simp_all
    have ok2: "heap_ok h2 (refs t2 + (refs m + R))" "wf_marshal h2 t2" using a(1) by (simp_all add: appends_def buf_ok_def)
    obtain ys where "locs t2 = locs t1 @ ys" using a(1) by (auto simp: appends_def prefix_def)
    then have l2: "locs t2 = locs t @ bm_ptr bm @ ys" by (simp add: s(4))
    have b2: "bytes h2 t2 = bytes h t @ got @ head" using s(6) a(1) by (simp add: appends_def)
    obtain t3 m3 h3 where r: "read_from_marshal h2 t2 m ?n = Inr (?n, t3, m3, h3)" "moves R h2 t2 m ?n h3 t3 m3"
      using read_from_marshal_ok [OF ok2 m2(1,3), of ?n] ne by (auto simp: m2(2))
    have mv: "moves R h2 t2 m (length (bytes h2 m)) h3 t3 m3" using r(2) by (simp only: m2(2))
    let ?t4 = "t3\<lparr>write_cnt := 0\<rparr>"
    obtain h4 h5 where e: "end_message h3 t3 (Some bm) = Inr (?t4, h4)" "Marshal_delete m3 h4 = Inr h5"
      "buf_ok h5 ?t4 R" "bytes h5 ?t4 = bytes h t @ packet (head @ bytes h2 m)"
      "\<And>b. wf_marshal h3 b \<Longrightarrow> disjoint_bufs t3 b \<Longrightarrow> set_mset (refs b) \<subseteq> set_mset R \<Longrightarrow>
          wf_marshal h5 b \<and> bytes h5 b = bytes h3 b"
      using transfer_end_ok [OF mv l2 s(2,3) b2 len s(5) a(2)] by blast
    have sub: "set_mset (refs t3) \<subseteq> set_mset (refs t2) \<union> set_mset (refs m)" using r(2) by (simp add: moves_def)
    have "wf_marshal h5 b \<and> bytes h5 b = bytes h b \<and> disjoint_bufs ?t4 b"
      if "set_mset (refs b) \<subseteq> set_mset R" "disjoint_bufs t b" "wf_marshal h b" for b
    proof -
      have R: "set_mset (refs b) \<subseteq> set_mset ?R" using that(1) by auto
      note b2 = two [OF that(2) R]
      have "same_buf h2 h3 b" using r(2) that(1) clear_disjoint [OF b2(2)] by (simp add: moves_def)
      note b3 = same_buf_view(1,2) [OF same_buf_trans [OF b2(1) this]]
      have d3: "disjoint_bufs t3 b"
        using sub b2(2) disjoint_refs [OF dis(2) that(1)] unfolding disjoint_bufs_def set_mset_refs by blast
      have w3: "wf_marshal h3 b" using b3(2) that(3) by simp
      from e(5) [OF w3 d3 that(1)] b3(1) d3 show ?thesis by (simp add: disjoint_bufs_def)
    qed
    moreover have "\<forall>a \<in># refs ?t4. a \<in># R \<longrightarrow> a \<in># refs t"
    proof (intro ballI impI)
      fix x assume "x \<in># refs ?t4" "x \<in># R"
      then have "x \<in># refs t2" "x \<in># ?R" using sub dis(2) by (auto simp: refs_def)
      then have "x \<in># refs t1" using a(1) unfolding appends_def by blast
      then show "x \<in># refs t" using s(6) \<open>x \<in># ?R\<close> unfolding appends_def by blast
    qed
    ultimately have "sends R h t (packet (head @ bytes h m)) h5 ?t4"
      using e(3,4) m2(2) unfolding sends_def by simp
    with m2(1,2) r(1) e(1,2) show ?thesis by blast
  qed
  moreover have "buf_ok h1 t1 ?R" using s(6) by (simp add: appends_def)
  ultimately show ?thesis using s(1) by blast
qed

section \<open>Windows\<close>

text \<open>
  The windows that change hands are not longer than those of the source: whoever did not write under
  the source does not write under the target.
\<close>

definition below :: "chunk list \<Rightarrow> chunk \<Rightarrow> bool" where
  "below cs d \<longleftrightarrow> (\<exists>c \<in> set cs. data d = data c \<and> write_idx d \<le> write_idx c)"

lemma below_mono: "below cs d \<Longrightarrow> (\<And>c. c \<in> set cs \<Longrightarrow> below ds c) \<Longrightarrow> below ds d"
  unfolding below_def by (metis le_trans)

lemma below_mem: "d \<in> set cs \<Longrightarrow> below cs d"
  by (auto simp: below_def)

lemma drop_if_read_below:
  assumes "drop_if_read h c cs = Inr (cs', h')" "d \<in> set cs'"
  shows "d = c \<or> d \<in> set cs"
  using assms by (auto simp: drop_if_read_def rbind_eq_Inr_iff split: if_splits)

lemma share_loop_below:
  "share_loop h tcs mcs need = Inr (f, tcs', mcs', h') \<Longrightarrow>
     (\<forall>d \<in> set mcs'. below mcs d) \<and> (\<forall>d \<in> set tcs'. d \<in> set tcs \<or> below mcs d)"
proof (induction need arbitrary: h tcs mcs f rule: less_induct)
  case (less need)
  show ?case
  proof (cases "need = 0 \<or> mcs = []")
    case True
    with less.prems show ?thesis unfolding share_loop.simps [of h tcs mcs need] by (auto simp: below_mem split: if_splits)
  next
    case False
    then obtain c cs where mcs: "need \<noteq> 0" "mcs = c # cs" by (cases mcs) auto
    from less.prems mcs obtain h1 sz cnt where a: "shared_copy c h = Inr (c, h1)" "chunk_content_size h1 c = Inr sz"
      and b: "chunk_content_size h1 (if sz > need then c\<lparr>write_idx := write_idx c - (sz - need)\<rparr> else c) = Inr cnt" "0 < cnt"
      and rest: "\<exists>d c' mcs1 h2 g. chunk_discard h1 c cnt = Inr (d, c') \<and> d = cnt \<and> drop_if_read h1 c' cs = Inr (mcs1, h2)
        \<and> share_loop h2 (tcs @ [if sz > need then c\<lparr>write_idx := write_idx c - (sz - need)\<rparr> else c]) mcs1 (need - cnt)
            = Inr (g, tcs', mcs', h')"
      unfolding share_loop.simps [of h tcs mcs need]
      by (auto simp: rbind_eq_Inr_iff Let_def shared_copy_def split del: if_split)
    let ?w = "if sz > need then c\<lparr>write_idx := write_idx c - (sz - need)\<rparr> else c"
    obtain c' mcs1 h2 g where r: "chunk_discard h1 c cnt = Inr (cnt, c')" "drop_if_read h1 c' cs = Inr (mcs1, h2)"
      "share_loop h2 (tcs @ [?w]) mcs1 (need - cnt) = Inr (g, tcs', mcs', h')" using rest by blast
    have c': "data c' = data c" "write_idx c' = write_idx c"
      using r(1) by (auto simp: chunk_discard_def rbind_eq_Inr_iff Let_def)
    have m1: "below mcs d" if "d \<in> set mcs1" for d
      using drop_if_read_below [OF r(2) that] c' by (auto simp: mcs(2) below_def)
    have "below mcs ?w" by (auto simp: below_def mcs(2))
    from less.IH [OF _ r(3)] mcs(1) b(2)
    have "(\<forall>d \<in> set mcs'. below mcs1 d) \<and> (\<forall>d \<in> set tcs'. d \<in> set (tcs @ [?w]) \<or> below mcs1 d)" by simp
    then show ?thesis using below_mono [OF _ m1] \<open>below mcs ?w\<close> by (auto simp del: if_split)
  qed
qed


lemma clear_below: "clear b m \<Longrightarrow> (\<And>d. d \<in> set cs \<Longrightarrow> below (chunks m) d) \<Longrightarrow> chunks m' = cs \<Longrightarrow> clear b m'"
  unfolding clear_def clear_of_def below_def by (metis le_trans)

lemma read_from_marshal_new_clear:
  assumes "read_from_marshal h Marshal_new m n = Inr (k, t', m', h')" "clear b m"
  shows "clear b t'" "clear b m'"
proof -
  obtain f tcs mcs where s: "share_loop h [] (chunks m) n = Inr (f, tcs, mcs, h')" "chunks t' = tcs" "chunks m' = mcs"
    using assms(1) unfolding read_from_marshal.simps [of h Marshal_new m n]
    by (auto simp: Marshal_new_def rbind_eq_Inr_iff Let_def)
  from share_loop_below [OF s(1)] clear_below [OF assms(2) _ s(2)] clear_below [OF assms(2) _ s(3)]
  show "clear b t'" "clear b m'" by auto
qed

end
