(* ===== verification/Py_Server.thy ===== *)
theory Py_Server
  imports Server_Life Threading Py_Marshal Marshal_Transfer
begin

text \<open>
  The server part of the Python extension (\<open>pylib/simplerpc/_pyrpc.cc\<close>): servers named by their
  address, and the handler that calls a Python function with the address of the request's buffer and
  sends the buffer whose address the function returned. The Python function is a parameter that acts
  on the heap and on the \<open>Marshal\<close> objects; \<open>MarshalWrap\<close> of \<open>pylib/simplerpc/server.py\<close>, which the
  Python side always registers, is modelled as such a function.
\<close>

section \<open>Definitions\<close>

record py_sstate = sstate +
  py_ms :: mstore

type_synonym py_ext = "unit py_sstate_ext"

text \<open>A call of a Python function: an exception, \<open>NotImplementedError\<close> or another, or an integer.\<close>

datatype pycall = Raised bool | Returned mid

type_synonym pyfunc = "mid \<Rightarrow> mworld \<Rightarrow> (pycall \<times> mworld) res"

definition ENOSYS :: i32 where "ENOSYS = 38"

text \<open>The virtual functions of \<open>ServerConnection\<close>; the first argument is the dynamic type of \<open>*sconn\<close>.\<close>

definition sconn_begin_reply :: "bool \<Rightarrow> pid \<Rightarrow> i64 \<Rightarrow> i32 \<Rightarrow> 'u sstate_scheme \<Rightarrow> 'u sstate_scheme res" where
  "sconn_begin_reply udp p xid error_code s = (if udp then udp_begin_reply xid error_code s else begin_reply p xid error_code s)"

definition sconn_end_reply :: "bool \<Rightarrow> pid \<Rightarrow> 'u sstate_scheme \<Rightarrow> 'u sstate_scheme res" where
  "sconn_end_reply udp p s = (if udp then udp_end_reply s else end_reply p s)"

text \<open>\<open>sconn->write_marshal(*output_m)\<close> and \<open>delete output_m\<close>, both only for a pointer that is not null.\<close>

definition write_output :: "pid \<Rightarrow> mid option \<Rightarrow> py_sstate \<Rightarrow> py_sstate res" where
  "write_output p output_m s = (case output_m of
       None \<Rightarrow> Inr s
     | Some u \<Rightarrow>
         rbind (mptr u (py_ms s)) (\<lambda>m.
         rbind (write_marshal p m s) (\<lambda>(m', s1). Inr (s1\<lparr>py_ms := (py_ms s1)(u \<mapsto> m')\<rparr>))))"

definition delete_output :: "mid option \<Rightarrow> py_sstate \<Rightarrow> py_sstate res" where
  "delete_output output_m s = (case output_m of
       None \<Rightarrow> Inr s
     | Some u \<Rightarrow>
         rbind (mptr u (py_ms s)) (\<lambda>m.
         rbind (Marshal_delete m (ss_heap s)) (\<lambda>h.
           Inr (s\<lparr>ss_heap := h, py_ms := (py_ms s)(u := None)\<rparr>))))"

definition call_outcome :: "pycall \<Rightarrow> mid option \<times> i32" where
  "call_outcome result = (case result of
       Raised not_implemented \<Rightarrow> (None, if not_implemented then ENOSYS else - 1)
     | Returned u \<Rightarrow> (if u = 0 then None else Some u, 0))"

text \<open>
  The function that \<open>_pyrpc_server_reg\<close> registers. \<open>inner_u\<close> is \<open>&req->m\<close>: while the Python function
  runs, the buffer of the request is one of the objects it can name.
\<close>

definition py_handler :: "pyfunc \<Rightarrow> mid \<Rightarrow> bool \<Rightarrow> request \<Rightarrow> pid \<Rightarrow> py_sstate \<Rightarrow> py_sstate res" where
  "py_handler func inner_u udp req sconn s =
     rbind (func inner_u (ss_heap s, (py_ms s)(inner_u \<mapsto> req_m req))) (\<lambda>(result, h, ms).
     rbind (mptr inner_u ms) (\<lambda>m.
       let (output_m, error_code) = call_outcome result;
           req1 = req\<lparr>req_m := m\<rparr>; s1 = s\<lparr>ss_heap := h, py_ms := ms(inner_u := None)\<rparr> in
       rbind (sconn_begin_reply udp sconn (req_xid req1) error_code s1) (\<lambda>s2.
       rbind (write_output sconn output_m s2) (\<lambda>s3.
       rbind (sconn_end_reply udp sconn s3) (\<lambda>s4.
       rbind (delete_output output_m s4) (\<lambda>s5.
       rbind (delete_request req1 s5) (conn_release sconn)))))))"

text \<open>
  \<open>MarshalWrap.__call__\<close>: the arguments are read by their types, \<open>f\<close> is called with them, and what it
  gives is written into a new object (at the address \<open>a\<close>), which the handler above will delete; a
  function without results gives the null pointer.
\<close>

type_synonym pybody = "pyresult list \<Rightarrow> bool + item list"

definition MarshalWrap_call :: "ity list \<Rightarrow> pybody \<Rightarrow> mid \<Rightarrow> pyfunc" where
  "MarshalWrap_call input_types f a input_marshal_id w =
     rbind (over_items (read_item input_marshal_id) input_types w) (\<lambda>(input_values, w1).
       case f input_values of
           Inl not_implemented \<Rightarrow> Inr (Raised not_implemented, w1)
         | Inr output \<Rightarrow>
             if output = [] then Inr (Returned 0, w1)
             else
               rbind (pyrpc_init_marshal a w1) (\<lambda>(_, w2).
               rbind (over_items (write_item a) output w2) (\<lambda>(_, w3). Inr (Returned a, w3))))"

subsection \<open>Servers\<close>

text \<open>
  A server with its poll manager, its thread pool and its table of handlers, each of
  which is called with the dynamic type of the connection. \<open>pp_refs\<close> are the
  references that the extension took on Python objects.
\<close>

record pyserver =
  ps_world :: "py_ext world"
  ps_handlers :: "i32 \<Rightarrow> (bool \<Rightarrow> py_ext rpc_handler) option"
  ps_pool :: thread_pool

record pyproc =
  pp_servers :: "nat \<Rightarrow> pyserver option"
  pp_refs :: "nat \<Rightarrow> int"

definition svr :: "nat \<Rightarrow> pyproc \<Rightarrow> pyserver res" where
  "svr u s = (case pp_servers s u of None \<Rightarrow> Inl UseAfterFree | Some x \<Rightarrow> Inr x)"

text \<open>The table as the receive loop of a connection uses it.\<close>

definition handlers_for :: "bool \<Rightarrow> pyserver \<Rightarrow> i32 \<Rightarrow> py_ext rpc_handler option" where
  "handlers_for udp x rpc_id = map_option (\<lambda>f. f udp) (ps_handlers x rpc_id)"

definition set_svr :: "nat \<Rightarrow> pyserver \<Rightarrow> pyproc \<Rightarrow> pyproc" where
  "set_svr u x s = s\<lparr>pp_servers := (pp_servers s)(u \<mapsto> x)\<rparr>"

text \<open>
  \<open>h\<close>, \<open>ms\<close>, \<open>st\<close>: the heap, the objects and the descriptors of the process; \<open>a\<close>: the address of the new server;
  \<open>rand\<close>: the random numbers of the worker threads. \<open>ThreadPool\<close> takes an \<open>int\<close>.
\<close>

definition pyrpc_init_server ::
  "heap \<Rightarrow> mstore \<Rightarrow> os_state \<Rightarrow> (nat \<Rightarrow> nat list) \<Rightarrow> nat \<Rightarrow> i64 option \<Rightarrow> pyproc \<Rightarrow> (pyresult \<times> pyproc) res" where
  "pyrpc_init_server h ms st rand a args s = (case args of
       None \<Rightarrow> Inr (None, s)
     | Some n_threads \<Rightarrow>
         rbind (PollMgr_new 1 Map.empty) (\<lambda>poll_mgr.
         rbind (ThreadPool_new (sint (ucast n_threads :: i32)) rand) (\<lambda>thrpool.
           let st0 = \<lparr>ss_heap = h, ss_poll = poll_mgr, ss_conns = Map.empty, ss_sconns = {}, ss_ctr = 0,
                      ss_missing = {}, py_ms = ms\<rparr>;
               svr = \<lparr>ps_world = \<lparr>w_sv = Server_new, w_os = st, w_s = st0\<rparr>, ps_handlers = Map.empty, ps_pool = thrpool\<rparr> in
           Inr (Some (Py_k a), set_svr a svr s))))"

text \<open>\<open>None\<close> as the first component of the result: the destructor still waits.\<close>

definition pyrpc_fini_server ::
  "os_calls \<Rightarrow> turn list \<Rightarrow> (pid set \<Rightarrow> pid list) \<Rightarrow> (py_sstate \<Rightarrow> py_sstate) list \<Rightarrow> nat option \<Rightarrow> pyproc \<Rightarrow>
     (pyresult option \<times> pyproc) res" where
  "pyrpc_fini_server os ts order others args s = (case args of
       None \<Rightarrow> Inr (Some None, s)
     | Some u \<Rightarrow>
         rbind (svr u s) (\<lambda>x.
         rbind (Server_delete os ts order others (ps_world x)) (\<lambda>r. case r of
             None \<Rightarrow> Inr (None, s)
           | Some _ \<Rightarrow> Inr (Some (Some PyNone), s\<lparr>pp_servers := (pp_servers s)(u := None)\<rparr>))))"

definition pyrpc_server_enable_udp :: "nat option \<Rightarrow> pyproc \<Rightarrow> (pyresult \<times> pyproc) res" where
  "pyrpc_server_enable_udp args s = (case args of
       None \<Rightarrow> Inr (None, s)
     | Some u \<Rightarrow>
         rbind (svr u s) (\<lambda>x. let w = ps_world x in
           Inr (Some PyNone, set_svr u (x\<lparr>ps_world := w\<lparr>w_sv := enable_udp (w_sv w)\<rparr>\<rparr>) s)))"

definition pyrpc_server_start :: "os_calls \<Rightarrow> (nat \<times> string) option \<Rightarrow> pyproc \<Rightarrow> (pyresult \<times> pyproc) res" where
  "pyrpc_server_start os args s = (case args of
       None \<Rightarrow> Inr (None, s)
     | Some (u, addr) \<Rightarrow>
         rbind (svr u s) (\<lambda>x. let w = ps_world x in
         rbind (Server_start os addr (w_sv w) (w_os w)) (\<lambda>(ret, sv, st).
           Inr (Some (Py_i ret), set_svr u (x\<lparr>ps_world := w\<lparr>w_sv := sv, w_os := st\<rparr>\<rparr>) s))))"

definition pyrpc_server_unreg :: "(nat \<times> i32) option \<Rightarrow> pyproc \<Rightarrow> (pyresult \<times> pyproc) res" where
  "pyrpc_server_unreg args s = (case args of
       None \<Rightarrow> Inr (None, s)
     | Some (u, rpc_id) \<Rightarrow>
         rbind (svr u s) (\<lambda>x.
           Inr (Some PyNone, set_svr u (x\<lparr>ps_handlers := Server_unreg rpc_id (ps_handlers x)\<rparr>) s)))"

text \<open>
  \<open>call\<close> gives the function that a Python object stands for, \<open>loc\<close> the address at which a request lies.
  The reference on the object is taken whether or not the number is free.
\<close>

definition pyrpc_server_reg ::
  "(nat \<Rightarrow> pyfunc) \<Rightarrow> (request \<Rightarrow> mid) \<Rightarrow> (nat \<times> i32 \<times> nat) option \<Rightarrow> pyproc \<Rightarrow> (pyresult \<times> pyproc) res" where
  "pyrpc_server_reg call loc args s = (case args of
       None \<Rightarrow> Inr (None, s)
     | Some (u, rpc_id, func) \<Rightarrow>
         rbind (svr u s) (\<lambda>x.
           let s1 = s\<lparr>pp_refs := (pp_refs s)(func := pp_refs s func + 1)\<rparr>;
               (ret, handlers) = Server_reg rpc_id (\<lambda>udp req. py_handler (call func) (loc req) udp req) (ps_handlers x) in
           Inr (Some (Py_i (word_of_int ret)), set_svr u (x\<lparr>ps_handlers := handlers\<rparr>) s1)))"

definition pyrpc_helper_decr_ref :: "nat option \<Rightarrow> pyproc \<Rightarrow> (pyresult \<times> pyproc) res" where
  "pyrpc_helper_decr_ref args s = (case args of
       None \<Rightarrow> Inr (None, s)
     | Some pyobj \<Rightarrow> Inr (Some PyNone, s\<lparr>pp_refs := (pp_refs s)(pyobj := pp_refs s pyobj - 1)\<rparr>))"

section \<open>The Python side of a call\<close>

lemma enc_item_neq_Nil: "enc_item x \<noteq> []"
  by (cases x) (simp_all add: enc_string_def)

lemma enc_items_eq_Nil: "enc_items xs = [] \<longleftrightarrow> xs = []"
  by (cases xs) (simp_all add: enc_item_neq_Nil)

lemma upd_new: "ms u = None \<Longrightarrow> (ms(u \<mapsto> x))(u := None) = ms"
  by (simp add: fun_upd_idem)

text \<open>The arguments have been read from the request; the rest of the heap is as it was.\<close>

lemma MarshalWrap_reads:
  assumes m: "ms u = None" "buf_ok h m R" "bytes h m = enc_items xs" and xs: "\<forall>x \<in> set xs. item_ok x"
  shows "\<exists>m1 h1. over_items (read_item u) (map item_type xs) (h, ms(u \<mapsto> m))
      = Inr (map (\<lambda>x. Some (item_back x)) xs, h1, ms(u \<mapsto> m1)) \<and> buf_ok h1 m1 R \<and> keeps_bufs R h h1
    \<and> set_mset (refs m1) \<subseteq> set_mset (refs m)"
proof -
  have p: "mptr u (ms(u \<mapsto> m)) = Inr m" "bytes h m = enc_items xs @ []" using m(3) by simp_all
  obtain m1 h1 where r: "over_items (read_item u) (map item_type xs) (h, ms(u \<mapsto> m))
      = Inr (map (\<lambda>x. Some (item_back x)) xs, h1, ms(u \<mapsto> m1))" "consumes R h m (length (enc_items xs)) h1 m1"
    using read_items_ok [OF p(1) m(2) xs p(2)] unfolding fun_upd_upd by (elim exE conjE) (rule that)
  moreover have "keeps_bufs R h h1" using r(2) unfolding consumes_def by (intro keeps_bufs_same) blast
  moreover have "set_mset (refs m1) \<subseteq> set_mset (refs m)" using r(2) by (simp add: consumes_def)
  ultimately show ?thesis using consumes_buf_ok [OF r(2)] by blast
qed

text \<open>The results are in a new object that shares nothing with anybody.\<close>

lemma MarshalWrap_writes:
  assumes h: "heap_ok h R" and a: "ms a = None" and out: "\<forall>x \<in> set out. item_ok x"
  shows "\<exists>o' h'. rbind (pyrpc_init_marshal a (h, ms)) (\<lambda>(_, w). over_items (write_item a) out w)
      = Inr (map (\<lambda>_. Some PyNone) out, h', ms(a \<mapsto> o'))
    \<and> buf_ok h' o' R \<and> bytes h' o' = enc_items out \<and> set_mset (refs o') \<inter> set_mset R = {} \<and> keeps_bufs R h h'"
proof -
  have n: "mptr a (ms(a \<mapsto> Marshal_new)) = Inr Marshal_new" "buf_ok h Marshal_new R" using h by (simp_all add: buf_ok_def)
  obtain o' h' where w: "over_items (write_item a) out (h, ms(a \<mapsto> Marshal_new)) = Inr (map (\<lambda>_. Some PyNone) out, h', ms(a \<mapsto> o'))"
    "puts R h Marshal_new (enc_items out) h' o'"
    using write_items_ok [OF n out] unfolding fun_upd_upd by (elim exE conjE) (rule that)
  have ap: "appends R h Marshal_new (enc_items out) h' o'" using w(2) by (simp add: puts_def)
  then have "\<forall>x \<in># refs o'. x \<in># R \<longrightarrow> x \<in># refs Marshal_new" unfolding appends_def by blast
  then have "set_mset (refs o') \<inter> set_mset R = {}" by auto
  moreover have "keeps_bufs R h h'" using ap clear_new unfolding appends_def by (intro keeps_bufs_same) blast
  moreover have "buf_ok h' o' R" "bytes h' o' = enc_items out" using ap by (simp_all add: appends_def)
  moreover have "rbind (pyrpc_init_marshal a (h, ms)) (\<lambda>(_, w). over_items (write_item a) out w)
      = over_items (write_item a) out (h, ms(a \<mapsto> Marshal_new))" by (simp add: pyrpc_init_marshal_def)
  ultimately show ?thesis using w(1) by auto
qed

text \<open>A call ends, whatever the function does with the arguments, and the request's buffer is still there.\<close>

lemma MarshalWrap_call_ok:
  assumes u: "ms u = None" "ms a = None" "u \<noteq> a" and m: "buf_ok h m R" "bytes h m = enc_items xs" and xs: "\<forall>x \<in> set xs. item_ok x"
    and out: "\<And>res. f (map (\<lambda>x. Some (item_back x)) xs) = Inr res \<Longrightarrow> \<forall>x \<in> set res. item_ok x"
  shows "\<exists>result h' ms' m'. MarshalWrap_call (map item_type xs) f a u (h, ms(u \<mapsto> m)) = Inr (result, h', ms') \<and> ms' u = Some m'"
proof -
  let ?vals = "map (\<lambda>x. Some (item_back x)) xs"
  from MarshalWrap_reads [where ms = ms and u = u, OF u(1) m xs] obtain m1 h1 where
    rd: "over_items (read_item u) (map item_type xs) (h, ms(u \<mapsto> m)) = Inr (?vals, h1, ms(u \<mapsto> m1))" "buf_ok h1 m1 R"
    by (elim exE conjE) (rule that)
  show ?thesis
  proof (cases "f ?vals")
    case (Inr res)
    have hq: "heap_ok h1 (refs m1 + R)" "(ms(u \<mapsto> m1)) a = None" using rd(2) u(2,3) by (simp_all add: buf_ok_def)
    from MarshalWrap_writes [where ms = "ms(u \<mapsto> m1)" and a = a, OF hq out [OF Inr]] obtain m2 h2 where
      wr: "rbind (pyrpc_init_marshal a (h1, ms(u \<mapsto> m1))) (\<lambda>(_, w). over_items (write_item a) res w)
          = Inr (map (\<lambda>_. Some PyNone) res, h2, ms(u \<mapsto> m1, a \<mapsto> m2))"
      by (elim exE conjE) (rule that)
    have "(ms(u \<mapsto> m1, a \<mapsto> m2)) u = Some m1" using u(3) by simp
    moreover have "MarshalWrap_call (map item_type xs) f a u (h, ms(u \<mapsto> m))
        = (if res = [] then Inr (Returned 0, h1, ms(u \<mapsto> m1)) else Inr (Returned a, h2, ms(u \<mapsto> m1, a \<mapsto> m2)))"
      using rd(1) wr Inr by (auto simp: MarshalWrap_call_def rbind_eq_Inr_iff)
    ultimately show ?thesis by (cases "res = []") auto
  qed (use rd(1) in \<open>simp add: MarshalWrap_call_def\<close>)
qed

section \<open>The handler\<close>

lemma srv_ok_heap:
  assumes ok: "srv_ok k Q s p" and h: "keeps_bufs (refs (sc_out c) + (refs (sc_in c) + R)) (ss_heap s) h'"
    and c: "ss_conns s p = Some c" "heap_ok h' (refs (sc_out c) + (refs (sc_in c) + R'))"
    "set_mset (refs (sc_out c)) \<inter> set_mset R' = {}"
    and s': "ss_poll s' = ss_poll s" "ss_conns s' = ss_conns s" "ss_heap s' = h'" "ss_sconns s' = ss_sconns s" "ss_ctr s' = ss_ctr s"
  shows "srv_ok k R' s' p" "replies R s s' p []"
proof -
  have sp: "spare k (ss_poll s) p" and b: "bufs_ok Q (ss_heap s) c" using ok c(1) by (auto simp: srv_ok_def)
  have io: "wf_marshal h' (sc_out c)" "bytes h' (sc_out c) = bytes (ss_heap s) (sc_out c)"
    "wf_marshal h' (sc_in c)" "bytes h' (sc_in c) = bytes (ss_heap s) (sc_in c)"
    using keeps_bufsD [OF h, of "sc_out c"] keeps_bufsD [OF h, of "sc_in c"] b by (auto simp: bufs_ok_def)
  have "set_mset (refs (sc_out c)) \<inter> set_mset (refs (sc_in c)) = {}" using b by (auto simp: bufs_ok_def)
  then have "bufs_ok R' h' c" using io c(2,3) b by (auto simp: bufs_ok_def)
  then show "srv_ok k R' s' p" using sp c(1) s' by (auto simp: srv_ok_def)
  have "keeps_bufs R (ss_heap s) h'" using h by (rule keeps_bufs_mono) auto
  with c(1) io s' show "replies R s s' p []" by (simp add: replies_def out_bytes_def same_server_def)
qed

lemma py_ms_more: "sstate.more s' = sstate.more s \<Longrightarrow> py_ms s' = py_ms s"
  by (cases s; cases s') simp

lemma py_ms_set_conn [simp]: "py_ms (set_conn p c h s) = py_ms s"
  by (simp add: set_conn_def)

lemma py_ms_upd [simp]:
  "srv_ok k R (s'\<lparr>py_ms := x\<rparr>) p = srv_ok k R s' p" "replies R s (s'\<lparr>py_ms := x\<rparr>) p b = replies R s s' p b"
proof -
  have "ss_heap (s'\<lparr>py_ms := x\<rparr>) = ss_heap s'" "ss_poll (s'\<lparr>py_ms := x\<rparr>) = ss_poll s'" "ss_conns (s'\<lparr>py_ms := x\<rparr>) = ss_conns s'"
    "ss_sconns (s'\<lparr>py_ms := x\<rparr>) = ss_sconns s'" "ss_ctr (s'\<lparr>py_ms := x\<rparr>) = ss_ctr s'" by simp_all
  then show "srv_ok k R (s'\<lparr>py_ms := x\<rparr>) p = srv_ok k R s' p" "replies R s (s'\<lparr>py_ms := x\<rparr>) p b = replies R s s' p b"
    by (simp_all only: srv_ok_def replies_def out_bytes_def same_server_def)
qed

text \<open>A reply whose body is the object that the Python function returned, up to the deletion of that object.\<close>

lemma output_reply_ok:
  assumes ok: "srv_ok k (refs m + R) s p" and m: "py_ms s a = Some m" "wf_marshal (ss_heap s) m" "bytes (ss_heap s) m \<noteq> []"
    and dis: "\<And>c. ss_conns s p = Some c \<Longrightarrow> set_mset (refs m) \<inter> set_mset (refs (sc_in c) + R) = {}"
  shows "\<exists>s2 s3 s4 s5. sconn_begin_reply False p xid err s = Inr s2 \<and> write_output p (Some a) s2 = Inr s3
    \<and> sconn_end_reply False p s3 = Inr s4 \<and> delete_output (Some a) s4 = Inr s5 \<and> srv_ok k R s5 p
    \<and> replies R s s5 p (packet (enc_v64 xid @ enc_v32 err @ bytes (ss_heap s) m)) \<and> py_ms s5 = (py_ms s)(a := None)"
proof -
  obtain c where c: "ss_conns s p = Some c" "bufs_ok (refs m + R) (ss_heap s) c" and sp: "spare k (ss_poll s) p"
    using ok by (auto simp: srv_ok_def)
  let ?h = "ss_heap s" and ?o = "sc_out c" and ?R = "refs (sc_in c) + R" and ?n = "length (bytes (ss_heap s) m)"
  have b: "heap_ok ?h (refs ?o + (refs m + ?R))" "wf_marshal ?h ?o" "write_cnt ?o = 0" "disjoint_bufs ?o m"
    using c(2) by (auto simp: bufs_ok_def ac_simps disjoint_bufs_def)
  note t = transfer_ok [OF b(1,2) m(2) b(3,4) dis [OF c(1)] m(3)]
  then obtain bm t1 h1 where t1: "set_bookmark ?h ?o 4 = Inr (bm, t1, h1)" "buf_ok h1 t1 (refs m + ?R)"
    and fin: "\<And>head h2 t2. puts (refs m + ?R) h1 t1 head h2 t2 \<Longrightarrow> wf_marshal h2 m \<and> bytes h2 m = bytes ?h m
      \<and> (\<exists>t3 m3 h3 t4 h4 h5. read_from_marshal h2 t2 m ?n = Inr (?n, t3, m3, h3)
          \<and> end_message h3 t3 (Some bm) = Inr (t4, h4) \<and> Marshal_delete m3 h4 = Inr h5
          \<and> sends ?R ?h ?o (packet (head @ bytes ?h m)) h5 t4)"
    by blast
  let ?c = "\<lambda>t. c\<lparr>sc_bmark := Some bm, sc_out := t\<rparr>"
  obtain t2 h2 where be: "begin_reply p xid err s = Inr (set_conn p (?c t2) h2 s)"
    "puts (refs m + ?R) h1 t1 (enc_v64 xid @ enc_v32 err) h2 t2"
    using begin_reply_ok [OF c(1) t1] by blast
  note f = fin [OF be(2)]
  obtain t3 m3 h3 t4 h4 h5 where r: "read_from_marshal h2 t2 m ?n = Inr (?n, t3, m3, h3)"
    "end_message h3 t3 (Some bm) = Inr (t4, h4)" "Marshal_delete m3 h4 = Inr h5"
    "sends ?R ?h ?o (packet ((enc_v64 xid @ enc_v32 err) @ bytes ?h m)) h5 t4" using f by blast
  let ?s = "s\<lparr>py_ms := (py_ms s)(a \<mapsto> m3)\<rparr>"
  have upd: "(set_conn p (?c t3) h3 s)\<lparr>py_ms := (py_ms s)(a \<mapsto> m3)\<rparr> = set_conn p (?c t3) h3 ?s" by (simp add: set_conn_def)
  have "write_marshal p m (set_conn p (?c t2) h2 s) = Inr (m3, set_conn p (?c t3) h3 s)"
    using r(1) f by (simp add: write_marshal_def conn_def)
  then have wr: "write_output p (Some a) (set_conn p (?c t2) h2 s) = Inr (set_conn p (?c t3) h3 ?s)"
    using m(1) by (simp add: write_output_def upd)
  have sp': "spare k (ss_poll ?s) p" using sp by simp
  obtain pw where e: "end_reply p (set_conn p (?c t3) h3 ?s)
      = Inr (set_conn p (c\<lparr>sc_out := t4, sc_bmark := None\<rparr>) h4 (?s\<lparr>ss_poll := pw\<rparr>))" "spare k pw p"
    using end_reply_ok [OF r(2) sp'] by blast
  define s6 where "s6 = set_conn p (c\<lparr>sc_out := t4, sc_bmark := None\<rparr>) h5 (s\<lparr>ss_poll := pw\<rparr>)"
  let ?s5 = "s6\<lparr>py_ms := (py_ms s)(a := None)\<rparr>"
  have d: "delete_output (Some a) (set_conn p (c\<lparr>sc_out := t4, sc_bmark := None\<rparr>) h4 (?s\<lparr>ss_poll := pw\<rparr>)) = Inr ?s5"
    using r(3) by (simp add: delete_output_def set_conn_def s6_def)
  note snt = sent_reply_ok [OF c r(4) e(2), folded s6_def]
  have "srv_ok k R ?s5 p" "replies R s ?s5 p (packet (enc_v64 xid @ enc_v32 err @ bytes ?h m))"
    using snt by simp_all
  with be(1) wr e(1) d show ?thesis by (auto simp: sconn_begin_reply_def sconn_end_reply_def)
qed

text \<open>A reply without a body.\<close>

lemma empty_reply_ok:
  assumes "srv_ok k R s p"
  shows "\<exists>s2 s4. sconn_begin_reply False p xid err s = Inr s2 \<and> sconn_end_reply False p s2 = Inr s4
    \<and> srv_ok k R s4 p \<and> replies R s s4 p (packet (enc_v64 xid @ enc_v32 err)) \<and> py_ms s4 = py_ms s"
proof -
  obtain s1 s2 where "begin_reply p xid err s = Inr s1" "end_reply p s1 = Inr s2" "srv_ok k R s2 p"
    "replies R s s2 p (packet (enc_v64 xid @ enc_v32 err))" "sstate.more s2 = sstate.more s"
    using reply_ok [OF assms writes_nothing, of xid err] by auto
  then show ?thesis using py_ms_more by (fastforce simp: sconn_begin_reply_def sconn_end_reply_def)
qed

text \<open>The end of every handler.\<close>

lemma finish_request_ok:
  assumes ok: "srv_ok (Suc k) (refs (req_m req) + R) s p" and wf: "wf_marshal (ss_heap s) (req_m req)"
  shows "\<exists>s'. rbind (delete_request req s) (conn_release p) = Inr s' \<and> srv_ok k R s' p \<and> replies R s s' p []
    \<and> py_ms s' = py_ms s"
proof -
  from delete_request_ok [OF ok wf] obtain s4 where d: "delete_request req s = Inr s4"
    "srv_ok (Suc k) R s4 p" "replies R s s4 p []" "sstate.more s4 = sstate.more s" by blast
  from conn_release_ok [OF d(2)] obtain s5 where e: "conn_release p s4 = Inr s5" "srv_ok k R s5 p"
    "replies R s4 s5 p []" "sstate.more s5 = sstate.more s4" by blast
  have "replies R s s5 p []" using replies_trans [OF d(3) e(3)] by simp
  with d(1,4) e(1,2,4) py_ms_more [of s5 s] show ?thesis by simp
qed

lemma handler_end_ok:
  assumes "replies R s s1 p []" "srv_ok (Suc k) (refs m + R) s5 p" "replies (refs m + R) s1 s5 p b" "wf_marshal (ss_heap s1) m"
  shows "\<exists>s'. rbind (delete_request (req\<lparr>req_m := m\<rparr>) s5) (conn_release p) = Inr s' \<and> srv_ok k R s' p
    \<and> replies R s s' p b \<and> py_ms s' = py_ms s5"
proof -
  have "wf_marshal (ss_heap s5) m"
    using assms(3,4) by (auto simp: replies_def dest!: keeps_bufsD [of _ _ _ m])
  then obtain s' where f: "rbind (delete_request (req\<lparr>req_m := m\<rparr>) s5) (conn_release p) = Inr s'" "srv_ok k R s' p"
    "replies R s5 s' p []" "py_ms s' = py_ms s5"
    using finish_request_ok [of k "req\<lparr>req_m := m\<rparr>" R s5 p] assms(2) by auto
  have "replies R s s' p b"
    using replies_trans [OF replies_trans [OF assms(1) replies_mono [OF assms(3)]] f(3)] by simp
  with f show ?thesis by blast
qed

text \<open>Nothing to send but the code.\<close>

lemma handler_empty_ok:
  assumes f: "func u (ss_heap s, (py_ms s)(u \<mapsto> req_m req)) = Inr (result, h, (py_ms s)(u \<mapsto> m))" "call_outcome result = (None, err)"
    and u: "py_ms s u = None"
    and s1: "srv_ok (Suc k) (refs m + R) (s\<lparr>ss_heap := h\<rparr>) p" "replies R s (s\<lparr>ss_heap := h\<rparr>) p []" "wf_marshal h m"
  shows "\<exists>s'. py_handler func u False req p s = Inr s' \<and> srv_ok k R s' p \<and> py_ms s' = py_ms s
    \<and> replies R s s' p (packet (enc_v64 (req_xid req) @ enc_v32 err))"
proof -
  let ?s1 = "s\<lparr>ss_heap := h\<rparr>"
  obtain s2 s4 where r: "sconn_begin_reply False p (req_xid req) err ?s1 = Inr s2" "sconn_end_reply False p s2 = Inr s4"
    "srv_ok (Suc k) (refs m + R) s4 p" "replies (refs m + R) ?s1 s4 p (packet (enc_v64 (req_xid req) @ enc_v32 err))"
    "py_ms s4 = py_ms s"
    using empty_reply_ok [OF s1(1), of "req_xid req" err] by auto
  have wf: "wf_marshal (ss_heap ?s1) m" using s1(3) by simp
  have "(py_ms s)(u := None) = py_ms s" "s\<lparr>ss_heap := h, py_ms := py_ms s\<rparr> = ?s1" using u by (simp_all add: fun_upd_idem)
  with handler_end_ok [OF s1(2) r(3,4) wf, of req] r(1,2,5) f u show ?thesis
    by (simp add: py_handler_def write_output_def delete_output_def) blast
qed

section \<open>Properties\<close>


text \<open>A connection with an object of a request, and a method of three small integers.\<close>

definition demo_py :: py_sstate where
  "demo_py = \<lparr>ss_heap = demo_heap, ss_poll = demo_poll0\<lparr>pobjs := [7 \<mapsto> \<lparr>p_fd = 5, p_mode = READ, p_ref = 2\<rparr>]\<rparr>,
     ss_conns = [7 \<mapsto> \<lparr>sc_in = Marshal_new, sc_out = Marshal_new, sc_bmark = None, sc_status = CONNECTED, sc_sock = 5\<rparr>],
     ss_sconns = {7}, ss_ctr = 1, ss_missing = {}, py_ms = Map.empty\<rparr>"

lemma demo_py_ok: "srv_ok (Suc 0) (refs demo_buf + {#}) demo_py 7" "out_bytes demo_py 7 = []"
proof -
  let ?pw = "demo_poll0\<lparr>pobjs := [7 \<mapsto> \<lparr>p_fd = 5, p_mode = READ, p_ref = 2\<rparr>]\<rparr>"
  have "held (poll_threads ?pw ! tid_of ?pw 5) 7 = 0"
    by (simp add: demo_poll0_def tid_of_def PollThread_new_def held_def)
  moreover have "PollMgr_new 1 (pobjs ?pw) = Inr ?pw" by (simp add: PollMgr_new_def demo_poll0_def)
  then have "poll_ok ?pw" by (rule new_ok) simp_all
  ultimately show "srv_ok (Suc 0) (refs demo_buf + {#}) demo_py 7"
    using demo_ok by (simp add: srv_ok_def spare_def bufs_ok_def demo_py_def buf_ok_def)
  show "out_bytes demo_py 7 = []" by (simp add: out_bytes_def demo_py_def)
qed


text \<open>
  A Python method cannot be called by a datagram: the handler that registration installs always
  replies, and replying is what a connection for datagrams refuses, so that any well-formed request
  for a registered method stops the whole server.
\<close>

theorem python_udp_request_stops_server:
  assumes reg: "pyrpc_server_reg call loc (Some (v, rpc_id, func)) pr = Inr (Some (Py_i 0), pr')" "svr v pr' = Inr x"
    and func: "call func = MarshalWrap_call (map item_type xs) f a" and loc: "\<forall>r. py_ms s (loc r) = None \<and> loc r \<noteq> a"
    and a: "py_ms s a = None" and req: "buf_ok (ss_heap s) (req_m req) R" "pobjs (ss_poll s) p = Some q"
    and b: "bytes (ss_heap s) (req_m req) = to_le 4 rpc_id @ enc_items xs" "\<forall>x \<in> set xs. item_ok x"
    and out: "\<And>res. f (map (\<lambda>x. Some (item_back x)) xs) = Inr res \<Longrightarrow> \<forall>x \<in> set res. item_ok x"
  shows "udp_serve_one (handlers_for True x) p req s = Inl VerifyFailed"
proof -
  have h: "handlers_for True x rpc_id = Some (\<lambda>req. py_handler (call func) (loc req) True req)"
    using reg by (auto simp: pyrpc_server_reg_def svr_def set_svr_def Server_reg_def EEXIST_def handlers_for_def
        split: option.splits if_splits)
  have pre: "prefix (to_le 4 rpc_id) (bytes (ss_heap s) (req_m req))" using b(1) by simp
  obtain m h1 where g: "get_i32 (ss_heap s) (req_m req) = Inr (rpc_id, m, h1)" "consumes R (ss_heap s) (req_m req) 4 h1 m"
    using i32.get_ok [OF req(1) TrueI pre] by auto
  have m: "buf_ok h1 m R" "bytes h1 m = enc_items xs" using consumes_buf_ok [OF g(2)] by (simp_all add: b(1))
  let ?req = "req\<lparr>req_m := m\<rparr>"
  let ?u = "loc ?req"
  obtain pw where pw: "Pollable_ref_copy p (ss_poll s) = Inr pw" using req(2) by (simp add: Pollable_ref_copy_def obj_def)
  let ?s = "s\<lparr>ss_heap := h1, ss_poll := pw\<rparr>"
  have u: "py_ms s ?u = None" "?u \<noteq> a" using loc by auto
  obtain result h2 ms m2 where c: "call func ?u (h1, (py_ms s)(?u \<mapsto> m)) = Inr (result, h2, ms)" "ms ?u = Some m2"
    using MarshalWrap_call_ok [where ms = "py_ms s" and u = ?u and a = a, OF u(1) a u(2) m b(2) out] unfolding func by blast
  have "py_handler (call func) ?u True ?req p ?s = Inl VerifyFailed"
    using c by (simp add: py_handler_def sconn_begin_reply_def udp_begin_reply_def split_beta)
  moreover have "\<not> length (bytes (ss_heap s) (req_m req)) < 4" by (simp add: b(1))
  ultimately show ?thesis using g(1) h pw req(1) by (simp add: udp_serve_one_def Let_def buf_ok_def)
qed

theorem python_udp_request_stops_server_witness:
  "\<exists>pr pr' x m h. pyrpc_init_server demo_heap Map.empty \<lparr>os_fds = {}, os_gai = 0\<rparr> (\<lambda>_. []) 1 (Some 1)
        \<lparr>pp_servers = Map.empty, pp_refs = (\<lambda>_. 0)\<rparr> = Inr (Some (Py_k 1), pr)
    \<and> pyrpc_server_reg (\<lambda>_. MarshalWrap_call [] (\<lambda>_. Inr []) 4) (\<lambda>_. 3) (Some (1, 77, 9)) pr = Inr (Some (Py_i 0), pr')
    \<and> svr 1 pr' = Inr x \<and> put_i32 demo_heap Marshal_new 77 = Inr (m, h)
    \<and> udp_serve_one (handlers_for True x) 7 \<lparr>req_m = m, req_xid = - 1\<rparr> (demo_py\<lparr>ss_heap := h\<rparr>) = Inl VerifyFailed"
proof -
  let ?call = "\<lambda>_ :: nat. MarshalWrap_call [] (\<lambda>_. Inr []) 4" and ?loc = "\<lambda>_ :: request. 3 :: mid"
  let ?args = "Some (1, 77, 9)" and ?pr0 = "\<lparr>pp_servers = Map.empty, pp_refs = (\<lambda>_. 0)\<rparr> :: pyproc"
  obtain pr where pr: "pyrpc_init_server demo_heap Map.empty \<lparr>os_fds = {}, os_gai = 0\<rparr> (\<lambda>_. []) 1 (Some 1) ?pr0 = Inr (Some (Py_k 1), pr)"
    and "\<exists>x0. pp_servers pr 1 = Some x0 \<and> ps_handlers x0 = Map.empty"
    by (simp add: pyrpc_init_server_def PollMgr_new_def ThreadPool_new_def set_svr_def)
  then obtain pr' x where reg: "pyrpc_server_reg ?call ?loc ?args pr = Inr (Some (Py_i 0), pr')" "svr 1 pr' = Inr x"
    by (auto simp: pyrpc_server_reg_def svr_def set_svr_def Server_reg_def)
  have new: "buf_ok demo_heap Marshal_new (refs demo_buf)" using demo_ok by (simp add: buf_ok_def)
  obtain m h where m: "put_i32 demo_heap Marshal_new 77 = Inr (m, h)" "buf_ok h m (refs demo_buf)" "bytes h m = to_le 4 (77 :: i32)"
    using i32.put_ok [OF new, of 77] by (auto simp: puts_def appends_def)
  have call: "?call 9 = MarshalWrap_call (map item_type []) (\<lambda>_. Inr []) 4" by simp
  let ?s = "demo_py\<lparr>ss_heap := h\<rparr>" and ?req = "\<lparr>req_m = m, req_xid = - 1\<rparr> :: request"
  have s: "\<forall>r. py_ms ?s (?loc r) = None \<and> ?loc r \<noteq> 4" "py_ms ?s 4 = None" "buf_ok (ss_heap ?s) (req_m ?req) (refs demo_buf)"
    "pobjs (ss_poll ?s) 7 = Some \<lparr>p_fd = 5, p_mode = READ, p_ref = 2\<rparr>" using m(2) by (simp_all add: demo_py_def)
  have b: "bytes (ss_heap ?s) (req_m ?req) = to_le 4 (77 :: i32) @ enc_items []" "\<forall>x \<in> set []. item_ok x" using m(3) by simp_all
  have "udp_serve_one (handlers_for True x) 7 ?req ?s = Inl VerifyFailed"
    by (rule python_udp_request_stops_server [OF reg call s b]) auto
  with pr reg m(1) show ?thesis by blast
qed

end
