(* ===== verification/Py_Client.thy ===== *)
theory Py_Client
  imports Client_Properties Py_Marshal Marshal_Transfer
begin

text \<open>
  The client part of the Python extension (\<open>pylib/simplerpc/_pyrpc.cc\<close>): requests whose arguments are
  in a \<open>Marshal\<close> object of the Python program, and futures named by their address, from which the reply
  is moved into a new object. The address of a future is its number plus one, so that zero is the null
  pointer. \<open>meanwhile\<close>, \<open>ws\<close> and \<open>others\<close> stand for what other threads do while a call waits, as in
  the model of the client; a result \<open>None\<close> behind them means that the call still waits.
\<close>

section \<open>Definitions\<close>

record py_cstate = cstate +
  pc_ms :: mstore

type_synonym pyc_ext = "unit py_cstate_ext"

definition pyrpc_init_poll_mgr :: "nat \<Rightarrow> (pyresult \<times> poll_world) res" where
  "pyrpc_init_poll_mgr a = rbind (PollMgr_new 1 Map.empty) (\<lambda>poll. Inr (Some (Py_k a), poll))"

text \<open>\<open>a\<close> is the address of the new client; its poll manager is the one of the state.\<close>

definition pyrpc_init_client :: "pid \<Rightarrow> nat option \<Rightarrow> py_cstate \<Rightarrow> (pyresult \<times> py_cstate) res" where
  "pyrpc_init_client a args s = (case args of
       None \<Rightarrow> Inr (None, s)
     | Some _ \<Rightarrow> Inr (Some (Py_k a), Client_new a s))"

definition pyrpc_fini_client ::
  "pyc_ext callbacks \<Rightarrow> (i64 set \<Rightarrow> i64 list) \<Rightarrow> pid option \<Rightarrow> py_cstate \<Rightarrow> (pyresult \<times> py_cstate) res" where
  "pyrpc_fini_client cb order args s = (case args of
       None \<Rightarrow> Inr (None, s)
     | Some u \<Rightarrow> rbind (close_and_release cb order u s) (\<lambda>s1. Inr (Some PyNone, s1)))"

text \<open>\<open>tcp\<close> and \<open>udp\<close>: the descriptors that connecting to \<open>addr\<close> gave.\<close>

definition pyrpc_client_connect ::
  "(string \<Rightarrow> int) \<Rightarrow> (string \<Rightarrow> int) \<Rightarrow> (pid \<times> string) option \<Rightarrow> py_cstate \<Rightarrow> (pyresult \<times> py_cstate) res" where
  "pyrpc_client_connect tcp udp args s = (case args of
       None \<Rightarrow> Inr (None, s)
     | Some (u, addr) \<Rightarrow>
         rbind (Client_connect (tcp addr) (udp addr) u s) (\<lambda>(ret, s1). Inr (Some (Py_i ret), s1)))"

text \<open>\<open>*clnt << *m\<close>\<close>

definition put_arguments :: "pid \<Rightarrow> mid \<Rightarrow> py_cstate \<Rightarrow> py_cstate res" where
  "put_arguments u m_id s =
     rbind (mptr m_id (pc_ms s)) (\<lambda>m.
     rbind (client_put_marshal u m s) (\<lambda>(m', s1). Inr (s1\<lparr>pc_ms := (pc_ms s1)(m_id \<mapsto> m')\<rparr>)))"

text \<open>From \<open>begin_request\<close> to \<open>end_request\<close>, as both kinds of calls begin.\<close>

definition send_request ::
  "(py_cstate \<Rightarrow> py_cstate res) \<Rightarrow> pid \<Rightarrow> i32 \<Rightarrow> mid \<Rightarrow> py_cstate \<Rightarrow> (fid option \<times> py_cstate) res" where
  "send_request meanwhile u rpc_id m_id s =
     rbind (begin_request meanwhile u rpc_id None s) (\<lambda>(fu, s1).
     rbind (if fu \<noteq> None then put_arguments u m_id s1 else Inr s1) (\<lambda>s2.
     rbind (end_request u s2) (\<lambda>s3. Inr (fu, s3))))"

definition pyrpc_client_async_call ::
  "(py_cstate \<Rightarrow> py_cstate res) \<Rightarrow> (pid \<times> i32 \<times> mid) option \<Rightarrow> py_cstate \<Rightarrow> (pyresult \<times> py_cstate) res" where
  "pyrpc_client_async_call meanwhile args s = (case args of
       None \<Rightarrow> Inr (None, s)
     | Some (u, rpc_id, m_id) \<Rightarrow>
         rbind (send_request meanwhile u rpc_id m_id s) (\<lambda>(fu, s1).
           Inr (case fu of None \<Rightarrow> Some PyNone | Some f \<Rightarrow> Some (Py_k (Suc f)), s1)))"

text \<open>
  \<open>m_rep->read_from_marshal(fu->get_reply(), ...)\<close> into the new object at the address \<open>a\<close>; the future
  is ready when this is reached, so that \<open>get_reply\<close> does not wait.
\<close>

definition move_reply :: "mid \<Rightarrow> fid \<Rightarrow> py_cstate \<Rightarrow> py_cstate option res" where
  "move_reply a fu s =
     rbind (get_reply [] fu s) (\<lambda>r. case r of
         None \<Rightarrow> Inr None
       | Some (reply, s1) \<Rightarrow>
           rbind (mptr a (pc_ms s1)) (\<lambda>m_rep.
           rbind (Marshal_content_size (cs_heap s1) reply) (\<lambda>n.
           rbind (read_from_marshal (cs_heap s1) m_rep reply n) (\<lambda>(_, m_rep', reply', h).
           rbind (fut fu s1) (\<lambda>f.
             Inr (Some ((set_fut fu (f\<lparr>fu_reply := reply'\<rparr>) s1)\<lparr>cs_heap := h, pc_ms := (pc_ms s1)(a \<mapsto> m_rep')\<rparr>)))))))"

text \<open>The end of a synchronous call and of \<open>future_wait\<close>: the code, the reply if the code is 0, and \<open>release\<close>.\<close>

definition collect_reply ::
  "(py_cstate \<Rightarrow> py_cstate) list \<Rightarrow> mid \<Rightarrow> fid \<Rightarrow> py_cstate \<Rightarrow> (i32 \<times> py_cstate) option res" where
  "collect_reply ws a fu s =
     rbind (get_error_code ws fu s) (\<lambda>r. case r of
         None \<Rightarrow> Inr None
       | Some (error_code, s1) \<Rightarrow>
           rbind (if error_code = 0 then move_reply a fu s1 else Inr (Some s1)) (\<lambda>r2. case r2 of
               None \<Rightarrow> Inr None
             | Some s2 \<Rightarrow> rbind (Future_release fu s2) (\<lambda>s3. Inr (Some (error_code, s3)))))"

definition build_reply :: "mid \<Rightarrow> (i32 \<times> py_cstate) option \<Rightarrow> (pyresult \<times> py_cstate) option" where
  "build_reply a r = map_option (\<lambda>(error_code, s). (Some (Py_ik error_code a), s)) r"

definition new_reply :: "mid \<Rightarrow> py_cstate \<Rightarrow> py_cstate" where
  "new_reply a s = s\<lparr>pc_ms := (pc_ms s)(a \<mapsto> Marshal_new)\<rparr>"

definition pyrpc_client_sync_call ::
  "(py_cstate \<Rightarrow> py_cstate res) \<Rightarrow> (py_cstate \<Rightarrow> py_cstate) list \<Rightarrow> mid \<Rightarrow> (pid \<times> i32 \<times> mid) option \<Rightarrow> py_cstate \<Rightarrow>
     (pyresult \<times> py_cstate) option res" where
  "pyrpc_client_sync_call meanwhile ws a args s = (case args of
       None \<Rightarrow> Inr (Some (None, s))
     | Some (u, rpc_id, m_id) \<Rightarrow>
         rbind (send_request meanwhile u rpc_id m_id s) (\<lambda>(fu, s1).
           let s2 = new_reply a s1 in
           rbind (case fu of None \<Rightarrow> Inr (Some (ENOTCONN, s2)) | Some f \<Rightarrow> collect_reply ws a f s2) (\<lambda>r.
             Inr (build_reply a r))))"

text \<open>\<open>sent\<close> of the result is the datagram that was handed to \<open>sendto\<close>.\<close>

definition pyrpc_client_udp_call ::
  "(pid \<times> i32 \<times> mid) option \<Rightarrow> py_cstate \<Rightarrow> (pyresult \<times> byte list option \<times> py_cstate) res" where
  "pyrpc_client_udp_call args s = (case args of
       None \<Rightarrow> Inr (None, None, s)
     | Some (u, rpc_id, m_id) \<Rightarrow>
         rbind (begin_udp_request u rpc_id s) (\<lambda>s1.
         rbind (cli u s1) (\<lambda>c.
         rbind (mptr m_id (pc_ms s1)) (\<lambda>m.
         rbind (udp_put_marshal (cs_heap s1) (cl_udp c) m) (\<lambda>(udp, m', h).
           let s2 = (set_cli u (c\<lparr>cl_udp := udp\<rparr>) h s1)\<lparr>pc_ms := (pc_ms s1)(m_id \<mapsto> m')\<rparr> in
           rbind (end_udp_request u s2) (\<lambda>(ret, sent, s3).
             Inr (Some (Py_i (word_of_int ret)), sent, s3)))))))"

definition pyrpc_future_wait ::
  "(py_cstate \<Rightarrow> py_cstate) list \<Rightarrow> mid \<Rightarrow> nat option \<Rightarrow> py_cstate \<Rightarrow> (pyresult \<times> py_cstate) option res" where
  "pyrpc_future_wait ws a args s = (case args of
       None \<Rightarrow> Inr (Some (None, s))
     | Some fu_id \<Rightarrow>
         let s1 = new_reply a s in
         rbind (case fu_id of 0 \<Rightarrow> Inr (Some (ENOTCONN, s1)) | Suc fu \<Rightarrow> collect_reply ws a fu s1) (\<lambda>r.
           Inr (build_reply a r)))"

text \<open>\<open>tws\<close>: how the timed wait is woken up; the number of milliseconds only decides when.\<close>

definition pyrpc_future_timedwait ::
  "pyc_ext callbacks \<Rightarrow> pyc_ext wake list \<Rightarrow> (py_cstate \<Rightarrow> py_cstate) list \<Rightarrow> mid \<Rightarrow> (nat \<times> i64) option \<Rightarrow> py_cstate \<Rightarrow>
     (pyresult \<times> py_cstate) option res" where
  "pyrpc_future_timedwait cb tws ws a args s = (case args of
       None \<Rightarrow> Inr (Some (None, s))
     | Some (fu_id, wait_msec) \<Rightarrow>
         let s1 = new_reply a s in
         rbind (case fu_id of
             0 \<Rightarrow> Inr (Some (ENOTCONN, s1))
           | Suc fu \<Rightarrow>
               rbind (timed_wait cb tws fu s1) (\<lambda>r. case r of
                   None \<Rightarrow> Inr None
                 | Some s2 \<Rightarrow> collect_reply ws a fu s2)) (\<lambda>r.
           Inr (build_reply a r)))"

section \<open>Requests\<close>

lemma pc_ms_simps [simp]:
  "cs_heap (s\<lparr>pc_ms := x\<rparr>) = cs_heap s" "cs_clients (s\<lparr>pc_ms := x\<rparr>) = cs_clients s" "cs_poll (s\<lparr>pc_ms := x\<rparr>) = cs_poll s"
  "cs_futures (s\<lparr>pc_ms := x\<rparr>) = cs_futures s" "cli_ok R (s\<lparr>pc_ms := x\<rparr>) p = cli_ok R s p"
  by (simp_all add: cli_ok_def)

lemma pc_ms_set [simp]:
  "pc_ms (set_cli p c h s) = pc_ms s" "pc_ms (set_fut fu f s) = pc_ms s" "pc_ms (opened p c attr bm m h s) = pc_ms s"
  "pc_ms (closed p c attr m h pw s) = pc_ms s"
  by (simp_all add: set_cli_def set_fut_def opened_def closed_def)

text \<open>
  The state behind a request, and what deleting the object of the arguments makes of it: only then
  does no array belong to both the object and the buffer of the client.
\<close>

lemma send_request_ok:
  assumes ok: "cli_ok (refs m + R) s u" and c: "cs_clients s u = Some c" "cl_status c = CL_CONNECTED" "\<not> cl_out_l c"
    and m: "pc_ms s m_id = Some m" "wf_marshal (cs_heap s) m" "bytes (cs_heap s) m \<noteq> []"
    and dis: "set_mset (refs m) \<inter> set_mset (refs (base (cl_udp c)) + shared_refs R c (cs_futures s)) = {}"
  shows "\<exists>t4 h4 h5 pw m3. send_request Inr u rpc_id m_id s
      = Inr (Some (length (cs_futures s)), (closed u c None t4 h4 pw s)\<lparr>pc_ms := (pc_ms s)(m_id \<mapsto> m3)\<rparr>)
    \<and> Marshal_delete m3 h4 = Inr h5 \<and> cli_ok R (closed u c None t4 h5 pw s) u
    \<and> bytes h5 t4 = bytes (cs_heap s) (cl_out c) @ packet (enc_v64 (cl_xid_counter c) @ to_le 4 rpc_id @ bytes (cs_heap s) m)
    \<and> keeps_bufs (refs (base (cl_udp c)) + shared_refs R c (cs_futures s)) (cs_heap s) h5"
proof -
  let ?h = "cs_heap s" and ?o = "cl_out c" and ?n = "length (bytes (cs_heap s) m)"
  let ?Q = "refs (base (cl_udp c)) + shared_refs R c (cs_futures s)"
  have sp: "spare 0 (cs_poll s) u" and bo: "cbufs_ok (refs m + R) ?h c (cs_futures s)"
    and pe: "pend_ok (cl_pending_fu c) (cs_futures s)" and idle: "write_cnt ?o = 0" "cl_bmark c = None"
    using ok c(1) by (auto simp: cli_ok_def)
  have b: "heap_ok ?h (refs ?o + (refs m + ?Q))" "wf_marshal ?h ?o" "disjoint_bufs ?o m"
    using bo by (auto simp: cbufs_ok_def shared_refs_def ac_simps disjoint_bufs_def)
  obtain bm t1 h1 where t1: "set_bookmark ?h ?o 4 = Inr (bm, t1, h1)" "buf_ok h1 t1 (refs m + ?Q)"
    and fin: "\<And>head h2 t2. puts (refs m + ?Q) h1 t1 head h2 t2 \<Longrightarrow> wf_marshal h2 m \<and> bytes h2 m = bytes ?h m
      \<and> (\<exists>t3 m3 h3 t4 h4 h5. read_from_marshal h2 t2 m ?n = Inr (?n, t3, m3, h3)
          \<and> end_message h3 t3 (Some bm) = Inr (t4, h4) \<and> Marshal_delete m3 h4 = Inr h5
          \<and> sends ?Q ?h ?o (packet (head @ bytes ?h m)) h5 t4)"
    using transfer_ok [OF b(1,2) m(2) idle(1) b(3) dis m(3)] by blast
  obtain t2 h2 where be: "begin_request Inr u rpc_id None s = Inr (Some (length (cs_futures s)), opened u c None bm t2 h2 s)"
    "puts (refs m + ?Q) h1 t1 (enc_v64 (cl_xid_counter c) @ to_le 4 rpc_id) h2 t2"
    using begin_request_ok [OF c t1] by blast
  note f = fin [OF be(2)]
  obtain t3 m3 h3 t4 h4 h5 where r: "read_from_marshal h2 t2 m ?n = Inr (?n, t3, m3, h3)"
    "end_message h3 t3 (Some bm) = Inr (t4, h4)" "Marshal_delete m3 h4 = Inr h5"
    "sends ?Q ?h ?o (packet ((enc_v64 (cl_xid_counter c) @ to_le 4 rpc_id) @ bytes ?h m)) h5 t4" using f by blast
  let ?s1 = "opened u c None bm t2 h2 s" and ?s = "s\<lparr>pc_ms := (pc_ms s)(m_id \<mapsto> m3)\<rparr>"
  obtain d where d: "cs_clients ?s1 u = Some d" "cl_status d = CL_CONNECTED" "cl_out d = t2" "cs_heap ?s1 = h2"
    "\<forall>m' h'. set_cli u (d\<lparr>cl_out := m'\<rparr>) h' ?s1 = opened u c None bm m' h' s"
    using opened_out [OF c(2)] by blast
  have "client_put_marshal u m ?s1 = Inr (m3, opened u c None bm t3 h3 s)"
    using d r(1) f by (simp add: client_put_marshal_def)
  moreover have "(opened u c None bm t3 h3 s)\<lparr>pc_ms := (pc_ms s)(m_id \<mapsto> m3)\<rparr> = opened u c None bm t3 h3 ?s"
    by (simp add: opened_def set_cli_def)
  ultimately have put: "put_arguments u m_id ?s1 = Inr (opened u c None bm t3 h3 ?s)"
    using m(1) by (simp add: put_arguments_def)
  obtain pw where pw: "end_request u (opened u c None bm t3 h3 ?s) = Inr (closed u c None t4 h4 pw ?s)" "spare 0 pw u"
    using end_request_ok [OF c(3) idle(2) r(2), of ?s u None] sp by auto
  have "closed u c None t4 h4 pw ?s = (closed u c None t4 h4 pw s)\<lparr>pc_ms := (pc_ms s)(m_id \<mapsto> m3)\<rparr>"
    by (simp add: closed_def set_cli_def)
  then have "send_request Inr u rpc_id m_id s
      = Inr (Some (length (cs_futures s)), (closed u c None t4 h4 pw s)\<lparr>pc_ms := (pc_ms s)(m_id \<mapsto> m3)\<rparr>)"
    using be(1) put pw(1) by (simp add: send_request_def)
  with r(3) sent_request_ok(1) [OF bo pe idle(2) r(4) pw(2), of None] sent_request_ok(2,3) [OF bo pe idle(2) r(4) pw(2)]
  show ?thesis by (intro exI [of _ t4] exI [of _ h4] exI [of _ h5] exI [of _ pw] exI [of _ m3]) simp
qed

section \<open>Replies\<close>

lemma move_reply_bufs:
  assumes ok: "cbufs_ok R h c fs" and f: "fu < length fs" "fs ! fu = Some f"
  shows "\<exists>rep r h'. read_from_marshal h Marshal_new (fu_reply f) (length (bytes h (fu_reply f))) = Inr (length (bytes h (fu_reply f)), rep, r, h')
    \<and> cbufs_ok (refs rep + R) h' c (fs[fu := Some (f\<lparr>fu_reply := r\<rparr>)]) \<and> wf_marshal h' rep
    \<and> bytes h' rep = bytes h (fu_reply f) \<and> clear (cl_in c) rep \<and> cframe R h c fs fu h'
    \<and> bytes h' (cl_in c) = bytes h (cl_in c)"
proof -
  let ?m = "fu_reply f" and ?n = "length (bytes h (fu_reply f))" and ?fs = "fs[fu := None]"
  let ?Q = "refs (cl_out c) + (refs (base (cl_udp c)) + (refs (cl_in c) + (futs_refs ?fs + R)))"
  have fr: "futs_refs fs = refs ?m + futs_refs ?fs" using futs_refs_update [OF f(1), of None] f(2) by simp
  have fm: "wf_marshal h ?m" "clear (cl_in c) ?m" using ok f nth_mem [of fu fs] by (auto simp: cbufs_ok_def futs_ok_def)
  have "heap_ok h (refs Marshal_new + (refs ?m + ?Q))" using ok by (simp add: cbufs_ok_def shared_refs_def fr ac_simps)
  from read_from_marshal_ok [OF this _ fm(1), of ?n] obtain rep r h' where
    mv: "read_from_marshal h Marshal_new ?m ?n = Inr (?n, rep, r, h')" "moves ?Q h Marshal_new ?m ?n h' rep r" by auto
  have mr: "heap_ok h' (refs rep + (refs r + ?Q))" "wf_marshal h' rep" "wf_marshal h' r" "bytes h' rep = bytes h ?m"
    "set_mset (refs r) \<subseteq> set_mset (refs ?m)" "set_mset (refs rep) \<subseteq> set_mset (refs ?m)"
    "\<And>b. set_mset (refs b) \<subseteq> set_mset ?Q \<Longrightarrow> same_buf h h' b"
    using mv(2) by (simp_all add: moves_def)
  note cl = read_from_marshal_new_clear [OF mv(1) fm(2)]
  let ?g = "f\<lparr>fu_reply := r\<rparr>"
  have keep: "keeps_bufs ?Q h h'" using mr(7) by (rule keeps_bufs_same)
  have gr: "futs_refs (fs[fu := Some ?g]) = refs r + futs_refs ?fs"
    using futs_refs_update [of fu ?fs "Some ?g"] f(1) by simp
  have "futs_ok h (cl_in c) ?fs"
    using ok set_update_subset_insert [of fs fu None] by (fastforce simp: cbufs_ok_def futs_ok_def)
  then have "futs_ok h' (cl_in c) ?fs" by (rule futs_ok_keeps [OF _ keeps_bufs_mono [OF keep]]) auto
  moreover have "set (fs[fu := Some ?g]) \<subseteq> insert (Some ?g) (set ?fs)"
    using set_update_subset_insert [of ?fs fu "Some ?g"] by simp
  ultimately have fo: "futs_ok h' (cl_in c) (fs[fu := Some ?g])" using mr(3) cl(2) by (fastforce simp: futs_ok_def)
  have io: "wf_marshal h' (cl_out c)" "wf_marshal h' (base (cl_udp c))" "wf_marshal h' (cl_in c)" "bytes h' (cl_in c) = bytes h (cl_in c)"
    using keeps_bufsD [OF keep, of "cl_out c"] keeps_bufsD [OF keep, of "base (cl_udp c)"] keeps_bufsD [OF keep, of "cl_in c"] ok
    by (auto simp: cbufs_ok_def)
  have "cbufs_ok (refs rep + R) h' c (fs[fu := Some ?g])"
    by (rule cbufs_ok_shrink [OF ok refl refl _ _ io(1-3) fo])
      (use mr(1,5,6) in \<open>auto simp: shared_refs_def gr fr ac_simps\<close>)
  moreover have "cframe R h c fs fu h'" by (rule cframeI [OF ok keeps_bufs_mono [OF keep]]) auto
  ultimately show ?thesis using mv(1) mr(2,4) cl(1) io(4) by blast
qed

lemma Future_wait_ready:
  "Future_wait ws fu s = Inr (Some s1) \<Longrightarrow> \<exists>f. fut fu s1 = Inr f \<and> (fu_ready f \<or> fu_timed_out f)"
proof (induction ws arbitrary: s)
  case Nil
  then show ?case by (subst (asm) Future_wait.simps) (auto simp: rbind_eq_Inr_iff split: if_splits)
next
  case (Cons w ws)
  then show ?case by (subst (asm) Future_wait.simps) (auto simp: rbind_eq_Inr_iff split: if_splits)
qed

lemma Future_release_pc: "Future_release fu s = Inr s' \<Longrightarrow> pc_ms s' = pc_ms s"
  by (auto simp: Future_release_def rbind_eq_Inr_iff Let_def set_fut_def split: if_splits)

lemma move_reply_ok:
  assumes ok: "cli_ok R s u" and c: "cs_clients s u = Some c" and f: "fu < length (cs_futures s)" "cs_futures s ! fu = Some f"
    and rdy: "fu_ready f \<or> fu_timed_out f" and np: "\<And>x. cl_pending_fu c x \<noteq> Some fu" and a: "pc_ms s a = Some Marshal_new"
  shows "\<exists>s' rep r. move_reply a fu s = Inr (Some s') \<and> cli_ok (refs rep + R) s' u \<and> cs_clients s' = cs_clients s
    \<and> pc_ms s' = (pc_ms s)(a \<mapsto> rep) \<and> wf_marshal (cs_heap s') rep \<and> bytes (cs_heap s') rep = bytes (cs_heap s) (fu_reply f)
    \<and> clear (cl_in c) rep \<and> cs_futures s' = (cs_futures s)[fu := Some (f\<lparr>fu_reply := r\<rparr>)]
    \<and> cframe R (cs_heap s) c (cs_futures s) fu (cs_heap s') \<and> bytes (cs_heap s') (cl_in c) = bytes (cs_heap s) (cl_in c)"
proof -
  have bo: "cbufs_ok R (cs_heap s) c (cs_futures s)" using ok c by (simp add: cli_ok_def)
  then have wf: "wf_marshal (cs_heap s) (fu_reply f)" using f nth_mem [of fu "cs_futures s"] by (auto simp: cbufs_ok_def futs_ok_def)
  obtain rep r h' where mv: "read_from_marshal (cs_heap s) Marshal_new (fu_reply f) (length (bytes (cs_heap s) (fu_reply f)))
      = Inr (length (bytes (cs_heap s) (fu_reply f)), rep, r, h')"
    and m: "cbufs_ok (refs rep + R) h' c ((cs_futures s)[fu := Some (f\<lparr>fu_reply := r\<rparr>)])" "wf_marshal h' rep"
    "bytes h' rep = bytes (cs_heap s) (fu_reply f)" "clear (cl_in c) rep" "cframe R (cs_heap s) c (cs_futures s) fu h'"
    "bytes h' (cl_in c) = bytes (cs_heap s) (cl_in c)"
    using move_reply_bufs [OF bo f] by blast
  let ?s = "(set_fut fu (f\<lparr>fu_reply := r\<rparr>) s)\<lparr>cs_heap := h', pc_ms := (pc_ms s)(a \<mapsto> rep)\<rparr>"
  have "get_reply [] fu s = Inr (Some (fu_reply f, s))" using rdy f by (simp add: get_reply_def Future_wait.simps)
  then have "move_reply a fu s = Inr (Some ?s)" using mv wf a f by (simp add: move_reply_def)
  moreover have "cli_ok (refs rep + R) ?s u"
    using ok c m(1) pend_ok_update [of "cl_pending_fu c" "cs_futures s" fu, OF _ np] by (auto simp: cli_ok_def)
  ultimately show ?thesis using m(2-6) by (intro exI [of _ ?s] exI [of _ rep] exI [of _ r]) simp
qed

text \<open>The future is ready, or has timed out, in the state \<open>s1\<close> in which the wait ends.\<close>

lemma collect_reply_ok:
  assumes w: "Future_wait ws fu s = Inr (Some s1)" and ok: "cli_ok R s1 u" and c: "cs_clients s1 u = Some c"
    and f: "fu < length (cs_futures s1)" "cs_futures s1 ! fu = Some f" "0 < fu_ref f"
    and np: "\<And>x. cl_pending_fu c x \<noteq> Some fu" and a: "pc_ms s1 a = Some Marshal_new"
  shows "\<exists>s' rep. collect_reply ws a fu s = Inr (Some (fu_error_code f, s')) \<and> cli_ok (refs rep + R) s' u
    \<and> cs_clients s' = cs_clients s1 \<and> pc_ms s' = (pc_ms s1)(a \<mapsto> rep) \<and> wf_marshal (cs_heap s') rep \<and> clear (cl_in c) rep
    \<and> bytes (cs_heap s') rep = (if fu_error_code f = 0 then bytes (cs_heap s1) (fu_reply f) else [])
    \<and> length (cs_futures s') = length (cs_futures s1) \<and> (fu_ref f = 1 \<longrightarrow> cs_futures s' ! fu = None)
    \<and> cframe R (cs_heap s1) c (cs_futures s1) fu (cs_heap s')"
proof -
  have rdy: "fu_ready f \<or> fu_timed_out f" using Future_wait_ready [OF w] f(1,2) by auto
  have e: "get_error_code ws fu s = Inr (Some (fu_error_code f, s1))" using w f(1,2) by (simp add: get_error_code_def)
  show ?thesis
  proof (cases "fu_error_code f = 0")
    case True
    obtain s2 rep r where m: "move_reply a fu s1 = Inr (Some s2)" "cli_ok (refs rep + R) s2 u" "cs_clients s2 = cs_clients s1"
      "pc_ms s2 = (pc_ms s1)(a \<mapsto> rep)" "wf_marshal (cs_heap s2) rep" "bytes (cs_heap s2) rep = bytes (cs_heap s1) (fu_reply f)"
      "clear (cl_in c) rep" "cs_futures s2 = (cs_futures s1)[fu := Some (f\<lparr>fu_reply := r\<rparr>)]"
      "cframe R (cs_heap s1) c (cs_futures s1) fu (cs_heap s2)"
      using move_reply_ok [OF ok c f(1,2) rdy np a] by blast
    let ?g = "f\<lparr>fu_reply := r\<rparr>"
    have g: "cs_clients s2 u = Some c" "fu < length (cs_futures s2)" "cs_futures s2 ! fu = Some ?g" "0 < fu_ref ?g" using m(3,8) c f by simp_all
    obtain s3 where r3: "Future_release fu s2 = Inr s3" "cli_ok (refs rep + R) s3 u" "cs_clients s3 = cs_clients s2"
      "cframe (refs rep + R) (cs_heap s2) c (cs_futures s2) fu (cs_heap s3)" "cs_futures s3 = (cs_futures s2)[fu := released ?g]"
      using Future_release_ok [OF m(2) g np] by blast
    have rep: "wf_marshal (cs_heap s3) rep" "bytes (cs_heap s3) rep = bytes (cs_heap s1) (fu_reply f)"
      using r3(4) keeps_bufsD [of "refs rep + R" "cs_heap s2" "cs_heap s3" rep] m(5,6) by (auto simp: cframe_def)
    have "cframe R (cs_heap s2) c (cs_futures s2) fu (cs_heap s3)"
      using r3(4) keeps_bufs_mono [of "refs rep + R" _ _ R] by (auto simp: cframe_def)
    then have "cframe R (cs_heap s1) c (cs_futures s1) fu (cs_heap s3)"
      by (rule cframe_trans [OF m(9)]) (simp_all add: m(8))
    moreover have "collect_reply ws a fu s = Inr (Some (fu_error_code f, s3))" using e True m(1) r3(1) by (simp add: collect_reply_def)
    ultimately show ?thesis using True r3(2,3,5) m(3,4,7,8) rep f(1) Future_release_pc [OF r3(1)]
      by (intro exI [of _ s3] exI [of _ rep]) (simp add: released_def)
  next
    case False
    obtain s3 where r3: "Future_release fu s1 = Inr s3" "cli_ok R s3 u" "cs_clients s3 = cs_clients s1"
      "cframe R (cs_heap s1) c (cs_futures s1) fu (cs_heap s3)" "cs_futures s3 = (cs_futures s1)[fu := released f]"
      using Future_release_ok [OF ok c f np] by blast
    have "collect_reply ws a fu s = Inr (Some (fu_error_code f, s3))" using e False r3(1) by (simp add: collect_reply_def)
    moreover have "clear (cl_in c) Marshal_new" by (simp add: clear_def)
    moreover have "(pc_ms s1)(a \<mapsto> Marshal_new) = pc_ms s1" using a by (simp add: fun_upd_idem)
    ultimately show ?thesis using False r3 f(1) Future_release_pc [OF r3(1)]
      by (intro exI [of _ s3] exI [of _ Marshal_new]) (simp add: released_def)
  qed
qed

section \<open>Properties\<close>


text \<open>A client on a heap that holds the three bytes of \<open>demo_buf\<close>, which belong to \<open>ms\<close> or to \<open>fs\<close>.\<close>

definition demo_pyc :: "mstore \<Rightarrow> future option list \<Rightarrow> py_cstate" where
  "demo_pyc ms fs = \<lparr>cs_heap = demo_heap, cs_poll = demo_poll0, cs_clients = Map.empty, cs_futures = fs, pc_ms = ms\<rparr>"

lemma demo_pyc_connect:
  assumes "refs demo_buf = futs_refs fs + R" "\<forall>f. Some f \<in> set fs \<longrightarrow> wf_marshal demo_heap (fu_reply f)"
  shows "\<exists>s c. Client_connect 5 6 7 (Client_new 7 (demo_pyc ms fs)) = Inr (0, s) \<and> cli_ok R s 7 \<and> cs_clients s 7 = Some c
    \<and> cl_status c = CL_CONNECTED \<and> \<not> cl_out_l c \<and> cl_xid_counter c = 0 \<and> cl_pending_fu c = Map.empty
    \<and> cs_heap s = demo_heap \<and> cl_in c = Marshal_new \<and> cl_out c = Marshal_new \<and> base (cl_udp c) = Marshal_new
    \<and> cs_futures s = fs \<and> pc_ms s = ms"
proof -
  let ?s = "demo_pyc ms fs"
  have "PollMgr_new 1 (\<lambda>_. None) = Inr demo_poll0" by (simp add: PollMgr_new_def demo_poll0_def)
  then have p: "poll_ok demo_poll0" by (rule new_ok) simp_all
  have "heap_ok (cs_heap ?s) (futs_refs (cs_futures ?s) + R)" using demo_ok assms(1) by (simp add: demo_pyc_def buf_ok_def)
  moreover have "futs_ok (cs_heap ?s) Marshal_new (cs_futures ?s)" using assms(2) by (simp add: futs_ok_def demo_pyc_def)
  ultimately obtain s c where s: "Client_connect 5 6 7 (Client_new 7 ?s) = Inr (0, s)" "cli_ok R s 7" "cs_clients s 7 = Some c"
    using client_connect_ok [of ?s 7 5 6 R] p by (auto simp: demo_pyc_def demo_poll0_def PollThread_new_def tid_of_def)
  then show ?thesis
    by (auto simp: Client_connect_def Client_new_def demo_pyc_def set_cli_def cli_def obj_def Let_def UdpBuffer_new_def
        rbind_eq_Inr_iff split: if_splits)
qed


text \<open>
  C19. Waiting for a future from Python. In the state in which the wait ends, the call returns the
  error code of the future and the address of a new object: with exactly the bytes of the reply when the
  code is 0, empty otherwise, but there in both cases, so that somebody has to delete it. One reference on the future is given
  up, which frees it when it was the last; the client, the bytes it has to send and the other replies
  are as before, and what the client receives later will not be written over the object.
\<close>

theorem python_wait_returns_reply:
  assumes "Future_wait ws fu (new_reply a s) = Inr (Some s1)" and "cli_ok R s1 u" "cs_clients s1 u = Some c"
    and "fu < length (cs_futures s1)" "cs_futures s1 ! fu = Some f" "0 < fu_ref f"
    and "\<And>x. cl_pending_fu c x \<noteq> Some fu" and "pc_ms s1 a = Some Marshal_new"
  shows "\<exists>s' rep. pyrpc_future_wait ws a (Some (Suc fu)) s = Inr (Some (Some (Py_ik (fu_error_code f) a), s'))
    \<and> pc_ms s' = (pc_ms s1)(a \<mapsto> rep) \<and> bytes (cs_heap s') rep = (if fu_error_code f = 0 then bytes (cs_heap s1) (fu_reply f) else [])
    \<and> cli_ok (refs rep + R) s' u \<and> cs_clients s' = cs_clients s1 \<and> wf_marshal (cs_heap s') rep \<and> clear (cl_in c) rep
    \<and> (fu_ref f = 1 \<longrightarrow> cs_futures s' ! fu = None) \<and> cframe R (cs_heap s1) c (cs_futures s1) fu (cs_heap s')"
proof -
  obtain s' rep where r: "collect_reply ws a fu (new_reply a s) = Inr (Some (fu_error_code f, s'))" "cli_ok (refs rep + R) s' u"
    "cs_clients s' = cs_clients s1" "pc_ms s' = (pc_ms s1)(a \<mapsto> rep)" "wf_marshal (cs_heap s') rep" "clear (cl_in c) rep"
    "bytes (cs_heap s') rep = (if fu_error_code f = 0 then bytes (cs_heap s1) (fu_reply f) else [])"
    "fu_ref f = 1 \<longrightarrow> cs_futures s' ! fu = None" "cframe R (cs_heap s1) c (cs_futures s1) fu (cs_heap s')"
    using collect_reply_ok [OF assms] by blast
  have "pyrpc_future_wait ws a (Some (Suc fu)) s = Inr (Some (Some (Py_ik (fu_error_code f) a), s'))"
    using r(1) by (simp add: pyrpc_future_wait_def build_reply_def)
  with r(2-9) show ?thesis by blast
qed

theorem python_wait_returns_reply_witness:
  "\<exists>s s' rep. Client_connect 5 6 7 (Client_new 7 (demo_pyc Map.empty
        [Some ((Future_new 0 None)\<lparr>fu_reply := demo_buf, fu_ready := True\<rparr>)])) = Inr (0, s)
    \<and> pyrpc_future_wait [] 3 (Some 1) s = Inr (Some (Some (Py_ik 0 3), s')) \<and> pc_ms s' = [3 \<mapsto> rep]
    \<and> bytes (cs_heap s') rep = [11, 12, 13] \<and> cs_futures s' ! 0 = None"
proof -
  define f where "f = (Future_new 0 None)\<lparr>fu_reply := demo_buf, fu_ready := True\<rparr>"
  have f: "fu_reply f = demo_buf" "fu_ready f" "fu_error_code f = 0" "fu_ref f = 1" by (simp_all add: f_def Future_new_def)
  have d: "refs demo_buf = futs_refs [Some f] + {#}" "\<forall>g. Some g \<in> set [Some f] \<longrightarrow> wf_marshal demo_heap (fu_reply g)"
    using demo_ok by (simp_all add: futs_refs_def f(1) buf_ok_def)
  obtain s c where s: "Client_connect 5 6 7 (Client_new 7 (demo_pyc Map.empty [Some f])) = Inr (0, s)"
    "cli_ok {#} s 7" "cs_clients s 7 = Some c" "cl_pending_fu c = Map.empty" "cs_heap s = demo_heap"
    "cs_futures s = [Some f]" "pc_ms s = Map.empty"
    using demo_pyc_connect [OF d, of Map.empty] by blast
  let ?s1 = "new_reply 3 s"
  have s1: "cli_ok {#} ?s1 7" "cs_clients ?s1 7 = Some c" "cs_futures ?s1 = [Some f]" "cs_heap ?s1 = demo_heap"
    "pc_ms ?s1 = [3 \<mapsto> Marshal_new]" using s(2,3,5-7) by (simp_all add: new_reply_def)
  then have w: "Future_wait [] 0 ?s1 = Inr (Some ?s1)" using f(2) by (simp add: Future_wait.simps fut_def)
  have pre: "0 < length (cs_futures ?s1)" "cs_futures ?s1 ! 0 = Some f" "0 < fu_ref f" "pc_ms ?s1 3 = Some Marshal_new"
    using s1(3,5) f(4) by simp_all
  have np: "cl_pending_fu c x \<noteq> Some 0" for x using s(4) by simp
  from python_wait_returns_reply [where a = 3, OF w s1(1,2) pre(1-3) np pre(4)] s(1) s1(3,4,5) f show ?thesis
    unfolding f_def [symmetric] by (auto simp: demo_bytes)
qed

text \<open>
  A Python call on a client that is not connected sends nothing and leaves the arguments and all
  buffers alone: an asynchronous one returns \<open>None\<close>, a synchronous one the code \<open>ENOTCONN\<close> and the
  address of an empty object; both leave the client ready for the next call.
\<close>

theorem python_request_not_connected:
  assumes "cli_ok R s u" "cs_clients s u = Some c" "cl_status c \<noteq> CL_CONNECTED" "\<not> cl_out_l c"
  shows "\<exists>s'. pyrpc_client_async_call meanwhile (Some (u, rpc_id, m_id)) s = Inr (Some PyNone, s')
    \<and> pyrpc_client_sync_call meanwhile ws a (Some (u, rpc_id, m_id)) s = Inr (Some (Some (Py_ik ENOTCONN a), new_reply a s'))
    \<and> cli_ok R s' u \<and> cs_clients s' = cs_clients s \<and> cs_futures s' = cs_futures s \<and> cs_heap s' = cs_heap s \<and> pc_ms s' = pc_ms s"
proof -
  have sp: "spare 0 (cs_poll s) u" and idle: "cl_bmark c = None" using assms(1,2) by (auto simp: cli_ok_def)
  obtain pw where pw: "PollMgr_update_mode u (READ OR WRITE) (cs_poll s) = Inr pw" "spare 0 pw u"
    using update_mode_spare [OF sp] by blast
  let ?s = "s\<lparr>cs_poll := pw\<rparr>"
  have "c\<lparr>cl_out_l := False\<rparr> = c" using assms(4) by (cases c) simp
  moreover have "c\<lparr>cl_out_l := True, cl_bmark := None, cl_out_l := False\<rparr> = c" using assms(4) idle by (cases c) simp
  ultimately have e: "end_request u (set_cli u (c\<lparr>cl_out_l := True\<rparr>) (cs_heap s) s) = Inr ?s"
    using pw(1) idle assms(2) by (simp add: end_request_def end_message_def set_cli_def cli_def fun_upd_idem)
  have "begin_request meanwhile u rpc_id None s = Inr (None, set_cli u (c\<lparr>cl_out_l := True\<rparr>) (cs_heap s) s)"
    using assms(2-4) by (simp add: begin_request_def)
  then have "send_request meanwhile u rpc_id m_id s = Inr (None, ?s)" using e by (simp add: send_request_def)
  moreover have "cli_ok R ?s u" using assms(1) pw(2) by (simp add: cli_ok_def)
  ultimately show ?thesis
    by (intro exI [of _ ?s]) (simp add: pyrpc_client_async_call_def pyrpc_client_sync_call_def build_reply_def)
qed

theorem python_request_not_connected_witness:
  "\<exists>s c s'. cs_clients s 7 = Some c \<and> cl_status c = CL_CLOSED \<and> pc_ms s = [9 \<mapsto> demo_buf]
    \<and> pyrpc_client_async_call Inr (Some (7, 77, 9)) s = Inr (Some PyNone, s') \<and> pc_ms s' = [9 \<mapsto> demo_buf]"
proof -
  have d: "refs demo_buf = futs_refs [] + refs demo_buf" "\<forall>f. Some f \<in> set [] \<longrightarrow> wf_marshal demo_heap (fu_reply f)"
    by (simp_all add: futs_refs_def)
  obtain s :: py_cstate and c where s: "cli_ok (refs demo_buf) s 7" "cs_clients s 7 = Some c" "\<not> cl_out_l c" "pc_ms s = [9 \<mapsto> demo_buf]"
    using demo_pyc_connect [OF d, of "[9 \<mapsto> demo_buf]"] by blast
  let ?c = "c\<lparr>cl_status := CL_CLOSED\<rparr>"
  let ?s = "set_cli 7 ?c (cs_heap s) s"
  have t: "cli_ok (refs demo_buf) ?s 7" "cs_clients ?s 7 = Some ?c" "cl_status ?c \<noteq> CL_CONNECTED" "\<not> cl_out_l ?c"
    using s(1-3) cbufs_ok_cong [of ?c c] by (simp_all add: cli_ok_def)
  obtain s' where "pyrpc_client_async_call Inr (Some (7, 77, 9)) ?s = Inr (Some PyNone, s')" "pc_ms s' = pc_ms ?s"
    using python_request_not_connected [OF t, of Inr 77 9] by blast
  with s(4) t(2) show ?thesis by (intro exI [of _ ?s] exI [of _ ?c] exI [of _ s']) simp
qed

end
