(* ===== verification/Spec2Isabelle.thy ===== *)
theory Spec2Isabelle
  imports Server_Life Client_Pool Blocking_Queue Qps_Rpc Test_Mgr Log_Output Rpc_Stats Timing Unbounded_Buffer Py_Server Py_Client
begin

text \<open>
  A verification of simple-rpc, a remote procedure call library in C++.

  \<^bold>\<open>The program.\<close> A client writes a request (a call number, a method number, the arguments) into the
  outgoing buffer of a connection. The buffer is a \<^emph>\<open>Marshal\<close>: a queue of bytes in a chain of chunks
  that are windows into reference-counted arrays, so that whole chunks move from one buffer to
  another by pointer. A poll thread sends the bytes when the socket is writable. On the other side a
  poll thread appends what the socket gives to the incoming buffer, cuts the complete packets out of
  it, looks up the handler of each method and runs it; the handler writes one reply packet. Back on
  the client the reply completes the \<^emph>\<open>Future\<close> of its call number. Around this stand a poll manager
  that owns references to everything it watches, thread pools, and a logging service built from
  all of it.

  \<^bold>\<open>Theories and sources\<close> (all paths under \<open>src/\<close>):

  \<^item> \<open>Rpc_Prelude\<close>: machine integers, the abort-or-value monad, little-endian bytes.
  \<^item> \<open>Sparse_Int\<close>: \<open>base/basetypes.cc\<close>, class \<open>SparseInt\<close>; \<open>v32\<close> and \<open>v64\<close> of \<open>base/basetypes.h\<close>.
  \<^item> \<open>Chunk_Heap\<close>: \<open>raw_bytes\<close>, \<open>chunk\<close> and \<open>bookmark\<close> of \<open>rpc/buffer.h\<close>, \<open>rpc/buffer.cc\<close>, over an explicit heap.
  \<^item> \<open>Marshal_Buffer\<close> (definitions), \<open>Marshal_Correct\<close> (invariant and effect of each operation),
    \<open>Marshal_Interface\<close> (the contract of a byte queue as the locale \<open>byte_queue\<close>, interpreted on
    \<open>Marshal\<close>): \<open>rpc/marshal.cc\<close> and the class in \<open>rpc/marshal.h\<close>.
  \<^item> \<open>Marshal_Codec\<close>: the operators \<open><<\<close> and \<open>>>\<close> of \<open>rpc/marshal.h\<close>, with the locale \<open>codec\<close>
    interpreted for every scalar type and carried by sublocales through the containers.
  \<^item> \<open>Udp_Buffer\<close>: class \<open>UdpBuffer\<close> of \<open>rpc/marshal.h\<close>.
  \<^item> \<open>Rpc_Message\<close>: the packet format both receive loops and both send sides share.
  \<^item> \<open>Poll_Mgr\<close>, \<open>Poll_Refs\<close>: \<open>rpc/polling.cc\<close>, the epoll variant.
  \<^item> \<open>Threading\<close>: \<open>base/threading.cc\<close> and \<open>base/threading.h\<close>.
  \<^item> \<open>Rpc_Server\<close> (definitions), \<open>Server_Correct\<close>, \<open>Server_Properties\<close>: \<open>rpc/server.cc\<close>, \<open>rpc/server.h\<close>;
    the locale \<open>rpc_service\<close> is the contract between the dispatcher and the handlers.
  \<^item> \<open>Bench_Service\<close>: methods of \<open>test/benchmark_service.h\<close> and \<open>.cc\<close>, on which \<open>rpc_service\<close> is interpreted.
  \<^item> \<open>Rpc_Client\<close> (definitions), \<open>Client_Correct\<close>, \<open>Client_Properties\<close>: \<open>rpc/client.cc\<close>, \<open>rpc/client.h\<close>.
  \<^item> \<open>Sockets\<close>: \<open>rpc/utils.cc\<close>. \<open>Server_Life\<close>: \<open>Server::start\<close>, the accepting thread and \<open>~Server\<close> of \<open>rpc/server.cc\<close>.
  \<^item> \<open>Base_Utils\<close>: \<open>base/strop.cc\<close>, \<open>base/misc.cc\<close>, and \<open>Counter\<close> and \<open>MergedEnumerator\<close> of \<open>base/basetypes.h\<close>.
  \<^item> \<open>Poll_Frames\<close>: what the operations on one pollable leave alone. \<open>Client_Pool\<close>: \<open>ClientPool\<close> of \<open>rpc/client.cc\<close>.
  \<^item> \<open>Rlog_Service\<close>: \<open>rlog/log_service_impl.cc\<close>, the log server. \<open>Rlog_Client\<close>: \<open>RLog\<close> of \<open>rlog/rlog.cc\<close> and the
    proxy of \<open>rlog/log_service.h\<close>. \<open>Rlog_Rpc\<close>: the handlers of \<open>rlog/log_service.h\<close>.
  \<^item> \<open>Log_Output\<close>: \<open>base/logging.h\<close>, \<open>base/logging.cc\<close>. \<open>Rpc_Stats\<close>: the counters behind \<open>RPC_STATISTICS\<close> in \<open>rpc/buffer.cc\<close> and
    \<open>rpc/server.cc\<close>.
  \<^item> \<open>Test_Mgr\<close>: \<open>base/unittest.cc\<close>, the test driver.
  \<^item> \<open>Blocking_Queue\<close>: \<open>Mutex\<close>, \<open>ScopedLock\<close>, \<open>CondVar\<close> and, statement by statement, \<open>Queue\<close> of \<open>base/threading.h\<close>.
  \<^item> \<open>Unbounded_Buffer\<close>: \<open>UnboundedBuffer\<close> of \<open>rpc/buffer.cc\<close>, with \<open>byte_queue\<close> as the interface \<open>Buffer\<close>.
  \<^item> \<open>Doubles\<close>: floating-point numbers. \<open>Timing\<close>: \<open>Timer\<close> of \<open>base/basetypes.cc\<close> and \<open>stat_server_batching\<close> of \<open>rpc/server.cc\<close>.
    \<open>Rlog_Qps\<close>: the rates of the log server in \<open>rlog/log_service_impl.cc\<close>; \<open>Qps_Rpc\<close>: their handler.
  \<^item> \<open>Marshal_Transfer\<close>: messages whose body comes from another buffer, on which \<open>Py_Marshal\<close>, \<open>Py_Server\<close> and \<open>Py_Client\<close>
    build: the Python extension \<open>pylib/simplerpc/_pyrpc.cc\<close> with \<open>MarshalWrap\<close> of \<open>server.py\<close>.
  \<^item> this theory: a call from end to end.

  \<^bold>\<open>How the code is translated.\<close> A class is a record, an operation a function from the old to the new
  state; everything that stops the program (\<open>verify\<close>, \<open>assert\<close>, a null or dangling pointer, an index
  out of range, signed overflow, waiting for a lock one holds) is a value of type \<open>err\<close>. Machine
  integers keep their width. Objects that are shared live in stores (arrays, pollables, connections,
  clients, futures), where deleting leaves \<open>None\<close> and any later use is \<open>UseAfterFree\<close>. What comes from outside
  is an argument: the bytes a descriptor gives and the pieces it gives them in (\<open>rx\<close>, \<open>rd_sched\<close>),
  what the kernel reports, the order of hash tables, the addresses of the allocator, the content of
  fresh memory, the handlers and callbacks of the user. Concurrency appears where the code allows it: as
  sequences of steps of poll threads and workers with reachable states (\<open>Poll_Mgr\<close>, \<open>Threading\<close>), down to single
  lock operations in \<open>Blocking_Queue\<close>, as
  what other threads do between two looks at a shared variable (\<open>begin_request\<close>, \<open>timed_wait\<close>), and not
  inside a critical section.

  \<^bold>\<open>What is shown.\<close> Integers survive their variable-length encoding, with the exact exception the
  code has. A buffer behaves as a list of bytes, whatever is shared below; nothing is read outside an
  array, freed twice or used after it was freed. What the operators write they read back, for every
  type and nesting, and a truncated message is rejected. A poll thread only touches live pollables;
  a pool runs each job once; delayed jobs run in order and never early. A server answers each complete request
  once and in order; a client completes each future once, by its reply, by a time-out or by the
  closing of the connection. The first property composes these: a call returns what the method returns.
  Opening a socket and starting a server leave no descriptor behind; the accepting thread ends when it is
  told to. A pool of clients hands out clients of complete sets of connections only. A logger numbers its
  messages without gaps, the log server prints the lines of each source in order, up to the first gap, and so prints all that was logged
  once the jobs have run, in any order. Splitting, grouping and
  merging agree with their textbook definitions, and the test driver selects what it is told to. A log
  statement prints one whole line, and the statistics lose no event.
  Threads that share a queue lose no element and no wake-up, whatever the interleaving. A buffer is safe for its whole
  life under any calls. A Python method answers each request once, with its results or the code of its exception; a Python
  client sends what its argument object holds and gets the bytes of the reply. The rates of the log server count all
  calls of an interval but the oldest.
  Several properties say precisely how the code departs from what it means to do; those are listed as
  findings in the manifest.

  \<^bold>\<open>Loops and bounds.\<close> Every loop is a total function: structural, or with a measure (the bytes left in
  a buffer, the chunks left, the entries of a queue). The one loop whose end depends on user code, the receive
  loop of the client with its callbacks, has fuel: one turn more than there are bytes, since each turn takes
  four bytes at least; \<open>client_handle_read_ok\<close> shows that this is enough for callbacks that leave the
  client alone. Sizes on the wire are 32-bit numbers; the theorems ask for packets below \<open>2 ^ 31\<close> bytes where the code does.

  \<^bold>\<open>Not modelled.\<close> The kqueue variant of the poll manager (the same code with other system calls).
  The destruction of mutexes and condition variables, and the generator behind \<open>Rand\<close>. Of the Python extension
  the interpreter lock, the table of functions and the start of the module; the containers and
  structures that \<open>marshal.py\<close> composes from the scalar types. The code generator, which is Python.
  \<open>base/debugging.cc\<close>, which prints a stack trace, and \<open>protobuf/\<close>, which calls a third-party serializer.
  The \<open>main\<close> of \<open>rlog/log_server.cc\<close>, which starts a server and waits for a signal. The end of the poll manager that \<open>RLog\<close> owns is
  only a flag. Of floating-point arithmetic, which \<open>Doubles\<close> gives by exact rounding, infinities, subnormal numbers and
  values that are not a number.
\<close>

section \<open>A call from end to end\<close>

text \<open>What a client is owed for a call: the error code, the bytes of the results, and the service's new state.\<close>

definition rpc_outcome :: "(i32 \<Rightarrow> 'u rpc_method option) \<Rightarrow> i32 \<Rightarrow> byte list \<Rightarrow> 'u \<Rightarrow> i32 \<times> byte list \<times> 'u" where
  "rpc_outcome meths rpc_id args u = (case meths rpc_id of
       None \<Rightarrow> (ENOENT, [], u)
     | Some g \<Rightarrow> (0, g args u))"

lemma answer_outcome:
  "rpc_outcome meths rpc_id args u = (e, b, u') \<Longrightarrow>
     answer meths (xid, to_le 4 rpc_id @ args) u = (packet (enc_reply (xid, e, b)), u')"
  by (auto simp: rpc_outcome_def answer_def enc_reply_def prod_eq_iff split: option.splits)

text \<open>One request, received in any pieces, by a server with nothing left over from before.\<close>

lemma serve_single:
  assumes svc: "rpc_service handlers meths accepts"
    and srv: "srv_ok k R ss p" "ss_conns ss p = Some c" "sc_status c = CONNECTED" "bytes (ss_heap ss) (sc_in c) = []"
    and r: "wire_ok r" "servable meths accepts r"
    and del: "delivers \<lparr>rx = packet (enc_request r), rd_sched = sched\<rparr>"
  shows "\<exists>ss' fd'. handle_read handlers p \<lparr>rx = packet (enc_request r), rd_sched = sched\<rparr> ss = Inr (ss', fd')
    \<and> sstate.more ss' = snd (answer meths r (sstate.more ss))
    \<and> out_bytes ss' p = out_bytes ss p @ fst (answer meths r (sstate.more ss))"
proof -
  let ?fd = "\<lparr>rx = packet (enc_request r), rd_sched = sched\<rparr> :: in_fd"
  have empty: "\<not> Rpc_Message.complete []" "\<not> Rpc_Message.complete (bytes (ss_heap ss) (sc_in c))" by (simp_all add: srv(4) Rpc_Message.complete_def)
  obtain got and fd' :: in_fd where g: "rx ?fd = got @ rx fd'" "delivers ?fd \<longrightarrow> rx fd' = []"
    and all: "\<forall>qs rest. bytes (ss_heap ss) (sc_in c) @ got = wire_stream qs rest
      \<and> (\<forall>q \<in> set qs. wire_ok q \<and> servable meths accepts q) \<and> \<not> Rpc_Message.complete rest \<and> length got < 2 ^ 32 \<longrightarrow>
      (\<exists>s' c'. handle_read handlers p ?fd ss = Inr (s', fd') \<and> srv_ok k R s' p
        \<and> out_bytes s' p = out_bytes ss p @ fst (answers meths qs (sstate.more ss))
        \<and> sstate.more s' = snd (answers meths qs (sstate.more ss))
        \<and> ss_conns s' p = Some c' \<and> bytes (ss_heap s') (sc_in c') = rest
        \<and> sc_status c' = CONNECTED \<and> sc_sock c' = sc_sock c
        \<and> (\<forall>b. set_mset (refs b) \<subseteq> set_mset R \<and> clear (sc_in c) b \<and> wf_marshal (ss_heap ss) b \<longrightarrow>
              bytes (ss_heap s') b = bytes (ss_heap ss) b))"
    using rpc_service.handle_read_ok [OF svc srv(1-3) empty(2), of ?fd] by (elim exE conjE) (rule that)
  have got: "got = wire_stream [r] []" using g del by (simp add: wire_stream_def)
  moreover have "length (wire_stream [r] []) < 2 ^ 32"
    using r(1) by (simp add: wire_stream_def packet_def wire_ok_def short_len_def)
  ultimately have pre: "bytes (ss_heap ss) (sc_in c) @ got = wire_stream [r] []
      \<and> (\<forall>q \<in> set [r]. wire_ok q \<and> servable meths accepts q) \<and> \<not> Rpc_Message.complete [] \<and> length got < 2 ^ 32"
    using r empty(1) by (simp add: srv(4))
  from mp [OF all [THEN spec, THEN spec, of "[r]" "[]"] pre] show ?thesis by (auto simp: case_prod_beta)
qed

text \<open>One reply, received in any pieces, by a client that waits for it.\<close>

lemma receive_single:
  assumes cl: "quiet cb" "cli_ok Q s q" "cs_clients s q = Some d" "cl_status d = CL_CONNECTED" "bytes (cs_heap s) (cl_in d) = []"
    and r: "reply_ok_wire r" "cl_pending_fu d (fst r) = Some fu"
    and del: "delivers \<lparr>rx = packet (enc_reply r), rd_sched = sched\<rparr>"
  shows "\<exists>s' fd'. client_handle_read cb q \<lparr>rx = packet (enc_reply r), rd_sched = sched\<rparr> s = Inr (s', fd')
    \<and> fulfilled (cs_heap s') (cl_pending_fu d) (cs_futures s) (cs_futures s') r"
proof -
  let ?fd = "\<lparr>rx = packet (enc_reply r), rd_sched = sched\<rparr> :: in_fd"
  have empty: "\<not> Rpc_Message.complete []" "\<not> Rpc_Message.complete (bytes (cs_heap s) (cl_in d))" by (simp_all add: cl(5) Rpc_Message.complete_def)
  obtain got and fd' :: in_fd where g: "rx ?fd = got @ rx fd'" "delivers ?fd \<longrightarrow> rx fd' = []"
    and all: "\<forall>qs rest. bytes (cs_heap s) (cl_in d) @ got = reply_stream qs rest \<and> distinct (map fst qs) \<and> \<not> Rpc_Message.complete rest
      \<and> length got < 2 ^ 32 \<and> (\<forall>q \<in> set qs. reply_ok_wire q \<and> cl_pending_fu d (fst q) \<noteq> None) \<longrightarrow>
      (\<exists>s' m'. client_handle_read cb q ?fd s = Inr (s', fd') \<and> cli_ok Q s' q
        \<and> cs_clients s' = (cs_clients s)(q \<mapsto> d\<lparr>cl_in := m', cl_pending_fu := cl_pending_fu d |` (- (fst ` set qs))\<rparr>)
        \<and> bytes (cs_heap s') m' = rest \<and> bytes (cs_heap s') (cl_out d) = bytes (cs_heap s) (cl_out d)
        \<and> length (cs_futures s') = length (cs_futures s)
        \<and> (\<forall>q \<in> set qs. fulfilled (cs_heap s') (cl_pending_fu d) (cs_futures s) (cs_futures s') q)
        \<and> (\<forall>i. (\<forall>q \<in> set qs. cl_pending_fu d (fst q) \<noteq> Some i) \<longrightarrow>
              untouched (cs_heap s) (cs_futures s) (cs_heap s') (cs_futures s') i))"
    using client_handle_read_ok [OF cl(1-4) empty(2), of ?fd] by (elim exE conjE) (rule that)
  have got: "got = packet (enc_reply r)" using g del by simp
  moreover have "length (packet (enc_reply r)) < 2 ^ 32" using r(1) by (simp add: packet_def reply_ok_wire_def short_len_def)
  ultimately have pre: "bytes (cs_heap s) (cl_in d) @ got = reply_stream [r] [] \<and> distinct (map fst [r]) \<and> \<not> Rpc_Message.complete []
      \<and> length got < 2 ^ 32 \<and> (\<forall>q \<in> set [r]. reply_ok_wire q \<and> cl_pending_fu d (fst q) \<noteq> None)"
    using r empty(1) by (simp add: cl(5) reply_stream_def)
  from mp [OF all [THEN spec, THEN spec, of "[r]" "[]"] pre] show ?thesis by auto
qed

text \<open>
  C1. A remote call gives what the method gives. A client that sends a request over a fresh connection, a
  server with any service that meets the handler contract, and a network that hands over all bytes in
  any pieces: the server runs the method once on the arguments as they were written, and the future the client got
  is completed with the error code of the call (0, or \<open>ENOENT\<close> for a method nobody registered) and
  exactly the bytes of the results.
\<close>

theorem remote_call_returns_the_result:
  fixes rpc_id :: i32
  assumes svc: "rpc_service handlers meths accepts"
    and srv: "srv_ok k R ss p" "ss_conns ss p = Some c" "sc_status c = CONNECTED"
      "bytes (ss_heap ss) (sc_in c) = []" "out_bytes ss p = []"
    and cl: "quiet cb" "cli_ok Q cs q" "cs_clients cs q = Some d" "cl_status d = CL_CONNECTED" "\<not> cl_out_l d"
      "bytes (cs_heap cs) (cl_in d) = []" "bytes (cs_heap cs) (cl_out d) = []"
    and args: "writes_args q w args" "meths rpc_id \<noteq> None \<longrightarrow> accepts rpc_id args"
    and out: "rpc_outcome meths rpc_id args (sstate.more ss) = (e, result, u')"
    and sizes: "wire_ok (cl_xid_counter d, to_le 4 rpc_id @ args)" "reply_ok_wire (cl_xid_counter d, e, result)"
  shows "\<exists>s1 s2 s3 m. begin_request Inr q rpc_id attr cs = Inr (Some (length (cs_futures cs)), s1)
    \<and> w s1 = Inr s2 \<and> end_request q s2 = Inr s3
    \<and> cs_clients s3 q = Some (d\<lparr>cl_out := m, cl_xid_counter := cl_xid_counter d + 1,
          cl_pending_fu := (cl_pending_fu d)(cl_xid_counter d \<mapsto> length (cs_futures cs))\<rparr>)
    \<and> (\<forall>sched. delivers \<lparr>rx = bytes (cs_heap s3) m, rd_sched = sched\<rparr> \<longrightarrow>
        (\<exists>ss' fd'. handle_read handlers p \<lparr>rx = bytes (cs_heap s3) m, rd_sched = sched\<rparr> ss = Inr (ss', fd')
          \<and> sstate.more ss' = u'
          \<and> (\<forall>sched'. delivers \<lparr>rx = out_bytes ss' p, rd_sched = sched'\<rparr> \<longrightarrow>
              (\<exists>cs' fd'' f. client_handle_read cb q \<lparr>rx = out_bytes ss' p, rd_sched = sched'\<rparr> s3 = Inr (cs', fd'')
                \<and> cs_futures cs' ! length (cs_futures cs) = Some f \<and> fu_ready f \<and> fu_ref f = 1
                \<and> fu_error_code f = e \<and> bytes (cs_heap cs') (fu_reply f) = result))))"
proof -
  define xid where "xid = cl_xid_counter d"
  define fu where "fu = length (cs_futures cs)"
  let ?q = "(xid, to_le 4 rpc_id @ args)" and ?r = "(xid, e, result)"
  obtain s1 s2 s3 m where r: "begin_request Inr q rpc_id attr cs = Inr (Some fu, s1)" "w s1 = Inr s2" "end_request q s2 = Inr s3"
    "cli_ok Q s3 q" "cs_futures s3 = cs_futures cs @ [Some ((Future_new xid attr)\<lparr>fu_ref := 2\<rparr>)]"
    "cs_clients s3 = (cs_clients cs)(q \<mapsto> d\<lparr>cl_out := m, cl_xid_counter := xid + 1, cl_pending_fu := (cl_pending_fu d)(xid \<mapsto> fu)\<rparr>)"
    "bytes (cs_heap s3) m = bytes (cs_heap cs) (cl_out d) @ packet (enc_v64 xid @ to_le 4 rpc_id @ args)"
    "keeps_bufs (refs (base (cl_udp d)) + shared_refs Q d (cs_futures cs)) (cs_heap cs) (cs_heap s3)"
    using request_ok [OF cl(2-5) args(1), of rpc_id attr, folded xid_def fu_def] by (elim exE conjE) (rule that)
  let ?d = "d\<lparr>cl_out := m, cl_xid_counter := xid + 1, cl_pending_fu := (cl_pending_fu d)(xid \<mapsto> fu)\<rparr>"
  have sent: "bytes (cs_heap s3) m = packet (enc_request ?q)" by (simp add: r(7) cl(7) enc_request_def)
  have d3: "cs_clients s3 q = Some ?d" "cl_status ?d = CL_CONNECTED" "cl_pending_fu ?d (fst ?r) = Some fu"
    using r(6) cl(4) by simp_all
  have in3: "bytes (cs_heap s3) (cl_in ?d) = []"
  proof -
    have "wf_marshal (cs_heap cs) (cl_in d)" using cl(2,3) by (simp add: cli_ok_def cbufs_ok_def)
    from keeps_bufsD [OF r(8) _ this] show ?thesis using cl(6) by (auto simp: shared_refs_def)
  qed
  have ok: "wire_ok ?q" "servable meths accepts ?q" "reply_ok_wire ?r"
    using sizes args(2) by (simp_all add: xid_def servable_def)
  have serve: "\<exists>ss' fd'. handle_read handlers p \<lparr>rx = bytes (cs_heap s3) m, rd_sched = sched\<rparr> ss = Inr (ss', fd')
      \<and> sstate.more ss' = u' \<and> out_bytes ss' p = packet (enc_reply ?r)"
    if "delivers \<lparr>rx = bytes (cs_heap s3) m, rd_sched = sched\<rparr>" for sched
    using serve_single [OF svc srv(1-4) ok(1,2)] that answer_outcome [OF out, of xid] srv(5) by (simp add: sent)
  have reply: "\<exists>cs' fd'' f. client_handle_read cb q \<lparr>rx = packet (enc_reply ?r), rd_sched = sched\<rparr> s3 = Inr (cs', fd'')
      \<and> cs_futures cs' ! fu = Some f \<and> fu_ready f \<and> fu_ref f = 1 \<and> fu_error_code f = e \<and> bytes (cs_heap cs') (fu_reply f) = result"
    if del: "delivers \<lparr>rx = packet (enc_reply ?r), rd_sched = sched\<rparr>" for sched
  proof -
    obtain cs' fd' where c': "client_handle_read cb q \<lparr>rx = packet (enc_reply ?r), rd_sched = sched\<rparr> s3 = Inr (cs', fd')"
      "fulfilled (cs_heap cs') (cl_pending_fu ?d) (cs_futures s3) (cs_futures cs') ?r"
      using receive_single [OF cl(1) r(4) d3(1,2) in3 ok(3) d3(3) del] by blast
    have "\<exists>f. cs_futures cs' ! fu = Some f \<and> fu_ready f \<and> fu_ref f = 1 \<and> fu_error_code f = e
        \<and> bytes (cs_heap cs') (fu_reply f) = result"
      using c'(2) by (cases "cs_futures cs' ! fu") (simp_all add: fulfilled_def r(5) fu_def Future_new_def)
    with c'(1) show ?thesis by blast
  qed
  show ?thesis
    using r(1-3) d3(1) serve reply unfolding xid_def [symmetric] fu_def [symmetric] by fastforce
qed

theorem remote_call_returns_the_result_witness:
  "\<exists>cs s1 s2 s3 s4 ss ss' fd' cs' fd'' m f.
     Client_connect 5 6 7 (Client_new 7 demo_cstate) = Inr (0, cs) \<and> server_accept 7 5 demo_server = Inr ss
     \<and> begin_request Inr 7 FAST_ADD None cs = Inr (Some 0, s1) \<and> client_put put_v32 7 3 s1 = Inr s2
     \<and> client_put put_v32 7 4 s2 = Inr s3 \<and> end_request 7 s3 = Inr s4
     \<and> handle_read bench_handlers 7 \<lparr>rx = bytes (cs_heap s4) m, rd_sched = replicate (length (bytes (cs_heap s4) m)) 100\<rparr> ss = Inr (ss', fd')
     \<and> client_handle_read note_cb 7 \<lparr>rx = out_bytes ss' 7, rd_sched = replicate (length (out_bytes ss' 7)) 1\<rparr> s4 = Inr (cs', fd'')
     \<and> cs_futures cs' ! 0 = Some f \<and> fu_ready f \<and> fu_error_code f = 0 \<and> bytes (cs_heap cs') (fu_reply f) = enc_v32 7"
proof -
  obtain ss c where ss: "server_accept 7 5 demo_server = Inr ss" "srv_ok 0 {#} ss 7" "ss_conns ss 7 = Some c"
    "sc_status c = CONNECTED" "bytes (ss_heap ss) (sc_in c) = []" "out_bytes ss 7 = []" "sstate.more ss = 41"
    using demo_accept by blast
  obtain cs d where cs: "Client_connect 5 6 7 (Client_new 7 demo_cstate) = Inr (0, cs)" "cli_ok {#} cs 7" "cs_clients cs 7 = Some d"
    "cl_status d = CL_CONNECTED" "\<not> cl_out_l d" "bytes (cs_heap cs) (cl_in d) = []" "bytes (cs_heap cs) (cl_out d) = []"
    "cl_xid_counter d = 0" "cs_futures cs = []"
    using demo_connect by blast
  let ?w = "\<lambda>s :: nat list cstate_scheme. rbind (client_put put_v32 7 3 s) (client_put put_v32 7 4)"
  have w: "writes_args 7 ?w (enc_v32 3 @ enc_v32 4)"
    by (intro writes_args_seq writes_arg) (rule v32.put_ok; simp)+
  have out: "rpc_outcome bench_method FAST_ADD (enc_v32 3 @ enc_v32 4) (sstate.more ss) = (0, enc_v32 7, 41)"
    using ids_distinct demo_fast_add(2) by (simp add: rpc_outcome_def bench_method_def ss(7))
  have v: "v32_val_size 3 = 1" "v32_val_size 4 = 1" "v32_val_size 7 = 1" "v32_val_size 0 = 1" "val_size 0 = 1"
    by (simp_all add: v32_val_size_def val_size_def)
  have sizes: "wire_ok (cl_xid_counter d, to_le 4 FAST_ADD @ enc_v32 3 @ enc_v32 4)" "reply_ok_wire (cl_xid_counter d, 0, enc_v32 7)"
    by (simp_all add: wire_ok_def reply_ok_wire_def enc_request_def enc_reply_def long_enough_def short_len_def cs(8)
        length_enc_v64 length_enc_v32 v)
  obtain s1 s3 s4 m where r: "begin_request Inr 7 FAST_ADD None cs = Inr (Some (length (cs_futures cs)), s1)" "?w s1 = Inr s3"
    "end_request 7 s3 = Inr s4"
    "cs_clients s4 7 = Some (d\<lparr>cl_out := m, cl_xid_counter := cl_xid_counter d + 1,
       cl_pending_fu := (cl_pending_fu d)(cl_xid_counter d \<mapsto> length (cs_futures cs))\<rparr>)"
    and net: "\<forall>sched. delivers \<lparr>rx = bytes (cs_heap s4) m, rd_sched = sched\<rparr> \<longrightarrow>
        (\<exists>ss' fd'. handle_read bench_handlers 7 \<lparr>rx = bytes (cs_heap s4) m, rd_sched = sched\<rparr> ss = Inr (ss', fd')
          \<and> sstate.more ss' = 41
          \<and> (\<forall>sched'. delivers \<lparr>rx = out_bytes ss' 7, rd_sched = sched'\<rparr> \<longrightarrow>
              (\<exists>cs' fd'' f. client_handle_read note_cb 7 \<lparr>rx = out_bytes ss' 7, rd_sched = sched'\<rparr> s4 = Inr (cs', fd'')
                \<and> cs_futures cs' ! length (cs_futures cs) = Some f \<and> fu_ready f \<and> fu_ref f = 1
                \<and> fu_error_code f = 0 \<and> bytes (cs_heap cs') (fu_reply f) = enc_v32 7)))"
    using remote_call_returns_the_result [OF bench.rpc_service_axioms ss(2-6) note_cb_quiet cs(2-7) w _ out sizes, of None]
      demo_fast_add(1) by blast
  have del: "delivers \<lparr>rx = b, rd_sched = replicate (length b) n\<rparr>" if "0 < n" for b n using that by (simp add: delivers_def)
  obtain ss' fd' where h: "handle_read bench_handlers 7 \<lparr>rx = bytes (cs_heap s4) m, rd_sched = replicate (length (bytes (cs_heap s4) m)) 100\<rparr> ss = Inr (ss', fd')"
    and home: "\<forall>sched'. delivers \<lparr>rx = out_bytes ss' 7, rd_sched = sched'\<rparr> \<longrightarrow>
              (\<exists>cs' fd'' f. client_handle_read note_cb 7 \<lparr>rx = out_bytes ss' 7, rd_sched = sched'\<rparr> s4 = Inr (cs', fd'')
                \<and> cs_futures cs' ! length (cs_futures cs) = Some f \<and> fu_ready f \<and> fu_ref f = 1
                \<and> fu_error_code f = 0 \<and> bytes (cs_heap cs') (fu_reply f) = enc_v32 7)"
    using net del [of 100 "bytes (cs_heap s4) m"] by auto
  obtain cs' fd'' f where b: "client_handle_read note_cb 7 \<lparr>rx = out_bytes ss' 7, rd_sched = replicate (length (out_bytes ss' 7)) 1\<rparr> s4 = Inr (cs', fd'')"
    "cs_futures cs' ! 0 = Some f" "fu_ready f" "fu_error_code f = 0" "bytes (cs_heap cs') (fu_reply f) = enc_v32 7"
    using home del [of 1 "out_bytes ss' 7"] cs(9) by auto
  obtain s2 where "client_put put_v32 7 3 s1 = Inr s2" "client_put put_v32 7 4 s2 = Inr s3"
    using r(2) by (auto simp: rbind_eq_Inr_iff)
  with cs(1,9) ss(1) r(1,3) h b show ?thesis by auto
qed

end
